(* ===== verification/Prelude.thy ===== *)
theory Prelude
  imports Main "HOL-Library.Word" "HOL-Library.Multiset" "HOL-Library.Signed_Division"
begin

text \<open>
  What every component shares: the machine integers, durations and instants of
  Go, and the generic lemmas on lists the component proofs use.

  \<^item> \<open>u8\<close>, \<open>u16\<close>, \<open>u32\<close>, \<open>u64\<close> are Go's unsigned integers: \<open>+\<close> and \<open>-\<close> wrap.
  \<^item> \<open>duration\<close> is \<open>time.Duration\<close>, a signed number of nanoseconds.  Go keeps
    it in 64 bits; the model keeps it as \<open>int\<close> and writes the wrap-around
    (\<open>i64\<close>) at every multiplication, the only places where the operands the
    program has are large enough for a product to leave the range.
  \<^item> \<open>instant\<close> is \<open>time.Time\<close>, in nanoseconds after Go's zero time, so the zero
    value of a struct field is \<open>0\<close> and \<open>IsZero\<close> is \<open>t = 0\<close>.
  \<^item> Go's \<open>/\<close> truncates towards zero: \<open>sdiv\<close> of \<open>HOL-Library.Signed_Division\<close>.
\<close>

section \<open>Integers\<close>

type_synonym u8 = "8 word"
type_synonym u16 = "16 word"
type_synonym u32 = "32 word"
type_synonym u64 = "64 word"
type_synonym bytes = "u8 list"

text \<open>The collection the component proofs unfold together.\<close>

named_theorems go_arith

definition i64 :: "int \<Rightarrow> int" where
  "i64 x = (x + 2 ^ 63) mod 2 ^ 64 - 2 ^ 63"

lemma i64_id: "- (2 ^ 63) \<le> x \<Longrightarrow> x < 2 ^ 63 \<Longrightarrow> i64 x = x"
  by (simp add: i64_def)

lemma i64_range: "- (2 ^ 63) \<le> i64 x \<and> i64 x < 2 ^ 63"
  by (simp add: i64_def)

lemma i64_abs_id: "\<bar>x\<bar> \<le> b \<Longrightarrow> b < 2 ^ 63 \<Longrightarrow> i64 x = x"
  by (rule i64_id) auto

lemma i64_small: "\<bar>x\<bar> \<le> 9000000000000000000 \<Longrightarrow> i64 x = x"
  by (rule i64_abs_id) auto

text \<open>Truncating division by a positive number, and the bounds it keeps.\<close>

lemma sdiv_pos_eq: "0 \<le> (a::int) \<Longrightarrow> 0 < b \<Longrightarrow> a sdiv b = a div b"
  by (cases "a = 0") (auto simp: signed_divide_int_def)

lemma sdiv_neg_eq: "(a::int) \<le> 0 \<Longrightarrow> 0 < b \<Longrightarrow> a sdiv b = - ((- a) div b)"
  by (cases "a = 0") (auto simp: signed_divide_int_def)

lemma sdiv_nonneg: "0 \<le> (a::int) \<Longrightarrow> 0 < b \<Longrightarrow> 0 \<le> a sdiv b"
  by (simp add: sdiv_pos_eq pos_imp_zdiv_nonneg_iff)

lemma sdiv_nonpos: "(a::int) \<le> 0 \<Longrightarrow> 0 < b \<Longrightarrow> a sdiv b \<le> 0"
  by (simp add: sdiv_neg_eq pos_imp_zdiv_nonneg_iff)

lemma sdiv_mult_self: "0 < (b::int) \<Longrightarrow> (a * b) sdiv b = a"
  by (auto simp: signed_divide_int_def abs_mult sgn_mult mult_sgn_abs)

text \<open>
  A share \<open>e / n\<close> of a (possibly negative) amount \<open>d\<close>, with \<open>0 \<le> e \<le> n\<close>: the
  truncated quotient stays between nothing and the whole amount.
\<close>

lemma share_pos:
  assumes "0 \<le> d" "0 \<le> e" "e \<le> n" "0 < (n::int)"
  shows "0 \<le> (d * e) sdiv n \<and> (d * e) sdiv n \<le> d"
proof -
  have "(d * e) div n \<le> (d * n) div n"
    using assms by (intro zdiv_mono1 mult_left_mono) auto
  then show ?thesis
    using assms by (simp add: sdiv_pos_eq pos_imp_zdiv_nonneg_iff)
qed

lemma share_neg:
  assumes "d \<le> 0" "0 \<le> e" "e \<le> n" "0 < (n::int)"
  shows "d \<le> (d * e) sdiv n \<and> (d * e) sdiv n \<le> 0"
proof -
  have "d * e \<le> 0"
    using assms by (simp add: mult_nonpos_nonneg)
  moreover have "0 \<le> ((- d) * e) sdiv n \<and> ((- d) * e) sdiv n \<le> - d"
    using assms by (intro share_pos) auto
  ultimately show ?thesis
    using assms by (simp add: sdiv_pos_eq sdiv_neg_eq)
qed

text \<open>The truncated quotient is within one of the exact one, and monotone.\<close>

lemma sdiv_rest_pos:
  assumes "0 < (n::int)" "0 \<le> a"
  shows "0 \<le> a - (a sdiv n) * n" "a - (a sdiv n) * n < n"
  using assms by (simp_all add: sdiv_pos_eq minus_div_mult_eq_mod)

lemma sdiv_rest_neg:
  assumes "0 < (n::int)" "a \<le> 0"
  shows "a - (a sdiv n) * n \<le> 0" "- n < a - (a sdiv n) * n"
proof -
  have "a - (a sdiv n) * n = - (- a - ((- a) sdiv n) * n)"
    using assms by (simp add: sdiv_neg_eq sdiv_pos_eq)
  then show "a - (a sdiv n) * n \<le> 0" "- n < a - (a sdiv n) * n"
    using sdiv_rest_pos [of n "- a"] assms by linarith+
qed

lemma sdiv_close: "0 < (n::int) \<Longrightarrow> \<bar>a - (a sdiv n) * n\<bar> < n"
  using sdiv_rest_pos [of n a] sdiv_rest_neg [of n a] by (cases "0 \<le> a") auto

lemma sdiv_mono:
  assumes "a \<le> b" "0 < (n::int)"
  shows "a sdiv n \<le> b sdiv n"
proof (cases "a \<le> 0 \<and> 0 \<le> b")
  case True
  with sdiv_nonneg [of b n] sdiv_nonpos [of a n] assms show ?thesis by linarith
next
  case False
  then show ?thesis
    using assms zdiv_mono1 [of a b n] zdiv_mono1 [of "- b" "- a" n] by (auto simp: sdiv_pos_eq sdiv_neg_eq)
qed

text \<open>Splitting a truncated quotient at a point changes it by at most one.\<close>

lemma sdiv_split:
  assumes "0 < (n::int)"
  shows "\<bar>a sdiv n + b sdiv n - (a + b) sdiv n\<bar> \<le> 1"
proof -
  define e where "e = a sdiv n + b sdiv n - (a + b) sdiv n"
  have eq: "e * n = ((a + b) - (a + b) sdiv n * n) - (a - a sdiv n * n) - (b - b sdiv n * n)"
    by (simp add: e_def algebra_simps)
  note pos = sdiv_rest_pos [OF assms] and neg = sdiv_rest_neg [OF assms]
  have "\<bar>e * n\<bar> < 2 * n"
  proof (cases "0 \<le> a"; cases "0 \<le> b"; cases "0 \<le> a + b")
  qed (use pos [of a] pos [of b] pos [of "a + b"] neg [of a] neg [of b] neg [of "a + b"] in
      \<open>unfold eq; simp; linarith\<close>)+
  then have "\<bar>e\<bar> * n < 2 * n" using assms by (simp add: abs_mult)
  then show ?thesis using assms by (simp add: e_def)
qed

section \<open>Durations and instants\<close>

type_synonym duration = int
type_synonym instant = int

abbreviation Microsecond :: duration where "Microsecond \<equiv> 1000"
abbreviation Millisecond :: duration where "Millisecond \<equiv> 1000000"
abbreviation Second :: duration where "Second \<equiv> 1000000000"

text \<open>\<open>Time.Sub\<close> saturates at the ends of the 64-bit range.\<close>

definition time_Sub :: "instant \<Rightarrow> instant \<Rightarrow> duration" where
  "time_Sub t u = max (- (2 ^ 63)) (min (2 ^ 63 - 1) (t - u))"

lemma time_Sub_exact: "\<bar>t - u\<bar> < 2 ^ 63 \<Longrightarrow> time_Sub t u = t - u"
  by (auto simp: time_Sub_def)

lemma time_Sub_nonneg_iff: "0 \<le> time_Sub t u \<longleftrightarrow> u \<le> t"
  by (auto simp: time_Sub_def)

lemma time_Sub_pos_iff: "0 < time_Sub t u \<longleftrightarrow> u < t"
  by (auto simp: time_Sub_def)

lemma time_Sub_ge: "d \<le> 2 ^ 63 - 1 \<Longrightarrow> d \<le> t - u \<Longrightarrow> d \<le> time_Sub t u"
  by (auto simp: time_Sub_def)

lemma time_Sub_less_iff: "- (2 ^ 63) < d \<Longrightarrow> d \<le> 2 ^ 63 - 1 \<Longrightarrow> time_Sub t u < d \<longleftrightarrow> t - u < d"
  by (auto simp: time_Sub_def)

text \<open>Duration.Abs: the one value without an absolute value saturates.\<close>

definition duration_Abs :: "duration \<Rightarrow> duration" where
  "duration_Abs d = (if 0 \<le> d then d else if d = - (2 ^ 63) then 2 ^ 63 - 1 else - d)"

section \<open>Bytes\<close>

text \<open>Indexing a slice: out of range panics, which is \<open>None\<close>.\<close>

definition byte_at :: "bytes \<Rightarrow> nat \<Rightarrow> u8 option" where
  "byte_at xs i = (if i < length xs then Some (xs ! i) else None)"

lemma byte_at_Some [simp]: "i < length xs \<Longrightarrow> byte_at xs i = Some (xs ! i)"
  by (simp add: byte_at_def)

text \<open>A big-endian 16-bit value, as \<^verbatim>\<open>int(a)<<8 | int(b)\<close> builds it, and its two bytes.\<close>

definition be16 :: "u8 \<Rightarrow> u8 \<Rightarrow> nat" where
  "be16 a b = or (push_bit 8 (unat a)) (unat b)"

lemma unat_u8: "unat (b :: u8) < 256"
  using unsigned_less [of b, where ?'a = nat] by simp

lemma be16_eq: "be16 a b = 256 * unat a + unat b"
proof -
  have "unat b < 2 ^ 8" using unat_u8 by simp
  then have "take_bit 8 (unat b) = unat b" by (simp add: take_bit_nat_eq_self)
  then have "and (push_bit 8 (unat a)) (unat b) = 0"
    by (intro bit_eqI) (metis bit_0_eq bit_and_iff bit_push_bit_iff bit_take_bit_iff bot_apply not_le bot_bool_def)
  then have "or (push_bit 8 (unat a)) (unat b) = push_bit 8 (unat a) + unat b"
    by (rule disjunctive_add_eq_or [symmetric])
  then show ?thesis by (simp add: be16_def push_bit_eq_mult)
qed

lemma be16_less: "be16 a b < 65536"
  using unat_u8 [of a] unat_u8 [of b] by (simp add: be16_eq)

definition hi8 :: "nat \<Rightarrow> u8" where "hi8 n = of_nat (n div 256)"
definition lo8 :: "nat \<Rightarrow> u8" where "lo8 n = of_nat n"

lemma be16_bytes [simp]: "n < 65536 \<Longrightarrow> be16 (hi8 n) (lo8 n) = n"
  by (simp add: be16_eq hi8_def lo8_def unat_of_nat take_bit_eq_mod)

text \<open>ASCII case folding, which is all \<^verbatim>\<open>strings.ToLower\<close> and \<^verbatim>\<open>EqualFold\<close> do on the
  names this program compares.\<close>

definition lower_char :: "char \<Rightarrow> char" where
  "lower_char c = (let n = of_char c :: nat in if 65 \<le> n \<and> n \<le> 90 then char_of (n + 32) else c)"

definition ToLower :: "string \<Rightarrow> string" where
  "ToLower s = map lower_char s"

definition EqualFold :: "string \<Rightarrow> string \<Rightarrow> bool" where
  "EqualFold s t \<longleftrightarrow> ToLower s = ToLower t"

definition HasPrefix :: "string \<Rightarrow> string \<Rightarrow> bool" where
  "HasPrefix s pre \<longleftrightarrow> take (length pre) s = pre"

lemma HasPrefix_append: "HasPrefix (xs @ ys) (xs @ zs) \<longleftrightarrow> HasPrefix ys zs"
  by (simp add: HasPrefix_def)

lemma HasPrefix_self [simp]: "HasPrefix (xs @ ys) xs"
  by (simp add: HasPrefix_def)

section \<open>Invariants of runs\<close>

text \<open>A component whose every operation keeps \<open>inv\<close> keeps it along any sequence of operations.\<close>

locale kept_invariant =
  fixes step :: "'s \<Rightarrow> 'e \<Rightarrow> 's" and inv :: "'s \<Rightarrow> bool"
  assumes step_keeps: "inv s \<Longrightarrow> inv (step s e)"
begin

lemma run_keeps: "inv s \<Longrightarrow> inv (foldl step s es)"
  by (induction es arbitrary: s) (simp_all add: step_keeps)

lemma prefix_keeps: "inv s \<Longrightarrow> inv (foldl step s (take n es))"
  by (rule run_keeps)

end

end
