(* ===== verification/Recovery_Wire.thy ===== *)
theory Recovery_Wire
  imports Prelude "HOL-Library.Monad_Syntax"
begin

text \<open>
  The wire format of packet recovery (\<^verbatim>\<open>internal/ingest/recovery.go\<close>): parity groups a
  sender adds to its media, repair requests the relay sends back, and the
  reconstruction of one lost packet from a group.  Network addresses are the
  strings \<^verbatim>\<open>net.Addr.String\<close> gives.

  Every read of the datagram can fail: \<open>None\<close> is an index outside of it or a slice past its end.  Go checks a slice against the
  capacity of the buffer, so such a slice panics or reads what is left of an earlier datagram; the parsers are shown to do
  neither (\<open>parse_group_total\<close>, \<open>rtp_id_total\<close>).  A result \<open>Some None\<close> is a datagram the parser rejects.
\<close>

section \<open>Identifiers and messages\<close>

definition recoveryParityType :: u8 where "recoveryParityType = 1"
definition recoveryRequestType :: u8 where "recoveryRequestType = 2"
definition recoveryHeaderSize :: nat where "recoveryHeaderSize = 12"
definition recoveryHistorySize :: nat where "recoveryHistorySize = 4096"
definition recoveryGroupLimit :: nat where "recoveryGroupLimit = 256"
definition recoveryStreamLimit :: nat where "recoveryStreamLimit = 256"
definition recoveryRequestSize :: nat where "recoveryRequestSize = 32"
definition recoveryRetry :: duration where "recoveryRetry = 50 * Millisecond"

record recoveryPacketID =
  pid_remote :: string
  pid_ssrc :: u32
  pid_sequenceNumber :: u16

record recoveryStreamID =
  sid_remote :: string
  sid_ssrc :: u32

record recoveryEntry =
  e_id :: recoveryPacketID
  e_length :: nat

record recoveryGroup =
  g_entries :: "recoveryEntry list"
  g_parity :: bytes
  g_remote :: string

record recoveryGroupID =
  gid_remote :: string
  gid_ssrc :: u32
  gid_last :: u16

text \<open>Big-endian integers of 16 and 32 bits, as \<^verbatim>\<open>encoding/binary\<close> writes and reads them.\<close>

definition be16_at :: "bytes \<Rightarrow> nat \<Rightarrow> u16" where
  "be16_at d i = of_nat (be16 (d ! i) (d ! (i + 1)))"

definition be32_at :: "bytes \<Rightarrow> nat \<Rightarrow> u32" where
  "be32_at d i = of_nat (be16 (d ! i) (d ! (i + 1)) * 65536 + be16 (d ! (i + 2)) (d ! (i + 3)))"

definition Uint16 :: "bytes \<Rightarrow> nat \<Rightarrow> u16 option" where
  "Uint16 d i = (if i + 2 \<le> length d then Some (be16_at d i) else None)"

definition Uint32 :: "bytes \<Rightarrow> nat \<Rightarrow> u32 option" where
  "Uint32 d i = (if i + 4 \<le> length d then Some (be32_at d i) else None)"

definition PutUint16 :: "u16 \<Rightarrow> bytes" where
  "PutUint16 x = [hi8 (unat x), lo8 (unat x)]"

definition PutUint32 :: "u32 \<Rightarrow> bytes" where
  "PutUint32 x = [hi8 (unat x div 65536), lo8 (unat x div 65536), hi8 (unat x mod 65536), lo8 (unat x mod 65536)]"

definition recoveryMagic :: bytes where "recoveryMagic = [0x57, 0x47, 0x52, 0x31]"

definition hasRecoveryMagic :: "bytes \<Rightarrow> bool" where
  "hasRecoveryMagic data \<longleftrightarrow> length data \<ge> 4 \<and> take 4 data = recoveryMagic"

definition recoveryRTPPacketID :: "bytes \<Rightarrow> recoveryPacketID option option" where
  "recoveryRTPPacketID data =
     (if length data < 12 then Some None
      else do {
        first \<leftarrow> byte_at data 0;
        if and first 0xc0 \<noteq> 0x80 then Some None
        else do {
          second \<leftarrow> byte_at data 1;
          if second \<ge> 192 \<and> second \<le> 223 then Some None
          else do {
            ssrc \<leftarrow> Uint32 data 8;
            sequenceNumber \<leftarrow> Uint16 data 2;
            Some (Some \<lparr>pid_remote = [], pid_ssrc = ssrc, pid_sequenceNumber = sequenceNumber\<rparr>)
          }
        }
      })"

section \<open>Parity groups\<close>

definition parse_entry :: "bytes \<Rightarrow> string \<Rightarrow> u32 \<Rightarrow> nat \<Rightarrow> recoveryEntry option option" where
  "parse_entry data remoteID ssrc index =
     (let offset = recoveryHeaderSize + index * 4
      in do {
        len \<leftarrow> Uint16 data (offset + 2);
        if unat len < 12 then Some None
        else do {
          sequenceNumber \<leftarrow> Uint16 data offset;
          Some (Some \<lparr>e_id = \<lparr>pid_remote = remoteID, pid_ssrc = ssrc, pid_sequenceNumber = sequenceNumber\<rparr>, e_length = unat len\<rparr>)
        }
      })"

text \<open>The loop over the entries returns at the first one that is rejected.\<close>

fun parse_entries :: "bytes \<Rightarrow> string \<Rightarrow> u32 \<Rightarrow> nat list \<Rightarrow> recoveryEntry list option option" where
  "parse_entries data remoteID ssrc [] = Some (Some [])"
| "parse_entries data remoteID ssrc (index # rest) = do {
     parsed \<leftarrow> parse_entry data remoteID ssrc index;
     case parsed of
       None \<Rightarrow> Some None
     | Some entry \<Rightarrow> do { entries \<leftarrow> parse_entries data remoteID ssrc rest; Some (map_option (\<lambda>es. entry # es) entries) }
   }"

definition parseRecoveryGroup :: "bytes \<Rightarrow> string \<Rightarrow> (recoveryGroup \<times> recoveryGroupID) option option" where
  "parseRecoveryGroup data remote =
     (if length data < recoveryHeaderSize then Some None
      else do {
        kind \<leftarrow> byte_at data 4;
        if kind \<noteq> recoveryParityType then Some None
        else do {
          countByte \<leftarrow> byte_at data 5;
          let count = unat countByte;
          let entriesEnd = recoveryHeaderSize + count * 4;
          if count < 2 \<or> count > 32 \<or> length data < entriesEnd then Some None
          else do {
            ssrc \<leftarrow> Uint32 data 8;
            parsed \<leftarrow> parse_entries data remote ssrc [0..<count];
            case parsed of
              None \<Rightarrow> Some None
            | Some entries \<Rightarrow>
                let maximumLength = foldl max 0 (map e_length entries)
                in if maximumLength = 0 \<or> length data \<noteq> entriesEnd + maximumLength then Some None
                   else if entriesEnd > length data \<or> entries = [] then None
                   else Some (Some (\<lparr>g_entries = entries, g_parity = drop entriesEnd data, g_remote = remote\<rparr>,
                                    \<lparr>gid_remote = remote, gid_ssrc = ssrc,
                                     gid_last = pid_sequenceNumber (e_id (last entries))\<rparr>))
          }
        }
      })"

definition makeRecoveryRequest :: "u32 \<Rightarrow> u16 list \<Rightarrow> bytes" where
  "makeRecoveryRequest ssrc sequenceNumbers =
     (if length sequenceNumbers = 0 then []
      else recoveryMagic @ [recoveryRequestType, of_nat (length sequenceNumbers), 0, 0] @ PutUint32 ssrc @
           concat (map PutUint16 sequenceNumbers))"

section \<open>Reconstruction\<close>

text \<open>\<^verbatim>\<open>data[index] ^= packet[index]\<close> for every index of the packet; it panics (\<open>None\<close>) when
  the packet is longer than the data.\<close>

definition xor_into :: "bytes \<Rightarrow> bytes \<Rightarrow> bytes option" where
  "xor_into data packet =
     (if length packet > length data then None
      else Some (map2 xor (take (length packet) data) packet @ drop (length packet) data))"

text \<open>The loop over the entries: \<open>None\<close> is a panic, \<open>Some None\<close> a stored packet of another
  length than announced.  \<open>stored\<close> looks a packet up in the history.\<close>

fun xor_entries :: "(recoveryPacketID \<Rightarrow> bytes option) \<Rightarrow> recoveryEntry list \<Rightarrow> bytes \<Rightarrow> recoveryEntry option \<Rightarrow>
    (bytes \<times> recoveryEntry option) option option" where
  "xor_entries stored [] data wanted = Some (Some (data, wanted))"
| "xor_entries stored (entry # entries) data wanted =
     (case stored (e_id entry) of
        None \<Rightarrow> xor_entries stored entries data (Some entry)
      | Some packet \<Rightarrow>
          if length packet \<noteq> e_length entry then Some None
          else case xor_into data packet of
                 None \<Rightarrow> None
               | Some data' \<Rightarrow> xor_entries stored entries data' wanted)"

section \<open>Integers on the wire\<close>

lemma put16_length [simp]: "length (PutUint16 x) = 2" "length (PutUint32 y) = 4"
  by (simp_all add: PutUint16_def PutUint32_def)

lemma unat_u16: "unat (x :: u16) < 65536"
  using unsigned_less [of x, where ?'a = nat] by simp

lemma unat_u32: "unat (x :: u32) < 4294967296"
  using unsigned_less [of x, where ?'a = nat] by simp

lemma nth_from_drop: "drop i d = ys \<Longrightarrow> k < length ys \<Longrightarrow> d ! (i + k) = ys ! k"
  by (metis drop_all less_nat_zero_code list.size(3) nat_le_linear nth_drop)

lemma be16_at_put: "drop i d = PutUint16 x @ rest \<Longrightarrow> be16_at d i = x"
  using nth_from_drop [of i d "PutUint16 x @ rest" 0] nth_from_drop [of i d "PutUint16 x @ rest" 1]
  by (simp add: be16_at_def PutUint16_def unat_u16)

lemma be32_at_put:
  assumes "drop i d = PutUint32 x @ rest"
  shows "be32_at d i = x"
proof -
  have "unat x div 65536 < 65536" using unat_u32 [of x] by (simp add: less_mult_imp_div_less)
  then show ?thesis
    using nth_from_drop [OF assms, of 0] nth_from_drop [OF assms, of 1] nth_from_drop [OF assms, of 2]
      nth_from_drop [OF assms, of 3]
    by (simp add: be32_at_def PutUint32_def numeral_2_eq_2 numeral_3_eq_3)
qed

section \<open>No read outside the datagram\<close>

text \<open>What the parsers compute, as total functions: the bytes they read are all there.\<close>

definition rtp_id :: "bytes \<Rightarrow> recoveryPacketID option" where
  "rtp_id data =
     (if length data < 12 \<or> and (data ! 0) 0xc0 \<noteq> 0x80 \<or> data ! 1 \<ge> 192 \<and> data ! 1 \<le> 223 then None
      else Some \<lparr>pid_remote = [], pid_ssrc = be32_at data 8, pid_sequenceNumber = be16_at data 2\<rparr>)"

definition group_entry :: "bytes \<Rightarrow> string \<Rightarrow> u32 \<Rightarrow> nat \<Rightarrow> recoveryEntry option" where
  "group_entry data remoteID ssrc index =
     (let offset = recoveryHeaderSize + index * 4;
          len = unat (be16_at data (offset + 2))
      in if len < 12 then None
         else Some \<lparr>e_id = \<lparr>pid_remote = remoteID, pid_ssrc = ssrc, pid_sequenceNumber = be16_at data offset\<rparr>,
                    e_length = len\<rparr>)"

definition parse_group :: "bytes \<Rightarrow> string \<Rightarrow> (recoveryGroup \<times> recoveryGroupID) option" where
  "parse_group data remote =
     (if length data < recoveryHeaderSize \<or> data ! 4 \<noteq> recoveryParityType then None
      else let count = unat (data ! 5);
               entriesEnd = recoveryHeaderSize + count * 4
           in if count < 2 \<or> count > 32 \<or> length data < entriesEnd then None
              else let ssrc = be32_at data 8
                   in case those (map (group_entry data remote ssrc) [0..<count]) of
                        None \<Rightarrow> None
                      | Some entries \<Rightarrow>
                          let maximumLength = foldl max 0 (map e_length entries)
                          in if maximumLength = 0 \<or> length data \<noteq> entriesEnd + maximumLength then None
                             else Some (\<lparr>g_entries = entries, g_parity = drop entriesEnd data, g_remote = remote\<rparr>,
                                        \<lparr>gid_remote = remote, gid_ssrc = ssrc,
                                         gid_last = pid_sequenceNumber (e_id (last entries))\<rparr>))"

lemma rtp_id_total [simp]: "recoveryRTPPacketID data = Some (rtp_id data)"
proof (cases "length data < 12")
  case True
  then show ?thesis by (simp add: recoveryRTPPacketID_def rtp_id_def)
next
  case False
  then have "byte_at data 0 = Some (data ! 0)" "byte_at data 1 = Some (data ! 1)"
    "Uint32 data 8 = Some (be32_at data 8)" "Uint16 data 2 = Some (be16_at data 2)"
    by (auto simp: byte_at_def Uint16_def Uint32_def)
  with False show ?thesis by (simp add: recoveryRTPPacketID_def rtp_id_def)
qed

lemma parse_entries_total:
  "\<forall>index \<in> set is. recoveryHeaderSize + index * 4 + 4 \<le> length data \<Longrightarrow>
     parse_entries data remote ssrc is = Some (those (map (group_entry data remote ssrc) is))"
  by (induction "is") (simp_all add: parse_entry_def group_entry_def Uint16_def Let_def)

lemma parse_group_total [simp]: "parseRecoveryGroup data remote = Some (parse_group data remote)"
proof (cases "length data < recoveryHeaderSize")
  case True
  then show ?thesis by (simp add: parseRecoveryGroup_def parse_group_def)
next
  case False
  let ?count = "unat (data ! 5)"
  have r: "byte_at data 4 = Some (data ! 4)" "byte_at data 5 = Some (data ! 5)" "Uint32 data 8 = Some (be32_at data 8)"
    using False by (simp_all add: byte_at_def Uint32_def recoveryHeaderSize_def)
  have entries: "parse_entries data remote ssrc [0..<?count] = Some (those (map (group_entry data remote ssrc) [0..<?count]))"
    if "recoveryHeaderSize + ?count * 4 \<le> length data" for ssrc
    using that by (intro parse_entries_total) auto
  show ?thesis
  proof (cases "?count < 2 \<or> ?count > 32 \<or> length data < recoveryHeaderSize + ?count * 4")
    case True
    then show ?thesis using False r(1,2) by (auto simp: parseRecoveryGroup_def parse_group_def)
  next
    case c: False
    have some: "entries \<noteq> []" if "foldl max 0 (map e_length entries) \<noteq> 0" for entries using that by auto
    show ?thesis
    proof (cases "those (map (group_entry data remote (be32_at data 8)) [0..<?count])")
      case None
      then show ?thesis using False c r entries by (simp add: parseRecoveryGroup_def parse_group_def Let_def)
    next
      case (Some es)
      then show ?thesis using False c r entries some [of es] by (simp add: parseRecoveryGroup_def parse_group_def Let_def)
    qed
  qed
qed

section \<open>The sender's side\<close>

text \<open>How a sender frames a parity group and reads a repair request: the reference the
  parser and the request builder are compared with.\<close>

definition encodeGroup :: "u32 \<Rightarrow> (u16 \<times> u16) list \<Rightarrow> bytes \<Rightarrow> bytes" where
  "encodeGroup ssrc entries parity =
     recoveryMagic @ [recoveryParityType, of_nat (length entries), 0, 0] @ PutUint32 ssrc @
     concat (map (\<lambda>(sequence, len). PutUint16 sequence @ PutUint16 len) entries) @ parity"

definition decodeRequest :: "bytes \<Rightarrow> (u32 \<times> u16 list) option" where
  "decodeRequest data =
     (if length data < recoveryHeaderSize \<or> \<not> hasRecoveryMagic data \<or> data ! 4 \<noteq> recoveryRequestType \<or>
         length data \<noteq> recoveryHeaderSize + 2 * unat (data ! 5) then None
      else Some (be32_at data 8, map (\<lambda>i. be16_at data (recoveryHeaderSize + i * 2)) [0..<unat (data ! 5)]))"

lemma drop_concat_fixed:
  assumes "\<forall>x \<in> set xs. length (f x) = w" "i < length xs"
  shows "drop (i * w) (concat (map f xs) @ rest) = f (xs ! i) @ drop (i * w + w) (concat (map f xs) @ rest)"
  using assms
proof (induction xs arbitrary: i)
  case (Cons x xs)
  show ?case
  proof (cases i)
    case 0
    with Cons.prems show ?thesis by simp
  next
    case (Suc j)
    with Cons.prems Cons.IH [of j] show ?thesis by (simp add: add.commute)
  qed
qed simp

lemma length_concat_fixed: "\<forall>x \<in> set xs. length (f x) = w \<Longrightarrow> length (concat (map f xs)) = length xs * w"
  by (induction xs) simp_all

lemma drop_past: "length h = m \<Longrightarrow> drop (m + n) (h @ body) = drop n body"
  by simp

lemma encodeGroup_drop:
  "drop (recoveryHeaderSize + n) (encodeGroup ssrc entries parity) =
     drop n (concat (map (\<lambda>(sequence, len). PutUint16 sequence @ PutUint16 len) entries) @ parity)"
proof -
  let ?h = "recoveryMagic @ [recoveryParityType, of_nat (length entries), 0, 0] @ PutUint32 ssrc"
  have "length ?h = recoveryHeaderSize" by (simp add: recoveryMagic_def recoveryHeaderSize_def)
  from drop_past [OF this, of n "concat (map (\<lambda>(sequence, len). PutUint16 sequence @ PutUint16 len) entries) @ parity"]
  show ?thesis by (simp add: encodeGroup_def)
qed

lemma encodeGroup_entry:
  assumes "i < length entries"
  shows "be16_at (encodeGroup ssrc entries parity) (recoveryHeaderSize + i * 4) = fst (entries ! i)"
    and "be16_at (encodeGroup ssrc entries parity) (recoveryHeaderSize + i * 4 + 2) = snd (entries ! i)"
proof -
  let ?f = "\<lambda>(sequence, len). PutUint16 sequence @ PutUint16 len"
  let ?d = "encodeGroup ssrc entries parity"
  have "\<forall>x \<in> set entries. length (?f x) = 4" by (auto split: prod.splits)
  from drop_concat_fixed [OF this assms, of parity] obtain rest where
    "drop (i * 4) (concat (map ?f entries) @ parity) = PutUint16 (fst (entries ! i)) @ PutUint16 (snd (entries ! i)) @ rest"
    by (auto simp: case_prod_unfold)
  moreover have "drop (recoveryHeaderSize + i * 4) ?d = drop (i * 4) (concat (map ?f entries) @ parity)"
    by (rule encodeGroup_drop)
  ultimately have d: "drop (recoveryHeaderSize + i * 4) ?d = PutUint16 (fst (entries ! i)) @ PutUint16 (snd (entries ! i)) @ rest"
    by simp
  then show "be16_at ?d (recoveryHeaderSize + i * 4) = fst (entries ! i)" by (rule be16_at_put)
  from arg_cong [OF d, of "drop 2"] have "drop (recoveryHeaderSize + i * 4 + 2) ?d = PutUint16 (snd (entries ! i)) @ rest"
    by (simp add: add.commute)
  then show "be16_at ?d (recoveryHeaderSize + i * 4 + 2) = snd (entries ! i)" by (rule be16_at_put)
qed

lemma encodeGroup_header:
  "take 4 (encodeGroup ssrc entries parity) = recoveryMagic" "encodeGroup ssrc entries parity ! 4 = recoveryParityType"
  "encodeGroup ssrc entries parity ! 5 = of_nat (length entries)" "be32_at (encodeGroup ssrc entries parity) 8 = ssrc"
  "length (encodeGroup ssrc entries parity) = recoveryHeaderSize + length entries * 4 + length parity"
  "drop (recoveryHeaderSize + length entries * 4) (encodeGroup ssrc entries parity) = parity"
proof -
  let ?f = "\<lambda>(sequence, len). PutUint16 sequence @ PutUint16 len"
  have l: "length (concat (map ?f entries)) = length entries * 4"
    by (rule length_concat_fixed) (auto split: prod.splits)
  show "take 4 (encodeGroup ssrc entries parity) = recoveryMagic" "encodeGroup ssrc entries parity ! 4 = recoveryParityType"
    "encodeGroup ssrc entries parity ! 5 = of_nat (length entries)"
    "length (encodeGroup ssrc entries parity) = recoveryHeaderSize + length entries * 4 + length parity"
    using l by (simp_all add: encodeGroup_def recoveryMagic_def recoveryHeaderSize_def)
  show "drop (recoveryHeaderSize + length entries * 4) (encodeGroup ssrc entries parity) = parity"
    using l by (simp add: encodeGroup_drop)
  show "be32_at (encodeGroup ssrc entries parity) 8 = ssrc"
    by (rule be32_at_put [where rest = "concat (map ?f entries) @ parity"])
      (simp add: encodeGroup_def recoveryMagic_def)
qed

section \<open>Parity\<close>

definition byte_or0 :: "bytes \<Rightarrow> nat \<Rightarrow> u8" where
  "byte_or0 p j = (if j < length p then p ! j else 0)"

definition xor_at :: "nat \<Rightarrow> bytes list \<Rightarrow> u8" where
  "xor_at j ps = foldr (\<lambda>p acc. xor (byte_or0 p j) acc) ps 0"

text \<open>The parity a sender computes: the byte-wise exclusive or, short packets padded with zeros.\<close>

definition parity_of :: "bytes list \<Rightarrow> bytes" where
  "parity_of ps = map (\<lambda>j. xor_at j ps) [0..<foldl max 0 (map length ps)]"

lemma xor_at_simps [simp]:
  "xor_at j [] = 0" "xor_at j (p # ps) = xor (byte_or0 p j) (xor_at j ps)"
  by (simp_all add: xor_at_def)

lemma xor_at_append: "xor_at j (ps @ qs) = xor (xor_at j ps) (xor_at j qs)"
  by (induction ps) (simp_all add: xor.assoc)

lemma foldl_max_bound: "a \<le> foldl max a xs \<and> (\<forall>x \<in> set xs. x \<le> foldl max a (xs :: nat list))"
proof (induction xs arbitrary: a)
  case (Cons x xs)
  from Cons [of "max a x"] show ?case by auto
qed simp

lemma parity_of_length: "p \<in> set ps \<Longrightarrow> length p \<le> length (parity_of ps)"
  using foldl_max_bound [of 0 "map length ps"] by (simp add: parity_of_def)

lemma parity_of_nth: "j < length (parity_of ps) \<Longrightarrow> parity_of ps ! j = xor_at j ps"
  by (simp add: parity_of_def)

lemma xor_into_nth:
  assumes "length p \<le> length d"
  obtains d' where "xor_into d p = Some d'" "length d' = length d" "\<forall>j < length d. d' ! j = xor (d ! j) (byte_or0 p j)"
proof -
  let ?d = "map2 xor (take (length p) d) p @ drop (length p) d"
  have "length ?d = length d" using assms by simp
  moreover have "?d ! j = xor (d ! j) (byte_or0 p j)" if "j < length d" for j
    using assms that by (simp add: nth_append byte_or0_def min_def)
  ultimately show thesis using that assms by (simp add: xor_into_def)
qed

text \<open>The history agrees with the packets the sender had, and the announced lengths are theirs.\<close>

definition faithful :: "(recoveryPacketID \<Rightarrow> bytes option) \<Rightarrow> (recoveryPacketID \<Rightarrow> bytes) \<Rightarrow> recoveryEntry list \<Rightarrow> bool" where
  "faithful stored packet es \<longleftrightarrow> list_all (\<lambda>e. e_length e = length (packet (e_id e)) \<and>
     (case stored (e_id e) of None \<Rightarrow> True | Some data \<Rightarrow> data = packet (e_id e))) es"

definition absent :: "(recoveryPacketID \<Rightarrow> bytes option) \<Rightarrow> recoveryEntry list \<Rightarrow> recoveryEntry list" where
  "absent stored es = filter (\<lambda>e. stored (e_id e) = None) es"

definition present :: "(recoveryPacketID \<Rightarrow> bytes option) \<Rightarrow> recoveryEntry list \<Rightarrow> recoveryEntry list" where
  "present stored es = filter (\<lambda>e. stored (e_id e) \<noteq> None) es"

lemma absent_present_simps [simp]:
  "absent stored [] = []" "present stored [] = []"
  "absent stored (e # es) = (if stored (e_id e) = None then e # absent stored es else absent stored es)"
  "present stored (e # es) = (if stored (e_id e) = None then present stored es else e # present stored es)"
  by (simp_all add: absent_def present_def)

lemma xor_entries_correct:
  assumes "faithful stored packet es" "\<forall>e \<in> set es. e_length e \<le> length d"
  shows "\<exists>d'. xor_entries stored es d w =
      Some (Some (d', if absent stored es = [] then w else Some (last (absent stored es)))) \<and> length d' = length d \<and>
     (\<forall>j < length d. d' ! j = xor (d ! j) (xor_at j (map (packet \<circ> e_id) (present stored es))))"
  using assms
proof (induction es arbitrary: d w)
  case Nil
  then show ?case by simp
next
  case (Cons e es)
  then have f: "faithful stored packet es" by (simp add: faithful_def)
  show ?case
  proof (cases "stored (e_id e)")
    case None
    with Cons.IH [OF f, of d "Some e"] Cons.prems(2) show ?thesis by (simp split: if_split_asm)
  next
    case (Some p)
    then have p: "p = packet (e_id e)" "length p = e_length e" "length p \<le> length d"
      using Cons.prems by (auto simp: faithful_def)
    obtain d1 where d1: "xor_into d p = Some d1" "length d1 = length d" "\<forall>j < length d. d1 ! j = xor (d ! j) (byte_or0 p j)"
      using xor_into_nth [OF p(3)] .
    with Cons.IH [OF f, of d1 w] Cons.prems(2) Some p show ?thesis
      by (auto simp: xor.assoc)
  qed
qed

lemma xor_present_absent:
  "xor_at j (map f es) = xor (xor_at j (map f (present stored es))) (xor_at j (map f (absent stored es)))"
  by (induction es) (simp_all add: xor.assoc xor.left_commute)


text \<open>One missing packet of a group comes out of the parity.\<close>

lemma xor_entries_parity:
  assumes "faithful stored packet entries" "absent stored entries = [wanted]"
    "parity = parity_of (map (packet \<circ> e_id) entries)"
  shows "\<exists>data. xor_entries stored entries parity None = Some (Some (data, Some wanted)) \<and>
     take (e_length wanted) data = packet (e_id wanted) \<and> e_length wanted \<le> length data"
proof -
  have len: "\<forall>e \<in> set entries. e_length e = length (packet (e_id e)) \<and> e_length e \<le> length parity"
    using assms(1,3) parity_of_length [of _ "map (packet \<circ> e_id) entries"] by (auto simp: faithful_def list_all_iff)
  then have "\<forall>e \<in> set entries. e_length e \<le> length parity" by blast
  from xor_entries_correct [OF assms(1) this, of None] obtain d where
    d: "xor_entries stored entries parity None = Some (Some (d, Some wanted))" "length d = length parity"
    "\<forall>j < length parity. d ! j = xor (parity ! j) (xor_at j (map (packet \<circ> e_id) (present stored entries)))"
    using assms(2) by auto
  have "wanted \<in> set (absent stored entries)" using assms(2) by simp
  then have w: "wanted \<in> set entries" by (simp add: absent_def)
  have "d ! j = byte_or0 (packet (e_id wanted)) j" if "j < length parity" for j
    using d(3) that assms(2) xor_present_absent [of j "packet \<circ> e_id" entries stored] parity_of_nth [of j]
    by (simp add: assms(3) xor.left_commute xor.assoc)
  then have "take (e_length wanted) d = packet (e_id wanted)"
    using len w d(2) by (intro nth_equalityI) (auto simp: byte_or0_def)
  with d(1,2) len w show ?thesis by auto
qed

section \<open>Properties\<close>

text \<open>
  C23: A parity group is parsed to what the sender framed, reading nothing outside the datagram.  For 2 to 32 packets
  of at least 12 bytes each, with a parity as long as the longest of them, the
  parser returns the sequence numbers, the lengths, the SSRC and the parity of the
  datagram, and names the group by its last sequence number.
\<close>

theorem group_parse_roundtrip:
  assumes "2 \<le> length entries" "length entries \<le> 32" "\<forall>(sequence, len) \<in> set entries. 12 \<le> unat len"
    "length parity = foldl max 0 (map (unat \<circ> snd) entries)"
  shows "hasRecoveryMagic (encodeGroup ssrc entries parity) \<and>
     parseRecoveryGroup (encodeGroup ssrc entries parity) remote = Some (Some
       (\<lparr>g_entries = map (\<lambda>(sequence, len). \<lparr>e_id = \<lparr>pid_remote = remote, pid_ssrc = ssrc,
            pid_sequenceNumber = sequence\<rparr>, e_length = unat len\<rparr>) entries, g_parity = parity, g_remote = remote\<rparr>,
        \<lparr>gid_remote = remote, gid_ssrc = ssrc, gid_last = fst (last entries)\<rparr>))"
proof -
  let ?d = "encodeGroup ssrc entries parity"
  let ?e = "\<lambda>(sequence, len). \<lparr>e_id = \<lparr>pid_remote = remote, pid_ssrc = ssrc, pid_sequenceNumber = sequence\<rparr>, e_length = unat len\<rparr>"
  have n: "unat (of_nat (length entries) :: u8) = length entries"
    using assms(2) by (simp add: unat_of_nat take_bit_eq_mod)
  have pe: "group_entry ?d remote ssrc i = Some (?e (entries ! i))" if "i < length entries" for i
  proof -
    have "12 \<le> unat (snd (entries ! i))" using assms(3) nth_mem [OF that] by (auto simp: case_prod_unfold)
    then show ?thesis
      using encodeGroup_entry [OF that, of ssrc parity] by (simp add: group_entry_def Let_def case_prod_unfold)
  qed
  have "map (group_entry ?d remote ssrc) [0..<length entries] = map Some (map ?e entries)"
    by (rule nth_equalityI) (simp_all add: pe)
  moreover have "those (map Some xs) = Some xs" for xs :: "recoveryEntry list" by (induction xs) simp_all
  ultimately have th: "those (map (group_entry ?d remote ssrc) [0..<length entries]) = Some (map ?e entries)"
    by (simp only:)
  have m: "foldl max 0 (map e_length (map ?e entries)) = length parity"
    using assms(4) by (simp add: case_prod_unfold o_def)
  obtain x xs where xs: "entries = x # xs" using assms(1) by (cases entries) auto
  have "12 \<le> unat (snd x)" using assms(3) xs by auto
  moreover have "unat (snd x) \<le> length parity" using foldl_max_bound [of 0 "map (unat \<circ> snd) entries"] assms(4) xs by simp
  ultimately have pos: "length parity \<noteq> 0" by linarith
  have l: "pid_sequenceNumber (e_id (last (map ?e entries))) = fst (last entries)"
    using xs by (simp add: last_map case_prod_unfold)
  show ?thesis
    using assms(1,2) n th m pos l encodeGroup_header(6) [of entries ssrc parity]
    unfolding parse_group_total parse_group_def hasRecoveryMagic_def Let_def
    by (simp add: encodeGroup_header(1-5))
qed

theorem group_parse_roundtrip_witness:
  "parseRecoveryGroup (encodeGroup 9 [(65535, 12), (0, 13)] (replicate 13 1)) ''peer'' = Some (Some
     (\<lparr>g_entries = [\<lparr>e_id = \<lparr>pid_remote = ''peer'', pid_ssrc = 9, pid_sequenceNumber = 65535\<rparr>, e_length = 12\<rparr>,
        \<lparr>e_id = \<lparr>pid_remote = ''peer'', pid_ssrc = 9, pid_sequenceNumber = 0\<rparr>, e_length = 13\<rparr>],
       g_parity = replicate 13 1, g_remote = ''peer''\<rparr>, \<lparr>gid_remote = ''peer'', gid_ssrc = 9, gid_last = 0\<rparr>))"
  using group_parse_roundtrip [of "[(65535, 12), (0, 13)]" "replicate 13 1" 9 "''peer''"] by simp

text \<open>
  A repair request names exactly the packets it is for.  For up to 255
  sequence numbers (the relay asks for at most 32 at a time) the sender reads back the
  SSRC and the same sequence numbers, in order; for none, nothing is sent.
\<close>

theorem request_roundtrip:
  assumes "length sequenceNumbers \<le> 255"
  shows "if sequenceNumbers = [] then makeRecoveryRequest ssrc sequenceNumbers = []
     else decodeRequest (makeRecoveryRequest ssrc sequenceNumbers) = Some (ssrc, sequenceNumbers)"
proof (cases "sequenceNumbers = []")
  case False
  let ?r = "makeRecoveryRequest ssrc sequenceNumbers" and ?n = "length sequenceNumbers"
  let ?h = "recoveryMagic @ [recoveryRequestType, of_nat ?n, 0, 0] @ PutUint32 ssrc"
  have r: "?r = ?h @ concat (map PutUint16 sequenceNumbers)" using False by (simp add: makeRecoveryRequest_def)
  have h: "length ?h = recoveryHeaderSize" by (simp add: recoveryMagic_def recoveryHeaderSize_def)
  have n: "unat (of_nat ?n :: u8) = ?n" using assms by (simp add: unat_of_nat take_bit_eq_mod)
  have w: "\<forall>x \<in> set sequenceNumbers. length (PutUint16 x) = 2" by simp
  have "be16_at ?r (recoveryHeaderSize + i * 2) = sequenceNumbers ! i" if "i < ?n" for i
  proof (rule be16_at_put)
    show "drop (recoveryHeaderSize + i * 2) ?r =
        PutUint16 (sequenceNumbers ! i) @ drop (i * 2 + 2) (concat (map PutUint16 sequenceNumbers) @ [])"
      unfolding r using drop_past [OF h, of "i * 2"] drop_concat_fixed [OF w that, of "[]"] by simp
  qed
  then have "map (\<lambda>i. be16_at ?r (recoveryHeaderSize + i * 2)) [0..<?n] = sequenceNumbers"
    by (intro nth_equalityI) simp_all
  moreover have "be32_at ?r 8 = ssrc"
    by (rule be32_at_put [where rest = "concat (map PutUint16 sequenceNumbers)"]) (simp add: r recoveryMagic_def)
  moreover have "length ?r = recoveryHeaderSize + 2 * ?n"
    using length_concat_fixed [OF w] h by (simp add: r)
  moreover have "?r ! 4 = recoveryRequestType" "?r ! 5 = of_nat ?n" "take 4 ?r = recoveryMagic"
    by (simp_all add: r recoveryMagic_def)
  ultimately show ?thesis
    using False n by (simp add: decodeRequest_def hasRecoveryMagic_def recoveryHeaderSize_def)
qed (simp add: makeRecoveryRequest_def)

theorem request_roundtrip_witness:
  "decodeRequest (makeRecoveryRequest 0xDEADBEEF [65535, 0, 1]) = Some (0xDEADBEEF, [65535, 0, 1])"
  using request_roundtrip [of "[65535, 0, 1]" "0xDEADBEEF"] by simp

end
