(* ===== verification/Recovery_State.thy ===== *)
theory Recovery_State
  imports Recovery_Wire "HOL-Library.AList"
begin

text \<open>
  The state of packet recovery (\<^verbatim>\<open>recovery.go\<close>, \<^verbatim>\<open>recovery_mux.go\<close>, \<^verbatim>\<open>delivery.go\<close> of
  \<^verbatim>\<open>internal/ingest\<close>): the packet history and the outstanding parity groups shared by
  the sockets, the gaps of each stream, the peers a socket has authenticated,
  and the operations on them.

  Go maps are association lists with distinct keys; where the code iterates over a map, whose
  order Go leaves open, the model goes through the list.  \<open>None\<close> as the result of an operation is a panic
  (an index out of range, a slice past the end).  The rate limiter is third-party code: its answer is an
  argument (\<open>allow cost\<close>); so is the STUN decoder (\<open>decode\<close>), and \<^verbatim>\<open>sha256\<close> (\<open>digest\<close>).
  Addresses are strings.  Readings of the clock are arguments.

  One goroutine reads each socket.  It takes the lock several times for one datagram, so \<^verbatim>\<open>ReadFrom\<close> is four operations, one per
  section under the lock, and a socket remembers in \<open>rc_reader\<close> how far its reader is; writes, other sockets and the mux
  can come in between.
\<close>

section \<open>State\<close>

record recoveryStream =
  rst_highest :: u16
  rst_based :: bool
  rst_enabled :: bool
  rst_missing :: "(u16 \<times> instant) list"
  rst_lastTouched :: instant

record recoveryState =
  rs_active :: "string list option"
  rs_packets :: "(recoveryPacketID \<times> bytes) list"
  rs_packetOrder :: "recoveryPacketID list"
  rs_packetHead :: nat
  rs_streams :: "(recoveryStreamID \<times> recoveryStream) list"
  rs_groups :: "(recoveryGroupID \<times> recoveryGroup) list"
  rs_groupOrder :: "recoveryGroupID list"
  rs_groupHead :: nat
  rs_packetsSince :: u64

record recoveredDatagram =
  dg_data :: bytes
  dg_addr :: "string option"
  dg_identity :: string

record recoveryBindingID =
  bid_remote :: string
  bid_transaction :: bytes

record deliveryBatch =
  db_identity :: string
  db_lastSent :: instant
  db_tokens :: "bytes list"

text \<open>Where the reader of a socket is: before the next datagram; with a recovery datagram of an authenticated
  address; with an RTP packet and its peer's identity; after \<^verbatim>\<open>remember\<close>.\<close>

datatype socket_reader = AtSocket | AtParity bytes string | AtMedia recoveryPacketID bytes string | AtReceipt recoveryPacketID bytes string

record recoveryConn =
  rc_local :: string
  rc_reader :: socket_reader
  rc_ready :: "recoveredDatagram list"
  rc_pendingBindings :: "(recoveryBindingID \<times> string) list"
  rc_identities :: "(string \<times> string) list"
  rc_deliveries :: "(string \<times> deliveryBatch) list"

definition newRecoveryState :: recoveryState where
  "newRecoveryState = \<lparr>rs_active = None, rs_packets = [], rs_packetOrder = [], rs_packetHead = 0, rs_streams = [],
     rs_groups = [], rs_groupOrder = [], rs_groupHead = 0, rs_packetsSince = 0\<rparr>"

section \<open>Peers\<close>

definition ice_prefix :: string where "ice_prefix = ''ice:''"

text \<open>\<^verbatim>\<open>strings.Cut(s, ":")\<close>: the part before the first colon, and whether there is one.\<close>

definition cut_colon :: "string \<Rightarrow> string \<times> bool" where
  "cut_colon s = (takeWhile (\<lambda>c. c \<noteq> CHR '':'') s, CHR '':'' \<in> set s)"

definition activeIdentity :: "recoveryState \<Rightarrow> string \<Rightarrow> bool" where
  "activeIdentity st identity =
     (case rs_active st of
        None \<Rightarrow> True
      | Some active \<Rightarrow>
          let ok = HasPrefix identity ice_prefix;
              username = (if ok then drop (length ice_prefix) identity else identity);
              (ufrag, separated) = cut_colon username
          in ok \<and> separated \<and> ufrag \<in> set active)"

definition authenticatedIdentity :: "recoveryConn \<Rightarrow> string \<Rightarrow> string" where
  "authenticatedIdentity c remote =
     (case map_of (rc_identities c) remote of
        Some identity \<Rightarrow> if identity \<noteq> [] then ice_prefix @ identity else []
      | None \<Rightarrow> [])"

definition identityLocked :: "recoveryConn \<Rightarrow> string \<Rightarrow> string" where
  "identityLocked c remote =
     (case map_of (rc_identities c) remote of
        Some identity \<Rightarrow> if identity \<noteq> [] then ice_prefix @ identity else rc_local c @ ''|'' @ remote
      | None \<Rightarrow> rc_local c @ ''|'' @ remote)"

datatype stun_kind = BindingRequest | BindingSuccess | OtherMessage

record stun_message =
  sm_kind :: stun_kind
  sm_transaction :: bytes
  sm_username :: "string option"

definition rememberBinding :: "recoveryConn \<Rightarrow> recoveryBindingID \<Rightarrow> stun_message \<Rightarrow> recoveryConn" where
  "rememberBinding c key message =
     (case sm_username message of
        None \<Rightarrow> c
      | Some username \<Rightarrow>
          if length username > 513 then c
          else let pending = (if length (rc_pendingBindings c) \<ge> recoveryHistorySize then []
                              else rc_pendingBindings c)
               in if map_of pending key \<noteq> None then c\<lparr>rc_pendingBindings := pending\<rparr>
                  else c\<lparr>rc_pendingBindings := AList.update key username pending\<rparr>)"

definition confirmBinding :: "recoveryState \<Rightarrow> recoveryConn \<Rightarrow> recoveryBindingID \<Rightarrow> recoveryConn" where
  "confirmBinding st c key =
     (let username = (case map_of (rc_pendingBindings c) key of Some u \<Rightarrow> u | None \<Rightarrow> []);
          c1 = c\<lparr>rc_pendingBindings := AList.delete key (rc_pendingBindings c)\<rparr>
      in if username = [] \<or> \<not> activeIdentity st (ice_prefix @ username) then c1
         else let identities = (if length (rc_identities c1) \<ge> recoveryHistorySize then [] else rc_identities c1)
              in c1\<lparr>rc_identities := AList.update (bid_remote key) username identities\<rparr>)"

definition observeBinding ::
  "(bytes \<Rightarrow> stun_message option) \<Rightarrow> recoveryState \<Rightarrow> recoveryConn \<Rightarrow> bytes \<Rightarrow> string \<Rightarrow> bool \<Rightarrow> recoveryConn" where
  "observeBinding decode st c data remote outgoing =
     (case decode data of
        None \<Rightarrow> c
      | Some message \<Rightarrow>
          let key = \<lparr>bid_remote = remote, bid_transaction = sm_transaction message\<rparr>
          in if outgoing \<and> sm_kind message = BindingSuccess then confirmBinding st c key
             else if \<not> outgoing \<and> sm_kind message = BindingRequest then rememberBinding c key message
             else c)"

section \<open>Packet history\<close>

text \<open>The eviction loop of both histories: drop the oldest until the limit holds.\<close>

function evict :: "nat \<Rightarrow> ('k \<times> 'v) list \<Rightarrow> 'k list \<Rightarrow> nat \<Rightarrow> (('k \<times> 'v) list \<times> nat) option" where
  "evict limit entries order head =
     (if length entries > limit
      then if head < length order then evict limit (AList.delete (order ! head) entries) order (head + 1) else None
      else Some (entries, head))"
  by auto
termination by (relation "measure (\<lambda>(limit, entries, order, head). length order - head)") auto

declare evict.simps [simp del]

definition storePacket :: "recoveryState \<Rightarrow> recoveryPacketID \<Rightarrow> bytes \<Rightarrow> recoveryState option" where
  "storePacket st pid data =
     (if map_of (rs_packets st) pid \<noteq> None then Some st
      else let packets = AList.update pid data (rs_packets st);
               order = rs_packetOrder st @ [pid]
           in do {
             (packets', head) \<leftarrow> evict recoveryHistorySize packets order (rs_packetHead st);
             Some (if head \<ge> recoveryHistorySize
                   then st\<lparr>rs_packets := packets', rs_packetOrder := drop head order, rs_packetHead := 0\<rparr>
                   else st\<lparr>rs_packets := packets', rs_packetOrder := order, rs_packetHead := head\<rparr>)
           })"

definition storeGroup :: "recoveryState \<Rightarrow> recoveryGroupID \<Rightarrow> recoveryGroup \<Rightarrow> recoveryState option" where
  "storeGroup st gid grp =
     (let (order, head) =
            (if length (rs_groupOrder st) \<ge> 2 * recoveryGroupLimit
             then (fold (\<lambda>previous kept. if map_of (rs_groups st) previous \<noteq> None \<and> previous \<notin> set kept
                                         then kept @ [previous] else kept)
                        (drop (rs_groupHead st) (rs_groupOrder st)) [], 0)
             else (rs_groupOrder st, rs_groupHead st));
          order' = (if map_of (rs_groups st) gid = None then order @ [gid] else order);
          groups = AList.update gid grp (rs_groups st)
      in do {
        (groups', head') \<leftarrow> evict recoveryGroupLimit groups order' head;
        Some (if head' \<ge> recoveryGroupLimit
              then st\<lparr>rs_groups := groups', rs_groupOrder := drop head' order', rs_groupHead := 0\<rparr>
              else st\<lparr>rs_groups := groups', rs_groupOrder := order', rs_groupHead := head'\<rparr>)
      })"

section \<open>Streams\<close>

definition streamID :: "recoveryPacketID \<Rightarrow> recoveryStreamID" where
  "streamID pid = \<lparr>sid_remote = pid_remote pid, sid_ssrc = pid_ssrc pid\<rparr>"

text \<open>A stream is mutated through its pointer: one that is no longer in the map stays out of it.\<close>

definition set_stream :: "recoveryStreamID \<Rightarrow> recoveryStream \<Rightarrow> recoveryState \<Rightarrow> recoveryState" where
  "set_stream sid stream st =
     (if map_of (rs_streams st) sid = None then st
      else st\<lparr>rs_streams := AList.update sid stream (rs_streams st)\<rparr>)"

definition trimStreams :: "recoveryState \<Rightarrow> instant \<Rightarrow> recoveryState" where
  "trimStreams st now =
     st\<lparr>rs_streams := filter (\<lambda>(sid, stream). \<not> time_Sub now (rst_lastTouched stream) > 30 * Second) (rs_streams st)\<rparr>"

text \<open>The search starts from the zero time, so the first stream is always taken.\<close>

definition trimOldestStream :: "recoveryState \<Rightarrow> recoveryState" where
  "trimOldestStream st =
     (case foldl (\<lambda>found (sid, stream).
                    case found of
                      None \<Rightarrow> Some (sid, rst_lastTouched stream)
                    | Some (oldestID, oldest) \<Rightarrow>
                        if oldest = 0 \<or> rst_lastTouched stream < oldest then Some (sid, rst_lastTouched stream)
                        else found)
                 None (rs_streams st) of
        None \<Rightarrow> st
      | Some (oldestID, oldest) \<Rightarrow> st\<lparr>rs_streams := AList.delete oldestID (rs_streams st)\<rparr>)"

definition streamLocked :: "recoveryState \<Rightarrow> recoveryStreamID \<Rightarrow> instant \<Rightarrow> recoveryState \<times> recoveryStream" where
  "streamLocked st sid now =
     (case map_of (rs_streams st) sid of
        Some stream \<Rightarrow> (st, stream)
      | None \<Rightarrow>
          let st1 = (if length (rs_streams st) \<ge> recoveryStreamLimit then trimOldestStream st else st);
              stream = \<lparr>rst_highest = 0, rst_based = False, rst_enabled = False, rst_missing = [],
                        rst_lastTouched = now\<rparr>
          in (st1\<lparr>rs_streams := AList.update sid stream (rs_streams st1)\<rparr>, stream))"

text \<open>\<^verbatim>\<open>trackGapLocked\<close> on the stream; the history is only looked up.\<close>

definition trackGap :: "recoveryState \<Rightarrow> recoveryPacketID \<Rightarrow> recoveryStream \<Rightarrow> recoveryStream" where
  "trackGap st pid stream =
     (let sequenceNumber = pid_sequenceNumber pid
      in if \<not> rst_based stream then stream\<lparr>rst_highest := sequenceNumber, rst_based := True\<rparr>
         else let delta = sequenceNumber - rst_highest stream
              in if delta = 0 \<or> delta \<ge> 0x8000 then stream
                 else let start = nat (max 1 (int (unat delta) - int recoveryHistorySize + 1));
                          missing = (if delta > 1
                                     then filter (\<lambda>(m, t). \<not> unat (sequenceNumber - m) \<ge> recoveryHistorySize)
                                            (rst_missing stream)
                                     else rst_missing stream);
                          missing' = foldl (\<lambda>ms off.
                              let m = rst_highest stream + of_nat off
                              in if map_of (rs_packets st) (pid\<lparr>pid_sequenceNumber := m\<rparr>) \<noteq> None then ms
                                 else if map_of ms m \<noteq> None then ms else AList.update m 0 ms)
                            missing [start..<unat delta]
                      in stream\<lparr>rst_missing := missing', rst_highest := sequenceNumber\<rparr>)"

text \<open>What \<^verbatim>\<open>remember\<close> does to the stream of a packet that arrived, and what \<^verbatim>\<open>consumeParity\<close> does with the numbers a
  parity group misses.\<close>

definition stream_arrived :: "recoveryState \<Rightarrow> recoveryPacketID \<Rightarrow> instant \<Rightarrow> recoveryStream \<Rightarrow> recoveryStream" where
  "stream_arrived st pid now stream =
     trackGap st pid (stream\<lparr>rst_lastTouched := now,
                             rst_missing := AList.delete (pid_sequenceNumber pid) (rst_missing stream)\<rparr>)"

definition stream_listed :: "u16 list \<Rightarrow> recoveryStream \<Rightarrow> recoveryStream" where
  "stream_listed missing stream =
     stream\<lparr>rst_missing := foldl (\<lambda>ms m. if map_of ms m \<noteq> None then ms else AList.update m 0 ms) (rst_missing stream) missing\<rparr>"

text \<open>The loop of \<^verbatim>\<open>dueRepairs\<close>: the entries left to visit, the entries visited, the result.\<close>

fun due_loop :: "recoveryStream \<Rightarrow> instant \<Rightarrow> (u16 \<times> instant) list \<Rightarrow> (u16 \<times> instant) list \<Rightarrow> u16 list \<Rightarrow>
    (u16 \<times> instant) list \<times> u16 list" where
  "due_loop stream now [] visited due = (visited, due)"
| "due_loop stream now ((sequenceNumber, requested) # rest) visited due =
     (let behind = rst_highest stream - sequenceNumber
      in if rst_based stream \<and> unat behind \<ge> recoveryHistorySize \<and> behind < 0x8000
         then due_loop stream now rest visited due
         else if requested \<noteq> 0 \<and> time_Sub now requested < recoveryRetry
         then due_loop stream now rest (visited @ [(sequenceNumber, requested)]) due
         else if length due + 1 = recoveryRequestSize
         then (visited @ (sequenceNumber, now) # rest, due @ [sequenceNumber])
         else due_loop stream now rest (visited @ [(sequenceNumber, now)]) (due @ [sequenceNumber]))"

definition dueRepairs :: "recoveryStream \<Rightarrow> instant \<Rightarrow> recoveryStream \<times> u16 list" where
  "dueRepairs stream now =
     (let (missing, due) = due_loop stream now (rst_missing stream) [] []
      in (stream\<lparr>rst_missing := missing\<rparr>, due))"

section \<open>Recovery\<close>

definition forget_missing :: "recoveryPacketID \<Rightarrow> recoveryState \<Rightarrow> recoveryState" where
  "forget_missing pid st =
     (case map_of (rs_streams st) (streamID pid) of
        None \<Rightarrow> st
      | Some stream \<Rightarrow> set_stream (streamID pid)
          (stream\<lparr>rst_missing := AList.delete (pid_sequenceNumber pid) (rst_missing stream)\<rparr>) st)"

definition recoverGroup ::
  "recoveryState \<Rightarrow> recoveryGroup \<Rightarrow> (recoveryState \<times> recoveredDatagram option \<times> u16 list) option" where
  "recoverGroup st grp =
     (let missing = map (pid_sequenceNumber \<circ> e_id) (absent (map_of (rs_packets st)) (g_entries grp))
      in if length missing \<noteq> 1 then Some (st, None, missing)
         else do {
           result \<leftarrow> xor_entries (map_of (rs_packets st)) (g_entries grp) (g_parity grp) None;
           case result of
             Some (data, Some wanted) \<Rightarrow>
               if e_length wanted > length data then None
               else do {
                 st1 \<leftarrow> storePacket st (e_id wanted) (take (e_length wanted) data);
                 Some (forget_missing (e_id wanted) st1,
                       Some \<lparr>dg_data = take (e_length wanted) data, dg_addr = Some (g_remote grp),
                             dg_identity = pid_remote (e_id wanted)\<rparr>, missing)
               }
           | _ \<Rightarrow> Some (st, None, missing)
         })"

text \<open>The loop over the outstanding groups when a packet arrives.\<close>

fun recover_pending :: "(recoveryGroupID \<times> recoveryGroup) list \<Rightarrow> recoveryState \<Rightarrow> recoveryConn \<Rightarrow>
    recoveryPacketID \<Rightarrow> string \<Rightarrow> (recoveryState \<times> recoveryConn) option" where
  "recover_pending [] st c arrived remote = Some (st, c)"
| "recover_pending ((gid, grp) # rest) st c arrived remote =
     (if \<not> list_ex (\<lambda>entry. e_id entry = arrived) (g_entries grp)
      then recover_pending rest st c arrived remote
      else do {
        (st1, datagram, missing) \<leftarrow> recoverGroup st grp;
        let st2 = (if length missing \<le> 1 then st1\<lparr>rs_groups := AList.delete gid (rs_groups st1)\<rparr> else st1);
        let c1 = (case datagram of
                    Some d \<Rightarrow> if length missing = 1
                              then c\<lparr>rc_ready := rc_ready c @ [d\<lparr>dg_addr := Some remote\<rparr>]\<rparr> else c
                  | None \<Rightarrow> c);
        recover_pending rest st2 c1 arrived remote
      })"

definition allowRecovery :: "(nat \<Rightarrow> bool) \<Rightarrow> bytes \<Rightarrow> nat \<Rightarrow> bool" where
  "allowRecovery allow data cost \<longleftrightarrow> length data \<le> 8192 \<and> allow cost"

definition remember_cost :: "recoveryState \<Rightarrow> recoveryPacketID \<Rightarrow> nat" where
  "remember_cost st pid =
     (case map_of (rs_streams st) (streamID pid) of
        None \<Rightarrow> 1
      | Some stream \<Rightarrow>
          let delta = pid_sequenceNumber pid - rst_highest stream
          in if delta < 0x8000 then 1 + min (unat delta) recoveryHistorySize else 1)"

definition get_stream :: "recoveryState \<Rightarrow> recoveryStreamID \<Rightarrow> recoveryStream \<Rightarrow> recoveryStream" where
  "get_stream st sid stream = (case map_of (rs_streams st) sid of Some s \<Rightarrow> s | None \<Rightarrow> stream)"

text \<open>The end of \<^verbatim>\<open>remember\<close>: the periodic trim and the repair request.\<close>

definition remember_finish ::
  "recoveryState \<Rightarrow> recoveryConn \<Rightarrow> recoveryPacketID \<Rightarrow> recoveryStream \<Rightarrow> instant \<Rightarrow>
     recoveryState \<times> recoveryConn \<times> bytes" where
  "remember_finish st c pid stream now =
     (let st1 = st\<lparr>rs_packetsSince := rs_packetsSince st + 1\<rparr>;
          st2 = (if unat (rs_packetsSince st1) mod recoveryHistorySize = 0 then trimStreams st1 now else st1);
          stream1 = get_stream st2 (streamID pid) stream
      in if \<not> rst_enabled stream1 then (st2, c, [])
         else let (stream2, due) = dueRepairs stream1 now
              in (set_stream (streamID pid) stream2 st2, c, makeRecoveryRequest (pid_ssrc pid) due))"

definition remember ::
  "(nat \<Rightarrow> bool) \<Rightarrow> recoveryState \<Rightarrow> recoveryConn \<Rightarrow> recoveryPacketID \<Rightarrow> bytes \<Rightarrow> string \<Rightarrow> instant \<Rightarrow>
     (recoveryState \<times> recoveryConn \<times> bytes) option" where
  "remember allow st c pid data remote now =
     (if \<not> activeIdentity st (pid_remote pid) then Some (st, c, [])
      else if \<not> allowRecovery allow data (remember_cost st pid) then Some (st, c, [])
      else do {
        st1 \<leftarrow> storePacket st pid data;
        let (st2, stream) = streamLocked st1 (streamID pid) now;
        let stream2 = stream_arrived st2 pid now stream;
        let st3 = set_stream (streamID pid) stream2 st2;
        (st4, c1) \<leftarrow> recover_pending (rs_groups st3) st3 c pid remote;
        Some (remember_finish st4 c1 pid stream2 now)
      })"

text \<open>\<^verbatim>\<open>consumeParity\<close> returns a recovered datagram to deliver and the request it sends;
  \<open>consume_group\<close> is its part after the peer was identified.\<close>

definition consume_group ::
  "recoveryState \<Rightarrow> recoveryGroupID \<Rightarrow> recoveryGroup \<Rightarrow> instant \<Rightarrow>
     (recoveryState \<times> recoveredDatagram option \<times> bytes) option" where
  "consume_group st gid grp now =
     (let sid = \<lparr>sid_remote = gid_remote gid, sid_ssrc = gid_ssrc gid\<rparr>;
          (st1, stream) = streamLocked st sid now;
          stream1 = stream\<lparr>rst_enabled := True, rst_lastTouched := now\<rparr>
      in do {
        (st2, datagram, missing) \<leftarrow> recoverGroup (set_stream sid stream1 st1) grp;
        if length missing = 0 then Some (st2, None, [])
        else if length missing = 1 then Some (st2, datagram, [])
        else let (stream2, due) = dueRepairs (stream_listed missing stream1) now
             in do {
               st3 \<leftarrow> storeGroup st2 gid grp;
               Some (set_stream sid stream2 st3, None, makeRecoveryRequest (gid_ssrc gid) due)
             }
      })"

definition consumeParity ::
  "(nat \<Rightarrow> bool) \<Rightarrow> recoveryState \<Rightarrow> recoveryConn \<Rightarrow> bytes \<Rightarrow> string \<Rightarrow> instant \<Rightarrow>
     (recoveryState \<times> recoveredDatagram option \<times> bytes) option" where
  "consumeParity allow st c data remote now =
     (if \<not> allowRecovery allow data 32 then Some (st, None, [])
      else do {
        parsed \<leftarrow> parseRecoveryGroup data remote;
        case parsed of
          None \<Rightarrow> Some (st, None, [])
        | Some (grp, gid) \<Rightarrow>
            if \<not> activeIdentity st (identityLocked c remote) then Some (st, None, [])
            else consume_group st (gid\<lparr>gid_remote := identityLocked c remote\<rparr>)
                   (grp\<lparr>g_entries := map (\<lambda>e. e\<lparr>e_id := (e_id e)\<lparr>pid_remote := identityLocked c remote\<rparr>\<rparr>)
                                        (g_entries grp)\<rparr>) now
      })"

section \<open>Receipts\<close>

definition deliveryBatch_flush :: "deliveryBatch \<Rightarrow> deliveryBatch \<times> bytes" where
  "deliveryBatch_flush batch =
     (batch\<lparr>db_tokens := []\<rparr>,
      recoveryMagic @ [3, of_nat (length (db_tokens batch)), 0, 0] @ concat (db_tokens batch))"

text \<open>The batch a receipt goes into; a fresh one when the address is new or has another peer.\<close>

definition delivery_batch :: "recoveryConn \<Rightarrow> string \<Rightarrow> string \<Rightarrow> (string \<times> deliveryBatch) list \<times> deliveryBatch" where
  "delivery_batch c identity remote =
     (let fresh = (if length (rc_deliveries c) \<ge> recoveryStreamLimit then [] else rc_deliveries c,
                   \<lparr>db_identity = identity, db_lastSent = 0, db_tokens = []\<rparr>)
      in case map_of (rc_deliveries c) remote of
           Some batch \<Rightarrow> if db_identity batch = identity then (rc_deliveries c, batch) else fresh
         | None \<Rightarrow> fresh)"

text \<open>\<open>db_tokens\<close> holds the occupied slots of the array of eight; \<^verbatim>\<open>batch.tokens[batch.count]\<close> panics when all are.\<close>

definition store_token :: "deliveryBatch \<Rightarrow> bytes \<Rightarrow> deliveryBatch option" where
  "store_token batch token =
     (if length (db_tokens batch) < 8 then Some (batch\<lparr>db_tokens := db_tokens batch @ [token]\<rparr>) else None)"

definition deliveryReceipt ::
  "(bytes \<Rightarrow> bytes) \<Rightarrow> recoveryState \<Rightarrow> recoveryConn \<Rightarrow> recoveryPacketID \<Rightarrow> bytes \<Rightarrow> string \<Rightarrow> instant \<Rightarrow>
     (recoveryConn \<times> bytes) option" where
  "deliveryReceipt digest st c pid data remote now =
     (case map_of (rs_streams st) (streamID pid) of
        None \<Rightarrow> Some (c, [])
      | Some stream \<Rightarrow>
          if \<not> rst_enabled stream \<or> length data > 8192 then Some (c, [])
          else let (deliveries, batch) = delivery_batch c (pid_remote pid) remote
               in do {
                 batch1 \<leftarrow> store_token batch (take 16 (digest data));
                 if length (db_tokens batch1) < 8 \<and> time_Sub now (db_lastSent batch1) < 20 * Millisecond
                 then Some (c\<lparr>rc_deliveries := AList.update remote batch1 deliveries\<rparr>, [])
                 else let (batch2, receipt) = deliveryBatch_flush (batch1\<lparr>db_lastSent := now\<rparr>)
                      in Some (c\<lparr>rc_deliveries := AList.update remote batch2 deliveries\<rparr>, receipt)
               })"

section \<open>The socket\<close>

definition popReady :: "recoveryConn \<Rightarrow> recoveryConn \<times> recoveredDatagram option" where
  "popReady c = (case rc_ready c of [] \<Rightarrow> (c, None) | d # rest \<Rightarrow> (c\<lparr>rc_ready := rest\<rparr>, Some d))"

text \<open>
  \<^verbatim>\<open>ReadFrom\<close> in its sections.  Each returns the new state, the datagram \<^verbatim>\<open>ReadFrom\<close> returns to its caller, if any, and what it
  sends back.  \<open>ReadFrom_received\<close>: a datagram came from the network, nothing being ready; it is classified and its
  address looked up.
\<close>

definition ReadFrom_received ::
  "(bytes \<Rightarrow> stun_message option) \<Rightarrow> recoveryState \<Rightarrow> recoveryConn \<Rightarrow> bytes \<Rightarrow> string \<Rightarrow>
     (recoveryConn \<times> (bytes \<times> string option) option) option" where
  "ReadFrom_received decode st c data remote =
     (if hasRecoveryMagic data
      then if authenticatedIdentity c remote = [] then Some (c, None)
           else Some (c\<lparr>rc_reader := AtParity data remote\<rparr>, None)
      else do {
        found \<leftarrow> recoveryRTPPacketID data;
        case found of
          None \<Rightarrow> Some (observeBinding decode st c data remote False, Some (data, Some remote))
        | Some pid0 \<Rightarrow>
            let pid = pid0\<lparr>pid_remote := authenticatedIdentity c remote\<rparr>
            in if pid_remote pid = [] then Some (c, Some (data, Some remote))
               else Some (c\<lparr>rc_reader := AtMedia pid data remote\<rparr>, None)
      })"

definition ReadFrom_parity ::
  "(nat \<Rightarrow> bool) \<Rightarrow> recoveryState \<Rightarrow> recoveryConn \<Rightarrow> instant \<Rightarrow>
     (recoveryState \<times> recoveryConn \<times> (bytes \<times> string option) option \<times> bytes list) option" where
  "ReadFrom_parity allow st c now =
     (case rc_reader c of
        AtParity data remote \<Rightarrow> do {
          (st1, datagram, request) \<leftarrow> consumeParity allow st c data remote now;
          Some (st1, c\<lparr>rc_reader := AtSocket\<rparr>, map_option (\<lambda>d. (dg_data d, dg_addr d)) datagram, filter (\<lambda>m. m \<noteq> []) [request])
        }
      | _ \<Rightarrow> Some (st, c, None, []))"

definition ReadFrom_remember ::
  "(nat \<Rightarrow> bool) \<Rightarrow> recoveryState \<Rightarrow> recoveryConn \<Rightarrow> instant \<Rightarrow>
     (recoveryState \<times> recoveryConn \<times> (bytes \<times> string option) option \<times> bytes list) option" where
  "ReadFrom_remember allow st c now =
     (case rc_reader c of
        AtMedia pid data remote \<Rightarrow> do {
          (st1, c1, request) \<leftarrow> remember allow st c pid data remote now;
          Some (st1, c1\<lparr>rc_reader := AtReceipt pid data remote\<rparr>, None, filter (\<lambda>m. m \<noteq> []) [request])
        }
      | _ \<Rightarrow> Some (st, c, None, []))"

definition ReadFrom_receipt ::
  "(bytes \<Rightarrow> bytes) \<Rightarrow> recoveryState \<Rightarrow> recoveryConn \<Rightarrow> instant \<Rightarrow>
     (recoveryState \<times> recoveryConn \<times> (bytes \<times> string option) option \<times> bytes list) option" where
  "ReadFrom_receipt digest st c now =
     (case rc_reader c of
        AtReceipt pid data remote \<Rightarrow> do {
          (c1, receipt) \<leftarrow> deliveryReceipt digest st c pid data remote now;
          Some (st, c1\<lparr>rc_reader := AtSocket\<rparr>, Some (data, Some remote), filter (\<lambda>m. m \<noteq> []) [receipt])
        }
      | _ \<Rightarrow> Some (st, c, None, []))"

definition recoveryConn_WriteTo ::
  "(bytes \<Rightarrow> stun_message option) \<Rightarrow> recoveryState \<Rightarrow> recoveryConn \<Rightarrow> bytes \<Rightarrow> string \<Rightarrow> recoveryConn" where
  "recoveryConn_WriteTo decode st c data remote = observeBinding decode st c data remote True"

section \<open>The ICE mux\<close>

definition newRecoveryMux :: "recoveryState \<Rightarrow> recoveryState" where
  "newRecoveryMux st = st\<lparr>rs_active := Some []\<rparr>"

text \<open>\<open>opened\<close> says whether the mux below returned a connection.\<close>

definition recoveryMux_GetConn :: "recoveryState \<Rightarrow> string \<Rightarrow> bool \<Rightarrow> recoveryState" where
  "recoveryMux_GetConn st ufrag opened =
     (if opened then st\<lparr>rs_active := map_option (List.insert ufrag) (rs_active st)\<rparr> else st)"

definition forget_peer :: "string \<Rightarrow> recoveryConn \<Rightarrow> recoveryConn" where
  "forget_peer ufrag c =
     (let prefix = ice_prefix @ ufrag @ '':''
      in c\<lparr>rc_ready := filter (\<lambda>d. \<not> HasPrefix (dg_identity d) prefix) (rc_ready c),
           rc_identities := filter (\<lambda>(_, username). \<not> HasPrefix username (ufrag @ '':'')) (rc_identities c),
           rc_pendingBindings := filter (\<lambda>(_, username). \<not> HasPrefix username (ufrag @ '':'')) (rc_pendingBindings c),
           rc_deliveries := filter (\<lambda>(_, batch). \<not> HasPrefix (db_identity batch) prefix) (rc_deliveries c)\<rparr>)"

definition RemoveConnByUfrag ::
  "recoveryState \<Rightarrow> recoveryConn list \<Rightarrow> string \<Rightarrow> recoveryState \<times> recoveryConn list" where
  "RemoveConnByUfrag st conns ufrag =
     (let prefix = ice_prefix @ ufrag @ '':''
      in (st\<lparr>rs_active := map_option (removeAll ufrag) (rs_active st),
             rs_packets := filter (\<lambda>(pid, _). \<not> HasPrefix (pid_remote pid) prefix) (rs_packets st),
             rs_packetOrder := filter (\<lambda>pid. \<not> HasPrefix (pid_remote pid) prefix)
                                 (drop (rs_packetHead st) (rs_packetOrder st)),
             rs_packetHead := 0,
             rs_streams := filter (\<lambda>(sid, _). \<not> HasPrefix (sid_remote sid) prefix) (rs_streams st),
             rs_groups := filter (\<lambda>(gid, _). \<not> HasPrefix (gid_remote gid) prefix) (rs_groups st),
             rs_groupOrder := filter (\<lambda>gid. \<not> HasPrefix (gid_remote gid) prefix)
                                (drop (rs_groupHead st) (rs_groupOrder st)),
             rs_groupHead := 0\<rparr>,
          map (forget_peer ufrag) conns))"

section \<open>Invariant\<close>

definition group_ok :: "recoveryGroup \<Rightarrow> bool" where
  "group_ok grp \<longleftrightarrow> list_all (\<lambda>e. e_length e \<le> length (g_parity grp)) (g_entries grp)"

definition packets_inv :: "recoveryState \<Rightarrow> bool" where
  "packets_inv st \<longleftrightarrow> distinct (map fst (rs_packets st)) \<and> rs_packetHead st \<le> length (rs_packetOrder st) \<and>
     distinct (drop (rs_packetHead st) (rs_packetOrder st)) \<and>
     set (drop (rs_packetHead st) (rs_packetOrder st)) = fst ` set (rs_packets st) \<and>
     length (rs_packets st) \<le> recoveryHistorySize \<and> rs_packetHead st < recoveryHistorySize"

definition groups_inv :: "recoveryState \<Rightarrow> bool" where
  "groups_inv st \<longleftrightarrow> distinct (map fst (rs_groups st)) \<and> rs_groupHead st \<le> length (rs_groupOrder st) \<and>
     fst ` set (rs_groups st) \<subseteq> set (drop (rs_groupHead st) (rs_groupOrder st)) \<and>
     length (rs_groups st) \<le> recoveryGroupLimit \<and> length (rs_groupOrder st) \<le> 2 * recoveryGroupLimit \<and>
     list_all (group_ok \<circ> snd) (rs_groups st)"

definition streams_inv :: "recoveryState \<Rightarrow> bool" where
  "streams_inv st \<longleftrightarrow> distinct (map fst (rs_streams st)) \<and> length (rs_streams st) \<le> recoveryStreamLimit"

definition recovery_inv :: "recoveryState \<Rightarrow> bool" where
  "recovery_inv st \<longleftrightarrow> packets_inv st \<and> groups_inv st \<and> streams_inv st"

lemmas recovery_limits = recoveryHistorySize_def recoveryGroupLimit_def recoveryStreamLimit_def

lemma delete_keys: "fst ` set (AList.delete k al) = fst ` set al - {k}"
  by (auto simp: AList.delete_eq)

lemma drop_head: "head < length order \<Longrightarrow> drop head order = order ! head # drop (Suc head) order"
  by (rule Cons_nth_drop_Suc [symmetric])

text \<open>Eviction succeeds while every key is still in the order, and keeps it so.\<close>

lemma evict_correct:
  assumes "fst ` set al \<subseteq> set (drop head order)" "head \<le> length order" "distinct (map fst al)"
  shows "\<exists>al' head'. evict limit al order head = Some (al', head') \<and> length al' \<le> limit \<and> head' \<le> length order \<and>
     fst ` set al' \<subseteq> set (drop head' order) \<and> distinct (map fst al') \<and> set al' \<subseteq> set al \<and> head \<le> head' \<and>
     (distinct (drop head order) \<and> fst ` set al = set (drop head order) \<longrightarrow> fst ` set al' = set (drop head' order))"
  using assms
proof (induction limit al order head rule: evict.induct)
  case (1 limit al order head)
  show ?case
  proof (cases "length al > limit")
    case False
    then have "evict limit al order head = Some (al, head)" by (subst evict.simps) simp
    with False "1.prems" show ?thesis by auto
  next
    case True
    then have "al \<noteq> []" by auto
    then have "head < length order" using "1.prems"(1) by (cases "head < length order") auto
    note dr = drop_head [OF this]
    let ?al = "AList.delete (order ! head) al"
    have eq: "evict limit al order head = evict limit ?al order (head + 1)"
      using True \<open>head < length order\<close> by (subst evict.simps) simp
    have k: "fst ` set ?al \<subseteq> set (drop (head + 1) order)" "distinct (map fst ?al)" "set ?al \<subseteq> set al"
      using "1.prems"(1,3) dr by (auto simp: delete_keys AList.delete_eq distinct_map_filter)
    have ex: "distinct (drop head order) \<and> fst ` set al = set (drop head order) \<longrightarrow>
        distinct (drop (head + 1) order) \<and> fst ` set ?al = set (drop (head + 1) order)"
      using dr by (auto simp: delete_keys)
    from "1.IH" [OF True \<open>head < length order\<close> k(1) _ k(2)] \<open>head < length order\<close> obtain al' head' where
      r: "evict limit ?al order (head + 1) = Some (al', head')" "length al' \<le> limit" "head' \<le> length order"
      "fst ` set al' \<subseteq> set (drop head' order)" "distinct (map fst al')" "set al' \<subseteq> set ?al" "head + 1 \<le> head'"
      "distinct (drop (head + 1) order) \<and> fst ` set ?al = set (drop (head + 1) order) \<longrightarrow>
        fst ` set al' = set (drop head' order)" by auto
    show ?thesis
      unfolding eq using r(1) by (intro exI [of _ al'] exI [of _ head'] conjI) (use r k(3) ex in auto)
  qed
qed

lemma length_keys: "distinct (map fst al) \<Longrightarrow> length al = card (fst ` set al)"
  by (metis distinct_card length_map set_map)

lemma set_update_subset: "set (AList.update k v al) \<subseteq> insert (k, v) (set al)"
  by (induction al) auto

lemma map_of_None_keys: "map_of al k = None \<longleftrightarrow> k \<notin> fst ` set al"
  by (rule map_of_eq_None_iff)

lemma length_update:
  "distinct (map fst al) \<Longrightarrow> length (AList.update k v al) = (if map_of al k = None then Suc (length al) else length al)"
  by (induction al) auto

text \<open>The fields an operation on the packet history leaves alone.\<close>

lemma storePacket_ok:
  assumes "packets_inv st"
  shows "\<exists>p ord h. storePacket st pid data = Some (st\<lparr>rs_packets := p, rs_packetOrder := ord, rs_packetHead := h\<rparr>) \<and>
     packets_inv (st\<lparr>rs_packets := p, rs_packetOrder := ord, rs_packetHead := h\<rparr>)"
proof (cases "map_of (rs_packets st) pid = None")
  case False
  then have "storePacket st pid data = Some (st\<lparr>rs_packets := rs_packets st, rs_packetOrder := rs_packetOrder st,
      rs_packetHead := rs_packetHead st\<rparr>)" by (simp add: storePacket_def)
  with assms show ?thesis
    by (intro exI [of _ "rs_packets st"] exI [of _ "rs_packetOrder st"] exI [of _ "rs_packetHead st"] conjI) simp_all
next
  case True
  let ?al = "AList.update pid data (rs_packets st)" and ?ord = "rs_packetOrder st @ [pid]" and ?h = "rs_packetHead st"
  have i: "distinct (map fst (rs_packets st))" "?h \<le> length (rs_packetOrder st)" "distinct (drop ?h (rs_packetOrder st))"
    "set (drop ?h (rs_packetOrder st)) = fst ` set (rs_packets st)" "?h < recoveryHistorySize"
    using assms by (simp_all add: packets_inv_def)
  have d: "drop ?h ?ord = drop ?h (rs_packetOrder st) @ [pid]" using i(2) by simp
  have keys: "fst ` set ?al = set (drop ?h ?ord)" "distinct (map fst ?al)" "distinct (drop ?h ?ord)"
    using i True by (auto simp: d AList.dom_update AList.distinct_update map_of_None_keys)
  from evict_correct [of ?al ?h ?ord recoveryHistorySize] keys i(2) obtain al' h' where
    e: "evict recoveryHistorySize ?al ?ord ?h = Some (al', h')" "length al' \<le> recoveryHistorySize" "h' \<le> length ?ord"
      "distinct (map fst al')" "fst ` set al' = set (drop h' ?ord)" "?h \<le> h'" by auto
  have dd: "distinct (drop h' ?ord)"
    using keys(3) e(6) by (metis distinct_drop drop_drop le_add_diff_inverse2)
  let ?r = "if h' \<ge> recoveryHistorySize then (drop h' ?ord, 0) else (?ord, h')"
  have "storePacket st pid data = Some (st\<lparr>rs_packets := al', rs_packetOrder := fst ?r, rs_packetHead := snd ?r\<rparr>)"
    using True e(1) by (simp add: storePacket_def Let_def)
  moreover have "packets_inv (st\<lparr>rs_packets := al', rs_packetOrder := fst ?r, rs_packetHead := snd ?r\<rparr>)"
    using e dd by (auto simp: packets_inv_def recovery_limits)
  ultimately show ?thesis by blast
qed

lemma compacted:
  defines "keep \<equiv> \<lambda>groups previous kept. if map_of groups previous \<noteq> None \<and> previous \<notin> set kept then kept @ [previous] else kept"
  shows "set (fold (keep groups) xs kept) = set kept \<union> (set xs \<inter> fst ` set groups) \<and>
     (distinct kept \<longrightarrow> distinct (fold (keep groups) xs kept))"
  by (induction xs arbitrary: kept) (auto simp: keep_def map_of_None_keys)

lemma storeGroup_ok:
  assumes "groups_inv st" "group_ok grp"
  shows "\<exists>g ord h. storeGroup st gid grp = Some (st\<lparr>rs_groups := g, rs_groupOrder := ord, rs_groupHead := h\<rparr>) \<and>
     groups_inv (st\<lparr>rs_groups := g, rs_groupOrder := ord, rs_groupHead := h\<rparr>)"
proof -
  let ?keep = "\<lambda>previous kept. if map_of (rs_groups st) previous \<noteq> None \<and> previous \<notin> set kept then kept @ [previous] else kept"
  let ?live = "drop (rs_groupHead st) (rs_groupOrder st)"
  define ord h where "ord = (if length (rs_groupOrder st) \<ge> 2 * recoveryGroupLimit then fold ?keep ?live [] else rs_groupOrder st)"
    and "h = (if length (rs_groupOrder st) \<ge> 2 * recoveryGroupLimit then 0 else rs_groupHead st)"
  define ord' where "ord' = (if map_of (rs_groups st) gid = None then ord @ [gid] else ord)"
  let ?al = "AList.update gid grp (rs_groups st)"
  have i: "distinct (map fst (rs_groups st))" "rs_groupHead st \<le> length (rs_groupOrder st)"
    "fst ` set (rs_groups st) \<subseteq> set ?live" "length (rs_groups st) \<le> recoveryGroupLimit"
    "length (rs_groupOrder st) \<le> 2 * recoveryGroupLimit" "list_all (group_ok \<circ> snd) (rs_groups st)"
    using assms(1) by (simp_all add: groups_inv_def)
  have c: "set (fold ?keep ?live []) = fst ` set (rs_groups st)" "distinct (fold ?keep ?live [])"
    using compacted [of "rs_groups st" ?live "[]"] i(3) by auto
  have "length (fold ?keep ?live []) = length (rs_groups st)"
    using c distinct_card [OF c(2)] length_keys [OF i(1)] by simp
  then have ol: "length ord < 2 * recoveryGroupLimit" "h \<le> length ord" "fst ` set (rs_groups st) \<subseteq> set (drop h ord)"
    using i c by (auto simp: ord_def h_def recovery_limits)
  have o': "length ord' \<le> 2 * recoveryGroupLimit" "h \<le> length ord'" "fst ` set ?al \<subseteq> set (drop h ord')"
    using ol by (auto simp: ord'_def AList.dom_update map_of_None_keys)
  from evict_correct [OF o'(3,2), of recoveryGroupLimit] AList.distinct_update [OF i(1)] obtain al' h' where
    e: "evict recoveryGroupLimit ?al ord' h = Some (al', h')" "length al' \<le> recoveryGroupLimit" "h' \<le> length ord'"
      "distinct (map fst al')" "fst ` set al' \<subseteq> set (drop h' ord')" "set al' \<subseteq> set ?al" by auto
  have ok: "list_all (group_ok \<circ> snd) al'"
    using e(6) set_update_subset [of gid grp "rs_groups st"] i(6) assms(2) by (auto simp: list_all_iff)
  let ?r = "if h' \<ge> recoveryGroupLimit then (drop h' ord', 0) else (ord', h')"
  have "storeGroup st gid grp = Some (st\<lparr>rs_groups := al', rs_groupOrder := fst ?r, rs_groupHead := snd ?r\<rparr>)"
    using e(1) by (auto simp: storeGroup_def Let_def ord'_def ord_def h_def)
  moreover have "groups_inv (st\<lparr>rs_groups := al', rs_groupOrder := fst ?r, rs_groupHead := snd ?r\<rparr>)"
    using e o'(1) ok by (auto simp: groups_inv_def)
  ultimately show ?thesis by blast
qed

lemma storePacket_inv:
  assumes "recovery_inv st"
  obtains st' where "storePacket st pid data = Some st'" "recovery_inv st'" "rs_groups st' = rs_groups st"
    "rs_streams st' = rs_streams st"
proof -
  from storePacket_ok [of st pid data] assms obtain p ord h where
    s: "storePacket st pid data = Some (st\<lparr>rs_packets := p, rs_packetOrder := ord, rs_packetHead := h\<rparr>)"
    "packets_inv (st\<lparr>rs_packets := p, rs_packetOrder := ord, rs_packetHead := h\<rparr>)" by (auto simp: recovery_inv_def)
  show thesis by (rule that [OF s(1)]) (use assms s(2) in \<open>simp_all add: recovery_inv_def groups_inv_def streams_inv_def\<close>)
qed

lemma storeGroup_inv:
  assumes "recovery_inv st" "group_ok grp"
  obtains st' where "storeGroup st gid grp = Some st'" "recovery_inv st'"
proof -
  from storeGroup_ok [of st grp gid] assms obtain g ord h where
    s: "storeGroup st gid grp = Some (st\<lparr>rs_groups := g, rs_groupOrder := ord, rs_groupHead := h\<rparr>)"
    "groups_inv (st\<lparr>rs_groups := g, rs_groupOrder := ord, rs_groupHead := h\<rparr>)" by (auto simp: recovery_inv_def)
  show thesis by (rule that [OF s(1)]) (use assms s(2) in \<open>simp_all add: recovery_inv_def packets_inv_def streams_inv_def\<close>)
qed

lemma recovery_inv_streams:
  "recovery_inv st \<Longrightarrow> streams_inv (st\<lparr>rs_streams := xs\<rparr>) \<Longrightarrow> recovery_inv (st\<lparr>rs_streams := xs\<rparr>)"
  by (simp add: recovery_inv_def packets_inv_def groups_inv_def)

lemma set_stream_inv [simp]: "recovery_inv st \<Longrightarrow> recovery_inv (set_stream sid stream st)"
  by (auto simp: set_stream_def streams_inv_def recovery_inv_def AList.distinct_update length_update
      intro!: recovery_inv_streams [unfolded recovery_inv_def])
    (auto simp: packets_inv_def groups_inv_def)

lemma set_stream_groups [simp]: "rs_groups (set_stream sid stream st) = rs_groups st"
  by (simp add: set_stream_def)

lemma forget_missing_inv [simp]:
  "recovery_inv st \<Longrightarrow> recovery_inv (forget_missing pid st)" "rs_groups (forget_missing pid st) = rs_groups st"
  by (simp_all add: forget_missing_def split: option.split)

lemma trimStreams_inv [simp]: "recovery_inv st \<Longrightarrow> recovery_inv (trimStreams st now)"
  unfolding trimStreams_def
  by (rule recovery_inv_streams)
    (auto simp: recovery_inv_def streams_inv_def distinct_map_filter intro: le_trans [OF length_filter_le])

lemma trimOldest_shrinks:
  assumes "streams_inv st" "rs_streams st \<noteq> []"
  shows "\<exists>sid. trimOldestStream st = st\<lparr>rs_streams := AList.delete sid (rs_streams st)\<rparr> \<and>
     length (AList.delete sid (rs_streams st)) < length (rs_streams st)"
proof -
  let ?f = "\<lambda>found (sid, stream). case found of None \<Rightarrow> Some (sid, rst_lastTouched stream)
      | Some (oldestID, oldest) \<Rightarrow> if oldest = 0 \<or> rst_lastTouched stream < oldest then Some (sid, rst_lastTouched stream) else found"
  have keep: "foldl ?f found xs \<noteq> None \<and> fst (the (foldl ?f found xs)) \<in> insert (fst (the found)) (fst ` set xs)"
    if "found \<noteq> None" for found and xs :: "(recoveryStreamID \<times> recoveryStream) list"
    using that
  proof (induction xs arbitrary: found)
    case (Cons x xs)
    obtain sid stream where x: "x = (sid, stream)" by fastforce
    have "?f found x \<noteq> None \<and> fst (the (?f found x)) \<in> {fst (the found), sid}"
      using Cons.prems by (auto simp: x split: option.splits prod.splits)
    with Cons.IH [of "?f found x"] show ?case by (auto simp: x)
  qed simp
  obtain x xs where xs: "rs_streams st = x # xs" using assms(2) by (cases "rs_streams st") auto
  have "foldl ?f None (rs_streams st) = foldl ?f (Some (fst x, rst_lastTouched (snd x))) xs"
    by (simp add: xs case_prod_unfold)
  moreover obtain sid t where r: "foldl ?f (Some (fst x, rst_lastTouched (snd x))) xs = Some (sid, t)"
    using keep [of "Some (fst x, rst_lastTouched (snd x))" xs] by fastforce
  moreover have "sid \<in> fst ` set (rs_streams st)"
    using keep [of "Some (fst x, rst_lastTouched (snd x))" xs] unfolding r xs by simp
  ultimately have f: "foldl ?f None (rs_streams st) = Some (sid, t)" "sid \<in> fst ` set (rs_streams st)" by simp_all
  have "length (AList.delete sid (rs_streams st)) < length (rs_streams st)"
    using f(2) by (auto simp: AList.delete_eq intro!: length_filter_less)
  then show ?thesis using f(1) by (auto simp: trimOldestStream_def)
qed

lemma streamLocked_inv:
  assumes "recovery_inv st" "streamLocked st sid now = (st', stream)"
  shows "recovery_inv st'" "rs_groups st' = rs_groups st"
proof -
  let ?st1 = "if length (rs_streams st) \<ge> recoveryStreamLimit then trimOldestStream st else st"
  have inv: "streams_inv st" using assms(1) by (simp add: recovery_inv_def)
  have st1: "\<exists>xs. ?st1 = st\<lparr>rs_streams := xs\<rparr> \<and> distinct (map fst xs) \<and> length xs < recoveryStreamLimit"
  proof (cases "length (rs_streams st) \<ge> recoveryStreamLimit")
    case True
    then have ne: "rs_streams st \<noteq> []" by (auto simp: recovery_limits)
    from trimOldest_shrinks [OF inv ne] True inv show ?thesis
      by (auto simp: streams_inv_def AList.distinct_delete)
  next
    case False
    have "st = st\<lparr>rs_streams := rs_streams st\<rparr>" by simp
    then have "?st1 = st\<lparr>rs_streams := rs_streams st\<rparr> \<and> distinct (map fst (rs_streams st)) \<and>
        length (rs_streams st) < recoveryStreamLimit"
      using False inv by (simp only: streams_inv_def) simp
    then show ?thesis ..
  qed
  then obtain xs where xs: "?st1 = st\<lparr>rs_streams := xs\<rparr>" "distinct (map fst xs)" "length xs < recoveryStreamLimit" by blast
  have "st' = st \<or> st' = st\<lparr>rs_streams := AList.update sid stream xs\<rparr>"
    using assms(2) xs(1) by (auto simp: streamLocked_def Let_def split: option.splits)
  moreover have "streams_inv (st\<lparr>rs_streams := AList.update sid stream xs\<rparr>)"
    using xs(2,3) by (simp add: streams_inv_def AList.distinct_update length_update)
  ultimately show "recovery_inv st'" "rs_groups st' = rs_groups st"
    using assms(1) recovery_inv_streams by auto
qed

section \<open>No operation panics\<close>

lemma xor_entries_total:
  "\<forall>e \<in> set es. e_length e \<le> length d \<Longrightarrow>
     \<exists>r. xor_entries stored es d w = Some r \<and>
       (\<forall>d' w'. r = Some (d', w') \<longrightarrow> length d' = length d \<and> (w' = w \<or> w' \<in> Some ` set es))"
proof (induction es arbitrary: d w)
  case (Cons e es)
  show ?case
  proof (cases "stored (e_id e)")
    case None
    with Cons.IH [of d "Some e"] Cons.prems show ?thesis by fastforce
  next
    case (Some p)
    show ?thesis
    proof (cases "length p = e_length e")
      case True
      then have "length p \<le> length d" using Cons.prems by simp
      then obtain d1 where "xor_into d p = Some d1" "length d1 = length d" using xor_into_nth [of p d] by blast
      with Cons.IH [of d1 w] Cons.prems Some True show ?thesis by fastforce
    qed (simp add: Some)
  qed
qed simp

lemma recoverGroup_inv:
  assumes "recovery_inv st" "group_ok grp"
  obtains st' d missing where "recoverGroup st grp = Some (st', d, missing)" "recovery_inv st'" "rs_groups st' = rs_groups st"
proof -
  let ?stored = "map_of (rs_packets st)"
  let ?missing = "map (pid_sequenceNumber \<circ> e_id) (absent ?stored (g_entries grp))"
  have len: "\<forall>e \<in> set (g_entries grp). e_length e \<le> length (g_parity grp)"
    using assms(2) by (simp add: group_ok_def list_all_iff)
  from xor_entries_total [OF this, of ?stored None] obtain r where
    r: "xor_entries ?stored (g_entries grp) (g_parity grp) None = Some r"
    "\<forall>d' w'. r = Some (d', w') \<longrightarrow> length d' = length (g_parity grp) \<and> (w' = None \<or> w' \<in> Some ` set (g_entries grp))"
    by blast
  consider "length ?missing \<noteq> 1" | "length ?missing = 1" "\<forall>d w. r \<noteq> Some (d, Some w)"
    | d w where "length ?missing = 1" "r = Some (d, Some w)" by blast
  then show thesis
  proof cases
    case 1
    then have "recoverGroup st grp = Some (st, None, ?missing)" by (simp add: recoverGroup_def)
    then show thesis using that assms(1) by blast
  next
    case 2
    then have "recoverGroup st grp = Some (st, None, ?missing)"
      using r(1) by (auto simp: recoverGroup_def Let_def split: option.splits)
    then show thesis using that assms(1) by blast
  next
    case 3
    then have w: "e_length w \<le> length d" using r(2) len by auto
    obtain st1 where "storePacket st (e_id w) (take (e_length w) d) = Some st1" "recovery_inv st1"
      "rs_groups st1 = rs_groups st" by (rule storePacket_inv [OF assms(1)])
    then show thesis
      using that [of "forget_missing (e_id w) st1"] 3 r(1) w by (auto simp: recoverGroup_def Let_def)
  qed
qed

lemma delete_group_inv: "recovery_inv st \<Longrightarrow> recovery_inv (st\<lparr>rs_groups := AList.delete gid (rs_groups st)\<rparr>)"
  by (auto simp: recovery_inv_def packets_inv_def streams_inv_def groups_inv_def delete_keys distinct_map_filter
      list_all_iff AList.delete_eq intro: le_trans [OF length_filter_le])

lemma recover_pending_inv:
  "recovery_inv st \<Longrightarrow> list_all (group_ok \<circ> snd) gs \<Longrightarrow>
     \<exists>st' c'. recover_pending gs st c arrived remote = Some (st', c') \<and> recovery_inv st'"
proof (induction gs arbitrary: st c)
  case (Cons g gs)
  obtain gid grp where g: "g = (gid, grp)" by fastforce
  have ok: "group_ok grp" "list_all (group_ok \<circ> snd) gs" using Cons.prems(2) g by (simp_all add: o_def)
  obtain st1 d missing where r: "recoverGroup st grp = Some (st1, d, missing)" "recovery_inv st1"
    by (rule recoverGroup_inv [OF Cons.prems(1) ok(1)])
  show ?case
    using Cons.IH [OF Cons.prems(1) ok(2)] Cons.IH [OF r(2) ok(2)] Cons.IH [OF delete_group_inv [OF r(2)] ok(2)] r(1)
    by (auto simp: g Let_def split: option.splits)
qed simp

lemma recovery_inv_since [simp]: "recovery_inv (st\<lparr>rs_packetsSince := n\<rparr>) = recovery_inv st"
  by (simp add: recovery_inv_def packets_inv_def groups_inv_def streams_inv_def)

lemma remember_finish_inv: "recovery_inv st \<Longrightarrow> recovery_inv (fst (remember_finish st c pid stream now))"
  by (simp add: remember_finish_def Let_def case_prod_unfold)

lemma remember_inv:
  assumes "recovery_inv st"
  shows "\<exists>st' c' request. remember allow st c pid data remote now = Some (st', c', request) \<and> recovery_inv st'"
proof -
  obtain st1 where st1: "storePacket st pid data = Some st1" "recovery_inv st1" by (rule storePacket_inv [OF assms])
  obtain st2 stream where s2: "streamLocked st1 (streamID pid) now = (st2, stream)" by fastforce
  have inv2: "recovery_inv st2" by (rule streamLocked_inv(1) [OF st1(2) s2])
  define stream2 where "stream2 = stream_arrived st2 pid now stream"
  define st3 where "st3 = set_stream (streamID pid) stream2 st2"
  have inv3: "recovery_inv st3" using inv2 by (simp add: st3_def)
  then have "list_all (group_ok \<circ> snd) (rs_groups st3)" by (simp add: recovery_inv_def groups_inv_def)
  from recover_pending_inv [OF inv3 this, of c pid remote] obtain st4 c1 where
    r: "recover_pending (rs_groups st3) st3 c pid remote = Some (st4, c1)" "recovery_inv st4" by blast
  obtain st5 c2 request where f: "remember_finish st4 c1 pid stream2 now = (st5, c2, request)"
    by (cases "remember_finish st4 c1 pid stream2 now") auto
  have "recovery_inv st5" using remember_finish_inv [OF r(2), of c1 pid stream2 now] f by simp
  moreover have "remember allow st c pid data remote now \<in> {Some (st, c, []), Some (st5, c2, request)}"
    using st1(1) s2 r(1) f set_stream_groups [of "streamID pid" stream2 st2, folded st3_def]
    by (simp add: remember_def Let_def stream2_def [symmetric] st3_def [symmetric])
  ultimately show ?thesis using assms by blast
qed

lemma parse_group_ok:
  assumes "parse_group data remote = Some (grp, gid)"
  shows "group_ok grp" "group_ok (grp\<lparr>g_entries := map (\<lambda>e. e\<lparr>e_id := (e_id e)\<lparr>pid_remote := r\<rparr>\<rparr>) (g_entries grp)\<rparr>)"
proof -
  obtain es n where e: "g_entries grp = es" "length data = n + foldl max 0 (map e_length es)" "g_parity grp = drop n data"
    using assms by (auto simp: parse_group_def Let_def split: if_splits option.splits)
  then have "list_all (\<lambda>e. e_length e \<le> length (g_parity grp)) (g_entries grp)"
    using foldl_max_bound [of 0 "map e_length es"] by (simp add: list_all_iff)
  then show "group_ok grp" "group_ok (grp\<lparr>g_entries := map (\<lambda>e. e\<lparr>e_id := (e_id e)\<lparr>pid_remote := r\<rparr>\<rparr>) (g_entries grp)\<rparr>)"
    by (simp_all add: group_ok_def list_all_iff)
qed

lemma consume_group_inv:
  assumes "recovery_inv st" "group_ok grp"
  shows "\<exists>st' d request. consume_group st gid grp now = Some (st', d, request) \<and> recovery_inv st'"
proof -
  define sid where "sid = \<lparr>sid_remote = gid_remote gid, sid_ssrc = gid_ssrc gid\<rparr>"
  obtain st1 stream where s1: "streamLocked st sid now = (st1, stream)" by fastforce
  define st2 where "st2 = set_stream sid (stream\<lparr>rst_enabled := True, rst_lastTouched := now\<rparr>) st1"
  have inv2: "recovery_inv st2" using streamLocked_inv(1) [OF assms(1) s1] by (simp add: st2_def)
  obtain st3 d missing where r: "recoverGroup st2 grp = Some (st3, d, missing)" "recovery_inv st3"
    by (rule recoverGroup_inv [OF inv2 assms(2)])
  obtain st4 where "storeGroup st3 gid grp = Some st4" "recovery_inv st4" by (rule storeGroup_inv [OF r(2) assms(2)])
  then show ?thesis
    using s1 r by (simp add: consume_group_def sid_def [symmetric] st2_def [symmetric] Let_def case_prod_unfold)
qed

lemma consumeParity_inv:
  assumes "recovery_inv st"
  shows "\<exists>st' d request. consumeParity allow st c data remote now = Some (st', d, request) \<and> recovery_inv st'"
proof (cases "parse_group data remote")
  case None
  then show ?thesis using assms by (simp add: consumeParity_def)
next
  case (Some pg)
  then obtain grp gid where parse: "parse_group data remote = Some (grp, gid)" by (cases pg) auto
  have ok: "group_ok (grp\<lparr>g_entries := map (\<lambda>e. e\<lparr>e_id := (e_id e)\<lparr>pid_remote := identityLocked c remote\<rparr>\<rparr>) (g_entries grp)\<rparr>)"
    by (rule parse_group_ok(2) [OF parse])
  show ?thesis
    using consume_group_inv [OF assms ok, of "gid\<lparr>gid_remote := identityLocked c remote\<rparr>" now] assms parse
    by (simp add: consumeParity_def)
qed

section \<open>What the tables hold\<close>

text \<open>Stored packets and parities are no longer than what \<^verbatim>\<open>allowRecovery\<close> lets in, a group has at most 32 entries, and a
  stream lists a missing number once.\<close>

definition missing_ok :: "recoveryStream \<Rightarrow> bool" where
  "missing_ok stream \<longleftrightarrow> distinct (map fst (rst_missing stream))"

definition small_group :: "recoveryGroup \<Rightarrow> bool" where
  "small_group grp \<longleftrightarrow> length (g_parity grp) \<le> 8192 \<and> length (g_entries grp) \<le> 32"

definition values_ok :: "('v \<Rightarrow> bool) \<Rightarrow> ('k \<times> 'v) list \<Rightarrow> bool" where
  "values_ok P al \<longleftrightarrow> list_all (\<lambda>(k, v). P v) al"

definition small_packet :: "bytes \<Rightarrow> bool" where
  "small_packet data \<longleftrightarrow> length data \<le> 8192"

definition content_ok :: "recoveryState \<Rightarrow> bool" where
  "content_ok st \<longleftrightarrow> values_ok small_packet (rs_packets st) \<and> values_ok small_group (rs_groups st) \<and> values_ok missing_ok (rs_streams st)"

lemma values_subset: "values_ok P al \<Longrightarrow> set al' \<subseteq> set al \<Longrightarrow> values_ok P al'"
  by (auto simp: values_ok_def list_all_iff)

lemma values_update: "values_ok P al \<Longrightarrow> P v \<Longrightarrow> values_ok P (AList.update k v al)"
  using set_update_subset [of k v al] by (auto simp: values_ok_def list_all_iff)

lemma values_delete: "values_ok P al \<Longrightarrow> values_ok P (AList.delete k al)"
  by (erule values_subset) (auto simp: AList.delete_eq)

lemma values_filter: "values_ok P al \<Longrightarrow> values_ok P (filter Q al)"
  by (erule values_subset) auto

lemma values_map_of: "values_ok P al \<Longrightarrow> map_of al k = Some v \<Longrightarrow> P v"
  using map_of_SomeD [of al k v] by (auto simp: values_ok_def list_all_iff)

lemma evict_subset: "evict limit al order head = Some (al', head') \<Longrightarrow> set al' \<subseteq> set al"
proof (induction limit al order head rule: evict.induct)
  case (1 limit al order head)
  show ?case
  proof (cases "length al > limit")
    case True
    then have "head < length order" "evict limit (AList.delete (order ! head) al) order (head + 1) = Some (al', head')"
      using "1.prems" by (auto simp: evict.simps [of limit al order head] split: if_splits)
    with "1.IH" [OF True] show ?thesis by (auto simp: AList.delete_eq)
  qed (use "1.prems" in \<open>simp add: evict.simps [of limit al order head]\<close>)
qed

lemma storePacket_content:
  assumes "storePacket st pid data = Some st'" "content_ok st" "small_packet data"
  shows "content_ok st'" "rs_groups st' = rs_groups st"
proof -
  have "values_ok small_packet (rs_packets st')" "rs_groups st' = rs_groups st" "rs_streams st' = rs_streams st"
    using assms(1) values_update [of small_packet "rs_packets st" data pid] assms(2,3)
    by (auto simp: storePacket_def content_ok_def Let_def bind_eq_Some_conv split: if_splits dest!: evict_subset intro: values_subset)
  then show "content_ok st'" "rs_groups st' = rs_groups st" using assms(2) by (simp_all add: content_ok_def)
qed

lemma storeGroup_content:
  assumes "storeGroup st gid grp = Some st'" "content_ok st" "small_group grp"
  shows "content_ok st'"
proof -
  obtain order head groups head' where e: "evict recoveryGroupLimit (AList.update gid grp (rs_groups st)) order head = Some (groups, head')"
    "rs_groups st' = groups" "rs_packets st' = rs_packets st" "rs_streams st' = rs_streams st"
    using assms(1) by (auto simp: storeGroup_def Let_def bind_eq_Some_conv split: if_splits prod.splits)
  then show ?thesis
    using assms(2,3) values_subset [OF values_update evict_subset [OF e(1)]] by (simp add: content_ok_def)
qed

lemma content_streams: "content_ok st \<Longrightarrow> values_ok missing_ok xs \<Longrightarrow> content_ok (st\<lparr>rs_streams := xs\<rparr>)"
  by (simp add: content_ok_def)

lemma set_stream_content: "content_ok st \<Longrightarrow> missing_ok stream \<Longrightarrow> content_ok (set_stream sid stream st)"
  by (simp add: set_stream_def content_ok_def values_update)

lemma missing_delete: "missing_ok stream \<Longrightarrow> missing_ok (stream\<lparr>rst_missing := AList.delete m (rst_missing stream)\<rparr>)"
  by (simp add: missing_ok_def AList.distinct_delete)

lemma forget_missing_content: "content_ok st \<Longrightarrow> content_ok (forget_missing pid st)"
proof (cases "map_of (rs_streams st) (streamID pid)")
  case (Some stream)
  assume ok: "content_ok st"
  then have "missing_ok stream" using Some values_map_of by (auto simp: content_ok_def)
  from set_stream_content [OF ok missing_delete [OF this]] show ?thesis by (simp add: forget_missing_def Some)
qed (simp add: forget_missing_def)

lemma trimStreams_content: "content_ok st \<Longrightarrow> content_ok (trimStreams st now)"
  by (simp add: trimStreams_def content_ok_def values_filter)

lemma trimOldestStream_content: "content_ok st \<Longrightarrow> content_ok (trimOldestStream st)"
  unfolding trimOldestStream_def by (simp add: content_ok_def values_delete split: option.split)

lemma streamLocked_content:
  assumes "content_ok st" "streamLocked st sid now = (st', stream)"
  shows "content_ok st'" "missing_ok stream"
proof (atomize (full), cases "map_of (rs_streams st) sid")
  case (Some s)
  then have "stream = s" "st' = st" using assms(2) by (simp_all add: streamLocked_def)
  then show "content_ok st' \<and> missing_ok stream" using assms(1) Some values_map_of by (auto simp: content_ok_def)
next
  case None
  let ?st1 = "if length (rs_streams st) \<ge> recoveryStreamLimit then trimOldestStream st else st"
  have ok: "content_ok ?st1" using assms(1) trimOldestStream_content by simp
  have st': "st' = ?st1\<lparr>rs_streams := AList.update sid stream (rs_streams ?st1)\<rparr>" and new: "missing_ok stream"
    using assms(2) None by (auto simp: streamLocked_def Let_def missing_ok_def)
  have "content_ok st'" unfolding st'
    by (rule content_streams [OF ok], rule values_update) (use ok new in \<open>simp_all add: content_ok_def\<close>)
  with new show "content_ok st' \<and> missing_ok stream" by simp
qed

lemma listed_ok: "missing_ok stream \<Longrightarrow> missing_ok (stream_listed missing stream)"
proof -
  let ?f = "\<lambda>ms m. if map_of ms m \<noteq> None then ms else AList.update m (0 :: instant) ms"
  have "distinct (map fst ms) \<Longrightarrow> distinct (map fst (foldl ?f ms xs))" for ms :: "(u16 \<times> instant) list" and xs
    by (induction xs arbitrary: ms) (simp_all add: AList.distinct_update)
  then show "missing_ok stream \<Longrightarrow> missing_ok (stream_listed missing stream)" by (simp add: missing_ok_def stream_listed_def)
qed

lemma trackGap_ok:
  assumes "missing_ok s"
  shows "missing_ok (trackGap st pid s)"
proof -
  let ?q = "pid_sequenceNumber pid" and ?h = "rst_highest s"
  let ?f = "\<lambda>ms off. let m = ?h + of_nat off in if map_of (rs_packets st) (pid\<lparr>pid_sequenceNumber := m\<rparr>) \<noteq> None then ms
      else if map_of ms m \<noteq> None then ms else AList.update m (0 :: instant) ms"
  have add: "distinct (map fst (foldl ?f ms offs))" if "distinct (map fst ms)" for ms :: "(u16 \<times> instant) list" and offs :: "nat list"
    using that by (induction offs arbitrary: ms) (simp_all add: AList.distinct_update Let_def)
  define kept where "kept = (if ?q - ?h > 1 then filter (\<lambda>(m, t). \<not> unat (?q - m) \<ge> recoveryHistorySize) (rst_missing s) else rst_missing s)"
  have "distinct (map fst kept)" using assms by (simp add: kept_def missing_ok_def distinct_map_filter)
  moreover have "rst_missing (trackGap st pid s) \<in> {rst_missing s,
      foldl ?f kept [nat (max 1 (int (unat (?q - ?h)) - int recoveryHistorySize + 1))..<unat (?q - ?h)]}"
    by (simp add: trackGap_def Let_def kept_def)
  ultimately show ?thesis using add assms by (auto simp: missing_ok_def)
qed

lemma arrived_ok: "missing_ok stream \<Longrightarrow> missing_ok (stream_arrived st pid now stream)"
  unfolding stream_arrived_def by (rule trackGap_ok) (simp add: missing_ok_def AList.distinct_delete)

lemma due_loop_distinct:
  "distinct (map fst (visited @ rest)) \<Longrightarrow> distinct (map fst (fst (due_loop stream now rest visited due)))"
  by (induction stream now rest visited due rule: due_loop.induct) (auto simp: Let_def)

lemma dueRepairs_ok: "missing_ok stream \<Longrightarrow> missing_ok (fst (dueRepairs stream now))"
  using due_loop_distinct [of "[]" "rst_missing stream" stream now "[]"]
  by (simp add: missing_ok_def dueRepairs_def case_prod_unfold Let_def)

lemma xor_entries_length: "xor_entries stored es d w = Some (Some (d', w')) \<Longrightarrow> length d' = length d"
  by (induction stored es d w rule: xor_entries.induct) (auto simp: xor_into_def split: option.splits if_splits)

lemma recoverGroup_cases:
  assumes "recoverGroup st grp = Some (st', datagram, missing)"
  obtains (unchanged) "st' = st" "datagram = None"
  | (recovered) data wanted st1 where
    "xor_entries (map_of (rs_packets st)) (g_entries grp) (g_parity grp) None = Some (Some (data, Some wanted))"
    "storePacket st (e_id wanted) (take (e_length wanted) data) = Some st1" "st' = forget_missing (e_id wanted) st1"
    "datagram = Some \<lparr>dg_data = take (e_length wanted) data, dg_addr = Some (g_remote grp), dg_identity = pid_remote (e_id wanted)\<rparr>"
proof (cases "length (absent (map_of (rs_packets st)) (g_entries grp)) = 1")
  case False
  then show thesis using assms unchanged by (simp add: recoverGroup_def)
next
  case one: True
  show thesis
  proof (cases "xor_entries (map_of (rs_packets st)) (g_entries grp) (g_parity grp) None")
    case None
    then show thesis using assms one by (simp add: recoverGroup_def)
  next
    case r: (Some r)
    show thesis
    proof (cases "\<exists>data w. r = Some (data, Some w)")
      case True
      then obtain data w where w: "r = Some (data, Some w)" by blast
      with assms one r recovered [of data w] show thesis by (auto simp: recoverGroup_def bind_eq_Some_conv split: if_splits)
    next
      case False
      then have "(case r of Some (data, Some wanted) \<Rightarrow> f data wanted | _ \<Rightarrow> x) = x"
        for f and x :: "(recoveryState \<times> recoveredDatagram option \<times> u16 list) option"
        by (auto split: option.split)
      then show thesis using assms one r unchanged by (simp add: recoverGroup_def)
    qed
  qed
qed

lemma recoverGroup_content:
  assumes "recoverGroup st grp = Some (st', datagram, missing)" "content_ok st" "small_group grp"
  shows "content_ok st'" "\<And>d. datagram = Some d \<Longrightarrow> small_packet (dg_data d)" "rs_groups st' = rs_groups st"
proof -
  have "content_ok st' \<and> (\<forall>d. datagram = Some d \<longrightarrow> small_packet (dg_data d)) \<and> rs_groups st' = rs_groups st"
    using assms(1)
  proof (cases rule: recoverGroup_cases)
    case (recovered data wanted st1)
    have len: "small_packet (take (e_length wanted) data)"
      using xor_entries_length [OF recovered(1)] assms(3) by (simp add: small_group_def small_packet_def min_le_iff_disj)
    from storePacket_content [OF recovered(2) assms(2) len] show ?thesis
      using recovered(3,4) len by (auto intro: forget_missing_content)
  qed (use assms(2) in simp)
  then show "content_ok st'" "\<And>d. datagram = Some d \<Longrightarrow> small_packet (dg_data d)" "rs_groups st' = rs_groups st" by simp_all
qed

lemma recover_pending_content:
  "recover_pending gs st c arrived remote = Some (st', c') \<Longrightarrow> content_ok st \<Longrightarrow> values_ok small_group gs \<Longrightarrow>
     content_ok st' \<and> length (rc_ready c') \<le> length (rc_ready c) + length gs \<and>
     (\<forall>d \<in> set (rc_ready c'). d \<in> set (rc_ready c) \<or> small_packet (dg_data d)) \<and>
     rc_reader c' = rc_reader c \<and> rc_pendingBindings c' = rc_pendingBindings c"
proof (induction gs arbitrary: st c)
  case (Cons g gs)
  obtain gid grp where g: "g = (gid, grp)" by fastforce
  show ?case
  proof (cases "list_ex (\<lambda>entry. e_id entry = arrived) (g_entries grp)")
    case False
    with Cons.prems Cons.IH [of st c] g show ?thesis by (auto simp: values_ok_def)
  next
    case True
    then obtain st1 d missing where r: "recoverGroup st grp = Some (st1, d, missing)"
      using Cons.prems(1) by (auto simp: g bind_eq_Some_conv)
    define st2 where "st2 = (if length missing \<le> 1 then st1\<lparr>rs_groups := AList.delete gid (rs_groups st1)\<rparr> else st1)"
    define c1 where "c1 = (case d of Some d \<Rightarrow> if length missing = 1 then c\<lparr>rc_ready := rc_ready c @ [d\<lparr>dg_addr := Some remote\<rparr>]\<rparr> else c | None \<Rightarrow> c)"
    have rest: "recover_pending gs st2 c1 arrived remote = Some (st', c')"
      using Cons.prems(1) True r by (simp add: g Let_def st2_def c1_def)
    have small: "small_group grp" "values_ok small_group gs" using Cons.prems(3) g by (simp_all add: values_ok_def)
    note ok = recoverGroup_content [OF r Cons.prems(2) small(1)]
    have ok2: "content_ok st2" using ok(1) by (simp add: st2_def content_ok_def values_delete)
    have "length (rc_ready c1) \<le> Suc (length (rc_ready c))" "rc_reader c1 = rc_reader c" "rc_pendingBindings c1 = rc_pendingBindings c"
      "\<forall>x \<in> set (rc_ready c1). x \<in> set (rc_ready c) \<or> small_packet (dg_data x)"
      using ok(2) by (auto simp: c1_def split: option.split)
    with Cons.IH [OF rest ok2 small(2)] show ?thesis by auto
  qed
qed simp

lemma get_stream_ok: "content_ok st \<Longrightarrow> missing_ok stream \<Longrightarrow> missing_ok (get_stream st sid stream)"
  using values_map_of [of missing_ok "rs_streams st" sid] by (simp add: get_stream_def content_ok_def split: option.split)

lemma remember_finish_content:
  assumes "content_ok st" "missing_ok stream"
  shows "content_ok (fst (remember_finish st c pid stream now))" "fst (snd (remember_finish st c pid stream now)) = c"
proof -
  define st1 where "st1 = st\<lparr>rs_packetsSince := rs_packetsSince st + 1\<rparr>"
  define st2 where "st2 = (if unat (rs_packetsSince st1) mod recoveryHistorySize = 0 then trimStreams st1 now else st1)"
  have "content_ok st1" using assms(1) by (simp add: st1_def content_ok_def)
  then have ok: "content_ok st2" by (simp add: st2_def trimStreams_content)
  note ok' = set_stream_content [OF ok dueRepairs_ok [OF get_stream_ok [OF ok assms(2)]]]
  show "content_ok (fst (remember_finish st c pid stream now))" "fst (snd (remember_finish st c pid stream now)) = c"
    using ok ok' unfolding remember_finish_def Let_def st1_def [symmetric] st2_def [symmetric]
    by (simp_all add: case_prod_unfold)
qed

lemma remember_content:
  assumes "remember allow st c pid data remote now = Some (st', c', request)" "recovery_inv st" "content_ok st"
  shows "content_ok st' \<and> length (rc_ready c') \<le> length (rc_ready c) + 256 \<and>
     (\<forall>d \<in> set (rc_ready c'). d \<in> set (rc_ready c) \<or> small_packet (dg_data d)) \<and>
     rc_reader c' = rc_reader c \<and> rc_pendingBindings c' = rc_pendingBindings c"
proof (cases "activeIdentity st (pid_remote pid) \<and> allowRecovery allow data (remember_cost st pid)")
  case False
  then show ?thesis using assms(1,3) by (auto simp: remember_def split: if_splits)
next
  case True
  then have small: "small_packet data" by (simp add: allowRecovery_def small_packet_def)
  from True obtain st1 where s1: "storePacket st pid data = Some st1"
    using assms(1) by (auto simp: remember_def bind_eq_Some_conv)
  note ok1 = storePacket_content [OF s1 assms(3) small]
  obtain st2 stream where s2: "streamLocked st1 (streamID pid) now = (st2, stream)" by fastforce
  note ok2 = streamLocked_content [OF ok1(1) s2]
  define stream2 where "stream2 = stream_arrived st2 pid now stream"
  define st3 where "st3 = set_stream (streamID pid) stream2 st2"
  have stream2: "missing_ok stream2" unfolding stream2_def by (rule arrived_ok [OF ok2(2)])
  have ok3: "content_ok st3" unfolding st3_def by (rule set_stream_content [OF ok2(1) stream2])
  have "recovery_inv st1" using storePacket_inv [OF assms(2), of pid data] s1 by (metis option.inject)
  then have "rs_groups st3 = rs_groups st1" using streamLocked_inv(2) [OF _ s2] by (simp add: st3_def)
  then have few: "length (rs_groups st3) \<le> 256" "rs_groups st3 = rs_groups st2"
    using ok1(2) assms(2) by (simp_all add: recovery_inv_def groups_inv_def recovery_limits) (simp add: st3_def)
  obtain st4 c1 where r: "recover_pending (rs_groups st3) st3 c pid remote = Some (st4, c1)"
    and f: "(st', c', request) = remember_finish st4 c1 pid stream2 now"
    using assms(1) True s1 s2 few(2)
    by (auto simp: remember_def Let_def stream2_def [symmetric] st3_def [symmetric] bind_eq_Some_conv)
  have "values_ok small_group (rs_groups st3)" using ok3 by (simp add: content_ok_def)
  note ok4 = recover_pending_content [OF r ok3 this]
  have "st' = fst (remember_finish st4 c1 pid stream2 now)" "c' = c1"
    using f remember_finish_content(2) [OF _ stream2, of st4 c1 pid now] ok4 by (metis fst_conv snd_conv)+
  then show ?thesis using remember_finish_content(1) [OF _ stream2] ok4 few(1) by auto
qed

lemma those_length: "those xs = Some ys \<Longrightarrow> length ys = length xs"
  by (induction xs arbitrary: ys) (auto split: option.splits)

lemma parse_group_small:
  assumes "parse_group data remote = Some (grp, gid)" "length data \<le> 8192"
  shows "small_group (grp\<lparr>g_entries := map f (g_entries grp)\<rparr>)"
  using assms by (auto simp: parse_group_def Let_def small_group_def dest!: those_length split: if_splits option.splits)

lemma consume_group_content:
  assumes "consume_group st gid grp now = Some (st', d, request)" "content_ok st" "small_group grp"
  shows "content_ok st'"
proof -
  define sid where "sid = \<lparr>sid_remote = gid_remote gid, sid_ssrc = gid_ssrc gid\<rparr>"
  obtain st1 stream where s1: "streamLocked st sid now = (st1, stream)" by fastforce
  note ok1 = streamLocked_content [OF assms(2) s1]
  define stream1 where "stream1 = stream\<lparr>rst_enabled := True, rst_lastTouched := now\<rparr>"
  have stream1: "missing_ok stream1" using ok1(2) by (simp add: stream1_def missing_ok_def)
  define st2 where "st2 = set_stream sid stream1 st1"
  have ok2: "content_ok st2" unfolding st2_def by (rule set_stream_content [OF ok1(1) stream1])
  obtain st3 dg m where r: "recoverGroup st2 grp = Some (st3, dg, m)"
    using assms(1) s1 by (auto simp: consume_group_def sid_def [symmetric] stream1_def [symmetric] st2_def [symmetric] Let_def bind_eq_Some_conv)
  note ok3 = recoverGroup_content(1) [OF r ok2 assms(3)]
  obtain stream2 due where u: "dueRepairs (stream_listed m stream1) now = (stream2, due)" by fastforce
  then have stream2: "missing_ok stream2" using dueRepairs_ok [OF listed_ok [OF stream1, of m], of now] by simp
  have "st' = st3 \<or> (\<exists>st4. storeGroup st3 gid grp = Some st4 \<and> st' = set_stream sid stream2 st4)"
    using assms(1) s1 r u
    by (auto simp: consume_group_def sid_def [symmetric] stream1_def [symmetric] st2_def [symmetric] Let_def bind_eq_Some_conv split: if_splits)
  then show ?thesis using ok3 storeGroup_content [OF _ ok3 assms(3)] set_stream_content [OF _ stream2] by auto
qed

lemma consumeParity_cases:
  assumes "consumeParity allow st c data remote now = Some (st', d, request)"
  obtains (ignored) "st' = st" "d = None" "request = []"
  | (parsed) grp gid where "length data \<le> 8192" "parse_group data remote = Some (grp, gid)" "activeIdentity st (identityLocked c remote)"
    "consume_group st (gid\<lparr>gid_remote := identityLocked c remote\<rparr>)
       (grp\<lparr>g_entries := map (\<lambda>e. e\<lparr>e_id := (e_id e)\<lparr>pid_remote := identityLocked c remote\<rparr>\<rparr>) (g_entries grp)\<rparr>) now = Some (st', d, request)"
proof (cases "parse_group data remote")
  case None
  then show thesis using assms ignored by (simp add: consumeParity_def split: if_splits)
next
  case (Some pg)
  then obtain grp gid where "parse_group data remote = Some (grp, gid)" by (cases pg) auto
  with assms ignored parsed show thesis by (simp add: consumeParity_def allowRecovery_def split: if_splits)
qed

lemma consumeParity_content:
  assumes "consumeParity allow st c data remote now = Some (st', d, request)" "content_ok st"
  shows "content_ok st'"
  using assms(1)
proof (cases rule: consumeParity_cases)
  case (parsed grp gid)
  show ?thesis by (rule consume_group_content [OF parsed(4) assms(2) parse_group_small [OF parsed(2,1)]])
qed (use assms(2) in simp)

section \<open>Runs\<close>

text \<open>What happens to the recovery state and the sockets over time: a socket is opened; its reader receives a datagram, takes its
  next section or returns a recovered datagram; a datagram is written to a socket; the mux opens and removes
  connections.  An event that does not fit the place of the reader changes nothing.\<close>

datatype recovery_event =
    EListen string
  | ERead nat bytes string
  | EParity nat "nat \<Rightarrow> bool" instant
  | ERemember nat "nat \<Rightarrow> bool" instant
  | EReceipt nat instant
  | EReady nat
  | EWrite nat bytes string
  | EGetConn string bool
  | ERemove string

definition newRecoveryConn :: "string \<Rightarrow> recoveryConn" where
  "newRecoveryConn local = \<lparr>rc_local = local, rc_reader = AtSocket, rc_ready = [], rc_pendingBindings = [], rc_identities = [], rc_deliveries = []\<rparr>"

definition at_conn :: "recoveryState \<times> recoveryConn list \<Rightarrow> nat \<Rightarrow>
    (recoveryConn \<Rightarrow> (recoveryState \<times> recoveryConn \<times> 'o) option) \<Rightarrow> (recoveryState \<times> recoveryConn list) option" where
  "at_conn s i f =
     (if i < length (snd s)
      then do { (st', c', _) \<leftarrow> f (snd s ! i); Some (st', (snd s)[i := c']) }
      else Some s)"

fun recovery_step :: "(bytes \<Rightarrow> stun_message option) \<Rightarrow> (bytes \<Rightarrow> bytes) \<Rightarrow>
    recoveryState \<times> recoveryConn list \<Rightarrow> recovery_event \<Rightarrow> (recoveryState \<times> recoveryConn list) option" where
  "recovery_step decode digest (st, cs) (EListen local) = Some (st, cs @ [newRecoveryConn local])"
| "recovery_step decode digest (st, cs) (ERead i data remote) =
     at_conn (st, cs) i (\<lambda>c. if rc_reader c = AtSocket \<and> rc_ready c = []
       then do { (c', out) \<leftarrow> ReadFrom_received decode st c data remote; Some (st, c', out) } else Some (st, c, None))"
| "recovery_step decode digest (st, cs) (EParity i allow now) = at_conn (st, cs) i (\<lambda>c. ReadFrom_parity allow st c now)"
| "recovery_step decode digest (st, cs) (ERemember i allow now) = at_conn (st, cs) i (\<lambda>c. ReadFrom_remember allow st c now)"
| "recovery_step decode digest (st, cs) (EReceipt i now) = at_conn (st, cs) i (\<lambda>c. ReadFrom_receipt digest st c now)"
| "recovery_step decode digest (st, cs) (EReady i) =
     at_conn (st, cs) i (\<lambda>c. if rc_reader c = AtSocket then (case popReady c of (c', out) \<Rightarrow> Some (st, c', out)) else Some (st, c, None))"
| "recovery_step decode digest (st, cs) (EWrite i data remote) =
     at_conn (st, cs) i (\<lambda>c. Some (st, recoveryConn_WriteTo decode st c data remote, ()))"
| "recovery_step decode digest (st, cs) (EGetConn ufrag opened) = Some (recoveryMux_GetConn st ufrag opened, cs)"
| "recovery_step decode digest (st, cs) (ERemove ufrag) = Some (RemoveConnByUfrag st cs ufrag)"

fun recovery_run :: "(bytes \<Rightarrow> stun_message option) \<Rightarrow> (bytes \<Rightarrow> bytes) \<Rightarrow>
    recoveryState \<times> recoveryConn list \<Rightarrow> recovery_event list \<Rightarrow> (recoveryState \<times> recoveryConn list) option" where
  "recovery_run decode digest s [] = Some s"
| "recovery_run decode digest s (e # es) = do { s' \<leftarrow> recovery_step decode digest s e; recovery_run decode digest s' es }"

lemma filtered_history:
  assumes "distinct (map fst al)" "set xs = fst ` set al"
  shows "set (filter P xs) = fst ` set (filter (\<lambda>(k, v). P k) al)"
  using assms(2) by force

lemma Remove_inv: "recovery_inv st \<Longrightarrow> recovery_inv (fst (RemoveConnByUfrag st cs ufrag))"
proof -
  let ?P = "\<lambda>s. \<not> HasPrefix s (ice_prefix @ ufrag @ '':'')"
  assume i: "recovery_inv st"
  have len: "length (filter Q xs) \<le> n" if "length xs \<le> n" for Q n and xs :: "'z list"
    using that length_filter_le [of Q xs] by linarith
  have p: "packets_inv (fst (RemoveConnByUfrag st cs ufrag))"
    using i filtered_history [of "rs_packets st" "drop (rs_packetHead st) (rs_packetOrder st)" "\<lambda>pid. ?P (pid_remote pid)"]
    by (simp add: recovery_inv_def packets_inv_def RemoveConnByUfrag_def Let_def distinct_map_filter len)
  have "fst ` set (filter (\<lambda>(gid, _). ?P (gid_remote gid)) (rs_groups st)) \<subseteq>
      set (filter (\<lambda>gid. ?P (gid_remote gid)) (drop (rs_groupHead st) (rs_groupOrder st)))"
    using i by (force simp: recovery_inv_def groups_inv_def)
  then have "groups_inv (fst (RemoveConnByUfrag st cs ufrag))"
    using i by (auto simp: recovery_inv_def groups_inv_def RemoveConnByUfrag_def Let_def distinct_map_filter len list_all_iff)
  moreover have "streams_inv (fst (RemoveConnByUfrag st cs ufrag))"
    using i by (simp add: recovery_inv_def streams_inv_def RemoveConnByUfrag_def Let_def distinct_map_filter len)
  ultimately show ?thesis using p by (simp add: recovery_inv_def)
qed

lemma new_inv: "recovery_inv (newRecoveryMux newRecoveryState)" "recovery_inv newRecoveryState"
  by (simp_all add: recovery_inv_def packets_inv_def groups_inv_def streams_inv_def newRecoveryMux_def
      newRecoveryState_def recovery_limits)

section \<open>Sockets\<close>

text \<open>A socket only knows peers of a live ICE session, and its receipt batches fit
  their eight slots.\<close>

definition batches_ok :: "(string \<times> deliveryBatch) list \<Rightarrow> bool" where
  "batches_ok al \<longleftrightarrow> (\<forall>(remote, batch) \<in> set al. length (db_tokens batch) < 8)"

definition conn_ok :: "recoveryState \<Rightarrow> recoveryConn \<Rightarrow> bool" where
  "conn_ok st c \<longleftrightarrow> (\<forall>(remote, username) \<in> set (rc_identities c). username \<noteq> [] \<and> activeIdentity st (ice_prefix @ username)) \<and>
     batches_ok (rc_deliveries c)"

lemma active_ice:
  "rs_active st = Some active \<Longrightarrow> activeIdentity st (ice_prefix @ username) \<longleftrightarrow>
     CHR '':'' \<in> set username \<and> takeWhile (\<lambda>c. c \<noteq> CHR '':'') username \<in> set active"
  by (auto simp: activeIdentity_def cut_colon_def)

lemma colon_prefix:
  assumes "CHR '':'' \<in> set username" "takeWhile (\<lambda>c. c \<noteq> CHR '':'') username = ufrag"
  shows "HasPrefix username (ufrag @ '':'')"
proof -
  obtain ys zs where u: "username = ys @ CHR '':'' # zs" "CHR '':'' \<notin> set ys"
    using split_list_first [OF assms(1)] by blast
  then have "takeWhile (\<lambda>c. c \<noteq> CHR '':'') username = ys" by (auto simp: takeWhile_append)
  then have "username = (ufrag @ '':'') @ zs" using u(1) assms(2) by simp
  then show ?thesis by (metis HasPrefix_self)
qed

lemma batches_update: "length (db_tokens b) < 8 \<Longrightarrow> batches_ok al \<Longrightarrow> batches_ok (AList.update remote b al)"
  using set_update_subset [of remote b al] by (fastforce simp: batches_ok_def)

lemma delivery_batch_ok:
  "batches_ok (rc_deliveries c) \<Longrightarrow> delivery_batch c identity remote = (al, b) \<Longrightarrow>
     batches_ok al \<and> length (db_tokens b) < 8"
  by (auto simp: delivery_batch_def batches_ok_def Let_def dest: map_of_SomeD split: option.splits if_splits)

lemma recover_pending_conn:
  "recover_pending gs st c arrived remote = Some (st', c') \<Longrightarrow>
     rc_identities c' = rc_identities c \<and> rc_deliveries c' = rc_deliveries c"
proof (induction gs arbitrary: st c)
  case (Cons g gs)
  obtain gid grp where g: "g = (gid, grp)" by fastforce
  show ?case
  proof (cases "list_ex (\<lambda>entry. e_id entry = arrived) (g_entries grp)")
    case True
    then obtain st1 d missing where r: "recoverGroup st grp = Some (st1, d, missing)"
      using Cons.prems by (auto simp: g bind_eq_Some_conv)
    have "\<exists>st2 c1. recover_pending gs st2 c1 arrived remote = Some (st', c') \<and>
        rc_identities c1 = rc_identities c \<and> rc_deliveries c1 = rc_deliveries c"
      using Cons.prems True r by (auto simp: g Let_def split: option.splits if_splits) fastforce+
    with Cons.IH show ?thesis by metis
  next
    case False
    with Cons.prems Cons.IH [of st c] g show ?thesis by simp
  qed
qed simp

text \<open>Reading a datagram does not change which sessions are live.\<close>

lemma storePacket_active: "storePacket st pid data = Some st' \<Longrightarrow> rs_active st' = rs_active st"
  by (auto simp: storePacket_def Let_def bind_eq_Some_conv split: if_splits)

lemma storeGroup_active: "storeGroup st gid grp = Some st' \<Longrightarrow> rs_active st' = rs_active st"
  by (auto simp: storeGroup_def Let_def bind_eq_Some_conv split: if_splits prod.splits)

lemma stream_ops_active [simp]:
  "rs_active (set_stream sid stream st) = rs_active st" "rs_active (forget_missing pid st) = rs_active st"
  "rs_active (trimStreams st now) = rs_active st" "rs_active (trimOldestStream st) = rs_active st"
  "rs_active (fst (streamLocked st sid now)) = rs_active st"
  by (simp_all add: set_stream_def forget_missing_def trimStreams_def trimOldestStream_def streamLocked_def Let_def
      split: option.split)

lemma recoverGroup_active:
  assumes "recoverGroup st grp = Some (st', d, m)"
  shows "rs_active st' = rs_active st"
  using assms by (cases rule: recoverGroup_cases) (auto dest: storePacket_active)

lemma recover_pending_active: "recover_pending gs st c arrived remote = Some (st', c') \<Longrightarrow> rs_active st' = rs_active st"
proof (induction gs arbitrary: st c)
  case (Cons g gs)
  obtain gid grp where g: "g = (gid, grp)" by fastforce
  show ?case
  proof (cases "list_ex (\<lambda>entry. e_id entry = arrived) (g_entries grp)")
    case True
    then obtain st1 d missing where r: "recoverGroup st grp = Some (st1, d, missing)"
      using Cons.prems by (auto simp: g bind_eq_Some_conv)
    have "\<exists>st2 c1. recover_pending gs st2 c1 arrived remote = Some (st', c') \<and> rs_active st2 = rs_active st1"
      using Cons.prems True r by (auto simp: g Let_def split: option.splits if_splits)
    with Cons.IH recoverGroup_active [OF r] show ?thesis by metis
  next
    case False
    with Cons.prems Cons.IH [of st c] g show ?thesis by simp
  qed
qed simp

lemma remember_frame:
  assumes "remember allow st c pid data remote now = Some (st', c', request)"
  shows "rs_active st' = rs_active st" "rc_identities c' = rc_identities c" "rc_deliveries c' = rc_deliveries c"
proof -
  have fin: "rs_active (fst (remember_finish s d pid stream now)) = rs_active s \<and> fst (snd (remember_finish s d pid stream now)) = d"
    for s d stream by (simp add: remember_finish_def Let_def case_prod_unfold)
  have "rs_active st' = rs_active st \<and> rc_identities c' = rc_identities c \<and> rc_deliveries c' = rc_deliveries c"
  proof (cases "activeIdentity st (pid_remote pid) \<and> allowRecovery allow data (remember_cost st pid)")
    case False
    then show ?thesis using assms by (auto simp: remember_def split: if_splits)
  next
    case True
    then obtain st1 where s1: "storePacket st pid data = Some st1"
      using assms by (auto simp: remember_def bind_eq_Some_conv)
    obtain st2 stream where s2: "streamLocked st1 (streamID pid) now = (st2, stream)" by fastforce
    define stream2 where "stream2 = stream_arrived st2 pid now stream"
    define st3 where "st3 = set_stream (streamID pid) stream2 st2"
    have g3: "rs_groups st3 = rs_groups st2" by (simp add: st3_def)
    obtain st4 c1 where r: "recover_pending (rs_groups st2) st3 c pid remote = Some (st4, c1)"
      and f: "(st', c', request) = remember_finish st4 c1 pid stream2 now"
      using assms True s1 s2
      by (auto simp: remember_def Let_def stream2_def [symmetric] st3_def [symmetric] g3 bind_eq_Some_conv)
    have "rs_active st' = rs_active st4" "c' = c1" using f fin [of st4 c1 stream2] by (metis fst_conv snd_conv)+
    moreover have "rs_active st4 = rs_active st2" using recover_pending_active [OF r] by (simp add: st3_def)
    moreover have "rs_active st2 = rs_active st1" using s2 stream_ops_active(5) [of st1 "streamID pid" now] by simp
    ultimately show ?thesis using storePacket_active [OF s1] recover_pending_conn [OF r] by simp
  qed
  then show "rs_active st' = rs_active st" "rc_identities c' = rc_identities c" "rc_deliveries c' = rc_deliveries c" by simp_all
qed

lemma consume_group_active:
  assumes "consume_group st gid grp now = Some (st', d, request)"
  shows "rs_active st' = rs_active st"
proof -
  define sid where "sid = \<lparr>sid_remote = gid_remote gid, sid_ssrc = gid_ssrc gid\<rparr>"
  obtain st1 stream where s1: "streamLocked st sid now = (st1, stream)" by fastforce
  define st2 where "st2 = set_stream sid (stream\<lparr>rst_enabled := True, rst_lastTouched := now\<rparr>) st1"
  obtain st3 dg m where r: "recoverGroup st2 grp = Some (st3, dg, m)"
    using assms s1 by (auto simp: consume_group_def sid_def [symmetric] st2_def [symmetric] Let_def bind_eq_Some_conv)
  have "rs_active st3 = rs_active st"
    using recoverGroup_active [OF r] s1 stream_ops_active(5) [of st sid now] by (simp add: st2_def)
  then show ?thesis
    using assms s1 r
    by (auto simp: consume_group_def sid_def [symmetric] st2_def [symmetric] Let_def bind_eq_Some_conv case_prod_unfold
        dest: storeGroup_active split: if_splits)
qed

lemma consumeParity_active:
  assumes "consumeParity allow st c data remote now = Some (st', d, request)"
  shows "rs_active st' = rs_active st"
  using assms by (cases rule: consumeParity_cases) (auto dest: consume_group_active)

lemma active_cong: "rs_active st' = rs_active st \<Longrightarrow> activeIdentity st' = activeIdentity st"
  by (simp add: activeIdentity_def fun_eq_iff)

lemma conn_ok_cong: "rs_active st' = rs_active st \<Longrightarrow> conn_ok st' c = conn_ok st c"
  by (simp add: conn_ok_def active_cong [of st' st])

lemma observeBinding_ok: "conn_ok st c \<Longrightarrow> conn_ok st (observeBinding decode st c data remote outgoing)"
proof -
  assume ok: "conn_ok st c"
  have "conn_ok st (rememberBinding c key m)" for key m
    using ok by (simp add: rememberBinding_def conn_ok_def Let_def split: option.split)
  moreover have "conn_ok st (confirmBinding st c key)" for key
  proof -
    define u where "u = (case map_of (rc_pendingBindings c) key of Some u \<Rightarrow> u | None \<Rightarrow> [])"
    have upd: "\<forall>(r, n) \<in> set (AList.update (bid_remote key) u al). n \<noteq> [] \<and> activeIdentity st (ice_prefix @ n)"
      if "u \<noteq> []" "activeIdentity st (ice_prefix @ u)" "al = [] \<or> al = rc_identities c" for al
      using that ok set_update_subset [of "bid_remote key" u al] by (auto simp: conn_ok_def)
    show ?thesis
    proof (cases "u = [] \<or> \<not> activeIdentity st (ice_prefix @ u)")
      case True
      then show ?thesis using ok by (auto simp: confirmBinding_def u_def [symmetric] conn_ok_def Let_def)
    next
      case False
      then show ?thesis using ok upd [of "[]"] upd [of "rc_identities c"]
        by (simp add: confirmBinding_def u_def [symmetric] Let_def) (simp add: conn_ok_def)
    qed
  qed
  ultimately show ?thesis using ok by (simp add: observeBinding_def Let_def split: option.split)
qed

text \<open>How much a socket holds: its tables have a limit, and \<^verbatim>\<open>ready\<close> is empty when a media packet is about to be remembered.\<close>

definition table_ok :: "nat \<Rightarrow> ('k \<times> 'v) list \<Rightarrow> bool" where
  "table_ok n al \<longleftrightarrow> distinct (map fst al) \<and> length al \<le> n"

lemma table_nil [simp]: "table_ok n []" "0 < n \<Longrightarrow> table_ok n [x]"
  by (simp_all add: table_ok_def)

lemma table_update: "table_ok n al \<Longrightarrow> map_of al k \<noteq> None \<or> length al < n \<Longrightarrow> table_ok n (AList.update k v al)"
  by (auto simp: table_ok_def AList.distinct_update length_update)

lemma table_delete: "table_ok n al \<Longrightarrow> table_ok n (AList.delete k al)"
  by (auto simp: table_ok_def AList.delete_eq distinct_map_filter intro: le_trans [OF length_filter_le])

lemma table_filter: "table_ok n al \<Longrightarrow> table_ok n (filter P al)"
  by (auto simp: table_ok_def distinct_map_filter intro: le_trans [OF length_filter_le])

fun at_media :: "socket_reader \<Rightarrow> bool" where
  "at_media (AtMedia _ _ _) \<longleftrightarrow> True"
| "at_media _ \<longleftrightarrow> False"

definition sizes_ok :: "recoveryConn \<Rightarrow> bool" where
  "sizes_ok c \<longleftrightarrow> table_ok 4096 (rc_pendingBindings c) \<and> table_ok 4096 (rc_identities c) \<and> table_ok 256 (rc_deliveries c) \<and>
     length (rc_ready c) \<le> 256 \<and> list_all (small_packet \<circ> dg_data) (rc_ready c) \<and>
     (at_media (rc_reader c) \<longrightarrow> rc_ready c = [])"

lemma binding_sizes: "sizes_ok c \<Longrightarrow> sizes_ok (observeBinding decode st c data remote outgoing)"
proof -
  assume ok: "sizes_ok c"
  have "sizes_ok (rememberBinding c key m)" for key m
    using ok by (auto simp: rememberBinding_def sizes_ok_def recovery_limits Let_def intro: table_update split: option.split)
  moreover have "sizes_ok (confirmBinding st c key)" for key
    using ok by (auto simp: confirmBinding_def sizes_ok_def recovery_limits Let_def intro: table_update table_delete)
  ultimately show ?thesis using ok by (simp add: observeBinding_def Let_def split: option.split)
qed

lemma delivery_table:
  assumes "table_ok 256 (rc_deliveries c)" "delivery_batch c identity remote = (al, b)"
  shows "table_ok 256 (AList.update remote v al)"
  using assms by (auto simp: delivery_batch_def recovery_limits Let_def intro!: table_update split: option.splits if_splits)

lemma receipt_ok:
  assumes "conn_ok st c" "sizes_ok c"
  shows "\<exists>c' receipt. deliveryReceipt digest st c pid data remote now = Some (c', receipt) \<and> conn_ok st c' \<and> sizes_ok c' \<and> rc_reader c' = rc_reader c"
proof -
  obtain al b where d: "delivery_batch c (pid_remote pid) remote = (al, b)" by fastforce
  have batches: "batches_ok al" "length (db_tokens b) < 8" using delivery_batch_ok [OF _ d] assms(1) by (auto simp: conn_ok_def)
  have table: "table_ok 256 (AList.update remote v al)" for v using delivery_table [OF _ d] assms(2) by (simp add: sizes_ok_def)
  have put: "conn_ok st (c\<lparr>rc_deliveries := AList.update remote v al\<rparr>) \<and> sizes_ok (c\<lparr>rc_deliveries := AList.update remote v al\<rparr>)"
    if "length (db_tokens v) < 8" for v
    using assms batches_update [OF that batches(1)] table by (simp add: conn_ok_def sizes_ok_def)
  show ?thesis
  proof (cases "map_of (rs_streams st) (streamID pid)")
    case None
    then show ?thesis using assms by (simp add: deliveryReceipt_def)
  next
    case (Some stream)
    define b1 where "b1 = b\<lparr>db_tokens := db_tokens b @ [take 16 (digest data)]\<rparr>"
    have st: "store_token b (take 16 (digest data)) = Some b1" using batches(2) by (simp add: store_token_def b1_def)
    show ?thesis
      using Some assms put [of b1] put [of "b1\<lparr>db_lastSent := now, db_tokens := []\<rparr>"]
      by (simp add: deliveryReceipt_def d st deliveryBatch_flush_def)
  qed
qed

text \<open>What every section of a reader guarantees: it returns, and keeps the invariants and the live sessions.\<close>

definition section_ok :: "recoveryState \<Rightarrow> (recoveryState \<times> recoveryConn \<times> 'o) option \<Rightarrow> bool" where
  "section_ok st r \<longleftrightarrow> (\<exists>st' c' out. r = Some (st', c', out) \<and> recovery_inv st' \<and> content_ok st' \<and> rs_active st' = rs_active st \<and>
     conn_ok st c' \<and> sizes_ok c')"

lemma section_okI:
  "recovery_inv st' \<Longrightarrow> content_ok st' \<Longrightarrow> rs_active st' = rs_active st \<Longrightarrow> conn_ok st c' \<Longrightarrow> sizes_ok c' \<Longrightarrow> section_ok st (Some (st', c', out))"
  by (auto simp: section_ok_def)

lemma reader_conn: "conn_ok st (c\<lparr>rc_reader := r\<rparr>) = conn_ok st c"
  by (simp add: conn_ok_def)

lemma reader_sizes: "sizes_ok c \<Longrightarrow> (at_media r \<Longrightarrow> rc_ready c = []) \<Longrightarrow> sizes_ok (c\<lparr>rc_reader := r\<rparr>)"
  by (simp add: sizes_ok_def)

lemma received_section:
  assumes "recovery_inv st" "content_ok st" "conn_ok st c" "sizes_ok c" "rc_ready c = []"
  shows "section_ok st (do { (c', out) \<leftarrow> ReadFrom_received decode st c data remote; Some (st, c', out) })"
  using assms observeBinding_ok [OF assms(3), of decode data remote False] binding_sizes [OF assms(4), of decode st data remote False]
  by (auto simp: ReadFrom_received_def Let_def reader_conn split: option.split intro!: section_okI reader_sizes)

lemma parity_section:
  assumes "recovery_inv st" "content_ok st" "conn_ok st c" "sizes_ok c"
  shows "section_ok st (ReadFrom_parity allow st c now)"
proof (cases "rc_reader c")
  case (AtParity data remote)
  from consumeParity_inv [OF assms(1), of allow c data remote now] obtain st' d request where
    r: "consumeParity allow st c data remote now = Some (st', d, request)" "recovery_inv st'" by blast
  show ?thesis
    using r consumeParity_content [OF r(1) assms(2)] consumeParity_active [OF r(1)] assms(3,4)
    by (auto simp: ReadFrom_parity_def AtParity reader_conn intro!: section_okI reader_sizes)
qed (use assms in \<open>auto simp: ReadFrom_parity_def intro: section_okI\<close>)

lemma remember_section:
  assumes "recovery_inv st" "content_ok st" "conn_ok st c" "sizes_ok c"
  shows "section_ok st (ReadFrom_remember allow st c now)"
proof (cases "rc_reader c")
  case (AtMedia pid data remote)
  from remember_inv [OF assms(1), of allow c pid data remote now] obtain st' c' request where
    r: "remember allow st c pid data remote now = Some (st', c', request)" "recovery_inv st'" by blast
  note f = remember_frame [OF r(1)] and k = remember_content [OF r(1) assms(1,2)]
  have "rc_ready c = []" using assms(4) AtMedia by (simp add: sizes_ok_def)
  then have "sizes_ok (c'\<lparr>rc_reader := AtReceipt pid data remote\<rparr>)" using assms(4) f k by (auto simp: sizes_ok_def list_all_iff)
  then show ?thesis
    using r f(1) k assms(3) f(2,3) by (auto simp: ReadFrom_remember_def AtMedia conn_ok_def intro!: section_okI)
qed (use assms in \<open>auto simp: ReadFrom_remember_def intro: section_okI\<close>)

lemma receipt_section:
  assumes "recovery_inv st" "content_ok st" "conn_ok st c" "sizes_ok c"
  shows "section_ok st (ReadFrom_receipt digest st c now)"
proof (cases "rc_reader c")
  case (AtReceipt pid data remote)
  from receipt_ok [OF assms(3,4), of digest pid data remote now] obtain c' receipt where
    r: "deliveryReceipt digest st c pid data remote now = Some (c', receipt)" "conn_ok st c'" "sizes_ok c'" by blast
  then show ?thesis
    using assms(1,2) by (auto simp: ReadFrom_receipt_def AtReceipt reader_conn intro!: section_okI reader_sizes)
qed (use assms in \<open>auto simp: ReadFrom_receipt_def intro: section_okI\<close>)

lemma ready_section:
  assumes "recovery_inv st" "content_ok st" "conn_ok st c" "sizes_ok c" "rc_reader c = AtSocket"
  shows "section_ok st (case popReady c of (c', out) \<Rightarrow> Some (st, c', out))"
  using assms by (auto simp: popReady_def sizes_ok_def conn_ok_def split: list.split intro!: section_okI)

section \<open>The invariant of the whole\<close>

definition system_ok :: "recoveryState \<times> recoveryConn list \<Rightarrow> bool" where
  "system_ok s \<longleftrightarrow> recovery_inv (fst s) \<and> content_ok (fst s) \<and> rs_active (fst s) \<noteq> None \<and>
     list_all (\<lambda>c. conn_ok (fst s) c \<and> sizes_ok c) (snd s)"

lemma at_conn_ok:
  assumes "system_ok s" "\<And>c. conn_ok (fst s) c \<Longrightarrow> sizes_ok c \<Longrightarrow> section_ok (fst s) (f c)"
  shows "\<exists>s'. at_conn s i f = Some s' \<and> system_ok s'"
proof (cases "i < length (snd s)")
  case True
  then have "conn_ok (fst s) (snd s ! i)" "sizes_ok (snd s ! i)" using assms(1) by (simp_all add: system_ok_def list_all_length)
  from assms(2) [OF this] obtain st' c' out where r: "f (snd s ! i) = Some (st', c', out)" "recovery_inv st'" "content_ok st'"
    "rs_active st' = rs_active (fst s)" "conn_ok (fst s) c'" "sizes_ok c'" by (auto simp: section_ok_def)
  have "system_ok (st', (snd s)[i := c'])"
    using assms(1) r conn_ok_cong [OF r(4)] set_update_subset_insert [of "snd s" i c'] by (auto simp: system_ok_def list_all_iff)
  then show ?thesis using True r(1) by (simp add: at_conn_def)
qed (use assms(1) in \<open>simp add: at_conn_def\<close>)

lemma forget_peer_ok:
  assumes "rs_active st = Some active" "conn_ok st c" "sizes_ok c"
  shows "conn_ok (fst (RemoveConnByUfrag st cs ufrag)) (forget_peer ufrag c) \<and> sizes_ok (forget_peer ufrag c)"
proof -
  let ?st = "fst (RemoveConnByUfrag st cs ufrag)"
  have a': "rs_active ?st = Some (removeAll ufrag active)" by (simp add: RemoveConnByUfrag_def assms(1) Let_def)
  have "conn_ok ?st (forget_peer ufrag c)"
    using assms(2) colon_prefix
    by (auto simp: conn_ok_def forget_peer_def Let_def batches_ok_def active_ice [OF assms(1)] active_ice [OF a'])
  moreover have "sizes_ok (forget_peer ufrag c)"
    using assms(3) by (auto simp: sizes_ok_def forget_peer_def Let_def table_filter list_all_iff
        intro: le_trans [OF length_filter_le])
  ultimately show ?thesis by blast
qed

lemma Remove_system_ok: "system_ok (st, cs) \<Longrightarrow> system_ok (RemoveConnByUfrag st cs ufrag)"
proof -
  assume ok: "system_ok (st, cs)"
  then obtain active where a: "rs_active st = Some active" by (auto simp: system_ok_def)
  let ?st = "fst (RemoveConnByUfrag st cs ufrag)"
  have "content_ok ?st" "rs_active ?st \<noteq> None"
    using ok a by (simp_all add: system_ok_def content_ok_def RemoveConnByUfrag_def Let_def values_filter)
  moreover have "snd (RemoveConnByUfrag st cs ufrag) = map (forget_peer ufrag) cs" by (simp add: RemoveConnByUfrag_def Let_def)
  ultimately show ?thesis
    using ok Remove_inv [of st cs ufrag] forget_peer_ok [OF a] by (simp add: system_ok_def list_all_iff)
qed

lemma GetConn_system_ok: "system_ok (st, cs) \<Longrightarrow> system_ok (recoveryMux_GetConn st ufrag opened, cs)"
proof -
  assume ok: "system_ok (st, cs)"
  then obtain active where a: "rs_active st = Some active" by (auto simp: system_ok_def)
  have "conn_ok (recoveryMux_GetConn st ufrag opened) c" if "conn_ok st c" for c
  proof (cases opened)
    case True
    then have a': "rs_active (recoveryMux_GetConn st ufrag opened) = Some (List.insert ufrag active)"
      by (simp add: recoveryMux_GetConn_def a)
    show ?thesis using that by (auto simp: conn_ok_def active_ice [OF a] active_ice [OF a'])
  qed (use that in \<open>simp add: recoveryMux_GetConn_def\<close>)
  then have "list_all (\<lambda>c. conn_ok (recoveryMux_GetConn st ufrag opened) c \<and> sizes_ok c) cs" using ok by (auto simp: system_ok_def list_all_iff)
  then show ?thesis
    using ok by (simp add: system_ok_def recoveryMux_GetConn_def recovery_inv_def packets_inv_def groups_inv_def streams_inv_def content_ok_def)
qed

lemma newRecoveryConn_ok: "conn_ok st (newRecoveryConn local)" "sizes_ok (newRecoveryConn local)"
  by (simp_all add: conn_ok_def batches_ok_def sizes_ok_def newRecoveryConn_def)

lemma step_system_ok:
  assumes "system_ok s"
  shows "\<exists>s'. recovery_step decode digest s e = Some s' \<and> system_ok s'"
proof -
  obtain st cs where s: "s = (st, cs)" by fastforce
  have i: "recovery_inv st" "content_ok st" using assms s by (simp_all add: system_ok_def)
  have idle: "section_ok st (Some (st, c, out))" if "conn_ok st c" "sizes_ok c" for c and out :: 'o using i that by (intro section_okI) simp_all
  note at = at_conn_ok [OF assms, unfolded s fst_conv]
  show ?thesis
  proof (cases e)
    case (EListen local)
    then show ?thesis using assms newRecoveryConn_ok by (simp add: s system_ok_def)
  next
    case (ERead i data remote)
    show ?thesis unfolding s ERead recovery_step.simps by (rule at) (use i idle received_section in auto)
  next
    case (EParity i allow now)
    show ?thesis unfolding s EParity recovery_step.simps by (rule at) (rule parity_section [OF i])
  next
    case (ERemember i allow now)
    show ?thesis unfolding s ERemember recovery_step.simps by (rule at) (rule remember_section [OF i])
  next
    case (EReceipt i now)
    show ?thesis unfolding s EReceipt recovery_step.simps by (rule at) (rule receipt_section [OF i])
  next
    case (EReady i)
    show ?thesis unfolding s EReady recovery_step.simps by (rule at) (use i idle ready_section in auto)
  next
    case (EWrite i data remote)
    show ?thesis unfolding s EWrite recovery_step.simps
      by (rule at) (use i observeBinding_ok binding_sizes in \<open>auto simp: recoveryConn_WriteTo_def intro!: section_okI\<close>)
  next
    case (EGetConn ufrag opened)
    then show ?thesis using GetConn_system_ok assms by (simp add: s)
  next
    case (ERemove ufrag)
    then show ?thesis using Remove_system_ok [of st cs ufrag] assms by (simp add: s)
  qed
qed

lemma run_system_ok: "system_ok s \<Longrightarrow> \<exists>s'. recovery_run decode digest s es = Some s' \<and> system_ok s'"
proof (induction es arbitrary: s)
  case (Cons e es)
  from step_system_ok [OF Cons.prems, of decode digest e] obtain s1 where
    "recovery_step decode digest s e = Some s1" "system_ok s1" by blast
  with Cons.IH [of s1] show ?case by simp
qed simp

lemma start_system_ok: "system_ok (newRecoveryMux newRecoveryState, map newRecoveryConn locals)"
  using new_inv(1) newRecoveryConn_ok
  by (simp add: system_ok_def list_all_iff content_ok_def values_ok_def newRecoveryMux_def newRecoveryState_def)

lemma run_ends_ok:
  assumes "recovery_run decode digest (newRecoveryMux newRecoveryState, map newRecoveryConn locals) es = Some s"
  shows "system_ok s"
  using run_system_ok [OF start_system_ok, of decode digest locals es] assms by auto

section \<open>Properties\<close>

lemma missing_bound: "missing_ok stream \<Longrightarrow> length (rst_missing stream) \<le> 65536"
proof -
  assume "missing_ok stream"
  then have "length (rst_missing stream) = card (set (map fst (rst_missing stream)))"
    using distinct_card [of "map fst (rst_missing stream)"] by (simp add: missing_ok_def)
  also have "\<dots> \<le> card (UNIV :: u16 set)" by (rule card_mono) simp_all
  finally show ?thesis by (simp add: card_word)
qed

text \<open>How much memory recovery holds: the shared tables with their order queues and contents, and each socket's own.\<close>

definition state_bounded :: "recoveryState \<Rightarrow> bool" where
  "state_bounded st \<longleftrightarrow>
     length (rs_packets st) \<le> 4096 \<and> length (rs_packetOrder st) < 8192 \<and> list_all (\<lambda>(pid, data). length data \<le> 8192) (rs_packets st) \<and>
     length (rs_groups st) \<le> 256 \<and> length (rs_groupOrder st) \<le> 512 \<and>
     list_all (\<lambda>(gid, grp). length (g_entries grp) \<le> 32 \<and> length (g_parity grp) \<le> 8192) (rs_groups st) \<and>
     length (rs_streams st) \<le> 256 \<and> list_all (\<lambda>(sid, stream). length (rst_missing stream) \<le> 65536) (rs_streams st)"

definition conn_bounded :: "recoveryConn \<Rightarrow> bool" where
  "conn_bounded c \<longleftrightarrow> length (rc_pendingBindings c) \<le> 4096 \<and> length (rc_identities c) \<le> 4096 \<and> length (rc_deliveries c) \<le> 256 \<and>
     list_all (\<lambda>(remote, batch). length (db_tokens batch) \<le> 8) (rc_deliveries c) \<and>
     length (rc_ready c) \<le> 256 \<and> list_all (\<lambda>d. length (dg_data d) \<le> 8192) (rc_ready c)"

lemma system_state_bounded:
  assumes "system_ok s"
  shows "state_bounded (fst s)"
proof -
  let ?st = "fst s"
  have p: "packets_inv ?st" "groups_inv ?st" "streams_inv ?st" "content_ok ?st" using assms by (simp_all add: system_ok_def recovery_inv_def)
  have "length (rs_packetOrder ?st) = rs_packetHead ?st + length (drop (rs_packetHead ?st) (rs_packetOrder ?st))"
    using p(1) by (simp add: packets_inv_def)
  also have "length (drop (rs_packetHead ?st) (rs_packetOrder ?st)) = length (rs_packets ?st)"
    using p(1) unfolding packets_inv_def by (metis distinct_card length_keys)
  finally have "length (rs_packetOrder ?st) < 8192" using p(1) by (simp add: packets_inv_def recovery_limits)
  moreover have "list_all (\<lambda>(sid, stream). length (rst_missing stream) \<le> 65536) (rs_streams ?st)"
    using p(4) missing_bound by (auto simp: content_ok_def values_ok_def list_all_iff)
  moreover have "list_all (\<lambda>(pid, data). length data \<le> 8192) (rs_packets ?st)"
    "list_all (\<lambda>(gid, grp). length (g_entries grp) \<le> 32 \<and> length (g_parity grp) \<le> 8192) (rs_groups ?st)"
    using p(4) by (auto simp: content_ok_def values_ok_def list_all_iff small_packet_def small_group_def)
  ultimately show ?thesis
    using p by (simp add: state_bounded_def packets_inv_def groups_inv_def streams_inv_def recovery_limits)
qed

lemma system_conn_bounded: "system_ok s \<Longrightarrow> list_all conn_bounded (snd s)"
proof -
  assume ok: "system_ok s"
  have "conn_bounded c" if "conn_ok (fst s) c" "sizes_ok c" for c
  proof -
    have "list_all (\<lambda>(remote, batch). length (db_tokens batch) \<le> 8) (rc_deliveries c)"
      using that(1) by (fastforce simp: conn_ok_def batches_ok_def list_all_iff)
    then show ?thesis using that(2) by (simp add: conn_bounded_def sizes_ok_def table_ok_def small_packet_def list_all_iff)
  qed
  then show ?thesis using ok by (simp add: system_ok_def list_all_iff)
qed

text \<open>
  C2: Packet recovery never panics and its memory is bounded.  Whatever datagrams
  arrive at whatever sockets, whatever the STUN decoder, the rate limiter and the mux answer, and however the readers' sections
  interleave with writes, removals and each other, no read leaves the datagram and no index its slice, and the shared state
  keeps at most 4096 packets of at most 8192 bytes, 256 parity groups of at most 32 entries, 256 streams with at most 65536 missing
  numbers each, and order queues under 8192 and of at most 512 entries; a socket keeps at most 4096 pending bindings, 4096 authenticated
  addresses, 256 receipt batches of at most 8 tokens and 256 recovered datagrams.
\<close>

theorem recovery_total_and_bounded:
  "\<exists>st cs. recovery_run decode digest (newRecoveryMux newRecoveryState, map newRecoveryConn locals) es = Some (st, cs) \<and>
     state_bounded st \<and> list_all conn_bounded cs"
proof -
  from run_system_ok [OF start_system_ok, of decode digest locals es] obtain st cs where
    "recovery_run decode digest (newRecoveryMux newRecoveryState, map newRecoveryConn locals) es = Some (st, cs)" "system_ok (st, cs)" by auto
  then show ?thesis using system_state_bounded [of "(st, cs)"] system_conn_bounded [of "(st, cs)"] by simp
qed

text \<open>
  C21: Only a peer of a live ICE session has access to recovery.  In every state
  reached from fresh sockets, an address a socket has authenticated belongs to a
  session the mux opened and has not removed, so after \<^verbatim>\<open>RemoveConnByUfrag\<close> no address of
  that session is accepted until it is opened again; and the receipt batches
  never outgrow their eight slots.
\<close>

theorem recovery_access_is_live:
  assumes "recovery_run decode digest (newRecoveryMux newRecoveryState, map newRecoveryConn locals) es = Some (st, cs)"
    "c \<in> set cs"
  shows "(authenticatedIdentity c remote \<noteq> [] \<longrightarrow> activeIdentity st (authenticatedIdentity c remote)) \<and>
     (\<forall>(address, batch) \<in> set (rc_deliveries c). length (db_tokens batch) < 8)"
proof -
  have ok: "conn_ok st c" using run_ends_ok [OF assms(1)] assms(2) by (simp add: system_ok_def list_all_iff)
  then show ?thesis
    by (auto simp: conn_ok_def batches_ok_def authenticatedIdentity_def dest: map_of_SomeD split: option.splits if_splits)
qed

definition example_stun :: "bytes \<Rightarrow> stun_message option" where
  "example_stun data = (if data = [1] then Some \<lparr>sm_kind = BindingRequest, sm_transaction = [9], sm_username = Some ''u:v''\<rparr>
     else if data = [2] then Some \<lparr>sm_kind = BindingSuccess, sm_transaction = [9], sm_username = None\<rparr> else None)"

theorem recovery_access_is_live_witness:
  "\<exists>st c. recovery_run example_stun (\<lambda>d. d) (newRecoveryMux newRecoveryState, map newRecoveryConn [''l''])
      [EGetConn ''u'' True, ERead 0 [1] ''a'', EWrite 0 [2] ''a''] = Some (st, [c]) \<and>
     authenticatedIdentity c ''a'' = ''ice:u:v'' \<and> activeIdentity st ''ice:u:v''"
proof -
  let ?es = "[EGetConn ''u'' True, ERead 0 [1] ''a'', EWrite 0 [2] ''a'']"
  let ?run = "recovery_run example_stun (\<lambda>d. d) (newRecoveryMux newRecoveryState, map newRecoveryConn [''l'']) ?es"
  obtain st c where run: "?run = Some (st, [c])" and a: "authenticatedIdentity c ''a'' = ''ice:u:v''"
  proof -
    have "map_option (\<lambda>(st, cs). map (\<lambda>c. authenticatedIdentity c ''a'') cs) ?run = Some [''ice:u:v'']" by code_simp
    then show thesis using that by (auto simp: map_eq_Cons_conv)
  qed
  from recovery_access_is_live [OF run, of c "''a''"] a run show ?thesis by auto
qed

text \<open>
  Traffic from an address that is not authenticated never touches recovery.
  It leaves the shared state alone, gets no answer and changes nothing of the socket but its pending bindings; media and STUN
  from it still reach the WebRTC stack unchanged, and recovery datagrams from it are discarded.
\<close>

theorem unauthenticated_is_ignored:
  assumes "authenticatedIdentity c remote = []"
  shows "\<exists>c'. ReadFrom_received decode st c data remote =
      Some (c', if hasRecoveryMagic data then None else Some (data, Some remote)) \<and>
     rc_reader c' = rc_reader c \<and> rc_ready c' = rc_ready c \<and> rc_identities c' = rc_identities c \<and> rc_deliveries c' = rc_deliveries c"
proof -
  have "rc_ready (rememberBinding c key m) = rc_ready c \<and> rc_identities (rememberBinding c key m) = rc_identities c \<and>
      rc_deliveries (rememberBinding c key m) = rc_deliveries c \<and> rc_reader (rememberBinding c key m) = rc_reader c" for key m
    by (simp add: rememberBinding_def Let_def split: option.split)
  then show ?thesis
    using assms by (auto simp: ReadFrom_received_def observeBinding_def Let_def split: option.split)
qed

theorem unauthenticated_is_ignored_witness:
  "\<exists>c'. ReadFrom_received example_stun newRecoveryState (newRecoveryConn ''l'') (recoveryMagic @ [1]) ''b'' = Some (c', None)"
proof -
  have "authenticatedIdentity (newRecoveryConn ''l'') ''b'' = []" "hasRecoveryMagic (recoveryMagic @ [1])"
    by (simp_all add: authenticatedIdentity_def newRecoveryConn_def hasRecoveryMagic_def recoveryMagic_def)
  from unauthenticated_is_ignored [OF this(1), of example_stun newRecoveryState "recoveryMagic @ [1]"]
    this(2) show ?thesis by auto
qed

end
