(* ===== verification/Recovery_Repair.thy ===== *)
theory Recovery_Repair
  imports Recovery_State
begin

text \<open>
  What the repair logic of \<^verbatim>\<open>recovery.go\<close> asks the sender for: the gaps a new packet opens
  (\<^verbatim>\<open>trackGapLocked\<close>), the requests that are due (\<^verbatim>\<open>dueRepairs\<close>), and a lost packet's way
  back through \<^verbatim>\<open>recoverGroupLocked\<close>.
\<close>

section \<open>Gaps\<close>

lemma add_missing_keys:
  "fst ` set (foldl (\<lambda>ms off. let m = f off in if stored m \<noteq> None then ms
      else if map_of ms m \<noteq> None then ms else AList.update m 0 ms) ms offs) =
     fst ` set ms \<union> {f off |off. off \<in> set offs \<and> stored (f off) = None}"
proof (induction offs arbitrary: ms)
  case (Cons off offs)
  let ?ms = "let m = f off in if stored m \<noteq> None then ms else if map_of ms m \<noteq> None then ms else AList.update m 0 ms"
  have "fst ` set ?ms = fst ` set ms \<union> {f off |o'. o' = off \<and> stored (f off) = None}"
    by (auto simp: Let_def AList.dom_update map_of_None_keys)
  then show ?case unfolding foldl_Cons Cons.IH by auto
qed simp

lemma distance_after:
  fixes h s :: u16
  assumes "off < unat (s - h)"
  shows "unat (s - (h + of_nat off)) = unat (s - h) - off"
proof -
  have "off < 2 ^ 16" using assms(1) unat_u16 [of "s - h"] by simp
  then have o: "unat (of_nat off :: u16) = off" by (simp add: unat_of_nat take_bit_eq_mod)
  then have "(of_nat off :: u16) \<le> s - h" using assms(1) by (simp add: word_le_nat_alt)
  then have "unat (s - h - of_nat off) = unat (s - h) - off" using o by (simp add: unat_sub)
  then show ?thesis by (simp add: diff_diff_eq)
qed

lemma near_after:
  fixes h s :: u16
  assumes "off < unat (s - h)" "unat (s - h) < off + 4096"
  shows "unat (s - (h + of_nat off)) < 4096"
  using distance_after [OF assms(1)] assms(2) by simp

section \<open>Due repairs\<close>

lemma due_loop_spec:
  assumes "due_loop stream now rest visited due = (missing, due')" "length due < recoveryRequestSize"
    "distinct (map fst (visited @ rest))"
  shows "length due' \<le> recoveryRequestSize \<and> distinct (map fst missing) \<and>
     fst ` set missing \<subseteq> fst ` set (visited @ rest) \<and> set visited \<subseteq> set missing \<and>
     (\<exists>new. due' = due @ new \<and> distinct new \<and>
       (\<forall>m \<in> set new. (m, now) \<in> set missing \<and>
          (\<exists>t. (m, t) \<in> set rest \<and> (t = 0 \<or> \<not> time_Sub now t < recoveryRetry))))"
  using assms
proof (induction stream now rest visited due rule: due_loop.induct)
  case (1 stream now visited due)
  then show ?case by auto
next
  case (2 stream now m t rest visited due)
  let ?behind = "rst_highest stream - m"
  show ?case
  proof (cases "rst_based stream \<and> unat ?behind \<ge> recoveryHistorySize \<and> ?behind < 0x8000")
    case True
    from "2.IH"(1) [OF refl True] "2.prems" True obtain new where
      n: "length due' \<le> recoveryRequestSize" "distinct (map fst missing)"
        "fst ` set missing \<subseteq> fst ` set (visited @ rest)" "set visited \<subseteq> set missing" "due' = due @ new" "distinct new"
        "\<forall>m \<in> set new. (m, now) \<in> set missing \<and> (\<exists>t. (m, t) \<in> set rest \<and> (t = 0 \<or> \<not> time_Sub now t < recoveryRetry))"
      by (auto simp: Let_def)
    show ?thesis using n by (intro conjI exI [of _ new]) auto
  next
    case a: False
    show ?thesis
    proof (cases "t \<noteq> 0 \<and> time_Sub now t < recoveryRetry")
      case True
      from "2.IH"(2) [OF refl a True] "2.prems" a True obtain new where
        n: "length due' \<le> recoveryRequestSize" "distinct (map fst missing)"
          "fst ` set missing \<subseteq> fst ` set ((visited @ [(m, t)]) @ rest)" "set (visited @ [(m, t)]) \<subseteq> set missing"
          "due' = due @ new" "distinct new"
          "\<forall>m \<in> set new. (m, now) \<in> set missing \<and> (\<exists>t. (m, t) \<in> set rest \<and> (t = 0 \<or> \<not> time_Sub now t < recoveryRetry))"
        by (auto simp: Let_def)
      show ?thesis using n by (intro conjI exI [of _ new]) auto
    next
      case b: False
      show ?thesis
      proof (cases "length due + 1 = recoveryRequestSize")
        case True
        then have "missing = visited @ (m, now) # rest" "due' = due @ [m]" using "2.prems"(1) a b by (auto simp: Let_def)
        with True b "2.prems"(3) show ?thesis by auto
      next
        case c: False
        with "2.prems"(2) have lt: "length (due @ [m]) < recoveryRequestSize" by simp
        from "2.IH"(3) [OF refl a b c] "2.prems" a b c lt obtain new where
          n: "length due' \<le> recoveryRequestSize" "distinct (map fst missing)"
            "fst ` set missing \<subseteq> fst ` set ((visited @ [(m, now)]) @ rest)" "set (visited @ [(m, now)]) \<subseteq> set missing"
            "due' = (due @ [m]) @ new" "distinct new"
            "\<forall>m \<in> set new. (m, now) \<in> set missing \<and> (\<exists>t. (m, t) \<in> set rest \<and> (t = 0 \<or> \<not> time_Sub now t < recoveryRetry))"
          by (auto simp: Let_def)
        have "m \<notin> set new" using n(7) "2.prems"(3) by force
        then show ?thesis using n b by (intro conjI exI [of _ "m # new"]) auto
      qed
    qed
  qed
qed

lemma dueRepairs_spec:
  assumes "dueRepairs stream now = (stream', due)" "distinct (map fst (rst_missing stream))"
  shows "length due \<le> 32" "distinct due" "distinct (map fst (rst_missing stream'))"
    "\<forall>m \<in> set due. (m, now) \<in> set (rst_missing stream') \<and>
       (\<exists>t. (m, t) \<in> set (rst_missing stream) \<and> (t = 0 \<or> 50 * Millisecond \<le> now - t))"
proof -
  obtain missing where l: "due_loop stream now (rst_missing stream) [] [] = (missing, due)" "rst_missing stream' = missing"
    using assms(1) by (auto simp: dueRepairs_def split: prod.splits)
  have "0 < recoveryRequestSize" by (simp add: recoveryRequestSize_def)
  with due_loop_spec [OF l(1)] assms(2) have s: "length due \<le> recoveryRequestSize" "distinct (map fst missing)" "distinct due"
    "\<forall>m \<in> set due. (m, now) \<in> set missing \<and> (\<exists>t. (m, t) \<in> set (rst_missing stream) \<and> (t = 0 \<or> \<not> time_Sub now t < recoveryRetry))"
    by auto
  have r: "\<not> time_Sub now t < recoveryRetry \<Longrightarrow> 50 * Millisecond \<le> now - t" for t
    using time_Sub_less_iff [of recoveryRetry now t] by (simp add: recoveryRetry_def)
  show "length due \<le> 32" "distinct due" "distinct (map fst (rst_missing stream'))"
    "\<forall>m \<in> set due. (m, now) \<in> set (rst_missing stream') \<and>
       (\<exists>t. (m, t) \<in> set (rst_missing stream) \<and> (t = 0 \<or> 50 * Millisecond \<le> now - t))"
    using s r l(2) by (simp_all add: recoveryRequestSize_def) blast
qed

section \<open>Properties\<close>

text \<open>
  A gap in the sequence numbers is what gets requested.  When a packet
  arrives ahead of the highest one seen, the numbers in between that are not in
  the history become missing, up to the 4095 the sender can still hold; older
  missing numbers are kept while they are within that distance of the new packet
  (when there is a gap); nothing else becomes missing, and what was added is
  less than 4096 behind.
\<close>

theorem gaps_are_requested:
  assumes "rst_based stream" "delta = unat (pid_sequenceNumber pid - rst_highest stream)" "0 < delta" "delta < 0x8000"
  shows "fst ` set (rst_missing (trackGap st pid stream)) =
      {m \<in> fst ` set (rst_missing stream). delta = 1 \<or> unat (pid_sequenceNumber pid - m) < 4096} \<union>
      {m. \<exists>off. 1 \<le> off \<and> off < delta \<and> delta < off + 4096 \<and> m = rst_highest stream + of_nat off \<and>
            map_of (rs_packets st) (pid\<lparr>pid_sequenceNumber := m\<rparr>) = None} \<and>
    rst_highest (trackGap st pid stream) = pid_sequenceNumber pid \<and>
    (\<forall>off. 1 \<le> off \<and> off < delta \<and> delta < off + 4096 \<longrightarrow>
       unat (pid_sequenceNumber pid - (rst_highest stream + of_nat off)) < 4096)"
proof -
  let ?s = "pid_sequenceNumber pid" and ?h = "rst_highest stream"
  let ?start = "nat (max 1 (int delta - int recoveryHistorySize + 1))"
  let ?kept = "if ?s - ?h > 1 then filter (\<lambda>(m, t). \<not> unat (?s - m) \<ge> recoveryHistorySize) (rst_missing stream)
      else rst_missing stream"
  have d: "?s - ?h \<noteq> 0" "\<not> ?s - ?h \<ge> 0x8000" "?s - ?h > 1 \<longleftrightarrow> delta > 1"
    using assms(2-4) by (auto simp: word_le_nat_alt word_less_nat_alt)
  have "rst_missing (trackGap st pid stream) = foldl (\<lambda>ms off. let m = ?h + of_nat off in
      if map_of (rs_packets st) (pid\<lparr>pid_sequenceNumber := m\<rparr>) \<noteq> None then ms
      else if map_of ms m \<noteq> None then ms else AList.update m 0 ms) ?kept [?start..<delta]"
    using assms(1,2) d(1,2) by (simp add: trackGap_def Let_def)
  then have keys: "fst ` set (rst_missing (trackGap st pid stream)) = fst ` set ?kept \<union>
      {?h + of_nat off |off. off \<in> set [?start..<delta] \<and>
         map_of (rs_packets st) (pid\<lparr>pid_sequenceNumber := ?h + of_nat off\<rparr>) = None}"
    by (simp only: add_missing_keys [where stored = "\<lambda>m. map_of (rs_packets st) (pid\<lparr>pid_sequenceNumber := m\<rparr>)"])
  have r: "off \<in> set [?start..<delta] \<longleftrightarrow> 1 \<le> off \<and> off < delta \<and> delta < off + 4096" for off
    using assms(3) by (auto simp: recoveryHistorySize_def)
  have k: "fst ` set ?kept = {m \<in> fst ` set (rst_missing stream). delta = 1 \<or> unat (?s - m) < 4096}"
    using d(3) assms(3) by (force simp: recoveryHistorySize_def)
  have near: "\<forall>off. 1 \<le> off \<and> off < delta \<and> delta < off + 4096 \<longrightarrow> unat (?s - (?h + of_nat off)) < 4096"
    using near_after [of _ ?s ?h] assms(2) by blast
  have "rst_highest (trackGap st pid stream) = ?s" using assms(1) d(1,2) by (simp add: trackGap_def Let_def)
  then show ?thesis unfolding keys r k using near by (intro conjI) blast+
qed

theorem gaps_are_requested_witness:
  "let pid = \<lparr>pid_remote = ''p'', pid_ssrc = 1, pid_sequenceNumber = 2\<rparr>;
       stream = \<lparr>rst_highest = 65534, rst_based = True, rst_enabled = False, rst_missing = [], rst_lastTouched = 0\<rparr>
   in fst ` set (rst_missing (trackGap newRecoveryState pid stream)) =
      {m. \<exists>off. 1 \<le> off \<and> off < 4 \<and> 4 < off + 4096 \<and> m = 65534 + of_nat off}"
proof -
  let ?pid = "\<lparr>pid_remote = ''p'', pid_ssrc = 1, pid_sequenceNumber = 2\<rparr>"
  let ?stream = "\<lparr>rst_highest = 65534, rst_based = True, rst_enabled = False, rst_missing = [], rst_lastTouched = 0\<rparr>"
  have h: "rst_based ?stream" "4 = unat (pid_sequenceNumber ?pid - rst_highest ?stream)" "0 < (4 :: nat)" "(4 :: nat) < 0x8000"
    by simp_all
  from gaps_are_requested [OF h, of newRecoveryState] show ?thesis by (simp add: newRecoveryState_def Let_def)
qed

section \<open>The life of a stream's gaps\<close>

text \<open>Everything that happens to the missing numbers of a stream: a packet of it arrives (\<^verbatim>\<open>remember\<close>), a parity group lists numbers
  (\<^verbatim>\<open>consumeParity\<close>), a number is reconstructed (\<^verbatim>\<open>recoverGroupLocked\<close>), or the due repairs are requested.\<close>

datatype stream_op = SArrived recoveryState recoveryPacketID instant | SListed "u16 list" | SRecovered u16 | SDue instant

fun stream_step :: "recoveryStream \<Rightarrow> stream_op \<Rightarrow> recoveryStream \<times> u16 list" where
  "stream_step stream (SArrived st pid now) = (stream_arrived st pid now stream, [])"
| "stream_step stream (SListed missing) = (stream_listed missing stream, [])"
| "stream_step stream (SRecovered m) = (stream\<lparr>rst_missing := AList.delete m (rst_missing stream)\<rparr>, [])"
| "stream_step stream (SDue now) = dueRepairs stream now"

fun stream_requests :: "recoveryStream \<Rightarrow> stream_op list \<Rightarrow> u16 list" where
  "stream_requests stream [] = []"
| "stream_requests stream (op # ops) = snd (stream_step stream op) @ stream_requests (fst (stream_step stream op)) ops"

text \<open>The number is still listed as missing when each of the operations begins.\<close>

fun stays_missing :: "u16 \<Rightarrow> recoveryStream \<Rightarrow> stream_op list \<Rightarrow> bool" where
  "stays_missing m stream [] \<longleftrightarrow> True"
| "stays_missing m stream (op # ops) \<longleftrightarrow> m \<in> fst ` set (rst_missing stream) \<and> stays_missing m (fst (stream_step stream op)) ops"

fun due_between :: "instant \<Rightarrow> instant \<Rightarrow> stream_op \<Rightarrow> bool" where
  "due_between from until (SDue now) \<longleftrightarrow> from \<le> now \<and> now < until"
| "due_between from until _ \<longleftrightarrow> True"

text \<open>An operation keeps the time a number was last requested at, or drops the number.\<close>

lemma add_missing_keeps:
  "map_of ms m = Some t \<Longrightarrow> map_of (foldl (\<lambda>ms off. let m = f off in if stored m \<noteq> None then ms
      else if map_of ms m \<noteq> None then ms else AList.update m 0 ms) ms offs) m = Some t"
proof (induction offs arbitrary: ms)
  case (Cons off offs)
  let ?ms = "let m = f off in if stored m \<noteq> None then ms else if map_of ms m \<noteq> None then ms else AList.update m 0 ms"
  have "map_of ?ms m = Some t" using Cons.prems by (auto simp: Let_def update_conv')
  from Cons.IH [OF this] show ?case by simp
qed simp

lemma gap_range: "off \<in> set [nat (max 1 (int d - int recoveryHistorySize + 1))..<d] \<Longrightarrow> d < off + 4096"
  by (auto simp: recoveryHistorySize_def)

lemma trackGap_stamp:
  assumes "missing_ok s" "map_of (rst_missing s) m = Some t"
  shows "map_of (rst_missing (trackGap st pid s)) m \<in> {None, Some t}"
proof -
  let ?q = "pid_sequenceNumber pid" and ?h = "rst_highest s"
  let ?stored = "\<lambda>m. map_of (rs_packets st) (pid\<lparr>pid_sequenceNumber := m\<rparr>)" and ?at = "\<lambda>off. ?h + of_nat off"
  let ?f = "\<lambda>ms off. let m = ?at off in if ?stored m \<noteq> None then ms
      else if map_of ms m \<noteq> None then ms else AList.update m (0 :: instant) ms"
  define offs where "offs = [nat (max 1 (int (unat (?q - ?h)) - int recoveryHistorySize + 1))..<unat (?q - ?h)]"
  define kept where "kept = (if ?q - ?h > 1 then filter (\<lambda>(m, t). \<not> unat (?q - m) \<ge> recoveryHistorySize) (rst_missing s) else rst_missing s)"
  have cases: "rst_missing (trackGap st pid s) \<in> {rst_missing s, foldl ?f kept offs}"
    by (simp add: trackGap_def Let_def kept_def offs_def)
  have "map_of (foldl ?f kept offs) m \<in> {None, Some t}"
  proof (cases "m \<in> fst ` set kept")
    case True
    have "distinct (map fst kept)" "set kept \<subseteq> set (rst_missing s)" using assms(1) by (auto simp: kept_def missing_ok_def distinct_map_filter)
    obtain u where u: "(m, u) \<in> set kept" using True by auto
    then have "(m, u) \<in> set (rst_missing s)" using \<open>set kept \<subseteq> set (rst_missing s)\<close> by blast
    then have "u = t" using assms by (simp add: missing_ok_def)
    with u \<open>distinct (map fst kept)\<close> have "map_of kept m = Some t" by simp
    then show ?thesis using add_missing_keeps [of kept m t ?at ?stored offs] by blast
  next
    case False
    have "m \<in> fst ` set (rst_missing s)" using map_of_SomeD [OF assms(2)] by force
    then have far: "unat (?q - m) \<ge> 4096" using False by (force simp: kept_def recoveryHistorySize_def split: if_splits)
    have "m \<noteq> ?at off" if "off \<in> set offs" for off
    proof
      assume "m = ?at off"
      moreover have "off < unat (?q - ?h)" "unat (?q - ?h) < off + 4096" using that gap_range [of off "unat (?q - ?h)"] by (simp_all add: offs_def)
      ultimately show False using near_after [of off ?q ?h] far by simp
    qed
    then have "m \<notin> fst ` set (foldl ?f kept offs)" using False add_missing_keys [of ?at ?stored kept offs] by blast
    then show ?thesis by (simp add: map_of_None_keys)
  qed
  then show ?thesis using cases assms(2) by auto
qed

lemma trackGap_arrived: "map_of (rst_missing s) (pid_sequenceNumber pid) = None \<Longrightarrow> map_of (rst_missing (trackGap st pid s)) (pid_sequenceNumber pid) = None"
proof -
  let ?q = "pid_sequenceNumber pid" and ?h = "rst_highest s"
  let ?stored = "\<lambda>m. map_of (rs_packets st) (pid\<lparr>pid_sequenceNumber := m\<rparr>)" and ?at = "\<lambda>off. ?h + of_nat off"
  let ?f = "\<lambda>ms off. let m = ?at off in if ?stored m \<noteq> None then ms
      else if map_of ms m \<noteq> None then ms else AList.update m (0 :: instant) ms"
  define offs where "offs = [nat (max 1 (int (unat (?q - ?h)) - int recoveryHistorySize + 1))..<unat (?q - ?h)]"
  define kept where "kept = (if ?q - ?h > 1 then filter (\<lambda>(m, t). \<not> unat (?q - m) \<ge> recoveryHistorySize) (rst_missing s) else rst_missing s)"
  assume none: "map_of (rst_missing s) ?q = None"
  have cases: "rst_missing (trackGap st pid s) \<in> {rst_missing s, foldl ?f kept offs}"
    by (simp add: trackGap_def Let_def kept_def offs_def)
  have "?q \<noteq> ?at off" if "off \<in> set offs" for off
  proof
    assume q: "?q = ?at off"
    have "off < unat (?q - ?h)" using that by (simp add: offs_def)
    with distance_after [OF this] q [symmetric] show False by simp
  qed
  moreover have "?q \<notin> fst ` set kept" using none by (auto simp: kept_def map_of_None_keys image_iff)
  ultimately have "map_of (foldl ?f kept offs) ?q = None" using add_missing_keys [of ?at ?stored kept offs] by (auto simp: map_of_None_keys)
  then show ?thesis using cases none by auto
qed

lemma arrived_stamp:
  assumes "missing_ok s" "map_of (rst_missing s) m = Some t"
  shows "map_of (rst_missing (stream_arrived st pid now s)) m \<in> {None, Some t}"
proof -
  let ?s = "s\<lparr>rst_lastTouched := now, rst_missing := AList.delete (pid_sequenceNumber pid) (rst_missing s)\<rparr>"
  have ok: "missing_ok ?s" using assms(1) by (simp add: missing_ok_def AList.distinct_delete)
  show ?thesis
  proof (cases "m = pid_sequenceNumber pid")
    case True
    then have "map_of (rst_missing ?s) (pid_sequenceNumber pid) = None" by (simp add: delete_conv')
    then show ?thesis unfolding stream_arrived_def True by (simp add: trackGap_arrived)
  next
    case False
    then have "map_of (rst_missing ?s) m = Some t" using assms(2) by (simp add: delete_conv')
    then show ?thesis unfolding stream_arrived_def by (rule trackGap_stamp [OF ok])
  qed
qed

lemma listed_stamp: "map_of (rst_missing s) m = Some t \<Longrightarrow> map_of (rst_missing (stream_listed missing s)) m = Some t"
proof -
  let ?f = "\<lambda>ms m. if map_of ms m \<noteq> None then ms else AList.update m (0 :: instant) ms"
  have "map_of ms m = Some t \<Longrightarrow> map_of (foldl ?f ms missing) m = Some t" for ms
  proof (induction missing arbitrary: ms)
    case (Cons x missing)
    have "map_of (?f ms x) m = Some t" using Cons.prems by (auto simp: update_conv')
    from Cons.IH [OF this] show ?case by simp
  qed simp
  then show "map_of (rst_missing s) m = Some t \<Longrightarrow> map_of (rst_missing (stream_listed missing s)) m = Some t" by (simp add: stream_listed_def)
qed

lemma due_loop_entries:
  "due_loop stream now rest visited due = (missing, due') \<Longrightarrow> (m, u) \<in> set missing \<Longrightarrow>
     (m, u) \<in> set (visited @ rest) \<or> m \<in> set due' \<and> u = now"
proof (induction stream now rest visited due rule: due_loop.induct)
  case (2 stream now q t rest visited due)
  have grows: "set d \<subseteq> set due'" if "due_loop stream now r v d = (missing, due')" for r v d
    using that by (induction stream now r v d rule: due_loop.induct) (auto simp: Let_def split: if_splits)
  show ?case
    using 2 grows [of rest "visited @ [(q, now)]" "due @ [q]"] by (auto simp: Let_def split: if_splits)
qed simp

lemma due_stamp:
  assumes "missing_ok s" "map_of (rst_missing s) m = Some t" "t \<noteq> 0" "now < t + 50 * Millisecond"
  shows "m \<notin> set (snd (dueRepairs s now))" "map_of (rst_missing (fst (dueRepairs s now))) m \<in> {None, Some t}"
proof -
  obtain s' due where d: "dueRepairs s now = (s', due)" by fastforce
  then obtain missing where l: "due_loop s now (rst_missing s) [] [] = (missing, due)" "rst_missing s' = missing"
    by (auto simp: dueRepairs_def split: prod.splits)
  have dist: "distinct (map fst (rst_missing s))" using assms(1) by (simp add: missing_ok_def)
  have "u = t" if "(m, u) \<in> set (rst_missing s)" for u using that assms(2) dist by simp
  then have no: "m \<notin> set due" using dueRepairs_spec(4) [OF d dist] assms(3,4) by fastforce
  then have "u = t" if "map_of missing m = Some u" for u
    using due_loop_entries [OF l(1) map_of_SomeD [OF that]] assms(2) dist by auto
  then show "m \<notin> set (snd (dueRepairs s now))" "map_of (rst_missing (fst (dueRepairs s now))) m \<in> {None, Some t}"
    using no d l(2) by (simp_all, cases "map_of missing m") simp_all
qed

lemma step_stamp:
  assumes "missing_ok s" "map_of (rst_missing s) m = Some t" "0 < t" "due_between t (t + 50 * Millisecond) op"
  shows "m \<notin> set (snd (stream_step s op))" "map_of (rst_missing (fst (stream_step s op))) m \<in> {None, Some t}"
    "missing_ok (fst (stream_step s op))"
proof (atomize (full), cases op)
  case (SArrived st pid now)
  show "m \<notin> set (snd (stream_step s op)) \<and> map_of (rst_missing (fst (stream_step s op))) m \<in> {None, Some t} \<and> missing_ok (fst (stream_step s op))"
    using arrived_stamp [OF assms(1,2), of st pid now] arrived_ok [OF assms(1), of st pid now] by (simp add: SArrived)
next
  case (SListed missing)
  show "m \<notin> set (snd (stream_step s op)) \<and> map_of (rst_missing (fst (stream_step s op))) m \<in> {None, Some t} \<and> missing_ok (fst (stream_step s op))"
    using listed_stamp [OF assms(2), of missing] listed_ok [OF assms(1), of missing] by (simp add: SListed)
next
  case (SRecovered q)
  show "m \<notin> set (snd (stream_step s op)) \<and> map_of (rst_missing (fst (stream_step s op))) m \<in> {None, Some t} \<and> missing_ok (fst (stream_step s op))"
    using missing_delete [OF assms(1), of q] assms(2) by (simp add: SRecovered delete_conv')
next
  case (SDue now)
  then have "now < t + 50 * Millisecond" using assms(4) by simp
  then show "m \<notin> set (snd (stream_step s op)) \<and> map_of (rst_missing (fst (stream_step s op))) m \<in> {None, Some t} \<and> missing_ok (fst (stream_step s op))"
    using due_stamp [OF assms(1,2)] dueRepairs_ok [OF assms(1), of now] assms(3) by (simp add: SDue)
qed

lemma not_again:
  "missing_ok s \<Longrightarrow> map_of (rst_missing s) m = Some t \<Longrightarrow> 0 < t \<Longrightarrow> list_all (due_between t (t + 50 * Millisecond)) ops \<Longrightarrow>
     stays_missing m s ops \<Longrightarrow> m \<notin> set (stream_requests s ops)"
proof (induction ops arbitrary: s)
  case (Cons op ops)
  let ?s = "fst (stream_step s op)"
  have "due_between t (t + 50 * Millisecond) op" using Cons.prems(4) by simp
  note st = step_stamp [OF Cons.prems(1-3) this]
  have "m \<notin> set (stream_requests ?s ops)"
  proof (cases ops)
    case (Cons op2 ops2)
    then have "m \<in> fst ` set (rst_missing ?s)" using Cons.prems(5) by simp
    then have "map_of (rst_missing ?s) m = Some t" using st(2) by (auto simp: map_of_None_keys)
    then show ?thesis using Cons.IH [OF st(3)] Cons.prems(3-5) by simp
  qed simp
  then show ?case using st(1) by simp
qed simp

text \<open>
  C22: Repair requests are bounded, and a packet that stays missing is requested again after 50 ms at the earliest.  One request names at most
  32 distinct packets, all of them listed as missing and none recorded as requested within the last 50 ms.  Whatever happens
  to the stream in the next 50 ms (packets that arrive and open new gaps, parity groups that list missing packets, packets that are
  reconstructed, further requests), no packet of the request is requested again as long as it stays on the list.
  (\<open>dropped_gap_is_requested_again\<close> shows what happens to a number that is dropped from the list.)
\<close>

theorem repairs_are_paced:
  assumes "distinct (map fst (rst_missing stream))" "dueRepairs stream now = (stream', due)" "0 < now"
    "list_all (due_between now (now + 50 * Millisecond)) ops"
  shows "length due \<le> 32 \<and> distinct due \<and>
     (\<forall>m \<in> set due. \<exists>t. (m, t) \<in> set (rst_missing stream) \<and> (t = 0 \<or> 50 * Millisecond \<le> now - t)) \<and>
     (\<forall>m \<in> set due. stays_missing m stream' ops \<longrightarrow> m \<notin> set (stream_requests stream' ops))"
proof -
  note s = dueRepairs_spec [OF assms(2,1)]
  have "m \<notin> set (stream_requests stream' ops)" if "m \<in> set due" "stays_missing m stream' ops" for m
  proof (rule not_again [OF _ _ assms(3,4) that(2)])
    show "missing_ok stream'" using s(3) by (simp add: missing_ok_def)
    show "map_of (rst_missing stream') m = Some now" using s(3,4) that(1) by simp
  qed
  with s(1,2,4) show ?thesis by blast
qed

theorem repairs_are_paced_witness:
  "let stream = \<lparr>rst_highest = 9, rst_based = True, rst_enabled = True, rst_missing = [(7, 0), (8, 0)], rst_lastTouched = 0\<rparr>;
       ops = [SArrived newRecoveryState \<lparr>pid_remote = [], pid_ssrc = 1, pid_sequenceNumber = 12\<rparr> 1500, SDue 2000]
   in snd (dueRepairs stream 1000) = [7, 8] \<and> stream_requests (fst (dueRepairs stream 1000)) ops = [10, 11] \<and>
      7 \<notin> set (stream_requests (fst (dueRepairs stream 1000)) ops)"
proof -
  let ?stream = "\<lparr>rst_highest = 9, rst_based = True, rst_enabled = True, rst_missing = [(7, 0), (8, 0)], rst_lastTouched = 0\<rparr>"
  let ?ops = "[SArrived newRecoveryState \<lparr>pid_remote = [], pid_ssrc = 1, pid_sequenceNumber = 12\<rparr> 1500, SDue 2000]"
  have due: "snd (dueRepairs ?stream 1000) = [7, 8]" by code_simp
  have d: "dueRepairs ?stream 1000 = (fst (dueRepairs ?stream 1000), [7, 8])" using due by (metis prod.collapse)
  have "distinct (map fst (rst_missing ?stream))" "0 < (1000 :: instant)" by simp_all
  from repairs_are_paced [OF this(1) d this(2), of ?ops]
  have "7 \<notin> set (stream_requests (fst (dueRepairs ?stream 1000)) ?ops)" if "stays_missing 7 (fst (dueRepairs ?stream 1000)) ?ops"
    using that by simp
  moreover have "stays_missing 7 (fst (dueRepairs ?stream 1000)) ?ops" by code_simp
  moreover have "stream_requests (fst (dueRepairs ?stream 1000)) ?ops = [10, 11]" by code_simp
  ultimately show ?thesis using due by (simp add: Let_def)
qed

text \<open>
  A number that is dropped from the list is requested again at once.  \<^verbatim>\<open>trackGapLocked\<close> means to drop the numbers the sender no longer holds,
  those 4096 and more behind the packet that arrived, but it computes the distance modulo 65536 and so drops every number ahead of
  that packet as well.  Here the highest packet is 100, a parity group lists 105 and 106, and they are requested at 2000 ns; packet 102
  drops them, packet 107 lists them as a new gap, and they are requested a second time 2000 ns after the first.
\<close>

definition listed_stream :: recoveryStream where
  "listed_stream = stream_listed [105, 106]
     \<lparr>rst_highest = 100, rst_based = True, rst_enabled = True, rst_missing = [], rst_lastTouched = 1000\<rparr>"

theorem dropped_gap_is_requested_again:
  "snd (dueRepairs listed_stream 2000) = [105, 106] \<and>
   stream_requests (fst (dueRepairs listed_stream 2000))
     [SArrived newRecoveryState \<lparr>pid_remote = [], pid_ssrc = 7, pid_sequenceNumber = 102\<rparr> 3000, SDue 3000,
      SArrived newRecoveryState \<lparr>pid_remote = [], pid_ssrc = 7, pid_sequenceNumber = 107\<rparr> 4000, SDue 4000] =
     [101, 103, 104, 105, 106]"
proof -
  let ?s = "\<lambda>h missing touched. \<lparr>rst_highest = h, rst_based = True, rst_enabled = True, rst_missing = missing, rst_lastTouched = touched\<rparr>"
  let ?pid = "\<lambda>n. \<lparr>pid_remote = [], pid_ssrc = 7, pid_sequenceNumber = n\<rparr>"
  have due: "dueRepairs listed_stream 2000 = (?s 100 [(105, 2000), (106, 2000)] 1000, [105, 106])"
    by (simp add: listed_stream_def stream_listed_def dueRepairs_def recoveryHistorySize_def recoveryRequestSize_def)
  have a: "stream_arrived newRecoveryState (?pid 102) 3000 (?s 100 [(105, 2000), (106, 2000)] 1000) = ?s 102 [(101, 0)] 3000"
    by (simp add: stream_arrived_def trackGap_def recoveryHistorySize_def newRecoveryState_def upt_conv_Cons)
  have b: "dueRepairs (?s 102 [(101, 0)] 3000) 3000 = (?s 102 [(101, 3000)] 3000, [101])" by code_simp
  have c: "stream_arrived newRecoveryState (?pid 107) 4000 (?s 102 [(101, 3000)] 3000) =
      ?s 107 [(101, 3000), (103, 0), (104, 0), (105, 0), (106, 0)] 4000"
    by (simp add: stream_arrived_def trackGap_def recoveryHistorySize_def newRecoveryState_def upt_conv_Cons)
  have d: "snd (dueRepairs (?s 107 [(101, 3000), (103, 0), (104, 0), (105, 0), (106, 0)] 4000) 4000) = [103, 104, 105, 106]" by code_simp
  show ?thesis by (simp add: due a b c d)
qed

text \<open>
  C3: A lost packet comes back.  When a parity group is complete but for one
  packet, the history holds the others unchanged and the parity is that of the
  sender, the recovery of the group delivers the lost packet, byte for byte, to
  the address the parity came from, under the peer's identity.
\<close>

theorem lost_packet_is_delivered:
  assumes "recovery_inv st" "faithful (map_of (rs_packets st)) packet (g_entries grp)"
    "absent (map_of (rs_packets st)) (g_entries grp) = [wanted]"
    "g_parity grp = parity_of (map (packet \<circ> e_id) (g_entries grp))"
  shows "\<exists>st'. recoverGroup st grp = Some (st', Some \<lparr>dg_data = packet (e_id wanted), dg_addr = Some (g_remote grp),
       dg_identity = pid_remote (e_id wanted)\<rparr>, [pid_sequenceNumber (e_id wanted)]) \<and> recovery_inv st'"
proof -
  obtain data where x: "xor_entries (map_of (rs_packets st)) (g_entries grp) (g_parity grp) None = Some (Some (data, Some wanted))"
    "take (e_length wanted) data = packet (e_id wanted)" "e_length wanted \<le> length data"
    using xor_entries_parity [OF assms(2-4)] by blast
  obtain st1 where "storePacket st (e_id wanted) (packet (e_id wanted)) = Some st1" "recovery_inv st1"
    by (rule storePacket_inv [OF assms(1)])
  then show ?thesis using x assms(3) by (simp add: recoverGroup_def)
qed

theorem lost_packet_is_delivered_witness:
  "let a = \<lparr>pid_remote = ''ice:u:v'', pid_ssrc = 7, pid_sequenceNumber = 1\<rparr>; b = a\<lparr>pid_sequenceNumber := 2\<rparr>;
       entries = [\<lparr>e_id = a, e_length = 12\<rparr>, \<lparr>e_id = b, e_length = 13\<rparr>];
       grp = \<lparr>g_entries = entries, g_parity = parity_of [replicate 12 5, replicate 13 9], g_remote = ''r''\<rparr>
   in \<exists>st' d. recoverGroup (newRecoveryState\<lparr>rs_packets := [(a, replicate 12 5)], rs_packetOrder := [a]\<rparr>) grp =
        Some (st', Some d, [2]) \<and> dg_data d = replicate 13 9"
proof -
  define a where "a = \<lparr>pid_remote = ''ice:u:v'', pid_ssrc = 7, pid_sequenceNumber = 1 :: u16\<rparr>"
  define b where "b = a\<lparr>pid_sequenceNumber := 2\<rparr>"
  define packet where "packet = (\<lambda>i. if i = a then replicate 12 (5 :: u8) else replicate 13 9)"
  define grp where "grp = \<lparr>g_entries = [\<lparr>e_id = a, e_length = 12\<rparr>, \<lparr>e_id = b, e_length = 13\<rparr>],
    g_parity = parity_of [replicate 12 5, replicate 13 9], g_remote = ''r''\<rparr>"
  let ?st = "newRecoveryState\<lparr>rs_packets := [(a, replicate 12 5)], rs_packetOrder := [a]\<rparr>"
  have ne: "b \<noteq> a" by (simp add: a_def b_def)
  have "recovery_inv ?st"
    by (simp add: recovery_inv_def packets_inv_def groups_inv_def streams_inv_def newRecoveryState_def recovery_limits)
  moreover have "faithful (map_of (rs_packets ?st)) packet (g_entries grp)"
    "absent (map_of (rs_packets ?st)) (g_entries grp) = [\<lparr>e_id = b, e_length = 13\<rparr>]"
    "g_parity grp = parity_of (map (packet \<circ> e_id) (g_entries grp))"
    using ne by (simp_all add: faithful_def packet_def grp_def)
  ultimately have "\<exists>st'. recoverGroup ?st grp = Some (st', Some \<lparr>dg_data = packet b, dg_addr = Some ''r'',
      dg_identity = pid_remote b\<rparr>, [pid_sequenceNumber b])"
    using lost_packet_is_delivered [of ?st packet grp "\<lparr>e_id = b, e_length = 13\<rparr>"] by (auto simp: grp_def)
  moreover have "packet b = replicate 13 9" "pid_sequenceNumber b = 2" using ne by (simp_all add: packet_def b_def)
  ultimately show ?thesis
    unfolding Let_def a_def [symmetric] b_def [symmetric] grp_def [symmetric] by fastforce
qed

end
