(* ===== verification/Float64.thy ===== *)
theory Float64
  imports Complex_Main Prelude
begin

text \<open>
  Go's \<^verbatim>\<open>float64\<close>, as far as the program uses it: values are rationals, and every
  operation rounds its exact result to 53 significant bits, ties to even
  (\<open>f64\<close>).  The program's values are milliseconds and rates between \<open>2\<^sup>-\<^sup>3\<^sup>2\<close> and
  \<open>2\<^sup>6\<^sup>3\<close>, so overflow, subnormal numbers and NaN do not occur.
\<close>

section \<open>Rounding\<close>

fun bits :: "nat \<Rightarrow> nat" where
  "bits n = (if n = 0 then 0 else Suc (bits (n div 2)))"

declare bits.simps [simp del]

lemma bits_upper: "n < 2 ^ bits n"
proof (induction n rule: bits.induct)
  case (1 n)
  show ?case
  proof (cases "n = 0")
    case False
    with 1 have "n div 2 < 2 ^ bits (n div 2)" by simp
    then have "n < 2 * 2 ^ bits (n div 2)" by linarith
    with False show ?thesis by (subst bits.simps) simp
  qed (subst bits.simps, simp)
qed

lemma bits_lower: "0 < n \<Longrightarrow> 2 ^ bits n \<le> 2 * n"
proof (induction n rule: bits.induct)
  case (1 n)
  show ?case
  proof (cases "n div 2 = 0")
    case True
    with 1 have "n = 1" by simp
    then show ?thesis by (simp add: bits.simps)
  next
    case False
    with 1 have "2 ^ bits (n div 2) \<le> 2 * (n div 2)" by simp
    then have "2 ^ bits (n div 2) \<le> n" "n \<noteq> 0" using False by (linarith, auto)
    then show ?thesis by (subst bits.simps) simp
  qed
qed

definition pow2 :: "int \<Rightarrow> rat" where
  "pow2 e = (if 0 \<le> e then 2 ^ nat e else 1 / 2 ^ nat (- e))"

text \<open>The exponent of the leading bit of a positive rational.\<close>

definition ilog2 :: "rat \<Rightarrow> int" where
  "ilog2 x = (let (n, d) = quotient_of x;
                  e = int (bits (nat n)) - int (bits (nat d))
              in if pow2 e \<le> x then e else e - 1)"

text \<open>The same on integers, for evaluation.\<close>

function ibits :: "int \<Rightarrow> int" where
  "ibits n = (if n \<le> 0 then 0 else 1 + ibits (n div 2))"
  by auto
termination by (relation "measure nat") auto

declare ibits.simps [simp del]

lemma ibits_bits: "ibits n = int (bits (nat n))"
proof (induction n rule: ibits.induct)
  case (1 n)
  show ?case
  proof (cases "n \<le> 0")
    case False
    with 1 have "ibits (n div 2) = int (bits (nat n div 2))" by (simp add: nat_div_distrib)
    with False show ?thesis by (subst ibits.simps, subst bits.simps) simp
  qed (subst ibits.simps, subst bits.simps, simp)
qed

lemma ilog2_code [code]:
  "ilog2 x = (let (n, d) = quotient_of x; e = ibits n - ibits d in if pow2 e \<le> x then e else e - 1)"
  by (simp add: ilog2_def ibits_bits)

definition round_even :: "rat \<Rightarrow> int" where
  "round_even y = (let f = \<lfloor>y\<rfloor>; r = y - of_int f
                   in if r < 1 / 2 then f else if 1 / 2 < r then f + 1
                      else if even f then f else f + 1)"

definition f64 :: "rat \<Rightarrow> rat" where
  "f64 x = (if x = 0 then 0
            else let u = pow2 (ilog2 \<bar>x\<bar> - 52) in of_int (round_even (x / u)) * u)"

text \<open>Conversion of a float to an integer truncates towards zero.  Go leaves the result open for a float outside the integer's range; the rates
  the program converts stay far below it.\<close>

definition f64_to_int :: "rat \<Rightarrow> int" where
  "f64_to_int x = (if 0 \<le> x then \<lfloor>x\<rfloor> else \<lceil>x\<rceil>)"

text \<open>\<^verbatim>\<open>float64(d) / float64(time.Millisecond)\<close>.\<close>

definition ms_float :: "duration \<Rightarrow> rat" where
  "ms_float d = f64 (f64 (of_int d) / of_int Millisecond)"

section \<open>The rounding error\<close>

lemma pow2_pos [simp]: "0 < pow2 e"
  by (simp add: pow2_def)

lemma pow2_abs [simp]: "\<bar>pow2 e\<bar> = pow2 e"
  by (simp add: less_imp_le)

lemma pow2_nonzero [simp]: "pow2 e \<noteq> 0"
  by (simp add: pow2_def)

lemma pow2_powi: "pow2 e = 2 powi e"
  by (simp add: pow2_def power_int_def power_one_over)

lemma pow2_add: "pow2 (a + b) = pow2 a * pow2 b"
  by (simp add: pow2_powi power_int_add)

lemma pow2_nat: "pow2 (int n) = 2 ^ n"
  by (simp add: pow2_def)

lemma pow2_neg_52: "pow2 (- 52) = 1 / 2 ^ 52"
  by (simp add: pow2_def)

lemma pow2_ilog2:
  assumes "0 < x"
  shows "pow2 (ilog2 x) \<le> x"
proof -
  obtain n d where q: "quotient_of x = (n, d)" by fastforce
  then have d: "0 < d" and x: "x = of_int n / of_int d"
    using quotient_of_denom_pos quotient_of_div by auto
  then have n: "0 < n" using assms by (simp add: zero_less_divide_iff)
  let ?a = "bits (nat n)" and ?b = "bits (nat d)"
  have "int (2 ^ ?a) \<le> int (2 * nat n)" using bits_lower n by (simp only: of_nat_le_iff)
  then have "(of_int (2 ^ ?a) :: rat) \<le> of_int (2 * n)" using n by (simp only: of_int_le_iff) simp
  then have a: "2 ^ ?a \<le> 2 * (of_int n :: rat)" by simp
  have "int (nat d) < int (2 ^ ?b)" using bits_upper by (simp only: of_nat_less_iff)
  then have "(of_int d :: rat) < of_int (2 ^ ?b)" using d by (simp only: of_int_less_iff) simp
  then have b: "(of_int d :: rat) < 2 ^ ?b" by simp
  let ?e = "int ?a - int ?b"
  have "pow2 (?e - 1) * 2 * 2 ^ ?b = 2 ^ ?a"
    using pow2_add [of "?e - 1" 1] pow2_add [of ?e "int ?b"] pow2_nat [of 1] by (simp add: pow2_nat)
  then have "pow2 (?e - 1) * 2 ^ ?b \<le> of_int n" using a by simp
  then have "pow2 (?e - 1) * of_int d \<le> of_int n"
    using b by (meson less_imp_le mult_left_mono order_trans pow2_pos)
  then have "pow2 (?e - 1) \<le> x" using d by (simp add: x le_divide_eq)
  then show ?thesis by (simp add: ilog2_def q Let_def)
qed

lemma round_even_error: "\<bar>of_int (round_even y) - y\<bar> \<le> 1 / 2"
  unfolding round_even_def Let_def using floor_correct [of y] by (auto simp: abs_le_iff)

lemma round_even_int [simp]: "round_even (of_int n) = n"
  by (simp add: round_even_def)

lemma f64_error: "\<bar>f64 x - x\<bar> \<le> \<bar>x\<bar> / 2 ^ 53"
proof (cases "x = 0")
  case True
  then show ?thesis by (simp add: f64_def)
next
  case False
  let ?u = "pow2 (ilog2 \<bar>x\<bar> - 52)"
  have "f64 x - x = (of_int (round_even (x / ?u)) - x / ?u) * ?u"
    using False by (simp add: f64_def Let_def left_diff_distrib)
  then have "\<bar>f64 x - x\<bar> = \<bar>of_int (round_even (x / ?u)) - x / ?u\<bar> * ?u"
    by (simp add: abs_mult)
  also have "\<dots> \<le> 1 / 2 * ?u"
    by (intro mult_right_mono round_even_error) (simp add: less_imp_le)
  also have "?u = pow2 (ilog2 \<bar>x\<bar>) * (1 / 2 ^ 52)"
    using pow2_add [of "ilog2 \<bar>x\<bar>" "- 52"] by (simp add: pow2_neg_52)
  also have "1 / 2 * (pow2 (ilog2 \<bar>x\<bar>) * (1 / 2 ^ 52)) \<le> \<bar>x\<bar> / 2 ^ 53"
    using pow2_ilog2 [of "\<bar>x\<bar>"] False by simp
  finally show ?thesis .
qed

text \<open>Integers below \<open>2\<^sup>5\<^sup>3\<close> are exact.\<close>

lemma f64_of_int:
  assumes "\<bar>n\<bar> < 2 ^ 53"
  shows "f64 (of_int n) = of_int n"
proof (cases "n = 0")
  case True
  then show ?thesis by (simp add: f64_def)
next
  case False
  let ?x = "of_int n :: rat" and ?e = "ilog2 \<bar>of_int n :: rat\<bar>"
  have "pow2 ?e \<le> \<bar>?x\<bar>" using False by (intro pow2_ilog2) simp
  also have "\<dots> < 2 ^ 53" using assms by (metis of_int_abs of_int_less_iff of_int_numeral of_int_power)
  finally have "pow2 ?e < pow2 53" by (simp add: pow2_def)
  then have "?e < 53" by (metis not_le pow2_powi power_int_increasing one_le_numeral)
  then have "pow2 (?e - 52) * of_int (2 ^ nat (52 - ?e)) = 1"
    using pow2_add [of "?e - 52" "52 - ?e"] by (simp add: pow2_def split: if_splits)
  then have "?x = ?x * of_int (2 ^ nat (52 - ?e)) * pow2 (?e - 52)"
    by (simp add: mult.assoc mult.commute [of _ "pow2 (?e - 52)"])
  then have "?x / pow2 (?e - 52) = of_int (n * 2 ^ nat (52 - ?e))"
    by (simp add: divide_eq_eq)
  then show ?thesis
    using False by (simp only: f64_def Let_def round_even_int) (simp add: field_simps)
qed

section \<open>Chains of roundings\<close>

text \<open>\<open>near n x y\<close>: \<open>x\<close> is \<open>y\<close> up to \<open>n\<close> roundings.\<close>

definition ulp1 :: rat where "ulp1 = 1 + 1 / 2 ^ 52"

definition near :: "nat \<Rightarrow> rat \<Rightarrow> rat \<Rightarrow> bool" where
  "near n x y \<longleftrightarrow> 0 \<le> y \<and> y / ulp1 ^ n \<le> x \<and> x \<le> y * ulp1 ^ n"

lemma ulp1_pos: "0 < ulp1" "1 \<le> ulp1"
  by (simp_all add: ulp1_def)

lemma near_refl: "0 \<le> y \<Longrightarrow> near 0 y y"
  by (simp add: near_def)

lemma near_nonneg: "near n x y \<Longrightarrow> 0 \<le> x"
  using divide_nonneg_pos [of y "ulp1 ^ n"] zero_less_power [OF ulp1_pos(1)] unfolding near_def
  by (meson order_trans)

lemma near_mono: 
  assumes "near n x y" "n \<le> m"
  shows "near m x y"
proof -
  have "ulp1 ^ n \<le> ulp1 ^ m" using assms(2) ulp1_pos by (simp add: power_increasing)
  moreover have "0 < ulp1 ^ n" using ulp1_pos by simp
  ultimately have "y / ulp1 ^ m \<le> y / ulp1 ^ n" "y * ulp1 ^ n \<le> y * ulp1 ^ m"
    using assms(1) by (auto simp: near_def intro: divide_left_mono mult_left_mono)
  with assms(1) show ?thesis by (auto simp: near_def)
qed

lemma near_f64_self:
  assumes "0 \<le> x"
  shows "near 1 (f64 x) x"
proof -
  have "x - x / 2 ^ 53 \<le> f64 x" "f64 x \<le> x + x / 2 ^ 53"
    using abs_le_D1 [OF f64_error [of x]] abs_le_D2 [OF f64_error [of x]] assms by linarith+
  moreover have "x / ulp1 \<le> x - x / 2 ^ 53" "x + x / 2 ^ 53 \<le> x * ulp1"
    using assms by (auto simp: ulp1_def field_simps)
  ultimately show ?thesis using assms unfolding near_def power_one_right by linarith
qed

lemma near_trans:
  assumes "near n x y" "near m y z"
  shows "near (n + m) x z"
proof -
  have p: "0 < ulp1 ^ n" "0 < ulp1 ^ m" using ulp1_pos by simp_all
  have "z / ulp1 ^ m / ulp1 ^ n \<le> y / ulp1 ^ n" "y * ulp1 ^ n \<le> z * ulp1 ^ m * ulp1 ^ n"
    using assms(2) p divide_right_mono [of "z / ulp1 ^ m" y "ulp1 ^ n"] mult_right_mono [of y "z * ulp1 ^ m" "ulp1 ^ n"]
    unfolding near_def by linarith+
  then have "z / ulp1 ^ (n + m) \<le> x" "x \<le> z * ulp1 ^ (n + m)"
    using assms(1) by (simp_all add: near_def power_add mult.commute mult.left_commute)
  then show ?thesis using assms(2) by (simp add: near_def)
qed

lemma near_f64: "near n x y \<Longrightarrow> near (Suc n) (f64 x) y"
  using near_trans [OF near_f64_self [OF near_nonneg]] by fastforce

lemma near_scale:
  assumes "near n x y" "0 \<le> c"
  shows "near n (x * c) (y * c)"
proof -
  have "y / ulp1 ^ n * c \<le> x * c" "x * c \<le> y * ulp1 ^ n * c"
    using assms mult_right_mono [of "y / ulp1 ^ n" x c] mult_right_mono [of x "y * ulp1 ^ n" c]
    unfolding near_def by blast+
  then show ?thesis using assms by (simp add: near_def mult.commute mult.left_commute)
qed

lemma near_add: "near n x y \<Longrightarrow> near n x' y' \<Longrightarrow> near n (x + x') (y + y')"
  by (auto simp: near_def add_divide_distrib distrib_right)

lemma near_divide:
  assumes "near n x y" "near m s t" "0 < t"
  shows "near (n + m) (x / s) (y / t)"
proof -
  have p: "0 < ulp1 ^ n" "0 < ulp1 ^ m" using ulp1_pos by simp_all
  have s: "0 < s" using assms(2,3) p by (auto simp: near_def intro: less_le_trans [rotated])
  have "near m (1 / s) (1 / t)"
    using assms(2,3) s p by (simp add: near_def field_simps)
  then have "near m (y * (1 / s)) (y * (1 / t))"
    using assms(1) near_scale [of m "1 / s" "1 / t" y] by (simp add: near_def mult.commute)
  moreover have "near n (x * (1 / s)) (y * (1 / s))" using near_scale [OF assms(1), of "1 / s"] s by simp
  ultimately show ?thesis using near_trans by fastforce
qed


lemma ulp1_6: "ulp1 ^ 6 \<le> 1 + 1 / 2 ^ 49" "1 - 1 / 2 ^ 49 \<le> 1 / ulp1 ^ 6"
  by (simp_all add: ulp1_def field_simps)

end
