(* ===== verification/Dynamic_Delay.thy ===== *)
theory Dynamic_Delay
  imports Float64
begin

text \<open>
  \<^verbatim>\<open>internal/dynamicdelay\<close>: the policy that moves a camera's shared playout delay.
  \<open>Options\<close> are the persisted settings, \<open>State\<close> is one immutable playout curve,
  and \<open>Controller\<close> owns the current curve.  The controller's mutex makes every
  method atomic, so a method is one function on the controller; the time it is
  called at is an argument.  Methods carry their receiver's name as a prefix.
\<close>

section \<open>Settings\<close>

record Options =
  Enabled :: bool
  MaximumMS :: int
  Jump :: bool
  CatchUpMSPerSecond :: int
  AutoCatchUp :: "bool option"

definition MaximumMS_limit :: int where
  "MaximumMS_limit = 10000"

definition Options_Normalize :: "Options \<Rightarrow> int \<Rightarrow> Options" where
  "Options_Normalize opts baseMS =
     (let maximum = (if MaximumMS opts = 0 then MaximumMS_limit else MaximumMS opts);
          jump = (if MaximumMS opts = 0 then True else Jump opts);
          catchUp = (if CatchUpMSPerSecond opts = 0 then 10 else CatchUpMSPerSecond opts);
          auto = (case AutoCatchUp opts of None \<Rightarrow> True | Some b \<Rightarrow> b)
      in opts\<lparr>MaximumMS := max 1 (max baseMS (min MaximumMS_limit maximum)), Jump := jump,
              CatchUpMSPerSecond := max 1 (min 200 catchUp), AutoCatchUp := Some auto\<rparr>)"

definition Options_Automatic :: "Options \<Rightarrow> bool" where
  "Options_Automatic opts = (case AutoCatchUp opts of None \<Rightarrow> True | Some b \<Rightarrow> b)"

definition Options_CatchUp :: "Options \<Rightarrow> duration \<Rightarrow> duration \<Rightarrow> duration" where
  "Options_CatchUp opts current base =
     (if \<not> Options_Automatic opts then i64 (CatchUpMSPerSecond opts * Millisecond)
      else let span = max Millisecond (i64 (MaximumMS opts * Millisecond) - base);
               speed = min 200 (10 + i64 (1900 * max 0 (current - base)) sdiv i64 (9 * span))
           in i64 (speed * Millisecond))"

section \<open>The curve\<close>

record State =
  Start :: instant
  From :: duration
  To :: duration
  Shift :: duration
  Cutoff :: instant
  Pending :: bool

definition State_Delay :: "State \<Rightarrow> instant \<Rightarrow> duration" where
  "State_Delay s now =
     (let elapsed = min Second (max 0 (time_Sub now (Start s)))
      in From s + i64 ((To s - From s) * elapsed) sdiv Second)"

section \<open>The controller\<close>

record Controller =
  c_state :: "State option"
  c_options :: Options
  c_base :: duration
  c_goal :: duration
  c_quietUntil :: instant
  c_lastStep :: instant
  c_shift :: duration
  c_cutoff :: instant

definition Options_zero :: Options where
  "Options_zero = \<lparr>Enabled = False, MaximumMS = 0, Jump = False, CatchUpMSPerSecond = 0,
     AutoCatchUp = None\<rparr>"

definition Controller_zero :: Controller where
  "Controller_zero = \<lparr>c_state = None, c_options = Options_zero, c_base = 0, c_goal = 0,
     c_quietUntil = 0, c_lastStep = 0, c_shift = 0, c_cutoff = 0\<rparr>"

definition Controller_Configure ::
  "Controller \<Rightarrow> duration \<Rightarrow> Options \<Rightarrow> instant \<Rightarrow> Controller" where
  "Controller_Configure c base opts now =
     (let options = Options_Normalize opts (base sdiv Millisecond);
          previous = (c_options c)\<lparr>CatchUpMSPerSecond := CatchUpMSPerSecond options,
                                   AutoCatchUp := AutoCatchUp options\<rparr>
      in if c_base c = base \<and> previous = options then c\<lparr>c_options := options\<rparr>
         else let c' = c\<lparr>c_base := base, c_options := options, c_goal := base\<rparr>
              in if c_state c = None \<and> \<not> Enabled options then c'
                 else let current = (case c_state c of
                                       Some s \<Rightarrow> if Enabled options then State_Delay s now else base
                                     | None \<Rightarrow> base)
                      in c'\<lparr>c_state := Some \<lparr>Start = now, From = current, To = current,
                                 Shift = c_shift c, Cutoff = c_cutoff c, Pending = False\<rparr>\<rparr>)"

text \<open>The sum of the current delay and the lateness is not reduced to 64 bits here: the delay is at most 10 s, and the lateness of a packet is the difference of
  two instants of one run.\<close>

definition Controller_updateGoal ::
  "Controller \<Rightarrow> instant \<Rightarrow> duration \<Rightarrow> duration \<Rightarrow> Controller \<times> bool" where
  "Controller_updateGoal c now current late =
     (let maximum = i64 (MaximumMS (c_options c) * Millisecond)
      in if late > 0
         then let wanted = current + (late + 100 * Millisecond)
              in (c\<lparr>c_goal := max (c_goal c) (min maximum wanted),
                    c_quietUntil := now + 5 * Second\<rparr>, wanted > maximum)
         else ((if now > c_quietUntil c then c\<lparr>c_goal := c_base c\<rparr> else c), current > maximum))"

definition Controller_Step ::
  "Controller \<Rightarrow> instant \<Rightarrow> duration \<Rightarrow> Controller \<times> State option" where
  "Controller_Step c now late =
     (case c_state c of
        None \<Rightarrow> (c, None)
      | Some state \<Rightarrow>
          if now < Cutoff state \<or> time_Sub now (c_lastStep c) < Second then (c, Some state)
          else let c1 = c\<lparr>c_lastStep := now\<rparr>
               in if \<not> Enabled (c_options c1) then (c1\<lparr>c_state := None\<rparr>, None)
                  else let current = State_Delay state now;
                           (c2, exceeded) = Controller_updateGoal c1 now current late;
                           catchUp = Options_CatchUp (c_options c2) current (c_base c2);
                           next = state\<lparr>Start := now, From := current,
                                        Pending := Pending state \<or> (Jump (c_options c2) \<and> exceeded),
                                        To := max (current - catchUp)
                                                  (min (current + 50 * Millisecond) (c_goal c2))\<rparr>
                       in (c2\<lparr>c_state := Some next\<rparr>, Some next))"

definition Controller_Jump :: "Controller \<Rightarrow> instant \<Rightarrow> instant \<Rightarrow> Controller" where
  "Controller_Jump c now mediaTime =
     (case c_state c of
        None \<Rightarrow> c
      | Some state \<Rightarrow>
          if \<not> Pending state then c
          else let next = \<lparr>Start = now, From = c_base c, To = c_base c,
                           Shift = Shift state + time_Sub now mediaTime, Cutoff = now,
                           Pending = False\<rparr>
               in c\<lparr>c_shift := Shift next, c_cutoff := Cutoff next, c_goal := c_base c,
                    c_quietUntil := now + 5 * Second, c_state := Some next\<rparr>)"

text \<open>\<^verbatim>\<open>Status\<close>: what the dashboard shows.\<close>

record Status =
  st_Enabled :: bool
  st_DelayMS :: int
  st_CurrentDelayMS :: rat
  st_CatchUpMSPerSecond :: rat
  st_JumpPending :: bool

definition Controller_Status :: "Controller \<Rightarrow> instant \<Rightarrow> Status" where
  "Controller_Status c now =
     (let status = \<lparr>st_Enabled = Enabled (c_options c), st_DelayMS = c_base c sdiv Millisecond,
                    st_CurrentDelayMS = ms_float (c_base c), st_CatchUpMSPerSecond = 0,
                    st_JumpPending = False\<rparr>
      in case c_state c of
           None \<Rightarrow> status
         | Some state \<Rightarrow>
             if st_Enabled status
             then let status' = status\<lparr>st_CurrentDelayMS := ms_float (State_Delay state now),
                                       st_JumpPending := Pending state\<rparr>
                  in if \<not> now < Start state \<and> time_Sub now (Start state) < Second
                     then status'\<lparr>st_CatchUpMSPerSecond := ms_float (max 0 (From state - To state))\<rparr>
                     else status'
             else status)"

section \<open>The settings after normalisation\<close>

definition normalized :: "Options \<Rightarrow> duration \<Rightarrow> bool" where
  "normalized opts base \<longleftrightarrow>
     1 \<le> MaximumMS opts \<and> MaximumMS opts \<le> MaximumMS_limit \<and>
     base \<le> MaximumMS opts * Millisecond \<and>
     1 \<le> CatchUpMSPerSecond opts \<and> CatchUpMSPerSecond opts \<le> 200 \<and> AutoCatchUp opts \<noteq> None"

lemmas Normalize_defs = Options_Normalize_def MaximumMS_limit_def Let_def

lemma Normalize_Enabled [simp]: "Enabled (Options_Normalize opts m) = Enabled opts"
  by (simp add: Normalize_defs)

lemma Normalize_fields:
  "MaximumMS (Options_Normalize opts m) =
     max 1 (max m (min 10000 (if MaximumMS opts = 0 then 10000 else MaximumMS opts)))"
  "Jump (Options_Normalize opts m) = (if MaximumMS opts = 0 then True else Jump opts)"
  "CatchUpMSPerSecond (Options_Normalize opts m) =
     max 1 (min 200 (if CatchUpMSPerSecond opts = 0 then 10 else CatchUpMSPerSecond opts))"
  "AutoCatchUp (Options_Normalize opts m) =
     Some (case AutoCatchUp opts of None \<Rightarrow> True | Some b \<Rightarrow> b)"
  "Options.more (Options_Normalize opts m) = Options.more opts"
  by (simp_all add: Normalize_defs)

lemma Normalize_normalized:
  "0 \<le> m \<Longrightarrow> m \<le> MaximumMS_limit \<Longrightarrow> normalized (Options_Normalize opts m) (m * Millisecond)"
  by (auto simp: normalized_def Normalize_defs)

lemma Normalize_idem:
  "Options_Normalize (Options_Normalize opts m) m = Options_Normalize opts m"
proof -
  have clamp: "max 1 (max m (min 10000 (max 1 (max m (min 10000 x))))) = max 1 (max m (min 10000 x))"
    "max 1 (min 200 (max 1 (min 200 x))) = max 1 (min 200 x)"
    "max 1 (max m (min 10000 x)) \<noteq> 0" "max 1 (min 200 x) \<noteq> 0" for x :: int
    by linarith+
  show ?thesis
    by (rule Options.equality)
      (simp_all only: Normalize_Enabled Normalize_fields clamp if_False option.case simp_thms)
qed

lemma CatchUp_eq:
  assumes "normalized opts base" "0 \<le> base" "current \<le> MaximumMS_limit * Millisecond"
  obtains speed where "10 \<le> speed" "speed \<le> 200"
    "speed = min 200 (10 + (1900 * max 0 (current - base)) sdiv
              (9 * max Millisecond (MaximumMS opts * Millisecond - base)))"
    "Options_CatchUp opts current base =
      (if \<not> Options_Automatic opts then CatchUpMSPerSecond opts else speed) * Millisecond"
proof -
  define span where "span = max Millisecond (MaximumMS opts * Millisecond - base)"
  define excess where "excess = max 0 (current - base)"
  define speed where "speed = min 200 (10 + (1900 * excess) sdiv (9 * span))"
  have n: "1 \<le> MaximumMS opts" "MaximumMS opts \<le> 10000" "1 \<le> CatchUpMSPerSecond opts"
    "CatchUpMSPerSecond opts \<le> 200"
    using assms(1) by (auto simp: normalized_def MaximumMS_limit_def)
  have bounds: "0 \<le> excess" "excess \<le> 10000 * Millisecond" "0 < span" "span \<le> 10000 * Millisecond"
    using n assms(2,3) by (auto simp: excess_def span_def MaximumMS_limit_def less_max_iff_disj)
  then have "0 \<le> (1900 * excess) sdiv (9 * span)" by (intro sdiv_nonneg) auto
  then have sp: "10 \<le> speed" "speed \<le> 200" by (auto simp: speed_def)
  have exact: "i64 (MaximumMS opts * Millisecond) = MaximumMS opts * Millisecond"
    "i64 (CatchUpMSPerSecond opts * Millisecond) = CatchUpMSPerSecond opts * Millisecond"
    "i64 (1900 * excess) = 1900 * excess" "i64 (9 * span) = 9 * span"
    "i64 (speed * Millisecond) = speed * Millisecond"
    using n bounds sp by (auto intro!: i64_small)
  have "Options_CatchUp opts current base =
      (if \<not> Options_Automatic opts then CatchUpMSPerSecond opts else speed) * Millisecond"
    by (simp add: Options_CatchUp_def Let_def exact flip: span_def excess_def speed_def)
  then show ?thesis using sp that by (simp add: speed_def excess_def span_def)
qed

lemma CatchUp_bounds:
  assumes "normalized opts base" "0 \<le> base" "current \<le> MaximumMS_limit * Millisecond"
  shows "Millisecond \<le> Options_CatchUp opts current base"
    and "Options_CatchUp opts current base \<le> 200 * Millisecond"
proof -
  have "1 \<le> CatchUpMSPerSecond opts" "CatchUpMSPerSecond opts \<le> 200"
    using assms(1) by (auto simp: normalized_def)
  moreover obtain speed where "10 \<le> speed" "speed \<le> 200" "Options_CatchUp opts current base =
      (if \<not> Options_Automatic opts then CatchUpMSPerSecond opts else speed) * Millisecond"
    using CatchUp_eq [OF assms] by metis
  ultimately show "Millisecond \<le> Options_CatchUp opts current base"
    and "Options_CatchUp opts current base \<le> 200 * Millisecond"
    by auto
qed

section \<open>The curve stays between its ends\<close>

text \<open>The steepest curve the controller draws: a tenth of a second's growth is far below it.\<close>

definition curve_ok :: "State \<Rightarrow> bool" where
  "curve_ok s \<longleftrightarrow> 0 \<le> From s \<and> From s \<le> MaximumMS_limit * Millisecond \<and>
     0 \<le> To s \<and> To s \<le> MaximumMS_limit * Millisecond \<and> \<bar>To s - From s\<bar> \<le> 200 * Millisecond"

lemma curve_product_exact:
  assumes "curve_ok s" "0 \<le> e" "e \<le> Second"
  shows "i64 ((To s - From s) * e) = (To s - From s) * e"
proof (rule i64_abs_id)
  have "\<bar>(To s - From s) * e\<bar> = \<bar>To s - From s\<bar> * \<bar>e\<bar>"
    by (rule abs_mult)
  also have "\<dots> \<le> (200 * Millisecond) * Second"
    using assms by (intro mult_mono) (auto simp: curve_ok_def)
  finally show "\<bar>(To s - From s) * e\<bar> \<le> (200 * Millisecond) * Second" .
qed simp

lemma Delay_exact:
  "curve_ok s \<Longrightarrow> State_Delay s now =
     From s + ((To s - From s) * min Second (max 0 (time_Sub now (Start s)))) sdiv Second"
  by (simp add: State_Delay_def Let_def curve_product_exact)

lemma Delay_between:
  assumes "curve_ok s"
  shows "min (From s) (To s) \<le> State_Delay s now \<and> State_Delay s now \<le> max (From s) (To s)"
proof -
  let ?e = "min Second (max 0 (time_Sub now (Start s)))"
  have e: "0 \<le> ?e" "?e \<le> Second" by auto
  have "if From s \<le> To s
        then 0 \<le> ((To s - From s) * ?e) sdiv Second \<and> ((To s - From s) * ?e) sdiv Second \<le> To s - From s
        else To s - From s \<le> ((To s - From s) * ?e) sdiv Second \<and> ((To s - From s) * ?e) sdiv Second \<le> 0"
    using share_pos [of "To s - From s", OF _ e] share_neg [of "To s - From s", OF _ e] by auto
  then show ?thesis
    unfolding Delay_exact [OF assms] by (cases "From s \<le> To s") auto
qed

lemma Delay_range:
  "curve_ok s \<Longrightarrow> 0 \<le> State_Delay s now \<and> State_Delay s now \<le> MaximumMS_limit * Millisecond"
  using Delay_between [of s now] unfolding curve_ok_def by linarith

lemma Delay_start: "State_Delay s (Start s) = From s"
  by (simp add: State_Delay_def time_Sub_def i64_def sdiv_pos_eq)

lemma Delay_finished:
  assumes "curve_ok s" "Start s + Second \<le> now"
  shows "State_Delay s now = To s"
proof -
  have "Second \<le> time_Sub now (Start s)"
    using assms(2) by (intro time_Sub_ge) auto
  then have "min Second (max 0 (time_Sub now (Start s))) = Second"
    by simp
  then show ?thesis
    by (simp only: Delay_exact [OF assms(1)] sdiv_mult_self)
qed

lemma Delay_flat: "From s = To s \<Longrightarrow> State_Delay s now = To s"
  by (simp add: State_Delay_def Let_def i64_def sdiv_pos_eq)

section \<open>Runs of the controller\<close>

text \<open>
  What the relay does with a controller: \<^verbatim>\<open>ConfigureDelay\<close> with a normal delay in
  whole milliseconds within the permitted range, the periodic \<^verbatim>\<open>Step\<close>, and the
  \<^verbatim>\<open>Jump\<close> at a keyframe, at any time and in any order.
\<close>

inductive ctl_step :: "Controller \<Rightarrow> Controller \<Rightarrow> bool" where
  configure: "0 \<le> m \<Longrightarrow> m \<le> MaximumMS_limit \<Longrightarrow>
     ctl_step c (Controller_Configure c (m * Millisecond) opts now)"
| tick: "ctl_step c (fst (Controller_Step c now late))"
| jump: "ctl_step c (Controller_Jump c now mediaTime)"

inductive ctl_reachable :: "Controller \<Rightarrow> bool" where
  zero: "ctl_reachable Controller_zero"
| step: "ctl_reachable c \<Longrightarrow> ctl_step c c' \<Longrightarrow> ctl_reachable c'"

definition controller_inv :: "Controller \<Rightarrow> bool" where
  "controller_inv c \<longleftrightarrow> 0 \<le> c_base c \<and> c_base c \<le> MaximumMS_limit * Millisecond \<and>
     (\<forall>s. c_state c = Some s \<longrightarrow>
        curve_ok s \<and> normalized (c_options c) (c_base c) \<and>
        c_base c \<le> c_goal c \<and> c_goal c \<le> MaximumMS (c_options c) * Millisecond)"

lemma controller_invD:
  assumes "controller_inv c" "c_state c = Some s"
  shows "curve_ok s" "normalized (c_options c) (c_base c)" "0 \<le> c_base c"
    "c_base c \<le> c_goal c" "c_goal c \<le> MaximumMS (c_options c) * Millisecond"
    "c_goal c \<le> MaximumMS_limit * Millisecond"
  using assms by (auto simp: controller_inv_def normalized_def MaximumMS_limit_def)

lemma controller_inv_zero: "controller_inv Controller_zero"
  by (simp add: controller_inv_def Controller_zero_def MaximumMS_limit_def)

lemma ms_sdiv [simp]: "(m * Millisecond) sdiv Millisecond = m"
  by (rule sdiv_mult_self) simp

lemma curve_ok_flat: "0 \<le> d \<Longrightarrow> d \<le> MaximumMS_limit * Millisecond \<Longrightarrow>
    curve_ok \<lparr>Start = t, From = d, To = d, Shift = h, Cutoff = u, Pending = p\<rparr>"
  by (simp add: curve_ok_def)

lemma Configure_inv:
  assumes "controller_inv c" "0 \<le> m" "m \<le> MaximumMS_limit"
  shows "controller_inv (Controller_Configure c (m * Millisecond) opts now)"
proof -
  let ?base = "m * Millisecond" and ?opts = "Options_Normalize opts m"
  have n: "normalized ?opts ?base" by (rule Normalize_normalized [OF assms(2,3)])
  have b: "0 \<le> ?base" "?base \<le> MaximumMS_limit * Millisecond"
    using assms(2,3) by auto
  show ?thesis
  proof (cases "c_base c = ?base \<and> (c_options c)\<lparr>CatchUpMSPerSecond := CatchUpMSPerSecond ?opts,
       AutoCatchUp := AutoCatchUp ?opts\<rparr> = ?opts")
    case True
    then have "MaximumMS (c_options c) = MaximumMS ?opts"
      by (metis Options.select_convs(2) Options.surjective Options.update_convs(4) Options.update_convs(5))
    with True n assms(1) show ?thesis
      by (simp add: Controller_Configure_def Let_def controller_inv_def)
  next
    case False
    then show ?thesis
      using n b assms(1) Delay_range
      by (auto simp: Controller_Configure_def Let_def controller_inv_def curve_ok_flat
          normalized_def split: option.split)
  qed
qed

lemma updateGoal_frame [simp]:
  "c_base (fst (Controller_updateGoal c now current late)) = c_base c"
  "c_options (fst (Controller_updateGoal c now current late)) = c_options c"
  "c_state (fst (Controller_updateGoal c now current late)) = c_state c"
  "c_shift (fst (Controller_updateGoal c now current late)) = c_shift c"
  "c_cutoff (fst (Controller_updateGoal c now current late)) = c_cutoff c"
  "c_lastStep (fst (Controller_updateGoal c now current late)) = c_lastStep c"
  by (simp_all add: Controller_updateGoal_def Let_def)

lemma normalized_maximum:
  "normalized opts base \<Longrightarrow> i64 (MaximumMS opts * Millisecond) = MaximumMS opts * Millisecond"
  by (rule i64_small) (auto simp: normalized_def MaximumMS_limit_def)

lemma updateGoal_goal:
  assumes "normalized (c_options c) (c_base c)" "c_base c \<le> c_goal c"
    "c_goal c \<le> MaximumMS (c_options c) * Millisecond"
  shows "c_base c \<le> c_goal (fst (Controller_updateGoal c now current late))"
    and "c_goal (fst (Controller_updateGoal c now current late)) \<le> MaximumMS (c_options c) * Millisecond"
  using assms by (auto simp: Controller_updateGoal_def Let_def normalized_maximum normalized_def)

text \<open>The curve a tick draws, given the goal it settled on.\<close>

definition next_To :: "duration \<Rightarrow> duration \<Rightarrow> duration \<Rightarrow> duration" where
  "next_To current catchUp goal = max (current - catchUp) (min (current + 50 * Millisecond) goal)"

lemma next_To_bounds:
  assumes "0 \<le> catchUp"
  shows "min current goal \<le> next_To current catchUp goal"
    and "next_To current catchUp goal \<le> max current goal"
    and "current - catchUp \<le> next_To current catchUp goal"
    and "next_To current catchUp goal \<le> current + 50 * Millisecond"
  using assms by (auto simp: next_To_def)

definition step_active :: "Controller \<Rightarrow> State \<Rightarrow> instant \<Rightarrow> bool" where
  "step_active c s now \<longleftrightarrow>
     c_state c = Some s \<and> Cutoff s \<le> now \<and> Second \<le> time_Sub now (c_lastStep c)"

lemma Step_inactive:
  "c_state c = Some s \<Longrightarrow> \<not> step_active c s now \<Longrightarrow> Controller_Step c now late = (c, Some s)"
  by (auto simp: Controller_Step_def step_active_def)

lemma Step_fixed: "c_state c = None \<Longrightarrow> Controller_Step c now late = (c, None)"
  by (simp add: Controller_Step_def)

lemma Step_disabled:
  "step_active c s now \<Longrightarrow> \<not> Enabled (c_options c) \<Longrightarrow>
     Controller_Step c now late = (c\<lparr>c_lastStep := now, c_state := None\<rparr>, None)"
  by (simp add: Controller_Step_def step_active_def)

lemma Step_enabled:
  fixes late :: duration
  assumes "step_active c s now" "Enabled (c_options c)"
  defines "current \<equiv> State_Delay s now"
  defines "c2 \<equiv> fst (Controller_updateGoal (c\<lparr>c_lastStep := now\<rparr>) now current late)"
  defines "exceeded \<equiv> snd (Controller_updateGoal (c\<lparr>c_lastStep := now\<rparr>) now current late)"
  defines "next \<equiv> s\<lparr>Start := now, From := current, Pending := Pending s \<or> (Jump (c_options c) \<and> exceeded),
      To := next_To current (Options_CatchUp (c_options c) current (c_base c)) (c_goal c2)\<rparr>"
  shows "Controller_Step c now late = (c2\<lparr>c_state := Some next\<rparr>, Some next)"
  using assms(1,2)
  by (simp add: Controller_Step_def step_active_def next_def c2_def exceeded_def current_def Let_def
      next_To_def case_prod_unfold)

lemma next_curve_ok:
  assumes "curve_ok s" "normalized opts base" "0 \<le> base" "base \<le> goal"
    "goal \<le> MaximumMS_limit * Millisecond"
  shows "curve_ok (s\<lparr>Start := now, From := State_Delay s now, Pending := p,
     To := next_To (State_Delay s now) (Options_CatchUp opts (State_Delay s now) base) goal\<rparr>)"
proof -
  have r: "0 \<le> State_Delay s now" "State_Delay s now \<le> MaximumMS_limit * Millisecond"
    using Delay_range [OF assms(1)] by auto
  note cu = CatchUp_bounds [OF assms(2,3) r(2)]
  have "0 \<le> Options_CatchUp opts (State_Delay s now) base" using cu(1) by simp
  from next_To_bounds [OF this, of "State_Delay s now" goal] r cu(2) assms(3-5)
  show ?thesis by (simp add: curve_ok_def) linarith
qed

lemma Step_inv:
  assumes "controller_inv c"
  shows "controller_inv (fst (Controller_Step c now late))"
proof (cases "c_state c")
  case None
  with assms show ?thesis by (simp add: Step_fixed)
next
  case (Some s)
  let ?cur = "State_Delay s now"
  let ?c1 = "c\<lparr>c_lastStep := now\<rparr>"
  have goal: "c_base c \<le> c_goal (fst (Controller_updateGoal ?c1 now ?cur late))"
    "c_goal (fst (Controller_updateGoal ?c1 now ?cur late)) \<le> MaximumMS (c_options c) * Millisecond"
    using updateGoal_goal [of ?c1 now ?cur late] controller_invD [OF assms Some] by simp_all
  consider (idle) "\<not> step_active c s now" | (off) "step_active c s now" "\<not> Enabled (c_options c)"
    | (on) "step_active c s now" "Enabled (c_options c)" by blast
  then show ?thesis
  proof cases
    case idle
    with assms Some show ?thesis by (simp add: Step_inactive)
  next
    case off
    with assms show ?thesis by (simp add: Step_disabled controller_inv_def)
  next
    case on
    have "c_goal (fst (Controller_updateGoal ?c1 now ?cur late)) \<le> MaximumMS_limit * Millisecond"
      using goal(2) controller_invD(2) [OF assms Some] by (auto simp: normalized_def)
    from next_curve_ok [OF controller_invD(1-3) [OF assms Some] goal(1) this] on goal
      controller_invD [OF assms Some] assms
    show ?thesis by (simp add: Step_enabled controller_inv_def)
  qed
qed

lemma Jump_inv: "controller_inv c \<Longrightarrow> controller_inv (Controller_Jump c now mediaTime)"
  by (auto simp: Controller_Jump_def Let_def controller_inv_def curve_ok_flat normalized_def
      split: option.split)

lemma ctl_step_inv: "ctl_step c c' \<Longrightarrow> controller_inv c \<Longrightarrow> controller_inv c'"
  by (induction rule: ctl_step.induct) (auto intro: Configure_inv Step_inv Jump_inv)

lemma reachable_inv: "ctl_reachable c \<Longrightarrow> controller_inv c"
  by (induction rule: ctl_reachable.induct) (auto intro: controller_inv_zero ctl_step_inv)

section \<open>Catching up\<close>

text \<open>Ticks a second apart that report no late packet.\<close>

fun quiet_ticks :: "Controller \<Rightarrow> instant \<Rightarrow> nat \<Rightarrow> Controller" where
  "quiet_ticks c t 0 = c"
| "quiet_ticks c t (Suc n) = quiet_ticks (fst (Controller_Step c t 0)) (t + Second) n"

lemma next_To_closer:
  "Millisecond \<le> catchUp \<Longrightarrow> \<bar>current - base\<bar> \<le> d \<Longrightarrow>
     \<bar>next_To current catchUp base - base\<bar> \<le> max 0 (d - Millisecond)"
  by (auto simp: next_To_def)

text \<open>A controller that a quiet tick at \<open>t\<close> moves towards its normal delay, from at most \<open>d\<close> away.\<close>

definition settling :: "Controller \<Rightarrow> instant \<Rightarrow> duration \<Rightarrow> bool" where
  "settling c t d \<longleftrightarrow> controller_inv c \<and> Enabled (c_options c) \<and> c_quietUntil c < t \<and>
     (\<exists>s. step_active c s t \<and> \<bar>State_Delay s t - c_base c\<bar> \<le> d)"

lemma quiet_Step:
  assumes "settling c t d"
  shows "settling (fst (Controller_Step c t 0)) (t + Second) (max 0 (d - Millisecond))"
    and "c_base (fst (Controller_Step c t 0)) = c_base c"
proof -
  obtain s where s: "step_active c s t" "\<bar>State_Delay s t - c_base c\<bar> \<le> d"
    and inv: "controller_inv c" and on: "Enabled (c_options c)" and q: "c_quietUntil c < t"
    using assms by (auto simp: settling_def)
  have st: "c_state c = Some s" using s(1) by (simp add: step_active_def)
  let ?cur = "State_Delay s t"
  let ?cu = "Options_CatchUp (c_options c) ?cur (c_base c)"
  let ?c2 = "fst (Controller_updateGoal (c\<lparr>c_lastStep := t\<rparr>) t ?cur 0)"
  have goal: "c_goal ?c2 = c_base c" and quiet: "c_quietUntil ?c2 = c_quietUntil c"
    using q by (auto simp: Controller_updateGoal_def Let_def)
  define n where "n = s\<lparr>Start := t, From := ?cur, Pending := Pending s \<or> (Jump (c_options c) \<and>
      snd (Controller_updateGoal (c\<lparr>c_lastStep := t\<rparr>) t ?cur 0)), To := next_To ?cur ?cu (c_base c)\<rparr>"
  have eq: "Controller_Step c t 0 = (?c2\<lparr>c_state := Some n\<rparr>, Some n)"
    using Step_enabled [OF s(1) on, of 0] by (simp only: n_def goal)
  have inv': "controller_inv (?c2\<lparr>c_state := Some n\<rparr>)"
    using Step_inv [OF inv, of t 0] by (simp add: eq)
  then have "curve_ok n" by (rule controller_invD) simp
  then have "State_Delay n (t + Second) = next_To ?cur ?cu (c_base c)"
    by (subst Delay_finished) (auto simp: n_def)
  moreover have "Millisecond \<le> ?cu"
    by (intro CatchUp_bounds controller_invD [OF inv st]) (use Delay_range controller_invD [OF inv st] in blast)
  ultimately have "\<bar>State_Delay n (t + Second) - c_base c\<bar> \<le> max 0 (d - Millisecond)"
    using next_To_closer s(2) by simp
  moreover have "step_active (?c2\<lparr>c_state := Some n\<rparr>) n (t + Second)"
    using s(1) by (auto simp: step_active_def n_def time_Sub_def)
  ultimately show "settling (fst (Controller_Step c t 0)) (t + Second) (max 0 (d - Millisecond))"
    using inv' on q by (auto simp: settling_def eq quiet)
  show "c_base (fst (Controller_Step c t 0)) = c_base c"
    by (simp add: eq)
qed

lemma quiet_ticks_settling:
  "settling c t (int k * Millisecond) \<Longrightarrow>
     settling (quiet_ticks c t n) (t + int n * Second) (int (k - n) * Millisecond) \<and>
     c_base (quiet_ticks c t n) = c_base c"
proof (induction n arbitrary: c t k)
  case 0
  then show ?case by simp
next
  case (Suc n)
  have "max 0 (int k * Millisecond - Millisecond) = int (k - 1) * Millisecond"
    by (cases k) auto
  with quiet_Step [OF Suc.prems]
  have "settling (fst (Controller_Step c t 0)) (t + Second) (int (k - 1) * Millisecond)"
    and base: "c_base (fst (Controller_Step c t 0)) = c_base c" by simp_all
  from Suc.IH [OF this(1)] base show ?case
    by (simp add: algebra_simps)
qed

section \<open>A reachable controller\<close>

definition example_options :: Options where
  "example_options = \<lparr>Enabled = True, MaximumMS = 3000, Jump = True, CatchUpMSPerSecond = 0,
     AutoCatchUp = Some False\<rparr>"

definition example_controller :: Controller where
  "example_controller =
     Controller_Configure Controller_zero (2000 * Millisecond) example_options (100 * Second)"

lemma example_reachable: "ctl_reachable example_controller"
  unfolding example_controller_def
  by (rule ctl_reachable.step [OF ctl_reachable.zero], rule ctl_step.configure)
    (simp_all add: MaximumMS_limit_def)

lemma example_controller_eq: "example_controller =
   \<lparr>c_state = Some \<lparr>Start = 100 * Second, From = 2 * Second, To = 2 * Second, Shift = 0, Cutoff = 0,
      Pending = False\<rparr>,
    c_options = \<lparr>Enabled = True, MaximumMS = 3000, Jump = True, CatchUpMSPerSecond = 10,
      AutoCatchUp = Some False\<rparr>,
    c_base = 2 * Second, c_goal = 2 * Second, c_quietUntil = 0, c_lastStep = 0, c_shift = 0, c_cutoff = 0\<rparr>"
  by code_simp

section \<open>Properties\<close>

text \<open>
  C5: In every state the controller can reach (any configured normal delay
  within the permitted range, any settings, ticks and keyframe jumps at any
  times), the delay the curve gives at any instant lies between 0 and the 10 s
  limit, and it is the exact linear interpolation between the curve's ends: the
  64-bit product inside \<^verbatim>\<open>State.Delay\<close> never overflows.
\<close>

theorem delay_in_range:
  assumes "ctl_reachable c" and "c_state c = Some s"
  shows "0 \<le> State_Delay s now \<and> State_Delay s now \<le> MaximumMS_limit * Millisecond \<and>
    State_Delay s now =
      From s + ((To s - From s) * min Second (max 0 (time_Sub now (Start s)))) sdiv Second"
  using controller_invD(1) [OF reachable_inv [OF assms(1)] assms(2)]
  by (simp add: Delay_range Delay_exact [symmetric])

theorem delay_in_range_witness:
  "\<exists>s. c_state example_controller = Some s \<and> State_Delay s (101 * Second) = 2 * Second \<and>
     0 \<le> State_Delay s (101 * Second) \<and> State_Delay s (101 * Second) \<le> MaximumMS_limit * Millisecond"
proof -
  let ?s = "\<lparr>Start = 100 * Second, From = 2 * Second, To = 2 * Second, Shift = 0, Cutoff = 0, Pending = False\<rparr>"
  have st: "c_state example_controller = Some ?s" by (simp add: example_controller_eq)
  have "State_Delay ?s (101 * Second) = 2 * Second" by code_simp
  with delay_in_range [OF example_reachable st, of "101 * Second"] st show ?thesis by blast
qed

text \<open>
  A tick that is due never moves the delay by more than the advertised
  rate.  From the moment of the tick on, the new curve starts where the old one
  was, grows by at most 50 ms, shrinks by at most the catch-up amount (itself
  between 1 ms and 200 ms), never falls below both its starting point and the
  normal delay, and never rises above both its starting point and the
  configured maximum.
\<close>

theorem tick_is_gradual:
  assumes "ctl_reachable c" and "step_active c s now" and "Enabled (c_options c)"
    and "snd (Controller_Step c now late) = Some s'"
  defines "d \<equiv> State_Delay s now"
  defines "catchUp \<equiv> Options_CatchUp (c_options c) d (c_base c)"
  shows "State_Delay s' now = d \<and>
    (\<forall>t. State_Delay s' t \<le> d + 50 * Millisecond \<and> d - catchUp \<le> State_Delay s' t \<and>
         min d (c_base c) \<le> State_Delay s' t \<and>
         State_Delay s' t \<le> max d (MaximumMS (c_options c) * Millisecond)) \<and>
    Millisecond \<le> catchUp \<and> catchUp \<le> 200 * Millisecond"
proof -
  have st: "c_state c = Some s" using assms(2) by (simp add: step_active_def)
  note inv = reachable_inv [OF assms(1)]
  note invD = controller_invD [OF inv st]
  let ?c2 = "fst (Controller_updateGoal (c\<lparr>c_lastStep := now\<rparr>) now d late)"
  have s': "Start s' = now" "From s' = d" "To s' = next_To d catchUp (c_goal ?c2)"
    using assms(4) unfolding Step_enabled [OF assms(2,3)] d_def catchUp_def by auto
  have ok: "curve_ok s'"
    using Step_inv [OF inv, of now late] assms(4) Step_enabled [OF assms(2,3), of late]
    by (auto dest: controller_invD(1))
  have cu: "Millisecond \<le> catchUp" "catchUp \<le> 200 * Millisecond"
    using CatchUp_bounds [OF invD(2,3)] Delay_range [OF invD(1)] by (auto simp: catchUp_def d_def)
  have goal: "c_base c \<le> c_goal ?c2" "c_goal ?c2 \<le> MaximumMS (c_options c) * Millisecond"
    using updateGoal_goal [of "c\<lparr>c_lastStep := now\<rparr>" now d late] invD by simp_all
  have "0 \<le> catchUp" using cu(1) by simp
  note b = next_To_bounds [OF this, of d "c_goal ?c2"]
  have "State_Delay s' t \<le> d + 50 * Millisecond \<and> d - catchUp \<le> State_Delay s' t \<and>
      min d (c_base c) \<le> State_Delay s' t \<and>
      State_Delay s' t \<le> max d (MaximumMS (c_options c) * Millisecond)" for t
    using Delay_between [OF ok, of t] \<open>0 \<le> catchUp\<close> b goal unfolding s'(2,3) by auto
  moreover have "State_Delay s' now = d" using Delay_start [of s'] s'(1,2) by simp
  ultimately show ?thesis using cu by blast
qed

theorem tick_is_gradual_witness:
  "\<exists>s s'. step_active example_controller s (101 * Second) \<and>
     snd (Controller_Step example_controller (101 * Second) (300 * Millisecond)) = Some s' \<and>
     State_Delay s' (102 * Second) = 2050 * Millisecond \<and>
     State_Delay s' (101 * Second) = State_Delay s (101 * Second)"
proof -
  let ?s = "\<lparr>Start = 100 * Second, From = 2 * Second, To = 2 * Second, Shift = 0, Cutoff = 0, Pending = False\<rparr>"
  let ?s' = "?s\<lparr>Start := 101 * Second, To := 2050 * Millisecond\<rparr>"
  have h: "step_active example_controller ?s (101 * Second)" "Enabled (c_options example_controller)"
    by (simp_all add: example_controller_eq step_active_def time_Sub_def)
  have n: "snd (Controller_Step example_controller (101 * Second) (300 * Millisecond)) = Some ?s'"
    unfolding example_controller_eq by code_simp
  have "State_Delay ?s' (102 * Second) = 2050 * Millisecond" by code_simp
  with tick_is_gradual [OF example_reachable h n] h(1) n show ?thesis by blast
qed

text \<open>
  C10: Automatic recovery terminates at the normal delay.  Once the quiet period
  is over and adaptation is on, ticks a second apart that report no late packet
  bring the delay to the normal delay: after as many ticks as there are
  milliseconds between the two (so never more than 10000), the next tick finds
  the delay exactly at the normal delay, and it stays there.
\<close>

theorem quiet_ticks_reach_base:
  assumes "ctl_reachable c" and "step_active c s t" and "Enabled (c_options c)"
    and "c_quietUntil c < t" and "\<bar>State_Delay s t - c_base c\<bar> \<le> int n * Millisecond"
  shows "\<exists>s'. c_state (quiet_ticks c t n) = Some s' \<and>
    (\<forall>m \<ge> n. \<exists>s''. c_state (quiet_ticks c t m) = Some s'' \<and>
        State_Delay s'' (t + int m * Second) = c_base c \<and> c_base (quiet_ticks c t m) = c_base c)"
proof -
  have "settling c t (int n * Millisecond)"
    using assms reachable_inv by (auto simp: settling_def)
  note r = quiet_ticks_settling [OF this]
  have "\<exists>s''. c_state (quiet_ticks c t m) = Some s'' \<and>
      State_Delay s'' (t + int m * Second) = c_base c \<and> c_base (quiet_ticks c t m) = c_base c"
    if "n \<le> m" for m
    using r [of m] that by (auto simp: settling_def step_active_def)
  then show ?thesis by blast
qed

theorem quiet_ticks_reach_base_witness:
  "\<exists>s'. c_state (quiet_ticks example_controller (101 * Second) 0) = Some s' \<and>
    (\<forall>m. \<exists>s''. c_state (quiet_ticks example_controller (101 * Second) m) = Some s'' \<and>
        State_Delay s'' (101 * Second + int m * Second) = 2 * Second)"
proof -
  let ?s = "\<lparr>Start = 100 * Second, From = 2 * Second, To = 2 * Second, Shift = 0, Cutoff = 0, Pending = False\<rparr>"
  have h: "step_active example_controller ?s (101 * Second)" "Enabled (c_options example_controller)"
    "c_quietUntil example_controller < 101 * Second" "c_base example_controller = 2 * Second"
    by (simp_all add: example_controller_eq step_active_def time_Sub_def)
  have "\<bar>State_Delay ?s (101 * Second) - c_base example_controller\<bar> \<le> int 0 * Millisecond"
    unfolding h(4) by code_simp
  from quiet_ticks_reach_base [OF example_reachable h(1-3) this] h(4) show ?thesis by auto
qed

text \<open>
  A keyframe jump takes effect at once and for both tracks alike: if a jump
  is pending, the new curve is flat at the normal delay, nothing is pending any
  more, and moving the clock by the change of \<^verbatim>\<open>Shift\<close> maps the keyframe's media
  time to the present; if none is pending, nothing changes.
\<close>

theorem jump_rebases:
  assumes "c_state c = Some s" and "\<bar>now - mediaTime\<bar> < 2 ^ 63"
  shows "\<exists>s'. c_state (Controller_Jump c now mediaTime) = Some s' \<and>
    (if Pending s
     then (\<forall>t. State_Delay s' t = c_base c) \<and> \<not> Pending s' \<and> Cutoff s' = now \<and>
          mediaTime + (Shift s' - Shift s) = now \<and>
          c_goal (Controller_Jump c now mediaTime) = c_base c
     else Controller_Jump c now mediaTime = c)"
  using assms by (auto simp: Controller_Jump_def Let_def Delay_flat time_Sub_exact)

theorem jump_rebases_witness:
  "let s = \<lparr>Start = 0, From = 3 * Second, To = 3 * Second, Shift = 0, Cutoff = 0, Pending = True\<rparr>;
       c = example_controller\<lparr>c_state := Some s\<rparr>
   in \<exists>s'. c_state (Controller_Jump c (50 * Second) (45 * Second)) = Some s' \<and>
        State_Delay s' 0 = 2 * Second \<and> Shift s' = 5 * Second"
proof -
  let ?s = "\<lparr>Start = 0, From = 3 * Second, To = 3 * Second, Shift = 0, Cutoff = 0, Pending = True\<rparr>"
  let ?c = "example_controller\<lparr>c_state := Some ?s\<rparr>"
  have "c_state ?c = Some ?s" "c_base ?c = 2 * Second" by (simp_all add: example_controller_eq)
  with jump_rebases [of ?c ?s "50 * Second" "45 * Second"] show ?thesis by (auto simp: Let_def)
qed

text \<open>
  Saving settings never makes the picture jump.  With adaptation on and a
  curve in use, reconfiguring leaves the delay at that instant as it was; if only
  the catch-up speed changed, it leaves the whole controller but its saved speed
  as it was: the curve, the goal, the quiet period and a pending jump.
\<close>

theorem configure_is_continuous:
  assumes "c_state c = Some s" and "Enabled opts"
  shows "(\<exists>s'. c_state (Controller_Configure c base opts now) = Some s' \<and>
            State_Delay s' now = State_Delay s now) \<and>
    (c_base c = base \<and> c_options c = Options_Normalize old (base sdiv Millisecond) \<and>
     Enabled old = Enabled opts \<and> MaximumMS old = MaximumMS opts \<and> Jump old = Jump opts \<longrightarrow>
       Controller_Configure c base opts now =
         c\<lparr>c_options := Options_Normalize opts (base sdiv Millisecond)\<rparr>)"
proof (intro conjI impI)
  show "\<exists>s'. c_state (Controller_Configure c base opts now) = Some s' \<and>
      State_Delay s' now = State_Delay s now"
    using assms by (auto simp: Controller_Configure_def Let_def Delay_flat)
next
  let ?n = "Options_Normalize opts (base sdiv Millisecond)"
  assume h: "c_base c = base \<and> c_options c = Options_Normalize old (base sdiv Millisecond) \<and>
     Enabled old = Enabled opts \<and> MaximumMS old = MaximumMS opts \<and> Jump old = Jump opts"
  then have "(c_options c)\<lparr>CatchUpMSPerSecond := CatchUpMSPerSecond ?n, AutoCatchUp := AutoCatchUp ?n\<rparr> = ?n"
    by (intro Options.equality) (simp_all add: Normalize_fields)
  with h show "Controller_Configure c base opts now = c\<lparr>c_options := ?n\<rparr>"
    by (simp add: Controller_Configure_def Let_def)
qed

theorem configure_is_continuous_witness:
  "\<exists>s'. c_state (Controller_Configure example_controller (4 * Second) example_options (105 * Second)) = Some s' \<and>
     State_Delay s' (105 * Second) = 2 * Second"
proof -
  let ?s = "\<lparr>Start = 100 * Second, From = 2 * Second, To = 2 * Second, Shift = 0, Cutoff = 0, Pending = False\<rparr>"
  have h: "c_state example_controller = Some ?s" "Enabled example_options"
    by (simp_all add: example_controller_eq example_options_def)
  have "State_Delay ?s (105 * Second) = 2 * Second" by code_simp
  with configure_is_continuous [OF h, of "4 * Second" "105 * Second"] show ?thesis by simp
qed

end
