(* ===== verification/Packet_Heap.thy ===== *)
theory Packet_Heap
  imports Prelude "HOL-Library.Product_Lexorder"
begin

text \<open>
  \<^verbatim>\<open>packetHeap\<close> of \<^verbatim>\<open>internal/relay/delay.go\<close>: the array-backed binary heap that
  orders queued packets by playout time and, among packets due together, by
  arrival.  A Go slice is a list; \<open>h[i := x]\<close> is an indexed write.  Indexing an
  empty slice panics in Go: \<open>packetHeap_pop\<close> returns \<open>None\<close> there.
\<close>

section \<open>Queued packets and the heap operations\<close>

record packet =
  SequenceNumber :: u16
  Timestamp :: u32
  Payload :: bytes

record buffered =
  pkt :: packet
  playAt :: instant
  order :: u64

definition buffered_before :: "buffered \<Rightarrow> buffered \<Rightarrow> bool" where
  "buffered_before b other =
     (if playAt b = playAt other then order b < order other else playAt b < playAt other)"

definition swap :: "'a list \<Rightarrow> nat \<Rightarrow> nat \<Rightarrow> 'a list" where
  "swap h i j = h[i := h ! j, j := h ! i]"

text \<open>The loop of \<^verbatim>\<open>push\<close>: move the new item up while it is before its parent.\<close>

function packetHeap_up :: "buffered list \<Rightarrow> nat \<Rightarrow> buffered list \<times> nat" where
  "packetHeap_up h child =
     (if child > 0
      then let parent = (child - 1) div 2
           in if \<not> buffered_before (h ! child) (h ! parent) then (h, child)
              else packetHeap_up (swap h child parent) parent
      else (h, child))"
  by pat_completeness auto
termination
  by (relation "measure snd") auto

definition packetHeap_push :: "buffered list \<Rightarrow> buffered \<Rightarrow> buffered list \<times> bool" where
  "packetHeap_push h item =
     (let h0 = h @ [item];
          (h', child) = packetHeap_up h0 (length h0 - 1)
      in (h', child = 0))"

text \<open>The index \<^verbatim>\<open>sink\<close> moves to: the least of a node and its children.\<close>

definition sink_smallest :: "buffered list \<Rightarrow> nat \<Rightarrow> nat" where
  "sink_smallest h parent =
     (let size = length h;
          left = 2 * parent + 1;
          smallest = (if left < size \<and> buffered_before (h ! left) (h ! parent) then left else parent);
          right = left + 1
      in if right < size \<and> buffered_before (h ! right) (h ! smallest) then right else smallest)"

lemma sink_smallest_cases:
  "sink_smallest h parent = parent \<or>
   (sink_smallest h parent \<in> {2 * parent + 1, 2 * parent + 2} \<and> sink_smallest h parent < length h)"
  by (auto simp: sink_smallest_def Let_def)

lemma length_swap [simp]: "length (swap h i j) = length h"
  by (simp add: swap_def)

function packetHeap_sink :: "buffered list \<Rightarrow> nat \<Rightarrow> buffered list" where
  "packetHeap_sink h parent =
     (let smallest = sink_smallest h parent
      in if smallest = parent then h
         else packetHeap_sink (swap h parent smallest) smallest)"
  by pat_completeness auto
termination
proof (relation "measure (\<lambda>(h, p). length h - p)", goal_cases)
  case (2 h parent smallest)
  then show ?case using sink_smallest_cases [of h parent] by auto
qed simp

definition packetHeap_pop :: "buffered list \<Rightarrow> (buffered \<times> buffered list) option" where
  "packetHeap_pop h =
     (if h = [] then None
      else let top = h ! 0;
               lst = length h - 1;
               h' = take lst (h[0 := h ! lst])
           in Some (top, packetHeap_sink h' 0))"

declare packetHeap_up.simps [simp del] packetHeap_sink.simps [simp del]

section \<open>The order of the heap\<close>

definition due :: "buffered \<Rightarrow> instant \<times> u64" where
  "due b = (playAt b, order b)"

lemma before_iff: "buffered_before a b \<longleftrightarrow> due a < due b"
  by (auto simp: buffered_before_def due_def less_prod_def)

definition is_heap :: "buffered list \<Rightarrow> bool" where
  "is_heap h \<longleftrightarrow> (\<forall>i. 0 < i \<and> i < length h \<longrightarrow> due (h ! ((i - 1) div 2)) \<le> due (h ! i))"

text \<open>
  While an item moves up, the heap order can fail only at that item, and the
  item's parent is still below the item's children; while one moves down, it can
  fail only below it.
\<close>

definition heap_but_up :: "buffered list \<Rightarrow> nat \<Rightarrow> bool" where
  "heap_but_up h k \<longleftrightarrow> k < length h \<and>
     (\<forall>i. 0 < i \<and> i < length h \<and> i \<noteq> k \<longrightarrow> due (h ! ((i - 1) div 2)) \<le> due (h ! i)) \<and>
     (\<forall>i. 0 < i \<and> i < length h \<and> (i - 1) div 2 = k \<and> 0 < k \<longrightarrow> due (h ! ((k - 1) div 2)) \<le> due (h ! i))"

definition heap_but_down :: "buffered list \<Rightarrow> nat \<Rightarrow> bool" where
  "heap_but_down h k \<longleftrightarrow>
     (\<forall>i. 0 < i \<and> i < length h \<and> (i - 1) div 2 \<noteq> k \<longrightarrow> due (h ! ((i - 1) div 2)) \<le> due (h ! i)) \<and>
     (\<forall>i. 0 < i \<and> i < length h \<and> (i - 1) div 2 = k \<and> 0 < k \<longrightarrow> due (h ! ((k - 1) div 2)) \<le> due (h ! i))"

lemma parent_less: "0 < i \<Longrightarrow> (i - 1) div 2 < (i::nat)"
  by linarith

lemma mset_swapped [simp]: "i < length h \<Longrightarrow> j < length h \<Longrightarrow> mset (swap h i j) = mset h"
  unfolding swap_def by (rule mset_swap) auto

lemma nth_swap: "i < length h \<Longrightarrow> j < length h \<Longrightarrow> k < length h \<Longrightarrow>
    swap h i j ! k = (if k = i then h ! j else if k = j then h ! i else h ! k)"
  by (auto simp: swap_def nth_list_update)

lemma heap_but_up_step:
  assumes "heap_but_up h k" "0 < k" "buffered_before (h ! k) (h ! ((k - 1) div 2))"
  shows "heap_but_up (swap h k ((k - 1) div 2)) ((k - 1) div 2)"
proof -
  let ?p = "(k - 1) div 2"
  have k: "k < length h" "?p < length h" "?p < k"
    using assms(1,2) by (auto simp: heap_but_up_def)
  have less: "due (h ! k) < due (h ! ?p)" using assms(3) by (simp add: before_iff)
  have ord: "due (h ! ((i - 1) div 2)) \<le> due (h ! i)" if "0 < i" "i < length h" "i \<noteq> k" for i
    using assms(1) that by (auto simp: heap_but_up_def)
  have kids: "due (h ! ?p) \<le> due (h ! i)" if "0 < i" "i < length h" "(i - 1) div 2 = k" for i
    using assms(1,2) that by (auto simp: heap_but_up_def)
  show ?thesis
    unfolding heap_but_up_def
  proof (intro conjI allI impI)
    show "?p < length (swap h k ?p)" using k by simp
  next
    fix i assume i: "0 < i \<and> i < length (swap h k ?p) \<and> i \<noteq> ?p"
    then have par: "(i - 1) div 2 < length h" by auto
    have "due (h ! ((i - 1) div 2)) \<le> due (h ! i)" if "i \<noteq> k" using ord that i by simp
    then show "due (swap h k ?p ! ((i - 1) div 2)) \<le> due (swap h k ?p ! i)"
      using i k less par kids [of i] ord [of i] by (auto simp: nth_swap)
  next
    fix i assume i: "0 < i \<and> i < length (swap h k ?p) \<and> (i - 1) div 2 = ?p \<and> 0 < ?p"
    let ?g = "(?p - 1) div 2"
    have g: "?g < length h" "?g \<noteq> k" "?g \<noteq> ?p" using i k parent_less [of ?p] by linarith+
    have "due (h ! ?g) \<le> due (h ! ?p)" using ord [of ?p] i k by simp
    moreover have "due (h ! ?p) \<le> due (h ! i)" if "i \<noteq> k" using ord [of i] i that by simp
    ultimately show "due (swap h k ?p ! ?g) \<le> due (swap h k ?p ! i)"
      using i k g by (auto simp: nth_swap)
  qed
qed

lemma heap_but_up_done:
  assumes "heap_but_up h k" "k = 0 \<or> \<not> buffered_before (h ! k) (h ! ((k - 1) div 2))"
  shows "is_heap h"
  using assms unfolding heap_but_up_def is_heap_def before_iff
  by (metis linorder_not_less less_numeral_extra(3))

lemma up_correct:
  "heap_but_up h k \<Longrightarrow>
     is_heap (fst (packetHeap_up h k)) \<and> mset (fst (packetHeap_up h k)) = mset h"
proof (induction h k rule: packetHeap_up.induct)
  case (1 h k)
  let ?p = "(k - 1) div 2"
  show ?case
  proof (cases "0 < k \<and> buffered_before (h ! k) (h ! ?p)")
    case True
    then have "packetHeap_up h k = packetHeap_up (swap h k ?p) ?p"
      by (subst packetHeap_up.simps) (simp add: Let_def)
    moreover have "?p < length h" "k < length h"
      using "1.prems" by (auto simp: heap_but_up_def)
    moreover have "heap_but_up (swap h k ?p) ?p"
      using heap_but_up_step [OF "1.prems"] True by blast
    ultimately show ?thesis using "1.IH" True by simp
  next
    case False
    then have "packetHeap_up h k = (h, k)"
      by (subst packetHeap_up.simps) (auto simp: Let_def)
    with False heap_but_up_done [OF "1.prems"] show ?thesis by auto
  qed
qed

lemma sink_smallest_least:
  assumes "i < length h" "(i - 1) div 2 = k" "0 < i"
  shows "due (h ! sink_smallest h k) \<le> due (h ! i)"
    and "due (h ! sink_smallest h k) \<le> due (h ! k)"
proof -
  have "i = 2 * k + 1 \<or> i = 2 * k + 2" using assms by auto
  then show "due (h ! sink_smallest h k) \<le> due (h ! i)"
    and "due (h ! sink_smallest h k) \<le> due (h ! k)"
    using assms(1) by (auto simp: sink_smallest_def Let_def before_iff)
qed

lemma heap_but_down_step:
  assumes "heap_but_down h k" "k < length h" and s: "s = sink_smallest h k" "s \<noteq> k"
  shows "heap_but_down (swap h k s) s"
proof -
  have sl: "s < length h" "(s - 1) div 2 = k" "k < s" "0 < s"
    using sink_smallest_cases [of h k] s by auto
  have ord: "due (h ! ((i - 1) div 2)) \<le> due (h ! i)" if "0 < i" "i < length h" "(i - 1) div 2 \<noteq> k" for i
    using assms(1) that by (auto simp: heap_but_down_def)
  have top: "due (h ! ((k - 1) div 2)) \<le> due (h ! i)"
    if "0 < i" "i < length h" "(i - 1) div 2 = k" "0 < k" for i
    using assms(1) that by (auto simp: heap_but_down_def)
  have least: "due (h ! s) \<le> due (h ! i)" if "0 < i" "i < length h" "(i - 1) div 2 = k" for i
    using sink_smallest_least(1) that s(1) by blast
  have leastk: "due (h ! s) \<le> due (h ! k)"
    using sink_smallest_least(2) [OF sl(1,2,4)] s(1) by simp
  show ?thesis
    unfolding heap_but_down_def
  proof (intro conjI allI impI)
    fix i assume i: "0 < i \<and> i < length (swap h k s) \<and> (i - 1) div 2 \<noteq> s"
    then have par: "(i - 1) div 2 < length h" "i < length h" by auto
    show "due (swap h k s ! ((i - 1) div 2)) \<le> due (swap h k s ! i)"
    proof (cases "(i - 1) div 2 = k")
      case True
      with i par sl assms(2) least [of i] leastk show ?thesis by (auto simp: nth_swap)
    next
      case False
      with i par sl assms(2) ord [of i] top [OF sl(4,1,2)] show ?thesis by (auto simp: nth_swap)
    qed
  next
    fix i assume i: "0 < i \<and> i < length (swap h k s) \<and> (i - 1) div 2 = s \<and> 0 < s"
    then have "i \<noteq> k" "i \<noteq> s" "i < length h" using sl by auto
    moreover have "due (h ! s) \<le> due (h ! i)" using ord [of i] i sl by simp
    ultimately show "due (swap h k s ! ((s - 1) div 2)) \<le> due (swap h k s ! i)"
      using sl assms(2) by (auto simp: nth_swap)
  qed
qed

lemma heap_but_down_done:
  assumes "heap_but_down h k" "sink_smallest h k = k"
  shows "is_heap h"
  unfolding is_heap_def
proof (intro allI impI)
  fix i assume i: "0 < i \<and> i < length h"
  show "due (h ! ((i - 1) div 2)) \<le> due (h ! i)"
  proof (cases "(i - 1) div 2 = k")
    case True
    with i sink_smallest_least(1) [of i h k] assms(2) show ?thesis by simp
  next
    case False
    with i assms(1) show ?thesis by (simp add: heap_but_down_def)
  qed
qed

lemma sink_correct:
  "heap_but_down h k \<Longrightarrow> k < length h \<or> h = [] \<Longrightarrow>
     is_heap (packetHeap_sink h k) \<and> mset (packetHeap_sink h k) = mset h"
proof (induction h k rule: packetHeap_sink.induct)
  case (1 h k)
  let ?s = "sink_smallest h k"
  show ?case
  proof (cases "?s = k")
    case True
    then have "packetHeap_sink h k = h" by (subst packetHeap_sink.simps) simp
    with heap_but_down_done [OF "1.prems"(1) True] show ?thesis by simp
  next
    case False
    then have s: "?s < length h" "k < ?s" using sink_smallest_cases [of h k] by auto
    have eq: "packetHeap_sink h k = packetHeap_sink (swap h k ?s) ?s"
      using False by (subst packetHeap_sink.simps) (simp add: Let_def)
    have "heap_but_down (swap h k ?s) ?s"
      using heap_but_down_step [OF "1.prems"(1) _ refl False] s by simp
    from "1.IH" [OF refl False this] s show ?thesis by (simp add: eq)
  qed
qed

section \<open>Push and pop\<close>

lemma push_correct:
  assumes "is_heap h"
  shows "is_heap (fst (packetHeap_push h item))"
    and "mset (fst (packetHeap_push h item)) = add_mset item (mset h)"
proof -
  have "heap_but_up (h @ [item]) (length h)"
    using assms parent_less unfolding heap_but_up_def is_heap_def
    by (auto simp: nth_append)
  from up_correct [OF this] show "is_heap (fst (packetHeap_push h item))"
    and "mset (fst (packetHeap_push h item)) = add_mset item (mset h)"
    by (simp_all add: packetHeap_push_def Let_def case_prod_unfold)
qed

lemma is_heap_root:
  "is_heap h \<Longrightarrow> i < length h \<Longrightarrow> due (h ! 0) \<le> due (h ! i)"
proof (induction i rule: less_induct)
  case (less i)
  show ?case
  proof (cases "i = 0")
    case False
    then have "due (h ! 0) \<le> due (h ! ((i - 1) div 2))" using less by auto
    also have "\<dots> \<le> due (h ! i)" using less.prems False by (auto simp: is_heap_def)
    finally show ?thesis .
  qed simp
qed

lemma mset_drop_last_to_front:
  "h \<noteq> [] \<Longrightarrow> add_mset (h ! 0) (mset (take (length h - 1) (h[0 := h ! (length h - 1)]))) = mset h"
proof (cases h rule: rev_cases)
  case (snoc ys y)
  then show ?thesis by (cases ys) auto
qed simp

lemma pop_correct:
  assumes "is_heap h" "packetHeap_pop h = Some (root, h')"
  shows "is_heap h'" "add_mset root (mset h') = mset h" "\<forall>b \<in> set h. due root \<le> due b" "root = h ! 0"
proof -
  let ?h = "take (length h - 1) (h[0 := h ! (length h - 1)])"
  have h: "h \<noteq> []" and top: "root = h ! 0" and h': "h' = packetHeap_sink ?h 0"
    using assms(2) by (auto simp: packetHeap_pop_def Let_def split: if_splits)
  have "heap_but_down ?h 0"
    using assms(1) h by (auto simp: heap_but_down_def is_heap_def nth_list_update)
  moreover have "0 < length ?h \<or> ?h = []" by (cases ?h) simp_all
  ultimately have "is_heap h' \<and> mset h' = mset ?h"
    unfolding h' by (rule sink_correct)
  then show "is_heap h'" "add_mset root (mset h') = mset h"
    using mset_drop_last_to_front [OF h] top by auto
  show "\<forall>b \<in> set h. due root \<le> due b"
    using is_heap_root [OF assms(1)] top by (auto simp: in_set_conv_nth)
  show "root = h ! 0" by (rule top)
qed

lemma push_length: "length (fst (packetHeap_push h item)) = Suc (length h)" if "is_heap h"
  using push_correct(2) [OF that, of item] by (metis size_add_mset size_mset)

text \<open>Where the new item comes to rest, and what the root is then.\<close>

lemma up_root:
  "k < length h \<Longrightarrow> (case packetHeap_up h k of (h', r) \<Rightarrow>
     r \<le> k \<and> h' ! r = h ! k \<and> (0 < r \<longrightarrow> h' ! 0 = h ! 0))"
proof (induction h k rule: packetHeap_up.induct)
  case (1 h k)
  let ?p = "(k - 1) div 2"
  show ?case
  proof (cases "0 < k \<and> buffered_before (h ! k) (h ! ?p)")
    case True
    then have eq: "packetHeap_up h k = packetHeap_up (swap h k ?p) ?p"
      by (subst packetHeap_up.simps) (simp add: Let_def)
    have p: "?p < k" "?p < length h" using True "1.prems" by auto
    have "case packetHeap_up (swap h k ?p) ?p of (h', r) \<Rightarrow>
        r \<le> ?p \<and> h' ! r = swap h k ?p ! ?p \<and> (0 < r \<longrightarrow> h' ! 0 = swap h k ?p ! 0)"
      using "1.IH" True p by simp
    moreover have "swap h k ?p ! ?p = h ! k" "0 < ?p \<Longrightarrow> swap h k ?p ! 0 = h ! 0"
      using p "1.prems" by (auto simp: swap_def)
    ultimately show ?thesis
      unfolding eq using p by (auto split: prod.splits)
  next
    case False
    then have "packetHeap_up h k = (h, k)"
      by (subst packetHeap_up.simps) (auto simp: Let_def)
    then show ?thesis by simp
  qed
qed

lemma push_root:
  "snd (packetHeap_push h item) \<Longrightarrow> fst (packetHeap_push h item) ! 0 = item"
  "\<not> snd (packetHeap_push h item) \<Longrightarrow> h \<noteq> [] \<and> fst (packetHeap_push h item) ! 0 = h ! 0"
  using up_root [of "length h" "h @ [item]"]
  by (auto simp: packetHeap_push_def Let_def nth_append split: prod.splits)

text \<open>Moving every playout time by the same amount keeps the order of the heap.\<close>

definition shift_playAt :: "duration \<Rightarrow> buffered list \<Rightarrow> buffered list" where
  "shift_playAt d h = map (\<lambda>b. b\<lparr>playAt := playAt b + d\<rparr>) h"

lemma due_shift: "due (b\<lparr>playAt := playAt b + d\<rparr>) = (fst (due b) + d, snd (due b))"
  by (simp add: due_def)

lemma due_shift_le:
  "due (a\<lparr>playAt := playAt a + d\<rparr>) \<le> due (b\<lparr>playAt := playAt b + d\<rparr>) \<longleftrightarrow> due a \<le> due b"
  by (auto simp: due_def less_eq_prod_def)

lemma is_heap_shift [simp]: "is_heap (shift_playAt d h) = is_heap h"
  by (auto simp: is_heap_def shift_playAt_def due_shift_le)

lemma is_heap_Nil [simp]: "is_heap []"
  by (simp add: is_heap_def)

section \<open>The priority queue the playout loop relies on\<close>

text \<open>
  Repeated removal from a queue, as the playout loop does it: at most \<open>n\<close> items,
  in the order they come out, and what is left.
\<close>

fun pop_many :: "('q \<Rightarrow> ('a \<times> 'q) option) \<Rightarrow> nat \<Rightarrow> 'q \<Rightarrow> 'a list \<times> 'q" where
  "pop_many pop 0 q = ([], q)"
| "pop_many pop (Suc n) q =
     (case pop q of None \<Rightarrow> ([], q)
      | Some (x, q') \<Rightarrow> let (xs, r) = pop_many pop n q' in (x # xs, r))"

locale min_queue =
  fixes push :: "'q \<Rightarrow> 'a \<Rightarrow> 'q"
    and pop :: "'q \<Rightarrow> ('a \<times> 'q) option"
    and invar :: "'q \<Rightarrow> bool"
    and elems :: "'q \<Rightarrow> 'a multiset"
    and key :: "'a \<Rightarrow> 'k::linorder"
  assumes invar_push: "invar q \<Longrightarrow> invar (push q x)"
    and elems_push: "invar q \<Longrightarrow> elems (push q x) = add_mset x (elems q)"
    and pop_empty: "invar q \<Longrightarrow> pop q = None \<longleftrightarrow> elems q = {#}"
    and invar_pop: "invar q \<Longrightarrow> pop q = Some (x, q') \<Longrightarrow> invar q'"
    and elems_pop: "invar q \<Longrightarrow> pop q = Some (x, q') \<Longrightarrow> add_mset x (elems q') = elems q"
    and pop_least: "invar q \<Longrightarrow> pop q = Some (x, q') \<Longrightarrow> y \<in># elems q \<Longrightarrow> key x \<le> key y"
begin

lemma invar_pushes: "invar q \<Longrightarrow> invar (foldl push q xs)"
  by (induction xs arbitrary: q) (auto simp: invar_push)

lemma elems_pushes: "invar q \<Longrightarrow> elems (foldl push q xs) = mset xs + elems q"
  by (induction xs arbitrary: q) (auto simp: invar_push elems_push)

lemma pop_many_correct:
  "invar q \<Longrightarrow> pop_many pop n q = (xs, r) \<Longrightarrow>
     invar r \<and> mset xs + elems r = elems q \<and> sorted (map key xs) \<and>
     (\<forall>x \<in> set xs. \<forall>y \<in># elems r. key x \<le> key y) \<and> length xs = min n (size (elems q))"
proof (induction n arbitrary: q xs)
  case 0
  then show ?case by simp
next
  case (Suc n)
  show ?case
  proof (cases "pop q")
    case None
    with Suc.prems pop_empty show ?thesis by auto
  next
    case (Some xq)
    then obtain x q' where pop: "pop q = Some (x, q')" by (cases xq) auto
    obtain ys where ys: "pop_many pop n q' = (ys, r)" "xs = x # ys"
      using Suc.prems(2) pop by (auto simp: Let_def split: prod.splits)
    note IH = Suc.IH [OF invar_pop [OF Suc.prems(1) pop] ys(1)]
    have el: "add_mset x (elems q') = elems q" by (rule elems_pop [OF Suc.prems(1) pop])
    have "key x \<le> key y" if "y \<in> set ys \<or> y \<in># elems r" for y
    proof -
      have "y \<in># elems q'" using that IH by (metis in_multiset_in_set union_iff)
      then show ?thesis using pop_least [OF Suc.prems(1) pop] el by (metis insert_iff set_mset_add_mset_insert)
    qed
    moreover have "size (elems q) = Suc (size (elems q'))" using el by (metis size_add_mset)
    ultimately show ?thesis using IH el ys(2) by auto
  qed
qed

end

lemma packetHeap_pop_None: "packetHeap_pop h = None \<longleftrightarrow> h = []"
  by (simp add: packetHeap_pop_def Let_def)

interpretation packetHeap: min_queue "\<lambda>h x. fst (packetHeap_push h x)" packetHeap_pop is_heap mset due
  by unfold_locales (auto simp: push_correct packetHeap_pop_None dest: pop_correct)

section \<open>Properties\<close>

text \<open>
  C6: The queue plays packets out in order.  Whatever packets are pushed, in
  whatever order, taking them out again gives every packet exactly once, sorted
  by playout time and, for equal playout times, by arrival number.
\<close>

theorem heap_plays_in_order:
  "\<exists>xs. pop_many packetHeap_pop (length items) (foldl (\<lambda>h x. fst (packetHeap_push h x)) [] items) = (xs, []) \<and>
     mset xs = mset items \<and> sorted (map due xs)"
proof -
  let ?q = "foldl (\<lambda>h x. fst (packetHeap_push h x)) [] items"
  obtain xs r where run: "pop_many packetHeap_pop (length items) ?q = (xs, r)" by fastforce
  have q: "is_heap ?q" "mset ?q = mset items"
    using packetHeap.invar_pushes [of "[]" items] packetHeap.elems_pushes [of "[]" items] by simp_all
  from packetHeap.pop_many_correct [OF q(1) run] q(2)
  have "mset xs + mset r = mset items" "length xs = length items" "sorted (map due xs)"
    by (auto simp: size_mset)
  then have "r = []" by (metis add_diff_cancel_left' diff_size_le_size_Diff diff_zero le_zero_eq
        size_mset size_union diff_self_eq_0 length_0_conv)
  with run \<open>mset xs + mset r = mset items\<close> \<open>sorted (map due xs)\<close> show ?thesis by simp
qed

text \<open>
  The value \<^verbatim>\<open>push\<close> returns tells the reader exactly whether its next deadline
  moved: true means the pushed item is now the one due first; false means the
  heap was not empty and the item due first is the one that was due first before.
\<close>

theorem push_reports_new_root:
  "(if snd (packetHeap_push h item) then fst (packetHeap_push h item) ! 0 = item
    else h \<noteq> [] \<and> fst (packetHeap_push h item) ! 0 = h ! 0)"
  using push_root [of h item] by simp

end
