(* ===== verification/Keyframe.thy ===== *)
theory Keyframe
  imports Prelude
begin

text \<open>
  \<^verbatim>\<open>internal/relay/keyframe.go\<close>: the only place that looks inside a payload.
  Payloads come from the network, so every read is modelled with its bounds
  check: \<open>None\<close> is the panic of an index out of range.
\<close>

unbundle bit_operations_syntax

section \<open>H.264\<close>

text \<open>The NAL unit types of the code's constants, as the low five bits give them.\<close>

definition h264TypeMask :: u8 where "h264TypeMask = 0x1F"
definition h264IDR :: u8 where "h264IDR = 5"
definition h264SPS :: u8 where "h264SPS = 7"
definition h264STAPA :: u8 where "h264STAPA = 24"
definition h264FUA :: u8 where "h264FUA = 28"
definition h264FUStartBit :: u8 where "h264FUStartBit = 0x80"

function stapa_loop :: "bytes \<Rightarrow> nat \<Rightarrow> bool option" where
  "stapa_loop payload offset =
     (if offset + 2 \<le> length payload
      then case (byte_at payload offset, byte_at payload (offset + 1)) of
             (Some hi, Some lo) \<Rightarrow>
               (let size = be16 hi lo; offset = offset + 2
                in if size = 0 \<or> offset + size > length payload then Some False
                   else case byte_at payload offset of
                          None \<Rightarrow> None
                        | Some b \<Rightarrow>
                            if b AND h264TypeMask \<in> {h264IDR, h264SPS} then Some True
                            else stapa_loop payload (offset + size))
           | _ \<Rightarrow> None
      else Some False)"
  by pat_completeness auto
termination
  by (relation "measure (\<lambda>(p, i). length p - i)") auto

definition stapaHasKeyframe :: "bytes \<Rightarrow> bool option" where
  "stapaHasKeyframe payload = stapa_loop payload 1"

definition fuaStartsKeyframe :: "bytes \<Rightarrow> bool option" where
  "fuaStartsKeyframe payload =
     (if length payload < 2 then Some False
      else case byte_at payload 1 of
             None \<Rightarrow> None
           | Some b \<Rightarrow> if b AND h264FUStartBit = 0 then Some False
                       else Some (b AND h264TypeMask = h264IDR))"

definition h264Keyframe :: "bytes \<Rightarrow> bool option" where
  "h264Keyframe payload =
     (case byte_at payload 0 of
        None \<Rightarrow> None
      | Some b \<Rightarrow>
          let nalType = b AND h264TypeMask
          in if nalType = h264IDR \<or> nalType = h264SPS then Some True
             else if nalType = h264STAPA then stapaHasKeyframe payload
             else if nalType = h264FUA then fuaStartsKeyframe payload
             else Some False)"

section \<open>H.265\<close>

definition h265TypeShift :: nat where "h265TypeShift = 1"
definition h265TypeMask :: u8 where "h265TypeMask = 0x3F"
definition h265IRAPFirst :: u8 where "h265IRAPFirst = 16"
definition h265IRAPLast :: u8 where "h265IRAPLast = 23"
definition h265VPS :: u8 where "h265VPS = 32"
definition h265PPS :: u8 where "h265PPS = 34"
definition h265AP :: u8 where "h265AP = 48"
definition h265FU :: u8 where "h265FU = 49"
definition h265FUStart :: u8 where "h265FUStart = 0x80"
definition h265FUType :: u8 where "h265FUType = 0x3F"

definition h265_type :: "u8 \<Rightarrow> u8" where
  "h265_type b = drop_bit h265TypeShift b AND h265TypeMask"

definition h265_irap_or_parameters :: "u8 \<Rightarrow> bool" where
  "h265_irap_or_parameters nalType \<longleftrightarrow>
     (nalType \<ge> h265IRAPFirst \<and> nalType \<le> h265IRAPLast) \<or> (nalType \<ge> h265VPS \<and> nalType \<le> h265PPS)"

function h265_aggregation_loop :: "bytes \<Rightarrow> nat \<Rightarrow> bool option" where
  "h265_aggregation_loop payload offset =
     (if offset + 2 \<le> length payload
      then case (byte_at payload offset, byte_at payload (offset + 1)) of
             (Some hi, Some lo) \<Rightarrow>
               (let size = be16 hi lo; offset = offset + 2
                in if size < 2 \<or> offset + size > length payload then Some False
                   else case byte_at payload offset of
                          None \<Rightarrow> None
                        | Some b \<Rightarrow>
                            if h265_irap_or_parameters (h265_type b) then Some True
                            else h265_aggregation_loop payload (offset + size))
           | _ \<Rightarrow> None
      else Some False)"
  by pat_completeness auto
termination
  by (relation "measure (\<lambda>(p, i). length p - i)") auto

definition h265AggregationHasKeyframe :: "bytes \<Rightarrow> bool option" where
  "h265AggregationHasKeyframe payload = h265_aggregation_loop payload 2"

definition h265FragmentStartsKeyframe :: "bytes \<Rightarrow> bool option" where
  "h265FragmentStartsKeyframe payload =
     (if length payload < 3 then Some False
      else case byte_at payload 2 of
             None \<Rightarrow> None
           | Some b \<Rightarrow>
               if b AND h265FUStart = 0 then Some False
               else let nalType = b AND h265FUType
                    in Some (nalType \<ge> h265IRAPFirst \<and> nalType \<le> h265IRAPLast))"

definition h265Keyframe :: "bytes \<Rightarrow> bool option" where
  "h265Keyframe payload =
     (case byte_at payload 0 of
        None \<Rightarrow> None
      | Some b \<Rightarrow>
          let nalType = h265_type b
          in if nalType \<ge> h265IRAPFirst \<and> nalType \<le> h265IRAPLast then Some True
             else if nalType \<ge> h265VPS \<and> nalType \<le> h265PPS then Some True
             else if nalType = h265AP then h265AggregationHasKeyframe payload
             else if nalType = h265FU then h265FragmentStartsKeyframe payload
             else Some False)"

section \<open>Any codec\<close>

definition av1NMask :: u8 where "av1NMask = 8"

definition isKeyframe :: "string \<Rightarrow> bytes \<Rightarrow> bool option" where
  "isKeyframe mime payload =
     (if length payload = 0 then Some False
      else if EqualFold mime ''video/H264'' then h264Keyframe payload
      else if EqualFold mime ''video/H265'' then h265Keyframe payload
      else if EqualFold mime ''video/AV1''
      then map_option (\<lambda>b. b AND av1NMask \<noteq> 0) (byte_at payload 0)
      else Some True)"

declare stapa_loop.simps [simp del] h265_aggregation_loop.simps [simp del]

section \<open>Aggregation packets\<close>

text \<open>
  The units of an aggregation packet, as the format defines them: each is
  prefixed with its 16-bit length, and a unit that is shorter than \<open>least\<close> or
  runs past the end stops the list.  \<open>aggregate\<close> is the sender's side.
\<close>

function units :: "nat \<Rightarrow> bytes \<Rightarrow> bytes list" where
  "units least (hi # lo # rest) =
     (let n = be16 hi lo
      in if n < least \<or> n > length rest then [] else take n rest # units least (drop n rest))"
| "units least [b] = []"
| "units least [] = []"
  by pat_completeness auto
termination
  by (relation "measure (\<lambda>(m, bs). length bs)") auto

declare units.simps(1) [simp del]

definition aggregate :: "bytes list \<Rightarrow> bytes" where
  "aggregate nals = concat (map (\<lambda>n. hi8 (length n) # lo8 (length n) # n) nals)"

lemma units_aggregate:
  "\<forall>n \<in> set nals. least \<le> length n \<and> length n < 65536 \<Longrightarrow> units least (aggregate nals) = nals"
proof (induction nals)
  case Nil
  then show ?case by (simp add: aggregate_def)
next
  case (Cons n nals)
  have "aggregate (n # nals) = hi8 (length n) # lo8 (length n) # (n @ aggregate nals)"
    by (simp add: aggregate_def)
  with Cons show ?case by (simp add: units.simps(1) Let_def)
qed

text \<open>
  The contract the two walkers share.  Under it a walk returns for every
  payload and finds exactly the wanted units.
\<close>

locale aggregation_walk =
  fixes walk :: "bytes \<Rightarrow> nat \<Rightarrow> bool option"
    and wanted :: "u8 \<Rightarrow> bool"
    and least :: nat
  assumes least_pos: "0 < least"
    and walk_unfold: "walk payload offset =
      (if offset + 2 \<le> length payload
       then let size = be16 (payload ! offset) (payload ! (offset + 1))
            in if size < least \<or> offset + 2 + size > length payload then Some False
               else if wanted (payload ! (offset + 2)) then Some True
               else walk payload (offset + 2 + size)
       else Some False)"
begin

lemma walk_units:
  "offset \<le> length payload \<Longrightarrow>
     walk payload offset = Some (\<exists>u \<in> set (units least (drop offset payload)). wanted (hd u))"
proof (induction "length payload - offset" arbitrary: offset rule: less_induct)
  case less
  show ?case
  proof (cases "offset + 2 \<le> length payload")
    case False
    then have "length (drop offset payload) < 2" by simp
    then have "units least (drop offset payload) = []"
      by (cases "drop offset payload" rule: units.cases [of "(least, _)", simplified]) auto
    with False show ?thesis by (subst walk_unfold) simp
  next
    case True
    let ?n = "be16 (payload ! offset) (payload ! (offset + 1))"
    have d: "drop offset payload = payload ! offset # payload ! (offset + 1) # drop (offset + 2) payload"
      using True by (metis Cons_nth_drop_Suc Suc_eq_plus1 Suc_le_lessD add_2_eq_Suc' le_SucI le_imp_less_Suc
          less_imp_le_nat less_Suc_eq_le add_leD1)
    show ?thesis
    proof (cases "?n < least \<or> offset + 2 + ?n > length payload")
      case stop: True
      then have "units least (drop offset payload) = []"
        unfolding d using True by (auto simp: units.simps(1) Let_def)
      with True stop show ?thesis by (subst walk_unfold) (auto simp: Let_def)
    next
      case go: False
      let ?u = "take ?n (drop (offset + 2) payload)"
      have u: "units least (drop offset payload) = ?u # units least (drop (offset + 2 + ?n) payload)"
        unfolding d using go by (auto simp: units.simps(1) Let_def add.commute)
      have "0 < ?n" using go least_pos by simp
      moreover have "offset + 2 < length payload" using go \<open>0 < ?n\<close> by linarith
      ultimately have hd: "hd ?u = payload ! (offset + 2)"
        by (simp add: hd_take hd_drop_conv_nth)
      have IH: "walk payload (offset + 2 + ?n) =
          Some (\<exists>u \<in> set (units least (drop (offset + 2 + ?n) payload)). wanted (hd u))"
        using go True by (intro less.hyps) auto
      have "walk payload offset = (if wanted (payload ! (offset + 2)) then Some True
          else walk payload (offset + 2 + ?n))"
        using True go by (subst walk_unfold) (simp add: Let_def)
      then show ?thesis unfolding u IH using hd by simp
    qed
  qed
qed

end

interpretation stapa: aggregation_walk stapa_loop "\<lambda>b. b AND h264TypeMask \<in> {h264IDR, h264SPS}" 1
proof (unfold_locales, goal_cases)
  case (2 payload offset)
  show ?case by (subst stapa_loop.simps) (simp add: Let_def)
qed simp

interpretation h265_ap: aggregation_walk h265_aggregation_loop "\<lambda>b. h265_irap_or_parameters (h265_type b)" 2
proof (unfold_locales, goal_cases)
  case (2 payload offset)
  show ?case by (subst h265_aggregation_loop.simps) (simp add: Let_def)
qed simp

lemma stapaHasKeyframe_eq:
  "payload \<noteq> [] \<Longrightarrow> stapaHasKeyframe payload =
     Some (\<exists>u \<in> set (units 1 (drop 1 payload)). hd u AND h264TypeMask \<in> {h264IDR, h264SPS})"
  unfolding stapaHasKeyframe_def by (rule stapa.walk_units) (simp add: Suc_le_eq)

lemma h265Aggregation_eq:
  "2 \<le> length payload \<Longrightarrow> h265AggregationHasKeyframe payload =
     Some (\<exists>u \<in> set (units 2 (drop 2 payload)). h265_irap_or_parameters (h265_type (hd u)))"
  unfolding h265AggregationHasKeyframe_def by (rule h265_ap.walk_units)

lemma h265Aggregation_short:
  "length payload < 2 \<Longrightarrow> h265AggregationHasKeyframe payload = Some False"
  unfolding h265AggregationHasKeyframe_def by (subst h265_aggregation_loop.simps) simp

lemma h264Keyframe_total: "payload \<noteq> [] \<Longrightarrow> h264Keyframe payload \<noteq> None"
  by (auto simp: h264Keyframe_def stapaHasKeyframe_eq fuaStartsKeyframe_def Let_def)

lemma h265Keyframe_total: "payload \<noteq> [] \<Longrightarrow> h265Keyframe payload \<noteq> None"
  using h265Aggregation_eq [of payload] h265Aggregation_short [of payload]
  by (cases "length payload < 2") (auto simp: h265Keyframe_def h265FragmentStartsKeyframe_def Let_def)

text \<open>The answer as the playout buffer uses it.\<close>

definition keyframe_payload :: "string \<Rightarrow> bytes \<Rightarrow> bool" where
  "keyframe_payload mime payload \<longleftrightarrow> isKeyframe mime payload = Some True"

section \<open>Properties\<close>

text \<open>
  Keyframe detection is safe on hostile input: for every codec name and
  every payload it returns an answer, and no read is out of range.
\<close>

theorem isKeyframe_never_panics: "\<exists>b. isKeyframe mime payload = Some b"
  using h264Keyframe_total [of payload] h265Keyframe_total [of payload]
  by (auto simp: isKeyframe_def)

text \<open>
  C24: On aggregation packets the detectors find exactly what the sender put in:
  for any list of NAL units that fits the format, the H.264 STAP-A walker
  answers whether one of them is an IDR slice or a parameter set, and the H.265
  walker whether one is an IRAP picture or a parameter set, whatever the header.
\<close>

theorem aggregation_walkers_correct:
  assumes "\<forall>n \<in> set nals. 2 \<le> length n \<and> length n < 65536"
  shows "stapaHasKeyframe (a # aggregate nals) =
      Some (\<exists>n \<in> set nals. hd n AND h264TypeMask \<in> {h264IDR, h264SPS}) \<and>
    h265AggregationHasKeyframe (b # d # aggregate nals) =
      Some (\<exists>n \<in> set nals. h265_irap_or_parameters (h265_type (hd n)))"
proof -
  have "units 1 (aggregate nals) = nals" "units 2 (aggregate nals) = nals"
    using assms by (auto intro!: units_aggregate)
  then show ?thesis
    using stapaHasKeyframe_eq [of "a # aggregate nals"] h265Aggregation_eq [of "b # d # aggregate nals"]
    by simp
qed

theorem aggregation_walkers_correct_witness:
  "stapaHasKeyframe (24 # aggregate [[9, 48], [0x67, 1, 2], [0x65, 7]]) = Some True \<and>
   h265AggregationHasKeyframe (96 # 1 # aggregate [[9, 48], [0x67, 1, 2], [0x65, 7]]) = Some False"
proof -
  have "\<forall>n \<in> set [[9, 48], [0x67, 1, 2], [0x65, 7 :: u8]]. 2 \<le> length n \<and> length n < 65536"
    by simp
  from aggregation_walkers_correct [OF this, of 24 96 1] show ?thesis
    by (simp add: h264TypeMask_def h264IDR_def h264SPS_def h265_irap_or_parameters_def h265_type_def
        h265TypeShift_def h265TypeMask_def h265IRAPFirst_def h265IRAPLast_def h265VPS_def h265PPS_def)
qed

end
