(* ===== verification/Playout_Buffer.thy ===== *)
theory Playout_Buffer
  imports Dynamic_Delay Packet_Heap Keyframe
begin

text \<open>
  \<^verbatim>\<open>Buffer\<close> of \<^verbatim>\<open>internal/relay\<close> (\<^verbatim>\<open>delay.go\<close>, and the methods of \<^verbatim>\<open>clock.go\<close> and
  \<^verbatim>\<open>playback.go\<close> that work on one buffer): one track's playout queue.

  A buffer's mutex makes each method atomic.  Methods become functions on the
  \<open>Buffer\<close> record; each reading of the clock is an argument, in the order the
  code reads it.  The stream's delay controller is shared by the tracks through
  a pointer, so a method that uses it takes the controller and returns it when
  it may change it; \<open>b_dynamic\<close> says whether the pointer is set.  The condition
  variable and the timer have no state of their own: \<open>Push\<close> reports whether it
  signalled the reader, and one iteration of \<open>Pop\<close>'s loop reports what it waits
  for.  \<open>b_keyframe\<close> and \<open>b_stream\<close> say whether those pointers are set.
\<close>

unbundle bit_operations_syntax

section \<open>State\<close>

record Buffer =
  b_queue :: "buffered list"
  b_closed :: bool
  b_target :: duration
  b_clockRate :: u32
  b_mime :: string
  b_based :: bool
  b_baseRTP :: u32
  b_baseWall :: instant
  b_senderRTP :: u32
  b_senderNTP :: u64
  b_clockReset :: bool
  b_clockEpoch :: u64
  b_resetPending :: bool
  b_resetSequence :: u16
  b_correctionShift :: duration
  b_correctionRTP :: u32
  b_correctionMS :: rat
  b_catchUp :: bool
  b_keyframe :: bool
  b_arrived :: u64
  b_group :: instant
  b_groupGap :: duration
  b_frameGap :: duration
  b_nextSlot :: instant
  b_late :: u64
  b_dropped :: u64
  b_dynamic :: bool
  b_stream :: bool
  b_recoveryAt :: instant
  b_shift :: duration
  b_cutoff :: instant
  b_peakLate :: duration

definition hysteresis :: duration where "hysteresis = 2 * Second"
definition minMargin :: duration where "minMargin = 250 * Millisecond"
definition maxPaceLag :: duration where "maxPaceLag = 33 * Millisecond"

definition correctionMargin :: "duration \<Rightarrow> duration" where
  "correctionMargin target = min hysteresis (max target minMargin)"

definition NewBuffer :: "duration \<Rightarrow> u32 \<Rightarrow> string \<Rightarrow> bool \<Rightarrow> Buffer" where
  "NewBuffer target clockRate mime keyframe =
     \<lparr>b_queue = [], b_closed = False, b_target = target, b_clockRate = clockRate, b_mime = mime,
      b_based = False, b_baseRTP = 0, b_baseWall = 0, b_senderRTP = 0, b_senderNTP = 0,
      b_clockReset = False, b_clockEpoch = 0, b_resetPending = False, b_resetSequence = 0,
      b_correctionShift = 0, b_correctionRTP = 0, b_correctionMS = 0, b_catchUp = False,
      b_keyframe = keyframe, b_arrived = 0, b_group = 0, b_groupGap = 0, b_frameGap = 0,
      b_nextSlot = 0, b_late = 0, b_dropped = 0, b_dynamic = False, b_stream = False,
      b_recoveryAt = 0, b_shift = 0, b_cutoff = 0, b_peakLate = 0\<rparr>"

section \<open>The clock mapping\<close>

definition rtpDelta :: "u32 \<Rightarrow> u32 \<Rightarrow> int" where
  "rtpDelta timestamp base =
     (let diff = timestamp - base
      in if diff > 0x7FFFFFFF then - uint (NOT diff + 1) else uint diff)"

definition Buffer_playoutOf :: "Buffer \<Rightarrow> u32 \<Rightarrow> instant" where
  "Buffer_playoutOf b timestamp =
     (let elapsed = rtpDelta timestamp (b_baseRTP b);
          offset = i64 (elapsed * Second) sdiv uint (b_clockRate b)
      in b_baseWall b + offset + b_target b)"

definition Buffer_dropAll :: "Buffer \<Rightarrow> Buffer" where
  "Buffer_dropAll b = b\<lparr>b_dropped := b_dropped b + of_nat (length (b_queue b)), b_queue := []\<rparr>"

definition Buffer_dynamicOffset :: "Controller \<Rightarrow> Buffer \<Rightarrow> instant \<Rightarrow> Buffer \<times> duration" where
  "Buffer_dynamicOffset c b now =
     (if \<not> b_dynamic b then (b, 0)
      else case c_state c of
             None \<Rightarrow> (b, 0)
           | Some state \<Rightarrow>
               let b' = (if Cutoff state \<noteq> b_cutoff b
                         then (Buffer_dropAll (b\<lparr>b_baseWall := b_baseWall b + (Shift state - b_shift b),
                                                 b_shift := Shift state, b_cutoff := Cutoff state\<rparr>))
                              \<lparr>b_group := 0, b_catchUp := False, b_peakLate := 0\<rparr>
                         else b)
               in (b', State_Delay state now - b_target b'))"

definition Buffer_moveClock :: "Buffer \<Rightarrow> duration \<Rightarrow> bool \<Rightarrow> Buffer" where
  "Buffer_moveClock b shift reset =
     (let b1 = b\<lparr>b_baseWall := b_baseWall b + shift\<rparr>;
          b2 = (if reset then (Buffer_dropAll b1)\<lparr>b_catchUp := True\<rparr>
                else b1\<lparr>b_queue := shift_playAt shift (b_queue b1)\<rparr>)
      in b2\<lparr>b_group := 0, b_peakLate := 0\<rparr>)"

definition Buffer_staleResetPacket ::
  "Buffer \<Rightarrow> u16 \<Rightarrow> instant \<Rightarrow> instant \<Rightarrow> duration \<Rightarrow> Buffer \<times> bool" where
  "Buffer_staleResetPacket b sequence play now offset =
     (if b_clockEpoch b = 0 then (b, False)
      else if b_resetPending b \<or> sequence - b_resetSequence b \<ge> 0x8000
      then let margin = correctionMargin (b_target b)
           in (b, time_Sub play now > b_target b + margin \<or>
                  (\<not> b_resetPending b \<and> time_Sub now (play + offset) > margin))
      else (b\<lparr>b_resetSequence := sequence\<rparr>, False))"

section \<open>Arrival\<close>

text \<open>\<open>Buffer_dynamicArrival\<close> returns the controller, the buffer, the playout time, the
  offset and whether the packet is stale.\<close>

definition Buffer_dynamicArrival ::
  "Controller \<Rightarrow> Buffer \<Rightarrow> packet \<Rightarrow> instant \<Rightarrow> Controller \<times> Buffer \<times> instant \<times> duration \<times> bool" where
  "Buffer_dynamicArrival c b p now =
     (let (b1, offset) = Buffer_dynamicOffset c b now;
          play = Buffer_playoutOf b1 (Timestamp p);
          (b2, stale) = (if play - b_target b1 < b_cutoff b1 then (b1, True)
                         else Buffer_staleResetPacket b1 (SequenceNumber p) play now offset)
      in if stale then (c, b2, play, offset, True)
         else if b_dynamic b2 \<and> b_keyframe b2 \<and>
                 (case c_state c of None \<Rightarrow> False
                  | Some state \<Rightarrow> Pending state \<and> keyframe_payload (b_mime b2) (Payload p))
         then let c' = Controller_Jump c now (play - b_target b2);
                  (b3, offset') = Buffer_dynamicOffset c' b2 now
              in (c', b3, Buffer_playoutOf b3 (Timestamp p), offset', False)
         else (c, b2, play, offset, False))"

text \<open>The part of \<^verbatim>\<open>Push\<close> before the packet's playout time is known: anchoring the
  clock at the first packet.  It reads the clock twice.\<close>

definition Push_anchor :: "Controller \<Rightarrow> Buffer \<Rightarrow> packet \<Rightarrow> instant \<Rightarrow> instant \<Rightarrow> Buffer" where
  "Push_anchor c b p t1 t2 =
     (if b_based b then b
      else (fst (Buffer_dynamicOffset c b t1))
             \<lparr>b_baseRTP := Timestamp p, b_baseWall := t2, b_based := True\<rparr>)"

text \<open>The part after a packet was accepted: reset bookkeeping, re-anchoring, queueing.\<close>

definition Push_enqueue :: "Buffer \<Rightarrow> packet \<Rightarrow> instant \<Rightarrow> Buffer \<times> bool" where
  "Push_enqueue b p play =
     (let b1 = (if b_resetPending b
                then b\<lparr>b_resetPending := False, b_resetSequence := SequenceNumber p\<rparr> else b);
          b2 = (if rtpDelta (Timestamp p) (b_baseRTP b1) > i64 (uint (b_clockRate b1) * 60)
                then b1\<lparr>b_baseWall := play - b_target b1, b_baseRTP := Timestamp p\<rparr> else b1);
          b3 = b2\<lparr>b_arrived := b_arrived b2 + 1\<rparr>;
          (q, root) = packetHeap_push (b_queue b3)
                        \<lparr>pkt = p, playAt = play, order = b_arrived b3\<rparr>
      in (b3\<lparr>b_queue := q\<rparr>, root))"

definition Push_late :: "Buffer \<Rightarrow> instant \<Rightarrow> instant \<Rightarrow> Buffer" where
  "Push_late b play now =
     (let late = time_Sub now play
      in if late > 0 then b\<lparr>b_late := b_late b + 1, b_peakLate := max (b_peakLate b) late\<rparr> else b)"

definition Buffer_Push ::
  "Controller \<Rightarrow> Buffer \<Rightarrow> packet \<Rightarrow> instant \<Rightarrow> instant \<Rightarrow> instant \<Rightarrow> Controller \<times> Buffer \<times> bool" where
  "Buffer_Push c b p t1 t2 now =
     (if b_closed b then (c, b, False)
      else let b0 = Push_anchor c b p t1 t2;
               (c1, b1, play, offset, stale) = Buffer_dynamicArrival c b0 p now
           in if stale then (c1, b1\<lparr>b_dropped := b_dropped b1 + 1\<rparr>, False)
              else let b2 = Push_late b1 (play + offset) now
                   in if b_catchUp b2 \<and> \<not> keyframe_payload (b_mime b2) (Payload p)
                      then (c1, b2\<lparr>b_dropped := b_dropped b2 + 1\<rparr>, False)
                      else let b3 = (if b_catchUp b2 then Buffer_dropAll (b2\<lparr>b_catchUp := False\<rparr>) else b2);
                               (b4, root) = Push_enqueue b3 p play
                           in (c1, b4, root))"

section \<open>Playout\<close>

definition Buffer_lateAllowance :: "Buffer \<Rightarrow> duration" where
  "Buffer_lateAllowance b = (if b_frameGap b \<le> 0 then maxPaceLag else min (b_frameGap b) maxPaceLag)"

definition Buffer_startGroup :: "Buffer \<Rightarrow> instant \<Rightarrow> instant \<Rightarrow> Buffer" where
  "Buffer_startGroup b now play =
     (let gap = time_Sub play (b_group b);
          b1 = (if b_group b \<noteq> 0 \<and> gap > 0 \<and> gap < Second
                then b\<lparr>b_frameGap := (if b_frameGap b = 0 then gap else (i64 (3 * b_frameGap b) + gap) sdiv 4)\<rparr>
                else b);
          packets = length (filter (\<lambda>item. playAt item = play) (b_queue b1));
          b2 = b1\<lparr>b_group := play, b_nextSlot := now, b_groupGap := 0\<rparr>
      in if packets > 1 \<and> b_frameGap b2 > 0
         then b2\<lparr>b_groupGap := (i64 (b_frameGap b2 * 4) sdiv 5) sdiv int packets\<rparr> else b2)"

definition Buffer_paceHold :: "Buffer \<Rightarrow> instant \<Rightarrow> duration \<Rightarrow> Buffer \<times> duration" where
  "Buffer_paceHold b now late =
     (let head = b_queue b ! 0;
          b1 = (if playAt head \<noteq> b_group b then Buffer_startGroup b now (playAt head) else b)
      in if late > Buffer_lateAllowance b1 then (b1\<lparr>b_nextSlot := now\<rparr>, 0)
         else let hold = time_Sub (b_nextSlot b1) now
              in if hold > 0 then (b1, min hold (Buffer_lateAllowance b1)) else (b1, 0))"

definition Buffer_chargePace :: "Buffer \<Rightarrow> instant \<Rightarrow> Buffer" where
  "Buffer_chargePace b now =
     (if b_groupGap b \<le> 0 then b
      else let slot = (if b_nextSlot b < now - Buffer_lateAllowance b then now else b_nextSlot b)
           in b\<lparr>b_nextSlot := slot + b_groupGap b\<rparr>)"

text \<open>
  One iteration of \<^verbatim>\<open>Pop\<close>'s loop: the buffer is closed and drained, it waits
  for a signal, it waits at most the given time, it goes round again because a
  jump emptied the queue, or it returns a packet.
\<close>

datatype pop_outcome = Closed | WaitSignal | WaitFor duration | Again | Packet packet

definition Buffer_Pop :: "Controller \<Rightarrow> Buffer \<Rightarrow> instant \<Rightarrow> Buffer \<times> pop_outcome" where
  "Buffer_Pop c b now =
     (if b_closed b \<and> length (b_queue b) = 0 then (b, Closed)
      else if length (b_queue b) = 0 then (b, WaitSignal)
      else let (b1, offset) = Buffer_dynamicOffset c b now
           in if length (b_queue b1) = 0 then (b1, Again)
              else let wait = time_Sub (playAt (b_queue b1 ! 0) + offset) now
                   in if wait \<le> 0
                      then let (b2, hold) = Buffer_paceHold b1 now (- wait)
                           in if hold > 0 then (b2, WaitFor hold)
                              else case packetHeap_pop (b_queue b2) of
                                     None \<Rightarrow> (b2, Again)
                                   | Some (item, q) \<Rightarrow>
                                       (Buffer_chargePace (b2\<lparr>b_queue := q\<rparr>) now, Packet (pkt item))
                      else (b1, WaitFor wait))"

section \<open>Settings, depth and end\<close>

definition Buffer_newest :: "Buffer \<Rightarrow> buffered option" where
  "Buffer_newest b =
     foldl (\<lambda>newest item. if playAt item > (case newest of None \<Rightarrow> 0 | Some n \<Rightarrow> playAt n)
                          then Some item else newest) None (b_queue b)"

definition Buffer_depth :: "Buffer \<Rightarrow> instant \<Rightarrow> duration" where
  "Buffer_depth b now =
     max 0 (time_Sub (case Buffer_newest b of None \<Rightarrow> 0 | Some n \<Rightarrow> playAt n) now)"

definition Buffer_Stats :: "Buffer \<Rightarrow> u64 \<times> u64" where
  "Buffer_Stats b = (b_late b, b_dropped b)"

definition Buffer_SetTarget :: "Buffer \<Rightarrow> duration \<Rightarrow> Buffer" where
  "Buffer_SetTarget b target =
     (let shift = target - b_target b
      in b\<lparr>b_target := target, b_queue := shift_playAt shift (b_queue b)\<rparr>)"

definition Buffer_Close :: "Buffer \<Rightarrow> instant \<Rightarrow> Buffer" where
  "Buffer_Close b now =
     (let b1 = b\<lparr>b_closed := True\<rparr>
      in if Buffer_depth b1 now - b_target b1 > correctionMargin (b_target b1)
         then Buffer_dropAll b1 else b1)"

section \<open>Sender reports\<close>

definition Buffer_SenderReport :: "Buffer \<Rightarrow> u32 \<Rightarrow> u64 \<Rightarrow> Buffer" where
  "Buffer_SenderReport b timestamp ntp =
     (let delta = ntp - b_senderNTP b
      in if ntp = 0 \<or> (b_senderNTP b \<noteq> 0 \<and> (delta = 0 \<or> delta > 0x7FFFFFFFFFFFFFFF)) then b
         else let ticks = rtpDelta timestamp (b_senderRTP b);
                  elapsed = i64 (uint (drop_bit 32 delta) * Second) +
                            i64 (uint (delta AND 0xFFFFFFFF) * Second) sdiv 2 ^ 32;
                  drift = elapsed - i64 (ticks * Second) sdiv uint (b_clockRate b);
                  b1 = (if b_senderNTP b \<noteq> 0 \<and>
                           (ticks < 0 \<or> duration_Abs drift > correctionMargin (b_target b))
                        then b\<lparr>b_clockReset := True\<rparr> else b)
              in b1\<lparr>b_senderRTP := timestamp, b_senderNTP := ntp\<rparr>)"

definition Buffer_senderTimeMS :: "Buffer \<Rightarrow> u32 \<Rightarrow> rat" where
  "Buffer_senderTimeMS b timestamp =
     (let seconds = f64 (f64 (of_int (uint (drop_bit 32 (b_senderNTP b)))) * 1000);
          fraction = f64 (f64 (f64 (of_int (uint (b_senderNTP b AND 0xFFFFFFFF))) * 1000) / 2 ^ 32);
          media = f64 (f64 (f64 (of_int (rtpDelta timestamp (b_senderRTP b))) * 1000) /
                       f64 (of_int (uint (b_clockRate b))))
      in f64 (f64 (seconds + fraction) + media))"

definition Buffer_senderCorrection :: "Buffer \<Rightarrow> Buffer \<times> duration" where
  "Buffer_senderCorrection b =
     (if b_correctionShift b = 0 then (b, 0)
      else let rollback = f64_to_int (f64 (f64 (b_correctionMS b - Buffer_senderTimeMS b (b_correctionRTP b))
                                           * of_int Millisecond))
           in if rollback > correctionMargin (b_target b)
              then (b\<lparr>b_correctionShift := 0\<rparr>, min rollback (b_correctionShift b))
              else if b_clockReset b \<or> rtpDelta (b_senderRTP b) (b_correctionRTP b) \<ge> 0
              then (b\<lparr>b_correctionShift := 0\<rparr>, 0) else (b, 0))"

definition Buffer_alignSenderClock :: "Buffer \<Rightarrow> instant \<Rightarrow> bool \<Rightarrow> Buffer" where
  "Buffer_alignSenderClock b base established =
     (let shift = time_Sub base (b_baseWall b)
      in if duration_Abs shift \<le> 50 * Millisecond \<and> \<not> b_clockReset b then b
         else let b1 = Buffer_moveClock b shift
                         (b_clockReset b \<or> (established \<and> duration_Abs shift > correctionMargin (b_target b)))
              in if b_clockReset b1
                 then b1\<lparr>b_clockEpoch := b_clockEpoch b1 + 1, b_clockReset := False, b_resetPending := True\<rparr>
                 else b1)"

section \<open>RTP arithmetic\<close>

lemma sint_u32: "sint (d :: u32) = (if uint d < 2 ^ 31 then uint d else uint d - 2 ^ 32)"
proof -
  have r: "0 \<le> uint d" "uint d < 2 ^ 32" using uint_lt2p [of d] by simp_all
  have "(uint d + 2 ^ 31) mod 2 ^ 32 = uint d - 2 ^ 31" if "\<not> uint d < 2 ^ 31"
    using minus_mod_self2 [of "uint d + 2 ^ 31" "2 ^ 32"] r that by simp
  with r show ?thesis
    by (auto simp: sint_uint signed_take_bit_eq_take_bit_shift take_bit_eq_mod)
qed

lemma uint_u32_neg: "d \<noteq> 0 \<Longrightarrow> uint (- d :: u32) = 2 ^ 32 - uint d"
proof -
  assume "d \<noteq> 0"
  then have r: "0 < uint d" "uint d < 2 ^ 32" using uint_lt2p [of d] by (simp_all add: order.not_eq_order_implies_strict uint_0_iff)
  have "uint (- d) = (- uint d) mod 2 ^ 32" by (simp add: uint_word_ariths)
  also have "\<dots> = (2 ^ 32 - uint d) mod 2 ^ 32" using mod_add_self2 [of "- uint d" "2 ^ 32 :: int"] by simp
  also have "\<dots> = 2 ^ 32 - uint d" using r by (intro mod_pos_pos_trivial) auto
  finally show ?thesis .
qed

lemma rtpDelta_sint: "rtpDelta timestamp base = sint (timestamp - base)"
proof -
  define d where "d = timestamp - base"
  have gt: "d > 0x7FFFFFFF \<longleftrightarrow> \<not> uint d < 2 ^ 31" by (simp add: word_less_def) linarith
  have "NOT d + 1 = - d" by (simp add: minus_eq_not_plus_1)
  moreover have "\<not> uint d < 2 ^ 31 \<Longrightarrow> d \<noteq> 0" by auto
  ultimately show ?thesis
    unfolding rtpDelta_def Let_def sint_u32 using gt uint_u32_neg [of d] by (simp flip: d_def)
qed

lemma rtpDelta_range: "- (2 ^ 31) \<le> rtpDelta t u" "rtpDelta t u < 2 ^ 31"
  using sint_greater_eq [of "t - u"] sint_less [of "t - u"] by (simp_all add: rtpDelta_sint)

lemma rtpDelta_shift:
  assumes "- (2 ^ 31) \<le> rtpDelta t u + k" "rtpDelta t u + k < 2 ^ 31"
  shows "rtpDelta (t + of_int k) u = rtpDelta t u + k"
proof -
  have "t + of_int k - u = of_int (sint (t - u) + k)" by simp
  then have "sint (t + of_int k - u) = signed_take_bit 31 (sint (t - u) + k)"
    by (simp only: signed_of_int) simp
  also have "\<dots> = sint (t - u) + k"
    using assms by (intro signed_take_bit_int_eq_self) (simp_all add: rtpDelta_sint)
  finally show ?thesis by (simp add: rtpDelta_sint)
qed

lemma rtpDelta_self [simp]: "rtpDelta t t = 0"
  by (simp add: rtpDelta_sint)

lemma rtpDelta_change_base:
  assumes "- (2 ^ 31) \<le> rtpDelta t u - rtpDelta v u" "rtpDelta t u - rtpDelta v u < 2 ^ 31"
  shows "rtpDelta t v = rtpDelta t u - rtpDelta v u"
proof -
  have "t = v + of_int (rtpDelta t u - rtpDelta v u)" by (simp add: rtpDelta_sint)
  then show ?thesis
    using rtpDelta_shift [of v v "rtpDelta t u - rtpDelta v u"] assms by simp
qed

lemma ticks_exact: "i64 (rtpDelta t u * Second) = rtpDelta t u * Second"
  using rtpDelta_range [of t u] by (intro i64_small) auto

lemma playoutOf_eq:
  "Buffer_playoutOf b t =
     b_baseWall b + (rtpDelta t (b_baseRTP b) * Second) sdiv uint (b_clockRate b) + b_target b"
  by (simp add: Buffer_playoutOf_def Let_def ticks_exact)

section \<open>Accounting\<close>

text \<open>Packets that were accepted and are either still queued or counted as dropped.\<close>

definition held :: "Buffer \<Rightarrow> u64" where
  "held b = b_dropped b + of_nat (length (b_queue b))"

lemma shift_playAt_simps [simp]:
  "length (shift_playAt d h) = length h" "shift_playAt d h = [] \<longleftrightarrow> h = []"
  by (simp_all add: shift_playAt_def)

lemma dropAll_simps [simp]:
  "b_queue (Buffer_dropAll b) = []" "held (Buffer_dropAll b) = held b"
  "b_closed (Buffer_dropAll b) = b_closed b" "b_catchUp (Buffer_dropAll b) = b_catchUp b"
  by (simp_all add: Buffer_dropAll_def held_def)

text \<open>The packets in the queue.\<close>

definition contents :: "Buffer \<Rightarrow> packet multiset" where
  "contents b = image_mset pkt (mset (b_queue b))"

lemma pkts_shift [simp]: "image_mset pkt (mset (shift_playAt d h)) = image_mset pkt (mset h)"
  by (simp add: shift_playAt_def image_mset.compositionality o_def flip: mset_map)

definition buffer_inv :: "Buffer \<Rightarrow> bool" where
  "buffer_inv b \<longleftrightarrow> is_heap (b_queue b) \<and> (b_catchUp b \<longrightarrow> b_queue b = [])"

lemma dynamicOffset_closed [simp]: "b_closed (fst (Buffer_dynamicOffset c b now)) = b_closed b"
  by (simp add: Buffer_dynamicOffset_def Let_def split: option.split)

lemma dynamicOffset_held [simp]: "held (fst (Buffer_dynamicOffset c b now)) = held b"
  by (simp add: Buffer_dynamicOffset_def Buffer_dropAll_def held_def Let_def split: option.split)

lemma dynamicOffset_inv: "buffer_inv b \<Longrightarrow> buffer_inv (fst (Buffer_dynamicOffset c b now))"
  by (auto simp: Buffer_dynamicOffset_def buffer_inv_def Let_def split: option.split)

lemma dynamicOffset_contents: "contents (fst (Buffer_dynamicOffset c b now)) \<subseteq># contents b"
  by (simp add: Buffer_dynamicOffset_def contents_def Let_def split: option.split)

lemma dynamicOffset_queue:
  "b_queue (fst (Buffer_dynamicOffset c b now)) = b_queue b \<or> b_queue (fst (Buffer_dynamicOffset c b now)) = []"
  by (simp add: Buffer_dynamicOffset_def Let_def split: option.split)

lemma staleReset_frame [simp]:
  "b_closed (fst (Buffer_staleResetPacket b q play now off)) = b_closed b"
  "held (fst (Buffer_staleResetPacket b q play now off)) = held b"
  "buffer_inv (fst (Buffer_staleResetPacket b q play now off)) = buffer_inv b"
  "contents (fst (Buffer_staleResetPacket b q play now off)) = contents b"
  by (simp_all add: Buffer_staleResetPacket_def held_def buffer_inv_def contents_def Let_def)

lemma dynamicArrival_frame:
  assumes "Buffer_dynamicArrival c b p now = (c', b', play, off, stale)"
  shows "b_closed b' = b_closed b" "held b' = held b" "buffer_inv b \<Longrightarrow> buffer_inv b'"
    "contents b' \<subseteq># contents b"
  using assms
  by (auto simp: Buffer_dynamicArrival_def Let_def case_prod_unfold dynamicOffset_inv dynamicOffset_contents
      intro: subset_mset.order_trans [OF dynamicOffset_contents] split: if_splits)

lemma moveClock_held [simp]: "held (Buffer_moveClock b shift reset) = held b"
  by (simp add: Buffer_moveClock_def Let_def Buffer_dropAll_def held_def)

lemma moveClock_contents: "contents (Buffer_moveClock b shift reset) \<subseteq># contents b"
  by (simp add: Buffer_moveClock_def Let_def contents_def)

lemma moveClock_inv: "buffer_inv b \<Longrightarrow> buffer_inv (Buffer_moveClock b shift reset)"
  by (auto simp: Buffer_moveClock_def Let_def buffer_inv_def)

lemma anchor_frame [simp]:
  "b_closed (Push_anchor c b p t1 t2) = b_closed b" "held (Push_anchor c b p t1 t2) = held b"
  using dynamicOffset_held [of c b t1] by (simp_all add: Push_anchor_def held_def)

lemma anchor_contents: "contents (Push_anchor c b p t1 t2) \<subseteq># contents b"
  using dynamicOffset_contents [of c b t1] by (simp add: Push_anchor_def contents_def)

lemma anchor_inv: "buffer_inv b \<Longrightarrow> buffer_inv (Push_anchor c b p t1 t2)"
  using dynamicOffset_inv [of b c t1] by (simp add: Push_anchor_def buffer_inv_def)

lemma late_frame [simp]:
  "b_closed (Push_late b play now) = b_closed b" "held (Push_late b play now) = held b"
  "buffer_inv (Push_late b play now) = buffer_inv b" "b_queue (Push_late b play now) = b_queue b"
  "b_catchUp (Push_late b play now) = b_catchUp b" "b_mime (Push_late b play now) = b_mime b"
  "contents (Push_late b play now) = contents b"
  by (simp_all add: Push_late_def Let_def held_def buffer_inv_def contents_def)

text \<open>What queueing does to the queue, once the bookkeeping is done.\<close>

lemma enqueue_queue:
  "b_queue (fst (Push_enqueue b p play)) =
     fst (packetHeap_push (b_queue b) \<lparr>pkt = p, playAt = play, order = b_arrived b + 1\<rparr>)"
  "snd (Push_enqueue b p play) =
     snd (packetHeap_push (b_queue b) \<lparr>pkt = p, playAt = play, order = b_arrived b + 1\<rparr>)"
  "b_catchUp (fst (Push_enqueue b p play)) = b_catchUp b"
  "b_dropped (fst (Push_enqueue b p play)) = b_dropped b"
  "b_closed (fst (Push_enqueue b p play)) = b_closed b"
  "b_arrived (fst (Push_enqueue b p play)) = b_arrived b + 1"
  by (simp_all add: Push_enqueue_def Let_def case_prod_unfold)

lemma enqueue_inv:
  "buffer_inv b \<Longrightarrow> \<not> b_catchUp b \<Longrightarrow>
     buffer_inv (fst (Push_enqueue b p play)) \<and> held (fst (Push_enqueue b p play)) = held b + 1 \<and>
     contents (fst (Push_enqueue b p play)) = add_mset p (contents b)"
  by (simp add: buffer_inv_def enqueue_queue push_correct push_length held_def contents_def)


text \<open>The three ways a push on an open buffer can end.\<close>

lemma Push_cases:
  assumes "Buffer_Push c b p t1 t2 now = (c', b', sig)" "\<not> b_closed b"
  obtains (drop) b1 where "b' = b1\<lparr>b_dropped := b_dropped b1 + 1\<rparr>" "\<not> sig" "b_closed b1 = b_closed b"
      "held b1 = held b" "buffer_inv b \<Longrightarrow> buffer_inv b1" "contents b1 \<subseteq># contents b"
    | (queue) b1 play where "(b', sig) = Push_enqueue b1 p play" "\<not> b_catchUp b1" "b_closed b1 = b_closed b"
      "held b1 = held b" "buffer_inv b \<Longrightarrow> buffer_inv b1" "contents b1 \<subseteq># contents b"
proof -
  define b0 where "b0 = Push_anchor c b p t1 t2"
  obtain c1 b1 play off stale where arr: "Buffer_dynamicArrival c b0 p now = (c1, b1, play, off, stale)"
    by (cases "Buffer_dynamicArrival c b0 p now") auto
  define b2 where "b2 = Push_late b1 (play + off) now"
  define b3 where "b3 = (if b_catchUp b2 then Buffer_dropAll (b2\<lparr>b_catchUp := False\<rparr>) else b2)"
  note frame = dynamicArrival_frame [OF arr]
  have b0: "b_closed b0 = b_closed b" "held b0 = held b" "buffer_inv b \<Longrightarrow> buffer_inv b0" "contents b0 \<subseteq># contents b"
    by (simp_all add: b0_def anchor_inv anchor_contents)
  have b1: "b_closed b1 = b_closed b" "held b1 = held b" "buffer_inv b \<Longrightarrow> buffer_inv b1" "contents b1 \<subseteq># contents b"
    using frame b0 by (auto intro: subset_mset.order_trans)
  have b2: "b_closed b2 = b_closed b" "held b2 = held b" "buffer_inv b \<Longrightarrow> buffer_inv b2" "contents b2 \<subseteq># contents b"
    using b1 by (simp_all add: b2_def)
  have b3: "b_closed b3 = b_closed b" "held b3 = held b" "buffer_inv b \<Longrightarrow> buffer_inv b3" "\<not> b_catchUp b3"
      "contents b3 \<subseteq># contents b"
    using b2 by (auto simp: b3_def buffer_inv_def held_def Buffer_dropAll_def contents_def)
  have "(b' = b1\<lparr>b_dropped := b_dropped b1 + 1\<rparr> \<and> \<not> sig) \<or>
        (b' = b2\<lparr>b_dropped := b_dropped b2 + 1\<rparr> \<and> \<not> sig) \<or> (b', sig) = Push_enqueue b3 p play"
    using assms arr
    by (auto simp: Buffer_Push_def Let_def b0_def [symmetric] b2_def [symmetric] b3_def [symmetric]
        split: if_splits prod.splits)
  with drop [of b1] drop [of b2] queue [of b3 play] b1 b2 b3 show thesis by blast
qed

lemma held_drop_one [simp]: "held (b\<lparr>b_dropped := b_dropped b + 1\<rparr>) = held b + 1"
  by (simp add: held_def)

lemma buffer_inv_drop_one [simp]: "buffer_inv (b\<lparr>b_dropped := n\<rparr>) = buffer_inv b"
  by (simp add: buffer_inv_def)

lemma Push_held_inv:
  assumes "Buffer_Push c b p t1 t2 now = (c', b', sig)" "buffer_inv b"
  shows "buffer_inv b'" "held b' = held b + (if b_closed b then 0 else 1)" "b_closed b' = b_closed b"
    "contents b' \<subseteq># (if b_closed b then contents b else add_mset p (contents b))"
proof -
  have "buffer_inv b' \<and> held b' = held b + (if b_closed b then 0 else 1) \<and> b_closed b' = b_closed b \<and>
      contents b' \<subseteq># (if b_closed b then contents b else add_mset p (contents b))"
  proof (cases "b_closed b")
    case True
    with assms show ?thesis by (auto simp: Buffer_Push_def)
  next
    case False
    from assms(1) False show ?thesis
    proof (cases rule: Push_cases)
      case (drop b1)
      with assms(2) False show ?thesis
        by (auto simp: contents_def intro: subset_mset.order_trans)
    next
      case (queue b1 play)
      then have "b' = fst (Push_enqueue b1 p play)" by (metis fst_conv)
      with queue assms(2) False enqueue_inv [of b1 p play] show ?thesis
        by (simp add: enqueue_queue)
    qed
  qed
  then show "buffer_inv b'" "held b' = held b + (if b_closed b then 0 else 1)" "b_closed b' = b_closed b"
    "contents b' \<subseteq># (if b_closed b then contents b else add_mset p (contents b))" by simp_all
qed

section \<open>One round of the playout loop\<close>

lemma startGroup_frame [simp]:
  "b_queue (Buffer_startGroup b now play) = b_queue b" "b_closed (Buffer_startGroup b now play) = b_closed b"
  "b_catchUp (Buffer_startGroup b now play) = b_catchUp b" "b_dropped (Buffer_startGroup b now play) = b_dropped b"
  by (simp_all add: Buffer_startGroup_def Let_def)

lemma paceHold_frame [simp]:
  "b_queue (fst (Buffer_paceHold b now late)) = b_queue b" "b_closed (fst (Buffer_paceHold b now late)) = b_closed b"
  "b_catchUp (fst (Buffer_paceHold b now late)) = b_catchUp b"
  "b_dropped (fst (Buffer_paceHold b now late)) = b_dropped b"
  by (simp_all add: Buffer_paceHold_def Let_def)

lemma paceHold_queueD: "Buffer_paceHold b now late = (b', hold) \<Longrightarrow> b_queue b' = b_queue b"
  using paceHold_frame(1) [of b now late] by simp

lemma chargePace_frame [simp]:
  "b_queue (Buffer_chargePace b now) = b_queue b" "b_closed (Buffer_chargePace b now) = b_closed b"
  "b_catchUp (Buffer_chargePace b now) = b_catchUp b" "b_dropped (Buffer_chargePace b now) = b_dropped b"
  by (simp_all add: Buffer_chargePace_def Let_def)

lemma allowance_range: "0 \<le> Buffer_lateAllowance b" "Buffer_lateAllowance b \<le> maxPaceLag"
  by (auto simp: Buffer_lateAllowance_def maxPaceLag_def)

lemma paceHold_bound: "0 \<le> snd (Buffer_paceHold b now late) \<and> snd (Buffer_paceHold b now late) \<le> maxPaceLag"
  by (auto simp: Buffer_paceHold_def Let_def allowance_range min_le_iff_disj) (simp_all add: maxPaceLag_def)

lemma paceHold_late: "late > maxPaceLag \<Longrightarrow> snd (Buffer_paceHold b now late) = 0"
  using le_less_trans [OF allowance_range(2)] by (auto simp: Buffer_paceHold_def Let_def)

text \<open>What one round of the loop does, by its outcome.\<close>

lemma Pop_packet:
  assumes "Buffer_Pop c b now = (b', Packet p)"
  obtains b1 off item q where "Buffer_dynamicOffset c b now = (b1, off)" "b_queue b1 \<noteq> []" "b_queue b1 = b_queue b"
    "packetHeap_pop (b_queue b) = Some (item, q)" "pkt item = p" "playAt (b_queue b ! 0) + off \<le> now"
    "b_queue b' = q" "b_closed b' = b_closed b" "b_catchUp b' = b_catchUp b1" "b_dropped b' = b_dropped b1"
proof -
  obtain b1 off where d: "Buffer_dynamicOffset c b now = (b1, off)" by fastforce
  obtain b2 hold where p: "Buffer_paceHold b1 now (- time_Sub (playAt (b_queue b1 ! 0) + off) now) = (b2, hold)"
    by fastforce
  have q: "b_queue b1 = b_queue b \<or> b_queue b1 = []" "b_closed b1 = b_closed b"
    using dynamicOffset_queue [of c b now] dynamicOffset_closed [of c b now] d by simp_all
  have b2: "b_queue b2 = b_queue b1" "b_closed b2 = b_closed b1" "b_catchUp b2 = b_catchUp b1" "b_dropped b2 = b_dropped b1"
    using p paceHold_frame [of b1 now "- time_Sub (playAt (b_queue b1 ! 0) + off) now"] by simp_all
  have ne: "b_queue b1 \<noteq> []" and w: "time_Sub (playAt (b_queue b1 ! 0) + off) now \<le> 0"
    using assms d by (auto simp: Buffer_Pop_def Let_def split: if_splits)
  obtain item q where pop: "packetHeap_pop (b_queue b1) = Some (item, q)"
    using ne packetHeap_pop_None [of "b_queue b1"] by (cases "packetHeap_pop (b_queue b1)") auto
  have "b' = Buffer_chargePace (b2\<lparr>b_queue := q\<rparr>) now" "pkt item = p"
    using assms d p ne w pop b2(1) by (auto simp: Buffer_Pop_def Let_def split: if_splits)
  moreover have "playAt (b_queue b1 ! 0) + off \<le> now" using w time_Sub_pos_iff [of "playAt (b_queue b1 ! 0) + off" now] by linarith
  ultimately show thesis using that [OF d ne _ _ _ _ _ _ _ _] pop q ne b2 by auto
qed

lemma Pop_other:
  assumes "Buffer_Pop c b now = (b', out)" "\<forall>p. out \<noteq> Packet p"
  shows "held b' = held b" "buffer_inv b \<Longrightarrow> buffer_inv b'" "b_closed b' = b_closed b"
    "contents b' \<subseteq># contents b"
proof -
  obtain b1 off where d: "Buffer_dynamicOffset c b now = (b1, off)" by fastforce
  obtain b2 hold where p: "Buffer_paceHold b1 now (- time_Sub (playAt (b_queue b1 ! 0) + off) now) = (b2, hold)"
    by fastforce
  have b1: "held b1 = held b" "buffer_inv b \<Longrightarrow> buffer_inv b1" "b_closed b1 = b_closed b"
      "contents b1 \<subseteq># contents b"
    using dynamicOffset_contents [of c b now] dynamicOffset_held [of c b now] dynamicOffset_inv [of b c now] dynamicOffset_closed [of c b now] d by simp_all
  have b2: "b_queue b2 = b_queue b1" "b_closed b2 = b_closed b1" "b_catchUp b2 = b_catchUp b1" "b_dropped b2 = b_dropped b1"
    using p paceHold_frame [of b1 now "- time_Sub (playAt (b_queue b1 ! 0) + off) now"] by simp_all
  have "b' = b \<or> b' = b1 \<or> b' = b2"
    using assms d p by (auto simp: Buffer_Pop_def Let_def split: if_splits option.splits prod.splits)
  moreover have "held b2 = held b1" "buffer_inv b2 = buffer_inv b1" "contents b2 = contents b1"
    by (simp_all add: held_def buffer_inv_def contents_def b2)
  ultimately show "held b' = held b" "buffer_inv b \<Longrightarrow> buffer_inv b'" "b_closed b' = b_closed b"
    "contents b' \<subseteq># contents b"
    using b1 b2 by auto
qed

lemma Pop_packet_held_inv:
  assumes "Buffer_Pop c b now = (b', Packet p)" "buffer_inv b"
  shows "held b' + 1 = held b" "buffer_inv b'" "b_closed b' = b_closed b" "add_mset p (contents b') = contents b"
proof -
  from assms(1) obtain b1 off item q where
    d: "Buffer_dynamicOffset c b now = (b1, off)" "b_queue b1 \<noteq> []" "b_queue b1 = b_queue b"
    and pop: "packetHeap_pop (b_queue b) = Some (item, q)" "pkt item = p"
    and b': "b_queue b' = q" "b_closed b' = b_closed b" "b_catchUp b' = b_catchUp b1" "b_dropped b' = b_dropped b1"
    by (rule Pop_packet)
  have inv1: "buffer_inv b1" using dynamicOffset_inv [OF assms(2), of c now] d(1) by simp
  have h1: "held b1 = held b" using dynamicOffset_held [of c b now] d(1) by simp
  have "is_heap (b_queue b)" using assms(2) by (simp add: buffer_inv_def)
  note pc = pop_correct [OF this pop(1)]
  have len: "length (b_queue b1) = Suc (length q)"
    using pc(2) d(3) by (metis size_add_mset size_mset)
  then have nc: "\<not> b_catchUp b1" using inv1 d(2) by (simp add: buffer_inv_def)
  show "held b' + 1 = held b" using h1 len b' by (simp add: held_def ac_simps)
  show "buffer_inv b'" using pc(1) b' nc by (simp add: buffer_inv_def)
  show "b_closed b' = b_closed b" by (rule b'(2))
  show "add_mset p (contents b') = contents b"
    unfolding contents_def b'(1) pc(2) [symmetric] using pop(2) by simp
qed

section \<open>Runs\<close>

text \<open>
  Everything that happens to one buffer: the publisher's pushes, rounds of the
  reader's loop, settings, sender reports, the end, corrections of its clock, and
  changes of the shared controller made through the sibling track.
\<close>

datatype buffer_event =
    EPush packet instant instant instant
  | EPop instant
  | ESetTarget duration
  | EReport u32 u64
  | ECorrect instant
  | EMove duration bool
  | EAlign instant bool
  | ERollback
  | EClose instant
  | EShared Controller

record buffer_run =
  run_ctl :: Controller
  run_buf :: Buffer
  run_pushed :: "packet list"
  run_played :: "packet list"

fun buffer_step :: "buffer_run \<Rightarrow> buffer_event \<Rightarrow> buffer_run" where
  "buffer_step r (EPush p t1 t2 now) =
     (let (c, b, _) = Buffer_Push (run_ctl r) (run_buf r) p t1 t2 now
      in r\<lparr>run_ctl := c, run_buf := b,
           run_pushed := (if b_closed (run_buf r) then run_pushed r else run_pushed r @ [p])\<rparr>)"
| "buffer_step r (EPop now) =
     (let (b, out) = Buffer_Pop (run_ctl r) (run_buf r) now
      in r\<lparr>run_buf := b, run_played := run_played r @ (case out of Packet p \<Rightarrow> [p] | _ \<Rightarrow> [])\<rparr>)"
| "buffer_step r (ESetTarget d) = r\<lparr>run_buf := Buffer_SetTarget (run_buf r) d\<rparr>"
| "buffer_step r (EReport t ntp) = r\<lparr>run_buf := Buffer_SenderReport (run_buf r) t ntp\<rparr>"
| "buffer_step r (ECorrect now) = r\<lparr>run_buf := fst (Buffer_dynamicOffset (run_ctl r) (run_buf r) now)\<rparr>"
| "buffer_step r (EMove d reset) = r\<lparr>run_buf := Buffer_moveClock (run_buf r) d reset\<rparr>"
| "buffer_step r (EAlign base est) = r\<lparr>run_buf := Buffer_alignSenderClock (run_buf r) base est\<rparr>"
| "buffer_step r ERollback = r\<lparr>run_buf := fst (Buffer_senderCorrection (run_buf r))\<rparr>"
| "buffer_step r (EClose now) = r\<lparr>run_buf := Buffer_Close (run_buf r) now\<rparr>"
| "buffer_step r (EShared c) = r\<lparr>run_ctl := c\<rparr>"

definition run_inv :: "buffer_run \<Rightarrow> bool" where
  "run_inv r \<longleftrightarrow> buffer_inv (run_buf r) \<and>
     of_nat (length (run_pushed r)) = of_nat (length (run_played r)) + held (run_buf r) \<and>
     mset (run_played r) + contents (run_buf r) \<subseteq># mset (run_pushed r)"

text \<open>An operation that only moves or drops what is queued.\<close>

definition keeps :: "Buffer \<Rightarrow> Buffer \<Rightarrow> bool" where
  "keeps b b' \<longleftrightarrow> held b' = held b \<and> (buffer_inv b \<longrightarrow> buffer_inv b') \<and> contents b' \<subseteq># contents b"

lemma keeps_run: "run_inv r \<Longrightarrow> keeps (run_buf r) b' \<Longrightarrow> run_inv (r\<lparr>run_buf := b'\<rparr>)"
  by (auto simp: run_inv_def keeps_def intro: subset_mset.order_trans [OF subset_mset.add_left_mono])

lemma keepsI: "held b' = held b \<Longrightarrow> (buffer_inv b \<Longrightarrow> buffer_inv b') \<Longrightarrow> contents b' \<subseteq># contents b \<Longrightarrow> keeps b b'"
  by (simp add: keeps_def)

lemma keeps_trans: "keeps b b' \<Longrightarrow> keeps b' b'' \<Longrightarrow> keeps b b''"
  by (auto simp: keeps_def intro: subset_mset.order_trans)

lemma keeps_simple:
  "keeps b (Buffer_SetTarget b d)" "keeps b (Buffer_SenderReport b t ntp)"
  "keeps b (fst (Buffer_senderCorrection b))" "keeps b (Buffer_Close b now)"
  "keeps b (b\<lparr>b_clockEpoch := e, b_clockReset := False, b_resetPending := True\<rparr>)"
  by (auto simp: keeps_def Buffer_SetTarget_def Buffer_SenderReport_def Buffer_senderCorrection_def Buffer_Close_def
      held_def buffer_inv_def contents_def Let_def Buffer_dropAll_def)

lemma keeps_clock:
  "keeps b (fst (Buffer_dynamicOffset c b now))" "keeps b (Buffer_moveClock b d reset)"
  by (simp_all add: keepsI dynamicOffset_inv dynamicOffset_contents moveClock_inv moveClock_contents)

lemma keeps_align: "keeps b (Buffer_alignSenderClock b base est)"
  unfolding Buffer_alignSenderClock_def Let_def
  by (auto intro: keeps_clock(2) keeps_trans [OF keeps_clock(2) keeps_simple(5)] simp: keeps_def [of b b])

lemma run_inv_push:
  assumes "run_inv r"
  shows "run_inv (buffer_step r (EPush p t1 t2 now))"
proof -
  obtain c b sig where push: "Buffer_Push (run_ctl r) (run_buf r) p t1 t2 now = (c, b, sig)"
    by (cases "Buffer_Push (run_ctl r) (run_buf r) p t1 t2 now") auto
  have inv: "buffer_inv (run_buf r)" and
    n: "of_nat (length (run_pushed r)) = of_nat (length (run_played r)) + held (run_buf r)" and
    sub: "mset (run_played r) + contents (run_buf r) \<subseteq># mset (run_pushed r)"
    using assms by (simp_all add: run_inv_def)
  note h = Push_held_inv [OF push inv]
  have "mset (run_played r) + contents b \<subseteq>#
      mset (run_played r) + (if b_closed (run_buf r) then contents (run_buf r) else add_mset p (contents (run_buf r)))"
    using h(4) by (simp only: subset_mset.add_le_cancel_left)
  also have "\<dots> \<subseteq># mset (if b_closed (run_buf r) then run_pushed r else run_pushed r @ [p])"
    using sub by simp
  finally show ?thesis using push h n by (simp add: run_inv_def)
qed

lemma run_inv_pop:
  assumes "run_inv r"
  shows "run_inv (buffer_step r (EPop now))"
proof -
  obtain b out where pop: "Buffer_Pop (run_ctl r) (run_buf r) now = (b, out)" by fastforce
  have inv: "buffer_inv (run_buf r)" using assms by (simp add: run_inv_def)
  show ?thesis
  proof (cases "\<exists>p. out = Packet p")
    case True
    then obtain p where out: "out = Packet p" by blast
    note h = Pop_packet_held_inv [OF pop [unfolded out] inv]
    show ?thesis using assms pop out h(2) by (simp add: run_inv_def h(1,4) [symmetric] ac_simps)
  next
    case False
    then have "keeps (run_buf r) b" using Pop_other [OF pop] inv by (auto simp: keeps_def)
    moreover have "buffer_step r (EPop now) = r\<lparr>run_buf := b\<rparr>"
      using pop False by (auto split: pop_outcome.split)
    ultimately show ?thesis using keeps_run [OF assms] by simp
  qed
qed

lemma run_inv_step:
  assumes "run_inv r"
  shows "run_inv (buffer_step r e)"
proof (cases e)
  case (EPush p t1 t2 now)
  with run_inv_push [OF assms] show ?thesis by simp
next
  case (EPop now)
  with run_inv_pop [OF assms] show ?thesis by simp
next
  case (EShared c)
  with assms show ?thesis by (simp add: run_inv_def)
qed (simp_all add: assms keeps_run keeps_simple keeps_clock keeps_align)

lemma run_inv_run: "run_inv r \<Longrightarrow> run_inv (foldl buffer_step r es)"
  by (induction es arbitrary: r) (auto intro: run_inv_step)

definition buffer_start :: "Controller \<Rightarrow> duration \<Rightarrow> u32 \<Rightarrow> string \<Rightarrow> bool \<Rightarrow> buffer_run" where
  "buffer_start c target clockRate mime keyframe =
     \<lparr>run_ctl = c, run_buf = NewBuffer target clockRate mime keyframe, run_pushed = [], run_played = []\<rparr>"

lemma run_inv_start: "run_inv (buffer_start c target clockRate mime keyframe)"
  by (simp add: run_inv_def buffer_start_def NewBuffer_def buffer_inv_def held_def contents_def)

section \<open>Properties\<close>

text \<open>
  No packet is lost or invented.  After any sequence of pushes, playout rounds,
  retargetings, sender reports, clock corrections, jumps of the shared delay and a
  close, every packet accepted by an open buffer has been played, is counted in
  \<open>dropped\<close>, or is still queued (the counters are 64 bits wide, so the sum is
  modulo \<open>2 ^ 64\<close>), and what was played or is queued is a sub-multiset of what was
  pushed: nothing is played twice.
\<close>

theorem every_packet_accounted:
  "case foldl buffer_step (buffer_start c target clockRate mime keyframe) es of r \<Rightarrow>
     of_nat (length (run_pushed r)) =
       of_nat (length (run_played r)) + b_dropped (run_buf r) + of_nat (length (b_queue (run_buf r))) \<and>
     mset (run_played r) + image_mset pkt (mset (b_queue (run_buf r))) \<subseteq># mset (run_pushed r)"
  using run_inv_run [OF run_inv_start, of c target clockRate mime keyframe es]
  by (simp add: run_inv_def held_def contents_def add.assoc)

text \<open>
  C9: One round of the reader's loop on an open or closed buffer.  A packet that comes out is the
  one due first and never leaves before its playout time.  A wait is positive; it
  is exactly the time left until the first packet is due, or, for a packet
  already due, a pacing hold of at most 33 ms that only happens while the packet is
  at most 33 ms late.  The other outcomes occur only with an empty queue.
\<close>

theorem pop_on_time:
  assumes "buffer_inv b" "Buffer_Pop c b now = (b', out)" "Buffer_dynamicOffset c b now = (b1, offset)"
    "\<bar>playAt (b_queue b1 ! 0) + offset - now\<bar> < 2 ^ 63"
  shows "case out of
      Packet p \<Rightarrow> (\<exists>item \<in> set (b_queue b). pkt item = p \<and> playAt item + offset \<le> now \<and>
                    (\<forall>other \<in> set (b_queue b). due item \<le> due other))
    | WaitFor d \<Rightarrow> 0 < d \<and> b_queue b1 \<noteq> [] \<and>
        (let late = now - (playAt (b_queue b1 ! 0) + offset)
         in if late < 0 then d = - late else late \<le> maxPaceLag \<and> d \<le> maxPaceLag)
    | Closed \<Rightarrow> b_closed b \<and> b_queue b = []
    | WaitSignal \<Rightarrow> \<not> b_closed b \<and> b_queue b = []
    | Again \<Rightarrow> b_queue b \<noteq> [] \<and> b_queue b1 = []"
proof (cases out)
  case (Packet p)
  from assms(2) [unfolded Packet] obtain b2 off item q where
    o: "Buffer_dynamicOffset c b now = (b2, off)" "packetHeap_pop (b_queue b) = Some (item, q)" "pkt item = p"
      "playAt (b_queue b ! 0) + off \<le> now"
    by (rule Pop_packet)
  have heap: "is_heap (b_queue b)" using assms(1) by (simp add: buffer_inv_def)
  note pc = pop_correct [OF heap o(2)]
  have "item \<in> set (b_queue b)" using pc(2) by (metis in_multiset_in_set union_single_eq_member)
  then show ?thesis using Packet o pc(3,4) assms(3) by auto
next
  case (WaitFor d)
  let ?w = "playAt (b_queue b1 ! 0) + offset - now"
  obtain b2 hold where p: "Buffer_paceHold b1 now (- ?w) = (b2, hold)" by fastforce
  have hold: "hold \<le> maxPaceLag" "hold = 0 \<or> - ?w \<le> maxPaceLag"
    using paceHold_bound [of b1 now "- ?w"] paceHold_late [of "- ?w" b1 now] p by auto
  have "b_queue b1 \<noteq> []" "if ?w \<le> 0 then d = hold \<and> 0 < hold else d = ?w"
    using assms(2,3) WaitFor p time_Sub_exact [OF assms(4)]
    by (auto simp: Buffer_Pop_def Let_def split: if_splits option.splits)
  with WaitFor hold show ?thesis by (auto simp: Let_def split: if_splits)
qed (use assms(2,3) in \<open>auto simp: Buffer_Pop_def Let_def packetHeap_pop_None
    dest: paceHold_queueD split: if_splits prod.splits option.splits\<close>)

definition one_packet_buffer :: Buffer where
  "one_packet_buffer = (NewBuffer 0 90000 ''audio/opus'' False)\<lparr>b_queue :=
     [\<lparr>pkt = \<lparr>SequenceNumber = 7, Timestamp = 0, Payload = [1]\<rparr>, playAt = 100, order = 1\<rparr>]\<rparr>"

theorem pop_on_time_witness:
  "snd (Buffer_Pop Controller_zero one_packet_buffer 60) = WaitFor 40 \<and>
   (\<exists>item \<in> set (b_queue one_packet_buffer). SequenceNumber (pkt item) = 7 \<and> playAt item \<le> 150)"
proof -
  let ?p = "\<lparr>SequenceNumber = 7, Timestamp = 0, Payload = [1]\<rparr>"
  have inv: "buffer_inv one_packet_buffer" by (simp add: buffer_inv_def one_packet_buffer_def NewBuffer_def is_heap_def)
  have d: "Buffer_dynamicOffset Controller_zero one_packet_buffer now = (one_packet_buffer, 0)" for now
    by (simp add: Buffer_dynamicOffset_def one_packet_buffer_def NewBuffer_def)
  have q: "playAt (b_queue one_packet_buffer ! 0) = 100" "b_queue one_packet_buffer \<noteq> []"
    by (simp_all add: one_packet_buffer_def)
  obtain b1 b2 where w: "Buffer_Pop Controller_zero one_packet_buffer 60 = (b1, WaitFor 40)"
    and o: "Buffer_Pop Controller_zero one_packet_buffer 150 = (b2, Packet ?p)"
  proof -
    have "snd (Buffer_Pop Controller_zero one_packet_buffer 60) = WaitFor 40"
      "snd (Buffer_Pop Controller_zero one_packet_buffer 150) = Packet ?p" by code_simp+
    with that show thesis by (metis prod.collapse)
  qed
  from pop_on_time [OF inv w d] pop_on_time [OF inv o d] w show ?thesis
    by (auto simp: q) (metis packet.select_convs(1))
qed

end
