(* ===== verification/Playout_Clock.thy ===== *)
theory Playout_Clock
  imports Playout_Buffer
begin

text \<open>
  What the clock mapping of a playout buffer guarantees: how \<^verbatim>\<open>playoutOf\<close> follows the
  sender's RTP clock across the 32-bit wrap, that re-anchoring, retargeting and
  clock moves keep queued packets on the schedule of new arrivals, when a sender
  report is read as a timestamp reset, and how playback resumes after a correction.
\<close>

unbundle bit_operations_syntax

section \<open>Following the sender's clock\<close>

lemma playoutOf_shift:
  assumes "- (2 ^ 31) \<le> rtpDelta t (b_baseRTP b) + k" "rtpDelta t (b_baseRTP b) + k < 2 ^ 31"
  shows "Buffer_playoutOf b (t + of_int k) = b_baseWall b + b_target b +
     ((rtpDelta t (b_baseRTP b) + k) * Second) sdiv uint (b_clockRate b)"
  using rtpDelta_shift [OF assms] by (simp add: playoutOf_eq)

lemma playoutOf_rebase:
  assumes "0 < uint (b_clockRate b)" "- (2 ^ 31) \<le> rtpDelta t (b_baseRTP b) - rtpDelta v (b_baseRTP b)"
    "rtpDelta t (b_baseRTP b) - rtpDelta v (b_baseRTP b) < 2 ^ 31"
  shows "\<bar>Buffer_playoutOf (b\<lparr>b_baseWall := Buffer_playoutOf b v - b_target b, b_baseRTP := v\<rparr>) t -
           Buffer_playoutOf b t\<bar> \<le> 1"
proof -
  let ?v = "rtpDelta v (b_baseRTP b) * Second" and ?t = "rtpDelta t (b_baseRTP b) * Second"
  have "Buffer_playoutOf (b\<lparr>b_baseWall := Buffer_playoutOf b v - b_target b, b_baseRTP := v\<rparr>) t -
      Buffer_playoutOf b t = ?v sdiv uint (b_clockRate b) + (?t - ?v) sdiv uint (b_clockRate b) -
      (?v + (?t - ?v)) sdiv uint (b_clockRate b)"
    using rtpDelta_change_base [OF assms(2,3)] by (simp add: playoutOf_eq left_diff_distrib)
  then show ?thesis using sdiv_split [OF assms(1)] by metis
qed

section \<open>No jump outstanding\<close>

text \<open>The usual state: the shared delay has no jump this buffer has not applied or is about to make.\<close>

definition no_jump :: "Controller \<Rightarrow> Buffer \<Rightarrow> bool" where
  "no_jump c b \<longleftrightarrow> (b_dynamic b \<longrightarrow>
     (case c_state c of None \<Rightarrow> True | Some st \<Rightarrow> Cutoff st = b_cutoff b \<and> \<not> Pending st))"

lemma no_jump_offset: "no_jump c b \<Longrightarrow> fst (Buffer_dynamicOffset c b now) = b"
  by (auto simp: no_jump_def Buffer_dynamicOffset_def Let_def split: option.splits)

text \<open>Fields a stale-packet check leaves alone: all but the reset sequence number.\<close>

lemma staleReset_fields:
  "fst (Buffer_staleResetPacket b q play now off) \<in> {b, b\<lparr>b_resetSequence := q\<rparr>}"
  by (simp add: Buffer_staleResetPacket_def Let_def)

lemma no_jump_arrival:
  assumes "no_jump c b" "Buffer_dynamicArrival c b p now = (c', b', play, off, stale)"
  shows "c' = c" "b' \<in> {b, b\<lparr>b_resetSequence := SequenceNumber p\<rparr>}" "play = Buffer_playoutOf b (Timestamp p)"
proof -
  obtain off0 where d: "Buffer_dynamicOffset c b now = (b, off0)"
    using no_jump_offset [OF assms(1), of now] by (metis prod.collapse)
  define pl where "pl = Buffer_playoutOf b (Timestamp p)"
  obtain b2 st where s: "(if pl - b_target b < b_cutoff b then (b, True)
      else Buffer_staleResetPacket b (SequenceNumber p) pl now off0) = (b2, st)" by fastforce
  then have b2: "b2 \<in> {b, b\<lparr>b_resetSequence := SequenceNumber p\<rparr>}"
    using staleReset_fields [of b "SequenceNumber p" pl now off0] by (auto split: if_splits)
  have "\<not> (b_dynamic b2 \<and> b_keyframe b2 \<and> (case c_state c of None \<Rightarrow> False
      | Some state \<Rightarrow> Pending state \<and> keyframe_payload (b_mime b2) (Payload p)))"
    using assms(1) b2 by (auto simp: no_jump_def split: option.splits)
  then have "(c', b', play, off, stale) = (c, b2, pl, off0, st)"
    using assms(2) unfolding Buffer_dynamicArrival_def d Let_def prod.case pl_def [symmetric] s
    by (cases st) auto
  with b2 show "c' = c" "b' \<in> {b, b\<lparr>b_resetSequence := SequenceNumber p\<rparr>}" "play = Buffer_playoutOf b (Timestamp p)"
    by (simp_all add: pl_def)
qed

text \<open>Two buffers with the same clock mapping, playing the same kind of track.\<close>

definition same_clock :: "Buffer \<Rightarrow> Buffer \<Rightarrow> bool" where
  "same_clock b b' \<longleftrightarrow> b_baseWall b' = b_baseWall b \<and> b_baseRTP b' = b_baseRTP b \<and> b_target b' = b_target b \<and>
     b_clockRate b' = b_clockRate b \<and> b_mime b' = b_mime b \<and> b_arrived b' = b_arrived b"

lemma same_clock_playout: "same_clock b b' \<Longrightarrow> Buffer_playoutOf b' t = Buffer_playoutOf b t"
  by (simp add: same_clock_def Buffer_playoutOf_def Let_def)

lemma same_clock_late [simp]: "same_clock b (Push_late b1 play now) = same_clock b b1"
  by (simp add: same_clock_def Push_late_def Let_def)

lemma same_clock_dropAll [simp]: "same_clock b (Buffer_dropAll (b1\<lparr>b_catchUp := x\<rparr>)) = same_clock b b1"
  by (simp add: same_clock_def Buffer_dropAll_def)

text \<open>The outcomes of a push with no jump outstanding.\<close>

lemma Push_no_jump:
  assumes "no_jump c b" "b_based b" "\<not> b_closed b" "Buffer_Push c b p t1 t2 now = (c', b', sig)"
  shows "c' = c"
    and "(\<exists>b1. b' = b1\<lparr>b_dropped := b_dropped b1 + 1\<rparr> \<and> same_clock b b1 \<and> b_queue b1 = b_queue b \<and>
            b_catchUp b1 = b_catchUp b) \<or>
         (\<exists>b1. (b', sig) = Push_enqueue b1 p (Buffer_playoutOf b (Timestamp p)) \<and> same_clock b b1 \<and>
            \<not> b_catchUp b1 \<and> (if b_catchUp b then keyframe_payload (b_mime b) (Payload p) \<and> b_queue b1 = []
                              else b_queue b1 = b_queue b))"
proof -
  obtain c1 b1 play off stale where arr: "Buffer_dynamicArrival c b p now = (c1, b1, play, off, stale)"
    by (cases "Buffer_dynamicArrival c b p now") auto
  define b2 where "b2 = Push_late b1 (play + off) now"
  define b3 where "b3 = (if b_catchUp b2 then Buffer_dropAll (b2\<lparr>b_catchUp := False\<rparr>) else b2)"
  note a = no_jump_arrival [OF assms(1) arr]
  have b1: "same_clock b b1" "b_queue b1 = b_queue b" "b_catchUp b1 = b_catchUp b" "b_mime b1 = b_mime b"
    using a(2) by (auto simp: same_clock_def)
  have b2: "same_clock b b2" "b_queue b2 = b_queue b" "b_catchUp b2 = b_catchUp b" "b_mime b2 = b_mime b"
    using b1 by (simp_all add: b2_def)
  have b3: "same_clock b b3" "\<not> b_catchUp b3" "b_queue b3 = (if b_catchUp b then [] else b_queue b)"
    using b2 by (simp_all add: b3_def)
  have anchor: "Push_anchor c b p t1 t2 = b" using assms(2) by (simp add: Push_anchor_def)
  have push: "Buffer_Push c b p t1 t2 now =
      (if stale then (c1, b1\<lparr>b_dropped := b_dropped b1 + 1\<rparr>, False)
       else if b_catchUp b \<and> \<not> keyframe_payload (b_mime b) (Payload p)
       then (c1, b2\<lparr>b_dropped := b_dropped b2 + 1\<rparr>, False)
       else (c1, Push_enqueue b3 p play))"
    using assms(3) b2(3,4) unfolding Buffer_Push_def anchor arr Let_def prod.case b2_def [symmetric] b3_def [symmetric]
    by (simp add: split: prod.split)
  show "c' = c" using push assms(4) a(1) by (auto split: if_splits prod.splits)
  have "b' = b1\<lparr>b_dropped := b_dropped b1 + 1\<rparr> \<or> b' = b2\<lparr>b_dropped := b_dropped b2 + 1\<rparr> \<or>
      (b', sig) = Push_enqueue b3 p play \<and> (b_catchUp b \<longrightarrow> keyframe_payload (b_mime b) (Payload p))"
    using push assms(4) by (auto split: if_splits)
  then show "(\<exists>b1. b' = b1\<lparr>b_dropped := b_dropped b1 + 1\<rparr> \<and> same_clock b b1 \<and> b_queue b1 = b_queue b \<and>
            b_catchUp b1 = b_catchUp b) \<or>
         (\<exists>b1. (b', sig) = Push_enqueue b1 p (Buffer_playoutOf b (Timestamp p)) \<and> same_clock b b1 \<and>
            \<not> b_catchUp b1 \<and> (if b_catchUp b then keyframe_payload (b_mime b) (Payload p) \<and> b_queue b1 = []
                              else b_queue b1 = b_queue b))"
    using b1 b2 b3 a(3) by (auto split: if_splits)
qed

text \<open>Queueing re-anchors the clock on a packet more than a minute ahead of the anchor.\<close>

lemma enqueue_clock:
  "fst (Push_enqueue b p play) = b\<lparr>
     b_resetPending := False,
     b_resetSequence := (if b_resetPending b then SequenceNumber p else b_resetSequence b),
     b_baseWall := (if rtpDelta (Timestamp p) (b_baseRTP b) > uint (b_clockRate b) * 60
                    then play - b_target b else b_baseWall b),
     b_baseRTP := (if rtpDelta (Timestamp p) (b_baseRTP b) > uint (b_clockRate b) * 60
                   then Timestamp p else b_baseRTP b),
     b_arrived := b_arrived b + 1,
     b_queue := fst (packetHeap_push (b_queue b) \<lparr>pkt = p, playAt = play, order = b_arrived b + 1\<rparr>)\<rparr>"
proof -
  have "i64 (uint (b_clockRate b) * 60) = uint (b_clockRate b) * 60"
    using uint_lt2p [of "b_clockRate b"] by (intro i64_small) simp
  then show ?thesis by (simp add: Push_enqueue_def Let_def case_prod_unfold)
qed

text \<open>A queue on the schedule of the clock mapping.\<close>

definition on_schedule :: "Buffer \<Rightarrow> bool" where
  "on_schedule b \<longleftrightarrow> (\<forall>item \<in> set (b_queue b). playAt item = Buffer_playoutOf b (Timestamp (pkt item)))"

lemma on_schedule_shift:
  assumes "on_schedule b" "b_queue b' = shift_playAt d (b_queue b) \<or> b_queue b' = []"
    "\<And>t. Buffer_playoutOf b' t = Buffer_playoutOf b t + d"
  shows "on_schedule b'"
  using assms by (auto simp: on_schedule_def shift_playAt_def)

section \<open>Properties\<close>

text \<open>
  C11: The schedule follows the sender's clock, also across the wrap of the 32-bit
  RTP timestamp.  A packet \<open>k\<close> ticks after another, both less than \<open>2 ^ 31\<close> ticks from
  the anchor, is never scheduled earlier than it, and the time between their two playouts is
  the media time \<open>k / rate\<close>, exact to less than two nanoseconds.
\<close>

theorem playout_follows_media_time:
  assumes "0 < b_clockRate b" "0 \<le> k" "rtpDelta t (b_baseRTP b) + k < 2 ^ 31"
  shows "let d = Buffer_playoutOf b (t + of_int k) - Buffer_playoutOf b t; rate = uint (b_clockRate b)
     in 0 \<le> d \<and> \<bar>d * rate - k * Second\<bar> < 2 * rate"
proof -
  let ?r = "uint (b_clockRate b)" and ?e = "rtpDelta t (b_baseRTP b)"
  have r: "0 < ?r" using assms(1) by (simp add: word_less_def)
  have "- (2 ^ 31) \<le> ?e + k" using rtpDelta_range(1) [of t "b_baseRTP b"] assms(2) by linarith
  then have d: "Buffer_playoutOf b (t + of_int k) - Buffer_playoutOf b t =
      ((?e + k) * Second) sdiv ?r - (?e * Second) sdiv ?r"
    using playoutOf_shift [of t b k] assms(3) by (simp add: playoutOf_eq)
  have "(?e * Second) sdiv ?r \<le> ((?e + k) * Second) sdiv ?r" using assms(2) r by (intro sdiv_mono) auto
  moreover have "\<bar>(((?e + k) * Second) sdiv ?r - (?e * Second) sdiv ?r) * ?r - k * Second\<bar> < 2 * ?r"
    using sdiv_close [OF r, of "(?e + k) * Second"] sdiv_close [OF r, of "?e * Second"]
    by (simp add: left_diff_distrib distrib_right)
  ultimately show ?thesis by (simp add: d Let_def)
qed

definition example_buffer :: Buffer where
  "example_buffer = (NewBuffer (300 * Millisecond) 90000 ''video/H264'' True)
     \<lparr>b_based := True, b_baseRTP := 0xFFFFFF00, b_baseWall := 1000 * Second\<rparr>"

theorem playout_follows_media_time_witness:
  "Buffer_playoutOf example_buffer (0xFFFFFF00 + of_int 3000) - Buffer_playoutOf example_buffer 0xFFFFFF00 =
     33333333 \<and> \<bar>33333333 * 90000 - 3000 * Second\<bar> < 2 * (90000 :: int)"
proof -
  have "Buffer_playoutOf example_buffer (0xFFFFFF00 + of_int 3000) -
      Buffer_playoutOf example_buffer 0xFFFFFF00 = 33333333" by code_simp
  moreover have "b_clockRate example_buffer = 90000" "b_baseRTP example_buffer = 0xFFFFFF00"
    by (simp_all add: example_buffer_def NewBuffer_def)
  ultimately show ?thesis
    using playout_follows_media_time [of example_buffer 3000 "0xFFFFFF00"] by (simp add: Let_def)
qed

text \<open>
  A long stream never outgrows the clock mapping.  A push with no jump
  outstanding queues its packet at the playout time the mapping gives, or drops
  it; a packet that was queued leaves the anchor at most a minute behind it,
  and moving the anchor changes the playout time of no timestamp in range by more
  than a nanosecond.
\<close>

theorem push_keeps_schedule:
  assumes "no_jump c b" "b_based b" "\<not> b_closed b" "0 < b_clockRate b" "buffer_inv b"
    "Buffer_Push c b p t1 t2 now = (c', b', sig)"
  shows "(b_arrived b' = b_arrived b \<or>
      (b_arrived b' = b_arrived b + 1 \<and>
       \<lparr>pkt = p, playAt = Buffer_playoutOf b (Timestamp p), order = b_arrived b'\<rparr> \<in> set (b_queue b') \<and>
       rtpDelta (Timestamp p) (b_baseRTP b') \<le> 60 * uint (b_clockRate b))) \<and>
    (\<forall>t. - (2 ^ 31) \<le> rtpDelta t (b_baseRTP b) - rtpDelta (Timestamp p) (b_baseRTP b) \<and>
         rtpDelta t (b_baseRTP b) - rtpDelta (Timestamp p) (b_baseRTP b) < 2 ^ 31 \<longrightarrow>
       \<bar>Buffer_playoutOf b' t - Buffer_playoutOf b t\<bar> \<le> 1)"
proof -
  let ?play = "Buffer_playoutOf b (Timestamp p)"
  have r: "0 < uint (b_clockRate b)" using assms(4) by (simp add: word_less_def)
  from Push_no_jump(2) [OF assms(1-3) assms(6)] show ?thesis
  proof (elim disjE exE conjE)
    fix b1 assume b1: "b' = b1\<lparr>b_dropped := b_dropped b1 + 1\<rparr>" "same_clock b b1"
    then have "same_clock b b'" by (simp add: same_clock_def)
    then show ?thesis by (simp add: same_clock_playout) (simp add: same_clock_def)
  next
    fix b1 assume b1: "(b', sig) = Push_enqueue b1 p ?play" "same_clock b b1"
      "if b_catchUp b then keyframe_payload (b_mime b) (Payload p) \<and> b_queue b1 = [] else b_queue b1 = b_queue b"
    have b': "b' = fst (Push_enqueue b1 p ?play)" using b1(1) by (metis fst_conv)
    have "is_heap (b_queue b1)" using b1(3) assms(5) by (auto simp: buffer_inv_def split: if_splits)
    then have q: "\<lparr>pkt = p, playAt = ?play, order = b_arrived b'\<rparr> \<in># mset (b_queue b')"
      by (simp add: b' enqueue_queue push_correct(2) del: set_mset_mset)
    have ba: "rtpDelta (Timestamp p) (b_baseRTP b') \<le> 60 * uint (b_clockRate b)"
      using b1(2) by (simp add: b' enqueue_clock same_clock_def)
    have "\<bar>Buffer_playoutOf b' t - Buffer_playoutOf b t\<bar> \<le> 1"
      if "- (2 ^ 31) \<le> rtpDelta t (b_baseRTP b) - rtpDelta (Timestamp p) (b_baseRTP b)"
        "rtpDelta t (b_baseRTP b) - rtpDelta (Timestamp p) (b_baseRTP b) < 2 ^ 31" for t
      using b1(2) playoutOf_rebase [OF r that]
      by (auto simp: b' enqueue_clock same_clock_def playoutOf_eq)
    with q ba b1(2) show ?thesis by (simp add: b' enqueue_queue same_clock_def)
  qed
qed

definition example_packet :: "u16 \<Rightarrow> u32 \<Rightarrow> bytes \<Rightarrow> packet" where
  "example_packet sequence timestamp payload =
     \<lparr>SequenceNumber = sequence, Timestamp = timestamp, Payload = payload\<rparr>"

theorem push_keeps_schedule_witness:
  "\<exists>b' sig. Buffer_Push Controller_zero example_buffer (example_packet 1 5500000 [0x65]) 0 0 1061000000000 =
      (Controller_zero, b', sig) \<and> b_baseRTP b' = 5500000 \<and> b_arrived b' = 1 \<and>
      rtpDelta 5500000 (b_baseRTP b') \<le> 60 * uint (b_clockRate example_buffer)"
proof -
  obtain c' b' sig where push:
    "Buffer_Push Controller_zero example_buffer (example_packet 1 5500000 [0x65]) 0 0 1061000000000 = (c', b', sig)"
    by (cases "Buffer_Push Controller_zero example_buffer (example_packet 1 5500000 [0x65]) 0 0 1061000000000") auto
  have h: "no_jump Controller_zero example_buffer" "b_based example_buffer" "\<not> b_closed example_buffer"
    "0 < b_clockRate example_buffer" "buffer_inv example_buffer" "b_arrived example_buffer = 0"
    by (simp_all add: no_jump_def example_buffer_def NewBuffer_def buffer_inv_def)
  have "b_baseRTP (fst (snd (Buffer_Push Controller_zero example_buffer (example_packet 1 5500000 [0x65])
      0 0 1061000000000))) = 5500000 \<and> b_arrived (fst (snd (Buffer_Push Controller_zero example_buffer
      (example_packet 1 5500000 [0x65]) 0 0 1061000000000))) = 1" by code_simp
  then have "b_baseRTP b' = 5500000" "b_arrived b' = 1" by (simp_all add: push)
  with push_keeps_schedule [OF h(1-5) push] Push_no_jump(1) [OF h(1-3) push] push h(6) show ?thesis
    by (auto simp: example_packet_def)
qed

text \<open>
  Changing the delay or moving the clock preserves the schedule.  \<^verbatim>\<open>SetTarget\<close> and
  \<^verbatim>\<open>moveClock\<close> shift the playout time of every future packet by the same amount
  as those already queued, so a queue that was on schedule stays on it, and the
  order in which packets come out is unchanged.
\<close>

theorem retargeting_keeps_schedule:
  "(on_schedule b \<longrightarrow> on_schedule (Buffer_SetTarget b target) \<and> on_schedule (Buffer_moveClock b shift reset)) \<and>
   Buffer_playoutOf (Buffer_SetTarget b target) t = Buffer_playoutOf b t + (target - b_target b) \<and>
   Buffer_playoutOf (Buffer_moveClock b shift reset) t = Buffer_playoutOf b t + shift \<and>
   map pkt (b_queue (Buffer_SetTarget b target)) = map pkt (b_queue b) \<and>
   is_heap (b_queue (Buffer_SetTarget b target)) = is_heap (b_queue b)"
proof -
  have st: "Buffer_playoutOf (Buffer_SetTarget b target) t = Buffer_playoutOf b t + (target - b_target b)" for t
    by (simp add: Buffer_playoutOf_def Buffer_SetTarget_def Let_def)
  have mc: "Buffer_playoutOf (Buffer_moveClock b shift reset) t = Buffer_playoutOf b t + shift" for t
    by (simp add: Buffer_playoutOf_def Buffer_moveClock_def Let_def Buffer_dropAll_def)
  have "on_schedule b \<Longrightarrow> on_schedule (Buffer_SetTarget b target)"
    by (rule on_schedule_shift [OF _ _ st]) (simp_all add: Buffer_SetTarget_def Let_def)
  moreover have "on_schedule b \<Longrightarrow> on_schedule (Buffer_moveClock b shift reset)"
    by (rule on_schedule_shift [OF _ _ mc]) (simp_all add: Buffer_moveClock_def Let_def)
  ultimately show ?thesis using st mc
    by (simp add: Buffer_SetTarget_def Let_def) (simp add: shift_playAt_def)
qed

theorem retargeting_keeps_schedule_witness:
  "on_schedule (Buffer_SetTarget example_buffer (500 * Millisecond)) \<and>
   on_schedule (Buffer_moveClock example_buffer (- Second) False)"
proof -
  have "on_schedule example_buffer" by (simp add: on_schedule_def example_buffer_def NewBuffer_def)
  with retargeting_keeps_schedule [of example_buffer "500 * Millisecond" "- Second" False 0] show ?thesis by simp
qed

text \<open>
  After a correction, playback resumes on a keyframe.  While a buffer
  is catching up its queue is empty; a push that ends the catching-up queues
  exactly one packet, and that packet is a keyframe of the track's codec; any other push
  is dropped and counted.
\<close>

theorem catchup_resumes_on_keyframe:
  assumes "no_jump c b" "b_based b" "\<not> b_closed b" "buffer_inv b" "b_catchUp b"
    "Buffer_Push c b p t1 t2 now = (c', b', sig)"
  shows "if b_catchUp b' then b_queue b' = [] \<and> b_dropped b' = b_dropped b + 1
     else keyframe_payload (b_mime b) (Payload p) \<and> map pkt (b_queue b') = [p] \<and> b_dropped b' = b_dropped b"
proof -
  have h: "held b' = held b + 1" "b_queue b = []"
    using Push_held_inv(2) [OF assms(6) assms(4)] assms(3,4,5) by (simp_all add: buffer_inv_def)
  from Push_no_jump(2) [OF assms(1-3) assms(6)] show ?thesis
  proof (elim disjE exE conjE)
    fix b1 assume "b' = b1\<lparr>b_dropped := b_dropped b1 + 1\<rparr>" "b_queue b1 = b_queue b" "b_catchUp b1 = b_catchUp b"
    with h assms(5) show ?thesis by (simp add: held_def)
  next
    fix b1 assume b1: "(b', sig) = Push_enqueue b1 p (Buffer_playoutOf b (Timestamp p))" "\<not> b_catchUp b1"
      "if b_catchUp b then keyframe_payload (b_mime b) (Payload p) \<and> b_queue b1 = [] else b_queue b1 = b_queue b"
    have b': "b' = fst (Push_enqueue b1 p (Buffer_playoutOf b (Timestamp p)))" using b1(1) by (metis fst_conv)
    have q: "b_queue b' = [\<lparr>pkt = p, playAt = Buffer_playoutOf b (Timestamp p), order = b_arrived b1 + 1\<rparr>]"
      using b1(3) assms(5) by (simp add: b' enqueue_queue packetHeap_push_def packetHeap_up.simps)
    have "\<not> b_catchUp b'" using b1(2) by (simp add: b' enqueue_queue)
    moreover have "b_dropped b' = b_dropped b" using h q by (simp add: held_def)
    ultimately show ?thesis using q b1(3) assms(5) by simp
  qed
qed

theorem catchup_resumes_on_keyframe_witness:
  "\<exists>b' sig. Buffer_Push Controller_zero (Buffer_moveClock example_buffer 0 True)
      (example_packet 1 3000 [0x65, 1]) 0 0 1000000000000 = (Controller_zero, b', sig) \<and>
    \<not> b_catchUp b' \<and> map pkt (b_queue b') = [example_packet 1 3000 [0x65, 1]] \<and>
    keyframe_payload ''video/H264'' [0x65, 1]"
proof -
  let ?b = "Buffer_moveClock example_buffer 0 True" and ?p = "example_packet 1 3000 [0x65, 1]"
  obtain c' b' sig where push: "Buffer_Push Controller_zero ?b ?p 0 0 1000000000000 = (c', b', sig)"
    by (cases "Buffer_Push Controller_zero ?b ?p 0 0 1000000000000") auto
  have h: "no_jump Controller_zero ?b" "b_based ?b" "\<not> b_closed ?b" "buffer_inv ?b" "b_catchUp ?b"
    "b_mime ?b = ''video/H264''"
    by (simp_all add: no_jump_def example_buffer_def NewBuffer_def buffer_inv_def Buffer_moveClock_def Let_def
        Buffer_dropAll_def)
  have "\<not> b_catchUp (fst (snd (Buffer_Push Controller_zero ?b ?p 0 0 1000000000000)))" by code_simp
  then have "\<not> b_catchUp b'" by (simp add: push)
  with catchup_resumes_on_keyframe [OF h(1-5) push] Push_no_jump(1) [OF h(1-3) push] push h(6) show ?thesis
    by (auto simp: example_packet_def)
qed

section \<open>Sender reports\<close>

text \<open>NTP time is a fixed-point number of seconds with 32 fractional bits.\<close>

lemma ntp_nanoseconds:
  assumes "delta \<le> (0x7FFFFFFFFFFFFFFF :: u64)"
  shows "i64 (uint (drop_bit 32 delta) * Second) + i64 (uint (delta AND 0xFFFFFFFF) * Second) sdiv 2 ^ 32 =
     (uint delta * Second) div 2 ^ 32"
proof -
  define hi lo where "hi = uint delta div 2 ^ 32" and "lo = uint delta mod 2 ^ 32"
  have u: "uint delta = hi * 2 ^ 32 + lo" by (simp add: hi_def lo_def)
  have ule: "uint delta < 2 ^ 63" using assms by (simp add: word_le_def)
  have lo: "0 \<le> lo" "lo < 2 ^ 32" by (simp_all add: lo_def)
  have hi: "0 \<le> hi" "hi < 2 ^ 31" using ule by (auto simp: hi_def pos_imp_zdiv_nonneg_iff)
  have "uint (drop_bit 32 delta) = drop_bit 32 (uint delta)"
    using uint_lt2p [of delta] by (simp add: unsigned_drop_bit_eq take_bit_int_eq_self)
  then have dhi: "uint (drop_bit 32 delta) = hi" by (simp only: hi_def drop_bit_eq_div)
  have "delta AND 0xFFFFFFFF = take_bit 32 delta"
    by (simp add: take_bit_eq_mask mask_numeral)
  then have dlo: "uint (delta AND 0xFFFFFFFF) = lo"
    by (simp only: lo_def unsigned_take_bit_eq) (simp add: take_bit_eq_mod)
  have "(uint delta * Second) div 2 ^ 32 = hi * Second + (lo * Second) div 2 ^ 32"
    using div_mult_self1 [of "2 ^ 32" "lo * Second" "hi * Second"] by (simp add: u algebra_simps)
  moreover have "i64 (hi * Second) = hi * Second" "i64 (lo * Second) = lo * Second"
    using hi lo by (intro i64_small; simp)+
  ultimately show ?thesis using lo by (simp add: dhi dlo sdiv_pos_eq)
qed

text \<open>
  A sender report is a reset of the sender's clock exactly when it has to be.
  A report with no NTP time, a duplicate or one older than the last changes nothing.
  Any other is stored; it marks a reset exactly when, against an earlier report, its RTP
  timestamp went backwards or the media time advanced differs from the elapsed NTP
  time by more than the correction margin.  The NTP difference in nanoseconds is
  computed without overflow and rounded down.
\<close>

theorem sender_report_detects_reset:
  assumes "b' = Buffer_SenderReport b timestamp ntp" "0 < b_clockRate b"
  shows "if ntp = 0 \<or> (b_senderNTP b \<noteq> 0 \<and> (ntp = b_senderNTP b \<or> ntp - b_senderNTP b > 0x7FFFFFFFFFFFFFFF))
    then b' = b
    else b_senderRTP b' = timestamp \<and> b_senderNTP b' = ntp \<and>
      (b_clockReset b' \<longleftrightarrow> b_clockReset b \<or> (b_senderNTP b \<noteq> 0 \<and>
         (let ticks = rtpDelta timestamp (b_senderRTP b);
              elapsed = (uint (ntp - b_senderNTP b) * Second) div 2 ^ 32
          in ticks < 0 \<or>
             \<bar>elapsed - (ticks * Second) div uint (b_clockRate b)\<bar> > correctionMargin (b_target b))))"
proof (cases "ntp = 0 \<or> (b_senderNTP b \<noteq> 0 \<and> (ntp = b_senderNTP b \<or> ntp - b_senderNTP b > 0x7FFFFFFFFFFFFFFF))")
  case True
  then show ?thesis using assms(1) by (auto simp: Buffer_SenderReport_def Let_def)
next
  case False
  let ?ticks = "rtpDelta timestamp (b_senderRTP b)" and ?delta = "ntp - b_senderNTP b"
  have r: "0 < uint (b_clockRate b)" using assms(2) by (simp add: word_less_def)
  have main: "duration_Abs ((uint ?delta * Second) div 2 ^ 32 - (?ticks * Second) sdiv uint (b_clockRate b)) =
      \<bar>(uint ?delta * Second) div 2 ^ 32 - (?ticks * Second) div uint (b_clockRate b)\<bar>"
    if "0 \<le> ?ticks" "?delta \<le> 0x7FFFFFFFFFFFFFFF"
  proof -
    have "0 \<le> (uint ?delta * Second) div 2 ^ 32" by (simp add: pos_imp_zdiv_nonneg_iff)
    moreover have "(?ticks * Second) div uint (b_clockRate b) \<le> ?ticks * Second"
      using that(1) r zdiv_mono2 [of "?ticks * Second" 1 "uint (b_clockRate b)"] by simp
    ultimately show ?thesis
      using that(1) r rtpDelta_range [of timestamp "b_senderRTP b"]
      by (auto simp: sdiv_pos_eq duration_Abs_def)
  qed
  have "duration_Abs (i64 (uint (drop_bit 32 ?delta) * Second) + i64 (uint (?delta AND 0xFFFFFFFF) * Second) sdiv 2 ^ 32
      - i64 (?ticks * Second) sdiv uint (b_clockRate b)) =
      \<bar>(uint ?delta * Second) div 2 ^ 32 - (?ticks * Second) div uint (b_clockRate b)\<bar>"
    if "b_senderNTP b \<noteq> 0" "\<not> ?ticks < 0"
    using main [OF that(2) [unfolded not_less]] False that(1) ntp_nanoseconds [of ?delta] by (simp add: ticks_exact not_less)
  with False assms(1) show ?thesis by (cases "?ticks < 0") (auto simp: Buffer_SenderReport_def Let_def)
qed

theorem sender_report_detects_reset_witness:
  "b_clockReset (Buffer_SenderReport (Buffer_SenderReport example_buffer 1000 0x500000000) 91000 0x800000000) \<and>
   \<not> b_clockReset (Buffer_SenderReport (Buffer_SenderReport example_buffer 1000 0x500000000) 91000 0x600000000)"
proof -
  let ?b = "Buffer_SenderReport example_buffer 1000 0x500000000"
  have b: "b_senderRTP ?b = 1000" "b_senderNTP ?b = 0x500000000" "\<not> b_clockReset ?b" "b_clockRate ?b = 90000"
    "b_target ?b = 300 * Millisecond"
    by (simp_all add: Buffer_SenderReport_def Let_def example_buffer_def NewBuffer_def)
  have m: "correctionMargin 300000000 = 300 * Millisecond"
    by (simp add: correctionMargin_def hysteresis_def minMargin_def)
  have n: "rtpDelta 91000 1000 = 90000" by code_simp
  show ?thesis
    using sender_report_detects_reset [OF refl, of ?b "0x800000000" 91000]
      sender_report_detects_reset [OF refl, of ?b "0x600000000" 91000]
    by (simp add: b m n Let_def)
qed

end
