(* ===== verification/Relay_Stream.thy ===== *)
theory Relay_Stream
  imports Playout_Clock
begin

text \<open>
  \<^verbatim>\<open>Stream\<close> and \<^verbatim>\<open>Relay\<close> of \<^verbatim>\<open>internal/relay\<close> (\<^verbatim>\<open>relay.go\<close>, \<^verbatim>\<open>clock.go\<close>, \<^verbatim>\<open>stats.go\<close>,
  \<^verbatim>\<open>playback.go\<close>): the live media of one ingest, the correction of its tracks' clocks,
  and the registry of streams.

  A buffer is shared by pointer between the stream and the goroutine that feeds
  it.  A tracked buffer is kept in the stream as a pair of its address (a
  number, compared where Go compares pointers) and its contents.  Outbound tracks
  are built by the WebRTC library: the track type is a type parameter and the
  constructor an argument.  A keyframe callback is a number; a function that may
  call it returns the callback it calls.  Every reading of the clock is an argument.
\<close>

section \<open>Streams\<close>

definition correctionInterval :: duration where "correctionInterval = Second"
definition keyframeInterval :: duration where "keyframeInterval = 500 * Millisecond"
definition clockRecoveryWindow :: duration where "clockRecoveryWindow = 30 * Second"

datatype RTPCodecType = KindUnknown | KindAudio | KindVideo

type_synonym tracked = "nat \<times> Buffer"

record 't Stream =
  s_tracks :: "RTPCodecType \<Rightarrow> 't option"
  s_buffers :: "tracked list"
  s_delay :: Controller
  s_lastAdjust :: instant
  s_recoveryAt :: instant
  s_recoveryShift :: duration
  s_senderBaseMS :: rat
  s_senderBaseWall :: instant
  s_late :: u64
  s_dropped :: u64
  s_keyframe :: "nat option"
  s_lastKeyframe :: instant

definition Stream_new :: "'t Stream" where
  "Stream_new = \<lparr>s_tracks = (\<lambda>_. None), s_buffers = [], s_delay = Controller_zero, s_lastAdjust = 0,
     s_recoveryAt = 0, s_recoveryShift = 0, s_senderBaseMS = 0, s_senderBaseWall = 0, s_late = 0,
     s_dropped = 0, s_keyframe = None, s_lastKeyframe = 0\<rparr>"

text \<open>\<open>since\<close> is the reading of \<^verbatim>\<open>time.Since\<close>, \<open>stamp\<close> that of \<^verbatim>\<open>time.Now\<close>.\<close>

definition Stream_askKeyframe :: "'t Stream \<Rightarrow> instant \<Rightarrow> instant \<Rightarrow> 't Stream \<times> nat option" where
  "Stream_askKeyframe s since stamp =
     (case s_keyframe s of
        None \<Rightarrow> (s, None)
      | Some ask \<Rightarrow> if time_Sub since (s_lastKeyframe s) < keyframeInterval then (s, None)
                    else (s\<lparr>s_lastKeyframe := stamp\<rparr>, Some ask))"

definition map_buffers :: "(Buffer \<Rightarrow> Buffer) \<Rightarrow> 't Stream \<Rightarrow> 't Stream" where
  "map_buffers f s = s\<lparr>s_buffers := map (\<lambda>(a, b). (a, f b)) (s_buffers s)\<rparr>"

section \<open>Clock correction\<close>

text \<open>The loop that collects roll-backs from the tracks that caused a correction.\<close>

fun senderCorrections :: "tracked list \<Rightarrow> instant \<Rightarrow> tracked list \<times> instant" where
  "senderCorrections [] wall = ([], wall)"
| "senderCorrections ((a, b) # bufs) wall =
     (let (b', rollback) = Buffer_senderCorrection b;
          (bufs', wall') = senderCorrections bufs (wall + rollback)
      in ((a, b') # bufs', wall'))"

text \<open>The place the sender's clock gives a track's anchor on the relay's clock.\<close>

definition sender_base :: "instant \<Rightarrow> rat \<Rightarrow> Buffer \<Rightarrow> instant" where
  "sender_base wall baseMS b =
     wall + (f64_to_int (f64 (f64 (Buffer_senderTimeMS b (b_baseRTP b) - baseMS) * of_int Millisecond)) + b_shift b)"

definition Stream_alignSenderClocks :: "'t Stream \<Rightarrow> 't Stream \<times> bool" where
  "Stream_alignSenderClocks s =
     (if length (s_buffers s) < 2 then (s, False)
      else if \<exists>(a, b) \<in> set (s_buffers s). \<not> b_based b \<or> b_senderNTP b = 0 then (s, False)
      else let (bufs, wall) = senderCorrections (s_buffers s) (s_senderBaseWall s);
               established = (wall \<noteq> 0);
               anchor = snd (hd bufs);
               baseMS = (if established then s_senderBaseMS s
                         else Buffer_senderTimeMS anchor (b_baseRTP anchor));
               wall' = (if established then wall else b_baseWall anchor - b_shift anchor)
           in (s\<lparr>s_buffers := map (\<lambda>(a, b). (a, Buffer_alignSenderClock b (sender_base wall' baseMS b) established)) bufs,
                 s_senderBaseMS := baseMS, s_senderBaseWall := wall'\<rparr>, True))"

text \<open>The depth check: the largest excess and the track that has it.  \<open>until i\<close> is the
  clock reading for the track at position \<open>i\<close>.\<close>

record correction_scan =
  sc_shift :: duration
  sc_source :: "nat option"
  sc_waiting :: bool
  sc_fresh :: bool

definition scan_buffer :: "instant \<Rightarrow> (nat \<Rightarrow> instant) \<Rightarrow> correction_scan \<Rightarrow> nat \<times> tracked \<Rightarrow> correction_scan" where
  "scan_buffer recoveryAt until sc e =
     (case e of (i, (a, b)) \<Rightarrow>
        let excess = Buffer_depth b (until i) - b_target b;
            over = excess > correctionMargin (b_target b)
        in \<lparr>sc_shift = (if over \<and> excess > sc_shift sc then excess else sc_shift sc),
            sc_source = (if over \<and> excess > sc_shift sc then Some i else sc_source sc),
            sc_waiting = (sc_waiting sc \<or> b_catchUp b),
            sc_fresh = (sc_fresh sc \<or> (over \<and> b_recoveryAt b = recoveryAt))\<rparr>)"

definition source_correction :: "duration \<Rightarrow> Buffer \<Rightarrow> Buffer" where
  "source_correction shift b =
     (case Buffer_newest b of
        None \<Rightarrow> b
      | Some n \<Rightarrow> b\<lparr>b_correctionShift := b_correctionShift b + shift,
                    b_correctionRTP := Timestamp (pkt n),
                    b_correctionMS := Buffer_senderTimeMS b (Timestamp (pkt n))\<rparr>)"

definition Stream_clockCorrection ::
  "'t Stream \<Rightarrow> instant \<Rightarrow> bool \<Rightarrow> (nat \<Rightarrow> instant) \<Rightarrow> 't Stream \<times> duration \<times> bool" where
  "Stream_clockCorrection s now senderClocks until =
     (let sc = foldl (scan_buffer (s_recoveryAt s) until)
                 \<lparr>sc_shift = 0, sc_source = None, sc_waiting = False,
                  sc_fresh = (senderClocks \<or> time_Sub now (s_recoveryAt s) \<ge> clockRecoveryWindow)\<rparr>
                 (enumerate 0 (s_buffers s))
      in if sc_shift sc = 0 then (s, 0, sc_waiting sc)
         else let s1 = (case sc_source sc of
                          Some i \<Rightarrow> if senderClocks
                                    then s\<lparr>s_buffers := (s_buffers s)
                                             [i := apsnd (source_correction (sc_shift sc)) (s_buffers s ! i)]\<rparr>
                                    else s
                        | None \<Rightarrow> s);
                  s2 = (if sc_fresh sc then s1\<lparr>s_recoveryAt := now, s_recoveryShift := sc_shift sc\<rparr> else s1)
              in (s2, s_recoveryShift s2, sc_waiting sc))"

text \<open>Which tracks a correction moves, and the move.\<close>

definition correct_buffer ::
  "duration \<Rightarrow> bool \<Rightarrow> instant \<Rightarrow> (nat \<Rightarrow> instant) \<Rightarrow> nat \<times> tracked \<Rightarrow> tracked" where
  "correct_buffer shift senderClocks recoveryAt until e =
     (case e of (i, (a, b)) \<Rightarrow>
        if shift > 0 \<and> (senderClocks \<or> (b_recoveryAt b \<noteq> recoveryAt \<and>
                                         Buffer_depth b (until i) - b_target b > minMargin))
        then (a, (Buffer_moveClock b (- shift) True)\<lparr>b_recoveryAt := recoveryAt\<rparr>)
        else (a, b))"

text \<open>\<^verbatim>\<open>correctClocks\<close> returns the stream, whether a correction started, and the keyframe
  callback it called.\<close>

definition Stream_correctClocks ::
  "'t Stream \<Rightarrow> instant \<Rightarrow> (nat \<Rightarrow> instant) \<Rightarrow> (nat \<Rightarrow> instant) \<Rightarrow> instant \<Rightarrow> instant \<Rightarrow>
     't Stream \<times> bool \<times> nat option" where
  "Stream_correctClocks s now until1 until2 since stamp =
     (let s1 = map_buffers (\<lambda>b. fst (Buffer_dynamicOffset (s_delay s) b now)) s;
          (s2, senderClocks) = Stream_alignSenderClocks s1;
          (s3, shift, waiting) = Stream_clockCorrection s2 now senderClocks until1;
          s4 = (if senderClocks then s3\<lparr>s_senderBaseWall := s_senderBaseWall s3 - shift\<rparr> else s3);
          s5 = s4\<lparr>s_buffers := map (correct_buffer shift senderClocks (s_recoveryAt s4) until2)
                                  (enumerate 0 (s_buffers s4))\<rparr>;
          (s6, asked) = (if shift > 0 \<or> waiting then Stream_askKeyframe s5 since stamp else (s5, None))
      in (s6, shift > 0, asked))"

definition Stream_adjustDelay :: "'t Stream \<Rightarrow> instant \<Rightarrow> instant \<Rightarrow> instant \<Rightarrow> 't Stream \<times> nat option" where
  "Stream_adjustDelay s now since stamp =
     (if c_state (s_delay s) = None then (s, None)
      else if time_Sub now (s_lastAdjust s) < correctionInterval then (s, None)
      else let s1 = map_buffers (\<lambda>b. fst (Buffer_dynamicOffset (s_delay s) b now)) (s\<lparr>s_lastAdjust := now\<rparr>);
               late = foldl (\<lambda>late (a, b). max late (b_peakLate b)) 0 (s_buffers s1);
               s2 = map_buffers (\<lambda>b. b\<lparr>b_peakLate := 0\<rparr>) s1;
               (c, state) = Controller_Step (s_delay s2) now late;
               s3 = s2\<lparr>s_delay := c\<rparr>
           in case state of
                None \<Rightarrow> (s3, None)
              | Some st \<Rightarrow> if Pending st then Stream_askKeyframe s3 since stamp else (s3, None))"

text \<open>One tick of the correction timer in \<^verbatim>\<open>Feed\<close>: \<^verbatim>\<open>Buffer.Correct\<close> on the buffer's stream.\<close>

definition Buffer_Correct ::
  "'t Stream \<Rightarrow> Buffer \<Rightarrow> instant \<Rightarrow> instant \<Rightarrow> (nat \<Rightarrow> instant) \<Rightarrow> (nat \<Rightarrow> instant) \<Rightarrow>
     instant \<times> instant \<Rightarrow> instant \<times> instant \<Rightarrow> 't Stream \<times> bool \<times> nat option \<times> nat option" where
  "Buffer_Correct s buf now1 now2 until1 until2 ask1 ask2 =
     (if \<not> b_stream buf then (s, False, None, None)
      else let (s1, asked1) = Stream_adjustDelay s now1 (fst ask1) (snd ask1);
               (s2, started, asked2) = Stream_correctClocks s1 now2 until1 until2 (fst ask2) (snd ask2)
           in (s2, started, asked1, asked2))"

section \<open>The registry\<close>

type_synonym 't Relay = "string \<Rightarrow> 't Stream option"

datatype 'e relay_error = ErrBuildTrack RTPCodecType 'e | ErrNotPublishing

definition Relay_New :: "'t Relay" where
  "Relay_New = (\<lambda>_. None)"

text \<open>\<open>newTrack codec kind streamID\<close> stands for \<^verbatim>\<open>webrtc.NewTrackLocalStaticRTP\<close>.\<close>

definition Relay_Publish ::
  "('codec \<Rightarrow> RTPCodecType \<Rightarrow> string \<Rightarrow> 'e + 't) \<Rightarrow> 't Relay \<Rightarrow> string \<Rightarrow> RTPCodecType \<Rightarrow> 'codec \<Rightarrow>
     nat option \<Rightarrow> 't Relay \<times> ('e relay_error + 't)" where
  "Relay_Publish newTrack r ingestID kind codec keyframe =
     (case newTrack codec kind ingestID of
        Inl err \<Rightarrow> (r, Inl (ErrBuildTrack kind err))
      | Inr track \<Rightarrow>
          let stream = (case r ingestID of Some s \<Rightarrow> s | None \<Rightarrow> Stream_new);
              stream1 = stream\<lparr>s_tracks := (s_tracks stream)(kind := Some track)\<rparr>;
              stream2 = (if kind = KindVideo then stream1\<lparr>s_keyframe := keyframe\<rparr> else stream1)
          in (r(ingestID \<mapsto> stream2), Inr track))"

text \<open>Go visits the tracks in no particular order; the model lists them by kind.\<close>

definition stream_tracks :: "'t Stream \<Rightarrow> 't list" where
  "stream_tracks s = List.map_filter (s_tracks s) [KindUnknown, KindAudio, KindVideo]"

definition Relay_Subscribe ::
  "'t Relay \<Rightarrow> string \<Rightarrow> instant \<Rightarrow> instant \<Rightarrow> 't Relay \<times> ('e relay_error + 't list) \<times> nat option" where
  "Relay_Subscribe r ingestID since stamp =
     (case r ingestID of
        None \<Rightarrow> (r, Inl ErrNotPublishing, None)
      | Some s \<Rightarrow>
          if stream_tracks s = [] then (r, Inl ErrNotPublishing, None)
          else let (s', asked) = Stream_askKeyframe s since stamp
               in (r(ingestID \<mapsto> s'), Inr (stream_tracks s), asked))"

definition Relay_Keyframe :: "'t Relay \<Rightarrow> string \<Rightarrow> instant \<Rightarrow> instant \<Rightarrow> 't Relay \<times> nat option" where
  "Relay_Keyframe r ingestID since stamp =
     (case r ingestID of
        None \<Rightarrow> (r, None)
      | Some s \<Rightarrow> let (s', asked) = Stream_askKeyframe s since stamp in (r(ingestID \<mapsto> s'), asked))"

definition Relay_Track :: "'t Relay \<Rightarrow> string \<Rightarrow> tracked \<Rightarrow> 't Relay" where
  "Relay_Track r ingestID buf =
     (case r ingestID of
        None \<Rightarrow> r
      | Some s \<Rightarrow>
          let b1 = (snd buf)\<lparr>b_stream := True, b_recoveryAt := s_recoveryAt s\<rparr>;
              b2 = (case c_state (s_delay s) of
                      None \<Rightarrow> b1
                    | Some state \<Rightarrow> b1\<lparr>b_dynamic := True, b_shift := Shift state, b_cutoff := Cutoff state\<rparr>)
          in r(ingestID \<mapsto> s\<lparr>s_buffers := s_buffers s @ [(fst buf, b2)]\<rparr>))"

definition is_video :: "Buffer \<Rightarrow> bool" where
  "is_video b \<longleftrightarrow> HasPrefix (ToLower (b_mime b)) ''video/''"

fun untrack :: "nat \<Rightarrow> tracked list \<Rightarrow> Buffer option \<times> tracked list" where
  "untrack a [] = (None, [])"
| "untrack a ((a', b) # bufs) =
     (if a' = a then (Some b, bufs) else apsnd (Cons (a', b)) (untrack a bufs))"

definition Relay_Untrack :: "'t Relay \<Rightarrow> string \<Rightarrow> nat \<Rightarrow> 't Relay" where
  "Relay_Untrack r ingestID a =
     (case r ingestID of
        None \<Rightarrow> r
      | Some s \<Rightarrow>
          (case untrack a (s_buffers s) of
             (None, _) \<Rightarrow> r
           | (Some b, rest) \<Rightarrow>
               let s1 = (if is_video b
                         then s\<lparr>s_late := s_late s + fst (Buffer_Stats b),
                                s_dropped := s_dropped s + snd (Buffer_Stats b)\<rparr> else s)
               in r(ingestID \<mapsto> s1\<lparr>s_buffers := rest\<rparr>)))"

text \<open>\<^verbatim>\<open>ConfigureDelay\<close> compares the curve's pointer before and after: it changed exactly when
  \<^verbatim>\<open>Configure\<close> stored a new curve.\<close>

definition Configure_stores :: "Controller \<Rightarrow> duration \<Rightarrow> Options \<Rightarrow> bool" where
  "Configure_stores c base opts \<longleftrightarrow>
     (let options = Options_Normalize opts (base sdiv Millisecond);
          previous = (c_options c)\<lparr>CatchUpMSPerSecond := CatchUpMSPerSecond options,
                                   AutoCatchUp := AutoCatchUp options\<rparr>
      in \<not> (c_base c = base \<and> previous = options) \<and> \<not> (c_state c = None \<and> \<not> Enabled options))"

definition configure_buffer :: "Controller \<Rightarrow> duration \<Rightarrow> bool \<Rightarrow> Buffer \<Rightarrow> Buffer" where
  "configure_buffer c target changed b =
     (let b1 = Buffer_SetTarget b target;
          b2 = (if changed then b1\<lparr>b_peakLate := 0\<rparr> else b1)
      in case c_state c of
           None \<Rightarrow> b2
         | Some state \<Rightarrow>
             (if b_dynamic b2 then b2 else b2\<lparr>b_shift := Shift state, b_cutoff := Cutoff state\<rparr>)
               \<lparr>b_dynamic := True\<rparr>)"

definition Relay_ConfigureDelay :: "'t Relay \<Rightarrow> string \<Rightarrow> duration \<Rightarrow> Options \<Rightarrow> instant \<Rightarrow> 't Relay" where
  "Relay_ConfigureDelay r ingestID target options now =
     (case r ingestID of
        None \<Rightarrow> r
      | Some s \<Rightarrow>
          let changed = Configure_stores (s_delay s) target options;
              c = Controller_Configure (s_delay s) target options now
          in r(ingestID \<mapsto> map_buffers (configure_buffer c target changed) (s\<lparr>s_delay := c\<rparr>)))"

definition Relay_Drop :: "'t Relay \<Rightarrow> string \<Rightarrow> 't Relay" where
  "Relay_Drop r ingestID = r(ingestID := None)"

section \<open>Statistics and playback clocks\<close>

record Statistics =
  sta_Playout :: "Status option"
  sta_Late :: u64
  sta_Dropped :: u64

definition Relay_Stats :: "'t Relay \<Rightarrow> string \<Rightarrow> instant \<Rightarrow> Statistics option" where
  "Relay_Stats r ingestID now =
     (case r ingestID of
        None \<Rightarrow> None
      | Some s \<Rightarrow>
          let (late, dropped) =
                foldl (\<lambda>(late, dropped) (a, b).
                         if is_video b then (late + fst (Buffer_Stats b), dropped + snd (Buffer_Stats b))
                         else (late, dropped))
                      (s_late s, s_dropped s) (s_buffers s)
          in Some \<lparr>sta_Playout = (if length (s_buffers s) > 0 then Some (Controller_Status (s_delay s) now)
                                  else None),
                   sta_Late = late, sta_Dropped = dropped\<rparr>)"

record Clock =
  clk_Kind :: string
  clk_MIME :: string
  clk_Rate :: u32
  clk_Timestamp :: u32
  clk_ReferenceMS :: rat
  clk_Epoch :: u64

text \<open>Only what the relay fills in of \<^verbatim>\<open>dynamicdelay.Playback\<close>: the options and \<^verbatim>\<open>DelayMS\<close> are
  filled in by the caller.\<close>

record Playback =
  pb_Options :: Options
  pb_Clocks :: "Clock list"
  pb_DelayMS :: int
  pb_CurrentDelayMS :: rat

definition Playback_zero :: Playback where
  "Playback_zero = \<lparr>pb_Options = Options_zero, pb_Clocks = [], pb_DelayMS = 0, pb_CurrentDelayMS = 0\<rparr>"

text \<open>\<^verbatim>\<open>Time.UnixMicro\<close>: instants count from Go's zero time, 62135596800 seconds before 1970.\<close>

definition UnixMicro :: "instant \<Rightarrow> int" where
  "UnixMicro t = (t - 62135596800 * Second) div Microsecond"

definition Buffer_playbackClock :: "Buffer \<Rightarrow> bool \<Rightarrow> Clock" where
  "Buffer_playbackClock b senderClocks =
     (let stamp = (if b_queue b \<noteq> [] then Timestamp (pkt (b_queue b ! 0))
                   else if senderClocks then b_senderRTP b else b_baseRTP b);
          kind = takeWhile (\<lambda>ch. ch \<noteq> CHR ''/'') (b_mime b);
          referenceMS = (if senderClocks then Buffer_senderTimeMS b stamp
                         else f64 (f64 (of_int (UnixMicro (Buffer_playoutOf b stamp + (- b_target b - b_shift b)))) /
                                   1000))
      in \<lparr>clk_Kind = ToLower kind, clk_MIME = b_mime b, clk_Rate = b_clockRate b, clk_Timestamp = stamp,
          clk_ReferenceMS = referenceMS, clk_Epoch = b_clockEpoch b\<rparr>)"

definition Relay_Playback :: "'t Relay \<Rightarrow> string \<Rightarrow> instant \<Rightarrow> Playback" where
  "Relay_Playback r ingestID now =
     (case r ingestID of
        None \<Rightarrow> Playback_zero
      | Some s \<Rightarrow>
          let state = c_state (s_delay s);
              senderClocks = list_all (\<lambda>(a, b). b_senderNTP b \<noteq> 0) (s_buffers s);
              delay0 = (case state of Some st \<Rightarrow> ms_float (State_Delay st now) | None \<Rightarrow> 0);
              delay = foldl (\<lambda>d (a, b). if state = None then ms_float (b_target b) else d) delay0 (s_buffers s);
              clocks = map (\<lambda>(a, b). Buffer_playbackClock b senderClocks) (filter (\<lambda>(a, b). b_based b) (s_buffers s))
          in Playback_zero\<lparr>pb_CurrentDelayMS := delay, pb_Clocks := clocks\<rparr>)"

section \<open>Keyframe requests\<close>

text \<open>The instants at which the publisher is asked, over a sequence of requests.\<close>

fun ask_times :: "'t Stream \<Rightarrow> (instant \<times> instant) list \<Rightarrow> instant list" where
  "ask_times s [] = []"
| "ask_times s ((since, stamp) # reqs) =
     (case Stream_askKeyframe s since stamp of
        (s', None) \<Rightarrow> ask_times s' reqs
      | (s', Some _) \<Rightarrow> stamp # ask_times s' reqs)"

lemma askKeyframe_Some:
  assumes "Stream_askKeyframe s since stamp = (s', Some k)"
  shows "s_keyframe s = Some k" "s_lastKeyframe s' = stamp" "keyframeInterval \<le> since - s_lastKeyframe s"
  using assms time_Sub_less_iff [of keyframeInterval since "s_lastKeyframe s"]
  by (auto simp: Stream_askKeyframe_def keyframeInterval_def not_less split: option.splits if_splits)

lemma askKeyframe_None: "Stream_askKeyframe s since stamp = (s', None) \<Longrightarrow> s' = s"
  by (auto simp: Stream_askKeyframe_def split: option.splits if_splits)

lemma ask_times_spaced:
  "\<forall>(since, stamp) \<in> set reqs. since \<le> stamp \<Longrightarrow>
     sorted_wrt (\<lambda>t u. t + keyframeInterval \<le> u) (s_lastKeyframe s # ask_times s reqs)"
proof (induction reqs arbitrary: s)
  case (Cons r reqs)
  obtain since stamp where r: "r = (since, stamp)" by fastforce
  obtain s' a where ask: "Stream_askKeyframe s since stamp = (s', a)" by fastforce
  show ?case
  proof (cases a)
    case None
    with askKeyframe_None [of s since stamp s'] ask have "ask_times s (r # reqs) = ask_times s reqs"
      by (simp add: r)
    with Cons show ?thesis by simp
  next
    case (Some k)
    note k = askKeyframe_Some [OF ask [unfolded Some]]
    have "sorted_wrt (\<lambda>t u. t + keyframeInterval \<le> u) (stamp # ask_times s' reqs)"
      using Cons.IH [of s'] Cons.prems k(2) by simp
    moreover have "s_lastKeyframe s + keyframeInterval \<le> stamp" using k(3) Cons.prems r by simp
    ultimately show ?thesis using ask Some by (auto simp: r keyframeInterval_def)
  qed
qed simp

section \<open>Clock alignment\<close>

lemma senderCorrection_fields:
  assumes "Buffer_senderCorrection b = (b', d)"
  shows "b_baseWall b' = b_baseWall b" "sender_base w ms b' = sender_base w ms b" "b_clockReset b' = b_clockReset b"
  using assms
  by (auto simp: Buffer_senderCorrection_def sender_base_def Buffer_senderTimeMS_def Let_def split: if_splits)

lemma senderCorrections_fields:
  "senderCorrections bufs wall = (bufs', wall') \<Longrightarrow> (a, b') \<in> set bufs' \<Longrightarrow>
     \<exists>b. (a, b) \<in> set bufs \<and> b_baseWall b' = b_baseWall b \<and> sender_base w ms b' = sender_base w ms b"
proof (induction bufs wall arbitrary: bufs' wall' rule: senderCorrections.induct)
  case (2 a0 b0 bufs wall)
  obtain b1 d where c: "Buffer_senderCorrection b0 = (b1, d)" by fastforce
  obtain bs w1 where r: "senderCorrections bufs (wall + d) = (bs, w1)" by fastforce
  have "bufs' = (a0, b1) # bs" using "2.prems"(1) c r by simp
  then consider "(a, b') = (a0, b1)" | "(a, b') \<in> set bs" using "2.prems"(2) by auto
  then show ?case
  proof cases
    case 1
    then show ?thesis using senderCorrection_fields(1) [OF c] senderCorrection_fields(2) [OF c, of w ms] by auto
  next
    case 2
    from "2.IH" [OF c [symmetric] refl r 2] show ?thesis by auto
  qed
qed simp

lemma align_close:
  assumes "\<bar>base - b_baseWall b\<bar> < 2 ^ 63" "b' = Buffer_alignSenderClock b base est"
  shows "\<bar>base - b_baseWall b'\<bar> \<le> 50 * Millisecond" "\<not> b_clockReset b'"
    "b_senderRTP b' = b_senderRTP b" "b_senderNTP b' = b_senderNTP b" "b_baseRTP b' = b_baseRTP b"
    "b_shift b' = b_shift b" "b_clockRate b' = b_clockRate b"
  using assms time_Sub_exact [OF assms(1)]
  by (auto simp: Buffer_alignSenderClock_def Buffer_moveClock_def Buffer_dropAll_def Let_def duration_Abs_def
      split: if_splits)

lemma align_baseWall:
  "\<bar>base - b_baseWall b\<bar> < 2 ^ 63 \<Longrightarrow> b_baseWall (Buffer_alignSenderClock b base est) =
     (if \<bar>base - b_baseWall b\<bar> \<le> 50 * Millisecond \<and> \<not> b_clockReset b then b_baseWall b else base)"
  using time_Sub_exact [of base "b_baseWall b"]
  by (auto simp: Buffer_alignSenderClock_def Buffer_moveClock_def Buffer_dropAll_def Let_def duration_Abs_def
      split: if_splits)

lemma sender_base_cong:
  assumes "b_senderRTP b' = b_senderRTP b" "b_senderNTP b' = b_senderNTP b" "b_baseRTP b' = b_baseRTP b"
    "b_shift b' = b_shift b" "b_clockRate b' = b_clockRate b"
  shows "sender_base w ms b' = sender_base w ms b"
  using assms by (simp add: sender_base_def Buffer_senderTimeMS_def Let_def)

lemma alignSenderClocks_True:
  assumes "Stream_alignSenderClocks s = (s', True)" "(a, b') \<in> set (s_buffers s')"
  obtains b1 wall bufs est where "senderCorrections (s_buffers s) (s_senderBaseWall s) = (bufs, wall)"
    "(a, b1) \<in> set bufs"
    "b' = Buffer_alignSenderClock b1 (sender_base (s_senderBaseWall s') (s_senderBaseMS s') b1) est"
  using assms by (auto simp: Stream_alignSenderClocks_def Let_def split: if_splits prod.splits)

section \<open>Depth corrections\<close>

lemma source_correction_clock [simp]:
  "b_baseWall (source_correction d b) = b_baseWall b" "b_baseRTP (source_correction d b) = b_baseRTP b"
  by (simp_all add: source_correction_def split: option.split)

lemma map_update_same: "(\<And>x. f (g x) = f x) \<Longrightarrow> map f (xs[i := g (xs ! i)]) = map f xs"
  by (cases "i < length xs") (simp_all add: map_update list_update_same_conv list_update_beyond)

lemma clockCorrection_buffers:
  assumes "Stream_clockCorrection s now sc until = (s', shift, waiting)"
  shows "map fst (s_buffers s') = map fst (s_buffers s)"
    "map (b_baseWall \<circ> snd) (s_buffers s') = map (b_baseWall \<circ> snd) (s_buffers s)"
    "s_senderBaseWall s' = s_senderBaseWall s"
  using assms
  by (auto simp: Stream_clockCorrection_def Let_def map_update_same split: if_splits option.splits)

lemma askKeyframe_buffers [simp]:
  "s_buffers (fst (Stream_askKeyframe s since stamp)) = s_buffers s"
  "s_senderBaseWall (fst (Stream_askKeyframe s since stamp)) = s_senderBaseWall s"
  by (simp_all add: Stream_askKeyframe_def split: option.split)

section \<open>Totals\<close>

definition add_video :: "u64 \<times> u64 \<Rightarrow> tracked \<Rightarrow> u64 \<times> u64" where
  "add_video n e = (if is_video (snd e) then (fst n + b_late (snd e), snd n + b_dropped (snd e)) else n)"

lemma Stats_totals:
  "r ing = Some s \<Longrightarrow> Relay_Stats r ing now = Some
     \<lparr>sta_Playout = (if s_buffers s \<noteq> [] then Some (Controller_Status (s_delay s) now) else None),
      sta_Late = fst (foldl add_video (s_late s, s_dropped s) (s_buffers s)),
      sta_Dropped = snd (foldl add_video (s_late s, s_dropped s) (s_buffers s))\<rparr>"
proof -
  assume "r ing = Some s"
  moreover have "(\<lambda>(late, dropped) (a, b). if is_video b
      then (late + fst (Buffer_Stats b), dropped + snd (Buffer_Stats b)) else (late, dropped)) = add_video"
    by (auto simp: add_video_def Buffer_Stats_def fun_eq_iff)
  ultimately show ?thesis by (simp add: Relay_Stats_def Let_def case_prod_unfold)
qed

lemma add_video_commute: "add_video (add_video n x) y = add_video (add_video n y) x"
  by (simp add: add_video_def ac_simps)

lemma fold_add_video_move: "foldl add_video (add_video n x) es = add_video (foldl add_video n es) x"
  by (induction es arbitrary: n) (simp_all add: add_video_commute)

lemma untrack_total:
  "untrack a bufs = (Some b, rest) \<Longrightarrow> foldl add_video (add_video n (a, b)) rest = foldl add_video n bufs"
proof (induction bufs arbitrary: n rest)
  case (Cons x bufs)
  obtain a' b' where x: "x = (a', b')" by fastforce
  show ?case
  proof (cases "a' = a")
    case False
    then obtain rest' where "untrack a bufs = (Some b, rest')" "rest = (a', b') # rest'"
      using Cons.prems x by (cases "untrack a bufs") auto
    with Cons.IH [of rest' "add_video n x"] show ?thesis by (simp add: x add_video_commute)
  qed (use Cons.prems x in simp)
qed simp

section \<open>Properties\<close>

text \<open>
  Keyframe requests are throttled.  Whatever sequence of requests reaches a
  stream, from viewers joining, receivers' PLI packets and clock corrections, the
  publisher is asked at instants at least 500 ms apart, and not within 500 ms of the last
  request before.
\<close>

theorem keyframe_requests_throttled:
  assumes "\<forall>(since, stamp) \<in> set reqs. since \<le> stamp"
  shows "sorted_wrt (\<lambda>t u. t + 500 * Millisecond \<le> u) (s_lastKeyframe s # ask_times s reqs)"
  using ask_times_spaced [OF assms, of s] by (simp add: keyframeInterval_def)

theorem keyframe_requests_throttled_witness:
  "ask_times (Stream_new\<lparr>s_keyframe := Some 1\<rparr> :: unit Stream)
     [(Second, Second), (1200 * Millisecond, 1200 * Millisecond), (1600 * Millisecond, 1700 * Millisecond)] =
     [Second, 1700 * Millisecond] \<and> sorted_wrt (\<lambda>t u. t + 500 * Millisecond \<le> u) [0, Second, 1700 * Millisecond]"
proof -
  let ?s = "Stream_new\<lparr>s_keyframe := Some 1\<rparr> :: unit Stream"
  let ?r = "[(Second, Second), (1200 * Millisecond, 1200 * Millisecond), (1600 * Millisecond, 1700 * Millisecond)]"
  have a: "ask_times ?s ?r = [Second, 1700 * Millisecond]"
    by (simp add: Stream_askKeyframe_def Stream_new_def keyframeInterval_def time_Sub_def)
  have "s_lastKeyframe ?s = 0" by (simp add: Stream_new_def)
  with keyframe_requests_throttled [of ?r ?s] a show ?thesis by simp
qed

text \<open>
  C14: Audio and video play on one clock.  When both tracks have sender reports,
  alignment leaves every track's anchor within 50 ms of the place the sender's clock
  gives it, and no track with an unhandled timestamp reset.
\<close>

theorem tracks_share_sender_clock:
  assumes "Stream_alignSenderClocks s = (s', True)"
    "\<forall>(a, b) \<in> set (s_buffers s). \<bar>sender_base (s_senderBaseWall s') (s_senderBaseMS s') b - b_baseWall b\<bar> < 2 ^ 63"
  shows "\<forall>(a, b) \<in> set (s_buffers s').
     \<bar>sender_base (s_senderBaseWall s') (s_senderBaseMS s') b - b_baseWall b\<bar> \<le> 50 * Millisecond \<and> \<not> b_clockReset b"
proof -
  let ?w = "s_senderBaseWall s'" and ?ms = "s_senderBaseMS s'"
  have "\<bar>sender_base ?w ?ms b' - b_baseWall b'\<bar> \<le> 50 * Millisecond \<and> \<not> b_clockReset b'"
    if mem: "(a, b') \<in> set (s_buffers s')" for a b'
  proof -
    from alignSenderClocks_True [OF assms(1) mem] obtain b1 wall bufs est where
      c: "senderCorrections (s_buffers s) (s_senderBaseWall s) = (bufs, wall)" "(a, b1) \<in> set bufs"
      and b': "b' = Buffer_alignSenderClock b1 (sender_base ?w ?ms b1) est" .
    from senderCorrections_fields [OF c, of ?w ?ms] assms(2) have "\<bar>sender_base ?w ?ms b1 - b_baseWall b1\<bar> < 2 ^ 63"
      by fastforce
    note al = align_close [OF this b']
    show ?thesis using al(1,2) sender_base_cong [OF al(3-7)] by simp
  qed
  then show ?thesis by blast
qed


definition example_video :: Buffer where
  "example_video = example_buffer\<lparr>b_senderRTP := 0xFFFFFF00, b_senderNTP := 0x500000000\<rparr>"

definition example_audio :: Buffer where
  "example_audio = (NewBuffer (300 * Millisecond) 48000 ''audio/opus'' False)
     \<lparr>b_based := True, b_baseRTP := 48000, b_baseWall := 1002 * Second, b_senderNTP := 0x500000000\<rparr>"

definition example_stream :: "unit Stream" where
  "example_stream = Stream_new\<lparr>s_buffers := [(1, example_video), (2, example_audio)]\<rparr>"

lemmas example_defs = example_video_def example_audio_def example_buffer_def NewBuffer_def

lemma example_fields:
  "b_based example_video" "b_based example_audio" "b_senderNTP example_video \<noteq> 0" "b_senderNTP example_audio \<noteq> 0"
  "Buffer_senderCorrection example_video = (example_video, 0)"
  "Buffer_senderCorrection example_audio = (example_audio, 0)"
  "b_baseWall example_video = 1000 * Second" "b_baseWall example_audio = 1002 * Second" "b_shift example_video = 0"
  by (simp_all add: Buffer_senderCorrection_def example_defs)

lemma example_sender_clock:
  "Buffer_senderTimeMS example_video (b_baseRTP example_video) = 5000"
  "sender_base (1000 * Second) 5000 example_video = 1000 * Second"
  "sender_base (1000 * Second) 5000 example_audio = 1001 * Second"
  by code_simp+

lemma example_aligned:
  "\<exists>s'. Stream_alignSenderClocks example_stream = (s', True) \<and> s_senderBaseWall s' = 1000 * Second \<and>
     s_senderBaseMS s' = 5000 \<and> map (\<lambda>(a, b). b_baseWall b) (s_buffers s') = [1000 * Second, 1001 * Second]"
  using example_sender_clock
  by (simp add: Stream_alignSenderClocks_def example_stream_def Stream_new_def example_fields Let_def align_baseWall)

theorem tracks_share_sender_clock_witness:
  "\<exists>s'. Stream_alignSenderClocks example_stream = (s', True) \<and>
     map (\<lambda>(a, b). b_baseWall b) (s_buffers s') = [1000 * Second, 1001 * Second] \<and>
     (\<forall>(a, b) \<in> set (s_buffers s').
        \<bar>sender_base (s_senderBaseWall s') (s_senderBaseMS s') b - b_baseWall b\<bar> \<le> 50 * Millisecond \<and> \<not> b_clockReset b)"
proof -
  obtain s' where s': "Stream_alignSenderClocks example_stream = (s', True)" "s_senderBaseWall s' = 1000 * Second"
    "s_senderBaseMS s' = 5000" "map (\<lambda>(a, b). b_baseWall b) (s_buffers s') = [1000 * Second, 1001 * Second]"
    using example_aligned by (elim exE conjE) (rule that)
  have "\<forall>(a, b) \<in> set (s_buffers example_stream).
      \<bar>sender_base (s_senderBaseWall s') (s_senderBaseMS s') b - b_baseWall b\<bar> < 2 ^ 63"
    using example_sender_clock by (simp add: s' example_stream_def example_fields)
  from tracks_share_sender_clock [OF s'(1) this] s'(1,4) show ?thesis by (intro exI [of _ s'] conjI)
qed


definition deep_video :: Buffer where
  "deep_video = example_video\<lparr>b_queue := [\<lparr>pkt = example_packet 1 3000 [1], playAt = 1010 * Second, order = 1\<rparr>]\<rparr>"

definition deep_stream :: "unit Stream" where
  "deep_stream = Stream_new\<lparr>s_buffers := [(1, deep_video), (2, example_audio)]\<rparr>"

lemma deep_aligned:
  "Stream_alignSenderClocks (map_buffers (\<lambda>b. fst (Buffer_dynamicOffset (s_delay deep_stream) b now)) deep_stream) =
     (deep_stream\<lparr>s_buffers := [(1, deep_video), (2, Buffer_alignSenderClock example_audio 1001000000000 False)],
        s_senderBaseMS := 5000, s_senderBaseWall := 1000000000000\<rparr>, True)"
proof -
  have v: "Buffer_senderTimeMS deep_video (b_baseRTP deep_video) = 5000"
    "sender_base 1000000000000 5000 deep_video = 1000000000000"
    using example_sender_clock(1,2)
    by (simp_all add: deep_video_def Buffer_senderTimeMS_def sender_base_def Let_def)
  have f: "Buffer_dynamicOffset c deep_video now = (deep_video, 0)" "Buffer_dynamicOffset c example_audio now = (example_audio, 0)"
    "Buffer_senderCorrection deep_video = (deep_video, 0)" "b_based deep_video" "b_senderNTP deep_video \<noteq> 0"
    "b_baseWall deep_video = 1000000000000" "b_shift deep_video = 0" "\<not> b_clockReset deep_video" for c
    by (simp_all add: Buffer_dynamicOffset_def Buffer_senderCorrection_def deep_video_def example_defs)
  have "Buffer_alignSenderClock deep_video 1000000000000 False = deep_video"
    by (simp add: Buffer_alignSenderClock_def f time_Sub_def duration_Abs_def)
  then show ?thesis
    using example_sender_clock(3)
    by (simp add: map_buffers_def deep_stream_def Stream_new_def f Stream_alignSenderClocks_def example_fields v Let_def)
qed

lemma correctClocks_started:
  assumes "Stream_alignSenderClocks (map_buffers (\<lambda>b. fst (Buffer_dynamicOffset (s_delay s) b now)) s) = (s2, sc)"
  shows "fst (snd (Stream_correctClocks s now until1 until2 since stamp)) =
     (fst (snd (Stream_clockCorrection s2 now sc until1)) > 0)"
  unfolding Stream_correctClocks_def assms Let_def prod.case by (simp add: case_prod_unfold)

lemma deep_corrected:
  "fst (snd (Stream_correctClocks deep_stream (1000 * Second) (\<lambda>_. 1000 * Second) until2 since stamp))"
proof -
  let ?a = "Buffer_alignSenderClock example_audio 1001000000000 False"
  have a: "b_queue ?a = []" "b_target ?a = 300000000"
    by (simp_all add: Buffer_alignSenderClock_def Buffer_moveClock_def Buffer_dropAll_def Let_def example_defs
        shift_playAt_def)
  have d: "Buffer_depth deep_video 1000000000000 = 10 * Second" "Buffer_depth ?a 1000000000000 = 0"
    by (simp_all add: Buffer_depth_def Buffer_newest_def a time_Sub_def) (simp add: deep_video_def)
  have t: "b_target deep_video = 300000000" by (simp add: deep_video_def example_defs)
  show ?thesis
    unfolding correctClocks_started [OF deep_aligned]
    by (simp add: Stream_clockCorrection_def scan_buffer_def d a t Let_def deep_stream_def Stream_new_def
        correctionMargin_def hysteresis_def minMargin_def)
qed


text \<open>
  Ending a track loses no statistics.  Whatever buffer is untracked, the
  late and dropped totals of the stream read afterwards are those read before.
\<close>

theorem untrack_keeps_totals:
  "map_option sta_Late (Relay_Stats (Relay_Untrack r ing a) ing now) = map_option sta_Late (Relay_Stats r ing now) \<and>
   map_option sta_Dropped (Relay_Stats (Relay_Untrack r ing a) ing now) = map_option sta_Dropped (Relay_Stats r ing now)"
proof (cases "r ing")
  case (Some s)
  obtain found rest where u: "untrack a (s_buffers s) = (found, rest)" by fastforce
  show ?thesis
  proof (cases found)
    case None
    then show ?thesis using Some u by (simp add: Relay_Untrack_def)
  next
    case (Some b)
    define s1 where "s1 = (if is_video b then s\<lparr>s_late := s_late s + b_late b, s_dropped := s_dropped s + b_dropped b\<rparr> else s)
      \<lparr>s_buffers := rest\<rparr>"
    have r': "Relay_Untrack r ing a ing = Some s1"
      using \<open>r ing = Some s\<close> u Some by (simp add: Relay_Untrack_def s1_def Buffer_Stats_def)
    have "(s_late s1, s_dropped s1) = add_video (s_late s, s_dropped s) (a, b)" "s_buffers s1 = rest"
      by (simp_all add: s1_def add_video_def)
    then show ?thesis
      using untrack_total [OF u [unfolded Some], of "(s_late s, s_dropped s)"]
      by (simp add: Stats_totals [of "Relay_Untrack r ing a" ing, OF r'] Stats_totals [of r ing, OF \<open>r ing = Some s\<close>])
  qed
qed (simp add: Relay_Untrack_def)

definition effective_delay :: "Controller \<Rightarrow> Buffer \<Rightarrow> instant \<Rightarrow> duration" where
  "effective_delay c b now = b_target b + snd (Buffer_dynamicOffset c b now)"

text \<open>
  The tracks of a stream share one delay.  After a delay is configured, the
  delay a packet gets beyond its media time is the same for every track of the
  ingest, at every instant: the controller's curve when adaptation is on or
  winding down, and the configured delay otherwise.
\<close>

theorem tracks_share_delay:
  assumes "Relay_ConfigureDelay r ing target options now ing = Some s" "(a, b) \<in> set (s_buffers s)"
  shows "effective_delay (s_delay s) b later =
     (case c_state (s_delay s) of Some state \<Rightarrow> State_Delay state later | None \<Rightarrow> target)"
proof -
  obtain s0 where s0: "r ing = Some s0" using assms(1) by (auto simp: Relay_ConfigureDelay_def split: option.splits)
  define c where "c = Controller_Configure (s_delay s0) target options now"
  have s: "s = map_buffers (configure_buffer c target (Configure_stores (s_delay s0) target options)) (s0\<lparr>s_delay := c\<rparr>)"
    using assms(1) s0 by (simp add: Relay_ConfigureDelay_def c_def Let_def)
  then have sd: "s_delay s = c" by (simp add: map_buffers_def)
  obtain b0 ch where b: "b = configure_buffer c target ch b0"
    using assms(2) by (auto simp: s map_buffers_def)
  have "b_target b = target" by (simp add: b configure_buffer_def Buffer_SetTarget_def Let_def split: option.split)
  moreover have "c_state c \<noteq> None \<Longrightarrow> b_dynamic b"
    by (auto simp: b configure_buffer_def Let_def)
  moreover have "b_target (Buffer_dropAll x) = b_target x" for x by (simp add: Buffer_dropAll_def)
  ultimately show ?thesis
    by (auto simp: effective_delay_def Buffer_dynamicOffset_def Let_def sd split: option.split)
qed

theorem tracks_share_delay_witness:
  "\<exists>s b. Relay_ConfigureDelay [''cam'' \<mapsto> example_stream] ''cam'' (2 * Second) example_options 0 ''cam'' = Some s \<and>
     (2, b) \<in> set (s_buffers s) \<and> effective_delay (s_delay s) b Second = 2 * Second"
proof -
  let ?c = "Controller_Configure Controller_zero (2 * Second) example_options 0"
  let ?b = "configure_buffer ?c (2 * Second) (Configure_stores Controller_zero (2 * Second) example_options) example_audio"
  define s where "s = map_buffers (configure_buffer ?c (2 * Second)
      (Configure_stores Controller_zero (2 * Second) example_options)) (example_stream\<lparr>s_delay := ?c\<rparr>)"
  have conf: "Relay_ConfigureDelay [''cam'' \<mapsto> example_stream] ''cam'' (2 * Second) example_options 0 ''cam'' = Some s"
    by (simp add: Relay_ConfigureDelay_def s_def example_stream_def Stream_new_def Let_def)
  have mem: "(2, ?b) \<in> set (s_buffers s)" by (simp add: s_def map_buffers_def example_stream_def)
  have sd: "s_delay s = ?c" by (simp add: s_def map_buffers_def)
  have "(case c_state ?c of Some state \<Rightarrow> State_Delay state Second | None \<Rightarrow> 2 * Second) = 2 * Second"
    by code_simp
  with tracks_share_delay [OF conf mem, of Second] have "effective_delay (s_delay s) ?b Second = 2 * Second"
    by (simp only: sd)
  with conf mem show ?thesis by blast
qed

text \<open>
  Publishing makes a track available until the stream is dropped.  After a
  successful publish every subscriber gets the new track; an audio publish leaves
  the video keyframe callback alone; after \<^verbatim>\<open>Drop\<close> a subscriber gets \<open>ErrNotPublishing\<close>; other
  ingests are untouched.  When the track cannot be built nothing changes.
\<close>

theorem publish_subscribe_drop:
  "case newTrack codec kind ing of
     Inl err \<Rightarrow> Relay_Publish newTrack r ing kind codec keyframe = (r, Inl (ErrBuildTrack kind err))
   | Inr track \<Rightarrow>
       (case Relay_Publish newTrack r ing kind codec keyframe of (r', res) \<Rightarrow>
          res = Inr track \<and>
          (\<exists>r'' tracks asked. Relay_Subscribe r' ing since stamp = (r'', Inr tracks, asked) \<and> track \<in> set tracks) \<and>
          fst (snd (Relay_Subscribe (Relay_Drop r' ing) ing since stamp)) = Inl ErrNotPublishing \<and>
          (if kind = KindVideo then map_option s_keyframe (r' ing) = Some keyframe
           else map_option s_keyframe (r' ing) = Some (case r ing of Some s \<Rightarrow> s_keyframe s | None \<Rightarrow> None)) \<and>
          r'(ing := r ing) = r)"
proof (cases "newTrack codec kind ing")
  case (Inr track)
  have mem: "track \<in> set (stream_tracks s)" if "s_tracks s kind = Some track" for s
    using that by (cases kind) (auto simp: stream_tracks_def List.map_filter_simps split: option.splits)
  obtain s where s: "Relay_Publish newTrack r ing kind codec keyframe = (r(ing \<mapsto> s), Inr track)"
    "s_tracks s kind = Some track"
    "s_keyframe s = (if kind = KindVideo then keyframe else case r ing of Some s \<Rightarrow> s_keyframe s | None \<Rightarrow> None)"
    using Inr by (auto simp: Relay_Publish_def Let_def Stream_new_def split: option.splits)
  obtain s' asked where ask: "Stream_askKeyframe s since stamp = (s', asked)" by fastforce
  from mem [OF s(2)] show ?thesis by (auto simp: Inr s(1,3) ask Relay_Subscribe_def Relay_Drop_def)
qed (simp add: Relay_Publish_def)

end
