(* ===== verification/Feed_Loop.thy ===== *)
theory Feed_Loop
  imports Relay_Stream
begin

text \<open>
  \<^verbatim>\<open>Feed\<close> of \<^verbatim>\<open>internal/relay/relay.go\<close>: the loop that takes packets from a track's buffer and writes them to the outgoing track, here
  from the moment its publisher is gone: the reader has closed the buffer and \<^verbatim>\<open>Untrack\<close> has taken it out of the stream, so that the corrections of \<^verbatim>\<open>Feed\<close>'s
  own ticker and of the sibling's no longer reach it (their interleaving with a live buffer is in \<open>Track_Forward\<close>).  One step of \<open>Feed\<close> is one round of the loop
  inside \<^verbatim>\<open>Pop\<close>.  A round that waits goes on when the wait is over or when a signal comes before that: \<open>early k\<close> is then how much of the wait
  had passed.  \<open>lag\<close> is how much later than that, or than
  the round before, each round begins.  \<open>WriteRTP\<close> says whether writing a packet succeeds.  \<open>None\<close> is a loop that
  has not returned within its fuel, or that waits for a signal nobody sends.

  The theory shows that four rounds for each packet suffice, and one more for each early signal.
\<close>

section \<open>The loop\<close>

text \<open>The result is what was written, and the packets whose error \<^verbatim>\<open>onError\<close> was given.\<close>

fun Feed ::
  "(packet \<Rightarrow> bool) \<Rightarrow> Controller \<Rightarrow> Buffer \<Rightarrow> instant \<Rightarrow> (nat \<Rightarrow> duration) \<Rightarrow> (nat \<Rightarrow> duration option) \<Rightarrow> nat \<Rightarrow>
     (packet list \<times> packet list) option" where
  "Feed WriteRTP c b now lag early 0 = None"
| "Feed WriteRTP c b now lag early (Suc n) =
     (case Buffer_Pop c b now of
        (b', Closed) \<Rightarrow> Some ([], [])
      | (b', WaitSignal) \<Rightarrow> None
      | (b', WaitFor d) \<Rightarrow>
          Feed WriteRTP c b' (now + (case early n of None \<Rightarrow> d | Some e \<Rightarrow> min d (max 0 e)) + lag n) lag early n
      | (b', Again) \<Rightarrow> Feed WriteRTP c b' (now + lag n) lag early n
      | (b', Packet p) \<Rightarrow>
          map_option (\<lambda>(written, errors). (p # written, if WriteRTP p then errors else p # errors))
            (Feed WriteRTP c b' (now + lag n) lag early n))"

definition early_rounds :: "(nat \<Rightarrow> duration option) \<Rightarrow> nat \<Rightarrow> nat" where
  "early_rounds early n = length (filter (\<lambda>k. early k \<noteq> None) [0..<n])"

text \<open>The camera's delay does not grow any more: it is fixed, or its curve falls and no jump is pending.\<close>

definition steady :: "Controller \<Rightarrow> Buffer \<Rightarrow> bool" where
  "steady c b \<longleftrightarrow> \<not> b_dynamic b \<or>
     (case c_state c of None \<Rightarrow> True
      | Some state \<Rightarrow> Cutoff state = b_cutoff b \<and> (\<forall>t t'. t \<le> t' \<longrightarrow> State_Delay state t' \<le> State_Delay state t))"

definition offset_of :: "Controller \<Rightarrow> Buffer \<Rightarrow> instant \<Rightarrow> duration" where
  "offset_of c b now = snd (Buffer_dynamicOffset c b now)"

section \<open>One round\<close>

lemma steady_offset: "steady c b \<Longrightarrow> Buffer_dynamicOffset c b now = (b, offset_of c b now)"
  by (auto simp: steady_def offset_of_def Buffer_dynamicOffset_def split: option.splits)

lemma offset_falls: "steady c b \<Longrightarrow> t \<le> t' \<Longrightarrow> offset_of c b t' \<le> offset_of c b t"
  by (auto simp: steady_def offset_of_def Buffer_dynamicOffset_def split: option.splits)

lemma offset_cong:
  assumes "b_dynamic b' = b_dynamic b" "b_cutoff b' = b_cutoff b" "b_target b' = b_target b"
  shows "steady c b' = steady c b" "offset_of c b' now = offset_of c b now"
  using assms by (auto simp: steady_def offset_of_def Buffer_dynamicOffset_def Let_def Buffer_dropAll_def split: option.splits)

text \<open>The fields a round of the loop does not touch.\<close>

definition same_delay :: "Buffer \<Rightarrow> Buffer \<Rightarrow> bool" where
  "same_delay b b' \<longleftrightarrow> b_dynamic b' = b_dynamic b \<and> b_cutoff b' = b_cutoff b \<and> b_target b' = b_target b \<and> b_closed b' = b_closed b"

lemma same_delayD:
  assumes "same_delay b b'"
  shows "steady c b' = steady c b" "offset_of c b' now = offset_of c b now" "b_closed b' = b_closed b"
  using assms offset_cong [of b' b c] by (simp_all add: same_delay_def)

lemma same_delay_ops:
  "same_delay b (Buffer_startGroup b now play)" "same_delay b (fst (Buffer_paceHold b now late))" "same_delay b (Buffer_chargePace (b\<lparr>b_queue := q\<rparr>) now)"
proof -
  show sg: "same_delay b (Buffer_startGroup b now play)" for b play by (simp add: Buffer_startGroup_def same_delay_def Let_def)
  show "same_delay b (Buffer_chargePace (b\<lparr>b_queue := q\<rparr>) now)" by (simp add: Buffer_chargePace_def same_delay_def Let_def)
  show "same_delay b (fst (Buffer_paceHold b now late))"
    using sg [of b "playAt (b_queue b ! 0)"] by (simp add: Buffer_paceHold_def same_delay_def Let_def)
qed

lemma allowance_pos: "0 < Buffer_lateAllowance b"
  by (simp add: Buffer_lateAllowance_def maxPaceLag_def)

lemma hold_round:
  assumes "Buffer_paceHold b now late = (b2, hold)"
  shows "same_delay b b2" "b_queue b2 = b_queue b"
    "0 < hold \<Longrightarrow> hold = min (time_Sub (b_nextSlot b2) now) (Buffer_lateAllowance b2)"
    "snd (Buffer_paceHold b2 now' late') =
       (if late' > Buffer_lateAllowance b2 then 0 else max 0 (min (time_Sub (b_nextSlot b2) now') (Buffer_lateAllowance b2)))"
proof -
  show "same_delay b b2" "b_queue b2 = b_queue b"
    using same_delay_ops(2) [of b now late] paceHold_frame(1) [of b now late] by (simp_all only: assms fst_conv)
  define b1 where "b1 = (if playAt (b_queue b ! 0) \<noteq> b_group b then Buffer_startGroup b now (playAt (b_queue b ! 0)) else b)"
  have b1: "b_group b1 = playAt (b_queue b ! 0)" "b_queue b1 = b_queue b"
    by (auto simp: b1_def Buffer_startGroup_def Let_def)
  have b2: "b2 = b1 \<or> b2 = b1\<lparr>b_nextSlot := now\<rparr>" and h: "0 < hold \<Longrightarrow> b2 = b1 \<and> hold = min (time_Sub (b_nextSlot b1) now) (Buffer_lateAllowance b1)"
    using assms by (auto simp: Buffer_paceHold_def b1_def [symmetric] Let_def split: if_splits)
  show "0 < hold \<Longrightarrow> hold = min (time_Sub (b_nextSlot b2) now) (Buffer_lateAllowance b2)" using h by auto
  have "b_group b2 = playAt (b_queue b2 ! 0)" using b1 b2 by auto
  then show "snd (Buffer_paceHold b2 now' late') =
       (if late' > Buffer_lateAllowance b2 then 0 else max 0 (min (time_Sub (b_nextSlot b2) now') (Buffer_lateAllowance b2)))"
    using allowance_pos [of b2] by (auto simp: Buffer_paceHold_def Let_def)
qed

text \<open>How many rounds can still pass before the first packet leaves.\<close>

definition head_late :: "Controller \<Rightarrow> Buffer \<Rightarrow> instant \<Rightarrow> duration" where
  "head_late c b now = now - (playAt (b_queue b ! 0) + offset_of c b now)"

definition stage :: "Controller \<Rightarrow> Buffer \<Rightarrow> instant \<Rightarrow> nat" where
  "stage c b now =
     (if head_late c b now < 0 then 3
      else if snd (Buffer_paceHold b now (- time_Sub 0 (head_late c b now))) = 0 then 0
      else if head_late c b now = 0 then 2 else 1)"

lemma stage_bound: "stage c b now \<le> 3"
  by (simp add: stage_def)

lemma time_Sub_due: "time_Sub (p + off) now = time_Sub 0 (now - (p + off))"
  by (simp add: time_Sub_def)

lemma hold_ends:
  assumes "Buffer_paceHold b now late = (b2, hold)" "0 < hold" "now + hold \<le> now'" "hold < l"
  shows "snd (Buffer_paceHold b2 now' (- time_Sub 0 l)) = 0"
proof -
  note r = hold_round [OF assms(1)]
  have a: "Buffer_lateAllowance b2 \<le> 33000000" using allowance_range(2) [of b2] by (simp add: maxPaceLag_def)
  show ?thesis
  proof (cases "hold = Buffer_lateAllowance b2")
    case True
    then have "Buffer_lateAllowance b2 < - time_Sub 0 l" using assms(4) a by (simp add: time_Sub_def)
    then show ?thesis by (simp add: r(4))
  next
    case False
    then have "hold = time_Sub (b_nextSlot b2) now" "hold < 33000000" using r(3) [OF assms(2)] a by linarith+
    then have "hold = b_nextSlot b2 - now" using assms(2) by (simp add: time_Sub_def)
    then have "time_Sub (b_nextSlot b2) now' \<le> 0" using assms(3) time_Sub_pos_iff [of "b_nextSlot b2" now'] by linarith
    then show ?thesis by (simp add: r(4))
  qed
qed

lemma Pop_round:
  assumes "steady c b" "b_queue b \<noteq> []"
  shows "Buffer_Pop c b now =
    (if head_late c b now < 0 then (b, WaitFor (time_Sub 0 (head_late c b now)))
     else let (b2, hold) = Buffer_paceHold b now (- time_Sub 0 (head_late c b now))
          in if hold > 0 then (b2, WaitFor hold)
             else case packetHeap_pop (b_queue b) of None \<Rightarrow> (b2, Again)
                  | Some (item, q) \<Rightarrow> (Buffer_chargePace (b2\<lparr>b_queue := q\<rparr>) now, Packet (pkt item)))"
proof -
  obtain b2 hold where h: "Buffer_paceHold b now (- time_Sub 0 (head_late c b now)) = (b2, hold)" by fastforce
  have q: "b_queue b2 = b_queue b" by (rule hold_round(2) [OF h])
  have "time_Sub 0 (head_late c b now) \<le> 0 \<longleftrightarrow> \<not> head_late c b now < 0"
    using time_Sub_pos_iff [of 0 "head_late c b now"] by linarith
  then show ?thesis
    using assms(2) by (simp add: Buffer_Pop_def steady_offset [OF assms(1)] time_Sub_due head_late_def [symmetric] h q)
qed

text \<open>Time passes, and a packet that waits comes closer to leaving.\<close>

lemma late_grows:
  assumes "steady c b" "now \<le> now'"
  shows "head_late c b now + (now' - now) \<le> head_late c b now'"
  using offset_falls [OF assms] by (simp add: head_late_def)

lemma wait_keeps:
  assumes "steady c b" "b_queue b \<noteq> []" "Buffer_Pop c b now = (b', WaitFor d)" "now \<le> now'"
  shows "stage c b' now' \<le> stage c b now"
proof (cases "head_late c b now < 0")
  case True
  then show ?thesis using stage_bound [of c b' now'] by (simp add: stage_def [of c b now])
next
  case False
  obtain b2 hold where h: "Buffer_paceHold b now (- time_Sub 0 (head_late c b now)) = (b2, hold)" by fastforce
  have hold: "0 < hold" "b' = b2"
    using assms(3) Pop_round [OF assms(1,2), of now] False by (auto simp: h split: if_splits option.splits)
  note r = hold_round [OF h]
  have same: "head_late c b2 t = head_late c b t" for t using same_delayD [OF r(1)] r(2) by (simp add: head_late_def)
  have "head_late c b now \<le> head_late c b now'" using late_grows [OF assms(1,4)] assms(4) by linarith
  moreover have "stage c b now = (if head_late c b now = 0 then 2 else 1)" using False hold(1) by (simp add: stage_def h)
  ultimately show ?thesis using False by (simp add: stage_def [of c b2 now'] hold(2) same)
qed

lemma wait_frame:
  assumes "steady c b" "b_queue b \<noteq> []" "Buffer_Pop c b now = (b', WaitFor d)"
  shows "same_delay b b'" "b_queue b' = b_queue b" "0 < d"
proof -
  obtain b2 hold where h: "Buffer_paceHold b now (- time_Sub 0 (head_late c b now)) = (b2, hold)" by fastforce
  have "same_delay b b' \<and> b_queue b' = b_queue b \<and> 0 < d"
    using assms(3) Pop_round [OF assms(1,2), of now] hold_round(1,2) [OF h] time_Sub_pos_iff [of 0 "head_late c b now"]
    by (auto simp: h same_delay_def split: if_splits option.splits)
  then show "same_delay b b'" "b_queue b' = b_queue b" "0 < d" by simp_all
qed

lemma wait_advances:
  assumes "steady c b" "b_queue b \<noteq> []" "Buffer_Pop c b now = (b', WaitFor d)" "0 \<le> l" "- head_late c b now < 2 ^ 63"
  shows "stage c b' (now + d + l) < stage c b now" "0 < d" "same_delay b b'" "b_queue b' = b_queue b"
proof -
  let ?t = "now + d + l"
  have "stage c b' ?t < stage c b now \<and> 0 < d \<and> same_delay b b' \<and> b_queue b' = b_queue b"
  proof (cases "head_late c b now < 0")
    case True
    then have d: "b' = b" "d = - head_late c b now"
      using assms(3,5) Pop_round [OF assms(1,2), of now] by (auto simp: time_Sub_def)
    have "0 \<le> head_late c b ?t" using late_grows [OF assms(1), of now ?t] d True assms(4) by linarith
    then have "stage c b ?t < 3" by (simp add: stage_def)
    then show ?thesis using True d by (simp add: stage_def [of c b now] same_delay_def)
  next
    case False
    obtain b2 hold where h: "Buffer_paceHold b now (- time_Sub 0 (head_late c b now)) = (b2, hold)" by fastforce
    have hold: "0 < hold" "b' = b2" "d = hold"
      using assms(3) Pop_round [OF assms(1,2), of now] False by (auto simp: h split: if_splits option.splits)
    note r = hold_round [OF h]
    have same: "head_late c b2 t = head_late c b t" for t using same_delayD [OF r(1)] r(2) by (simp add: head_late_def)
    have grows: "head_late c b now + hold \<le> head_late c b ?t"
      using late_grows [OF assms(1), of now ?t] hold assms(4) by linarith
    have now: "stage c b now = (if head_late c b now = 0 then 2 else 1)" using False hold(1) by (simp add: stage_def h)
    have "stage c b2 ?t = 0" if "0 < head_late c b now"
    proof -
      have "snd (Buffer_paceHold b2 ?t (- time_Sub 0 (head_late c b ?t))) = 0"
        using hold_ends [OF h hold(1), of ?t "head_late c b ?t"] grows that hold(3) assms(4) by linarith
      then show ?thesis using grows that hold(1) by (simp add: stage_def same)
    qed
    moreover have "stage c b2 ?t < 2" if "head_late c b now = 0"
      using grows that hold(1) by (simp add: stage_def same)
    ultimately show ?thesis using False hold r(1,2) now by (auto simp: hold(2))
  qed
  then show "stage c b' ?t < stage c b now" "0 < d" "same_delay b b'" "b_queue b' = b_queue b" by blast+
qed

section \<open>All rounds\<close>

definition soon :: "Controller \<Rightarrow> Buffer \<Rightarrow> instant \<Rightarrow> bool" where
  "soon c b now \<longleftrightarrow> (\<forall>item \<in> set (b_queue b). playAt item + offset_of c b now - now < 2 ^ 63)"

definition rounds :: "Controller \<Rightarrow> Buffer \<Rightarrow> instant \<Rightarrow> nat" where
  "rounds c b now = (if b_queue b = [] then 1 else stage c b now + 4 * (length (b_queue b) - 1) + 2)"

lemma rounds_bound: "rounds c b now \<le> 4 * length (b_queue b) + 1"
  using stage_bound [of c b now] by (cases "b_queue b") (auto simp: rounds_def)

lemma soon_later:
  assumes "soon c b now" "steady c b" "now \<le> now'" "same_delay b b'" "set (b_queue b') \<subseteq> set (b_queue b)"
  shows "soon c b' now'"
  unfolding soon_def
proof
  fix item assume "item \<in> set (b_queue b')"
  then have "playAt item + offset_of c b now - now < 2 ^ 63" using assms(1,5) by (auto simp: soon_def)
  then show "playAt item + offset_of c b' now' - now' < 2 ^ 63"
    using offset_falls [OF assms(2,3)] same_delayD(2) [OF assms(4), of c now'] assms(3) by linarith
qed

lemma Pop_takes_first:
  assumes "steady c b" "is_heap (b_queue b)" "b_queue b \<noteq> []" "\<forall>d. snd (Buffer_Pop c b now) \<noteq> WaitFor d"
  obtains b' item where "Buffer_Pop c b now = (b', Packet (pkt item))" "same_delay b b'" "is_heap (b_queue b')"
    "add_mset item (mset (b_queue b')) = mset (b_queue b)" "\<forall>x \<in> set (b_queue b). due item \<le> due x"
proof -
  obtain b2 hold where h: "Buffer_paceHold b now (- time_Sub 0 (head_late c b now)) = (b2, hold)" by fastforce
  obtain item q where pop: "packetHeap_pop (b_queue b) = Some (item, q)"
    using assms(3) packetHeap_pop_None [of "b_queue b"] by (cases "packetHeap_pop (b_queue b)") auto
  note pc = pop_correct [OF assms(2) pop]
  have "same_delay b (Buffer_chargePace (b2\<lparr>b_queue := q\<rparr>) now)"
    using hold_round(1) [OF h] same_delay_ops(3) [of b2 q now] by (simp add: same_delay_def)
  moreover have "Buffer_Pop c b now = (Buffer_chargePace (b2\<lparr>b_queue := q\<rparr>) now, Packet (pkt item))"
    using assms(4) Pop_round [OF assms(1,3), of now] by (auto simp: h pop split: if_splits)
  ultimately show thesis using that pc by simp
qed

lemma Feed_rounds:
  assumes "b_closed b" "is_heap (b_queue b)" "steady c b" "soon c b now" "\<And>k. 0 \<le> lag k" "rounds c b now + early_rounds early n \<le> n"
  shows "\<exists>xs. Feed WriteRTP c b now lag early n = Some (map pkt xs, filter (\<lambda>p. \<not> WriteRTP p) (map pkt xs)) \<and>
    mset xs = mset (b_queue b) \<and> sorted (map due xs)"
  using assms
proof (induction n arbitrary: b now)
  case 0
  then show ?case by (simp add: rounds_def split: if_splits)
next
  case (Suc n)
  show ?case
  proof (cases "b_queue b = []")
    case True
    then show ?thesis using Suc.prems(1) by (simp add: Buffer_Pop_def)
  next
    case False
    show ?thesis
    proof (cases "\<exists>d. snd (Buffer_Pop c b now) = WaitFor d")
      case True
      then obtain b' d where pop: "Buffer_Pop c b now = (b', WaitFor d)" by (metis prod.collapse)
      define now' where "now' = now + (case early n of None \<Rightarrow> d | Some e \<Rightarrow> min d (max 0 e)) + lag n"
      have "- head_late c b now < 2 ^ 63" using Suc.prems(4) False by (simp add: soon_def head_late_def)
      note w = wait_advances [OF Suc.prems(3) False pop Suc.prems(5) [of n] this]
      note fr = wait_frame [OF Suc.prems(3) False pop]
      have later: "now \<le> now'" using fr(3) Suc.prems(5) [of n] by (auto simp: now'_def split: option.split)
      have "rounds c b' now' + early_rounds early n \<le> n"
      proof (cases "early n")
        case None
        then show ?thesis using Suc.prems(6) w(1,4) False by (simp add: rounds_def now'_def early_rounds_def)
      next
        case (Some e)
        have "stage c b' now' \<le> stage c b now" by (rule wait_keeps [OF Suc.prems(3) False pop later])
        then show ?thesis using Suc.prems(6) Some w(4) False by (simp add: rounds_def early_rounds_def)
      qed
      moreover have "soon c b' now'"
        by (rule soon_later [OF Suc.prems(4,3) later fr(1)]) (simp add: fr(2))
      ultimately show ?thesis
        using Suc.IH [of b' now', OF _ _ _ _ Suc.prems(5)] Suc.prems(1-3) same_delayD [OF fr(1)] fr(2) by (simp add: pop now'_def)
    next
      case no_wait: False
      from Suc.prems(2,3) False no_wait obtain b' item where pop: "Buffer_Pop c b now = (b', Packet (pkt item))" "same_delay b b'" "is_heap (b_queue b')"
          "add_mset item (mset (b_queue b')) = mset (b_queue b)" "\<forall>x \<in> set (b_queue b). due item \<le> due x"
        by (metis Pop_takes_first)
      have len: "length (b_queue b) = Suc (length (b_queue b'))" using pop(4) by (metis size_add_mset size_mset)
      have sub: "set (b_queue b') \<subseteq> set (b_queue b)" using pop(4) by (metis set_mset_mset set_mset_add_mset_insert subset_insertI)
      have "rounds c b' (now + lag n) + early_rounds early n \<le> n"
        using rounds_bound [of c b' "now + lag n"] Suc.prems(6) len False by (simp add: rounds_def [of c b] early_rounds_def split: if_splits)
      moreover have "soon c b' (now + lag n)"
        by (rule soon_later [OF Suc.prems(4,3) _ pop(2) sub]) (use Suc.prems(5) [of n] in linarith)
      ultimately obtain xs where xs: "Feed WriteRTP c b' (now + lag n) lag early n = Some (map pkt xs, filter (\<lambda>p. \<not> WriteRTP p) (map pkt xs))"
          "mset xs = mset (b_queue b')" "sorted (map due xs)"
        using Suc.IH [of b' "now + lag n", OF _ _ _ _ Suc.prems(5)] Suc.prems(1,3) same_delayD [OF pop(2)] pop(3) by auto
      have "set xs \<subseteq> set (b_queue b)" using xs(2) sub by (metis set_mset_mset)
      then have "mset (item # xs) = mset (b_queue b) \<and> sorted (map due (item # xs))" using xs(2,3) pop(4,5) by auto
      moreover have "Feed WriteRTP c b now lag early (Suc n) = Some (map pkt (item # xs), filter (\<lambda>p. \<not> WriteRTP p) (map pkt (item # xs)))"
        using xs(1) by (simp add: pop(1))
      ultimately show ?thesis by blast
    qed
  qed
qed

section \<open>Properties\<close>

text \<open>Closing a buffer that is far too deep drops its packets, and counts them.\<close>

lemma Close_queue:
  "Buffer_Close b closing =
    (if Buffer_depth b closing - b_target b > correctionMargin (b_target b)
     then b\<lparr>b_closed := True, b_dropped := b_dropped b + of_nat (length (b_queue b)), b_queue := []\<rparr> else b\<lparr>b_closed := True\<rparr>)"
  by (simp add: Buffer_Close_def Buffer_depth_def Buffer_newest_def Buffer_dropAll_def Let_def)

lemma Close_fields:
  "b_closed (Buffer_Close b closing)" "steady c (Buffer_Close b closing) = steady c b"
  "offset_of c (Buffer_Close b closing) now = offset_of c b now" "buffer_inv b \<Longrightarrow> is_heap (b_queue (Buffer_Close b closing))"
  using offset_cong [of "Buffer_Close b closing" b c] by (simp_all add: Close_queue buffer_inv_def)

text \<open>
  C17: When a publisher is gone and its reader has closed the buffer, \<^verbatim>\<open>Feed\<close> returns.  A buffer too deep for a correction is
  emptied by \<^verbatim>\<open>Close\<close>, and nothing more is written; any other is played out: every packet
  still queued is written exactly once, in playout order, whether or not a write fails, and exactly the writes that failed are reported.
  Four rounds of the loop of \<^verbatim>\<open>Pop\<close> for each packet, one for each signal that ends a wait early, and one more are enough, however late
  each round starts.  The playout delay must not grow meanwhile: it is fixed, or adaptive with its curve falling and no jump pending, and no packet is
  due in more than \<open>2 ^ 63\<close> ns.
\<close>

theorem feed_plays_out:
  assumes "buffer_inv b" "steady c b" "soon c b now" "\<forall>k. 0 \<le> lag k" "4 * length (b_queue b) + 1 + early_rounds early n \<le> n"
  shows "\<exists>xs. Feed WriteRTP c (Buffer_Close b closing) now lag early n = Some (map pkt xs, filter (\<lambda>p. \<not> WriteRTP p) (map pkt xs)) \<and>
    sorted (map due xs) \<and>
    (if Buffer_depth b closing - b_target b > correctionMargin (b_target b) then xs = [] else mset xs = mset (b_queue b))"
proof -
  let ?b = "Buffer_Close b closing"
  have q: "b_queue ?b = (if Buffer_depth b closing - b_target b > correctionMargin (b_target b) then [] else b_queue b)"
    by (simp add: Close_queue)
  have "soon c ?b now" using assms(3) by (simp add: soon_def q Close_fields)
  moreover have "rounds c ?b now + early_rounds early n \<le> n" using assms(5) rounds_bound [of c ?b now] by (simp add: q split: if_splits)
  ultimately obtain xs where "Feed WriteRTP c ?b now lag early n = Some (map pkt xs, filter (\<lambda>p. \<not> WriteRTP p) (map pkt xs))"
      "mset xs = mset (b_queue ?b)" "sorted (map due xs)"
    using Feed_rounds [of ?b c now lag early n WriteRTP] Close_fields(1,2) Close_fields(4) [OF assms(1)] assms(2,4) by auto
  then show ?thesis by (intro exI [of _ xs]) (auto simp: q split: if_splits)
qed

theorem feed_plays_out_witness:
  "Feed (\<lambda>p. SequenceNumber p \<noteq> 7) Controller_zero (Buffer_Close one_packet_buffer 60) 60 (\<lambda>_. 3) (\<lambda>k. if k = 5 then Some 1 else None) 6 =
     Some ([\<lparr>SequenceNumber = 7, Timestamp = 0, Payload = [1]\<rparr>], [\<lparr>SequenceNumber = 7, Timestamp = 0, Payload = [1]\<rparr>])"
proof -
  let ?b = one_packet_buffer
  have b: "buffer_inv ?b" "steady Controller_zero ?b" "soon Controller_zero ?b 60" "length (b_queue ?b) = 1"
    "Buffer_depth ?b 60 - b_target ?b \<le> correctionMargin (b_target ?b)"
    by (simp_all add: one_packet_buffer_def NewBuffer_def buffer_inv_def is_heap_def steady_def soon_def offset_of_def Buffer_dynamicOffset_def
        Buffer_depth_def Buffer_newest_def time_Sub_def correctionMargin_def minMargin_def hysteresis_def)
  let ?early = "\<lambda>k :: nat. if k = 5 then Some (1 :: duration) else None"
  have "early_rounds ?early 6 = 1" by (simp add: early_rounds_def upt_conv_Cons)
  with feed_plays_out [OF b(1-3), of "\<lambda>_. 3" ?early 6 "\<lambda>p. SequenceNumber p \<noteq> 7" 60] b(4,5)
  obtain xs where "Feed (\<lambda>p. SequenceNumber p \<noteq> 7) Controller_zero (Buffer_Close ?b 60) 60 (\<lambda>_. 3) ?early 6 =
      Some (map pkt xs, filter (\<lambda>p. \<not> SequenceNumber p \<noteq> 7) (map pkt xs))" "mset xs = mset (b_queue ?b)" by auto
  then show ?thesis by (simp add: one_packet_buffer_def)
qed

end
