(* ===== verification/Stream_Laws.thy ===== *)
theory Stream_Laws
  imports Relay_Stream
begin

text \<open>
  What a correction of a stream (\<^verbatim>\<open>Stream.adjustDelay\<close> and \<^verbatim>\<open>Stream.correctClocks\<close> of \<^verbatim>\<open>internal/relay\<close>) leaves alone in its buffers.  A
  correction is built from a few operations on single buffers; a relation between a buffer's states
  that each of them respects is respected by the whole.  The contract is the locale \<open>buffer_law\<close>; it is
  interpreted here for the accounting of packets, and for the playout delay where the settings are compared with the buffers.
\<close>

section \<open>A stream, buffer by buffer\<close>

definition stream_rel :: "(Buffer \<Rightarrow> Buffer \<Rightarrow> bool) \<Rightarrow> 't Stream \<Rightarrow> 't Stream \<Rightarrow> bool" where
  "stream_rel R s s' \<longleftrightarrow> list_all2 (\<lambda>(a, b) (a', b'). a' = a \<and> R b b') (s_buffers s) (s_buffers s')"

lemma stream_rel_nth:
  "stream_rel R s s' \<longleftrightarrow> length (s_buffers s') = length (s_buffers s) \<and>
     (\<forall>i < length (s_buffers s). fst (s_buffers s' ! i) = fst (s_buffers s ! i) \<and> R (snd (s_buffers s ! i)) (snd (s_buffers s' ! i)))"
  by (auto simp: stream_rel_def list_all2_conv_all_nth case_prod_beta)

lemma stream_rel_map_of:
  assumes "stream_rel R s s'"
  shows "rel_option R (map_of (s_buffers s) a) (map_of (s_buffers s') a)" "map fst (s_buffers s') = map fst (s_buffers s)"
proof -
  have "rel_option R (map_of xs a) (map_of ys a) \<and> map fst ys = map fst xs" if "list_all2 (\<lambda>(a, b) (a', b'). a' = a \<and> R b b') xs ys" for xs ys
    using that by (induction rule: list_all2_induct) auto
  then show "rel_option R (map_of (s_buffers s) a) (map_of (s_buffers s') a)" "map fst (s_buffers s') = map fst (s_buffers s)"
    using assms by (simp_all add: stream_rel_def)
qed

section \<open>The contract\<close>

locale buffer_law =
  fixes R :: "Buffer \<Rightarrow> Buffer \<Rightarrow> bool"
  assumes refl: "R b b"
    and trans: "R b b1 \<Longrightarrow> R b1 b2 \<Longrightarrow> R b b2"
    and offset: "R b (fst (Buffer_dynamicOffset c b now))"
    and move: "R b (Buffer_moveClock b d reset)"
    and rollback: "R b (fst (Buffer_senderCorrection b))"
    and align: "R b (Buffer_alignSenderClock b base established)"
    and source: "R b (source_correction d b)"
    and marks: "R b (b\<lparr>b_peakLate := t\<rparr>)" "R b (b\<lparr>b_recoveryAt := t\<rparr>)"
begin

lemma same: "s_buffers s' = s_buffers s \<Longrightarrow> stream_rel R s s'"
  by (simp add: stream_rel_nth refl)

lemma compose: "stream_rel R s s1 \<Longrightarrow> stream_rel R s1 s2 \<Longrightarrow> stream_rel R s s2"
  using trans by (simp add: stream_rel_nth) meson

lemma mapped: "(\<And>b. R b (f b)) \<Longrightarrow> stream_rel R s (map_buffers f s)"
  by (simp add: stream_rel_nth map_buffers_def case_prod_beta)

lemma asked: "stream_rel R s (fst (Stream_askKeyframe s since stamp))"
  by (rule same) (simp add: askKeyframe_buffers)

lemma adjusted: "stream_rel R s (fst (Stream_adjustDelay s now since stamp))"
proof -
  define s1 where "s1 = map_buffers (\<lambda>b. fst (Buffer_dynamicOffset (s_delay s) b now)) (s\<lparr>s_lastAdjust := now\<rparr>)"
  define s2 where "s2 = map_buffers (\<lambda>b. b\<lparr>b_peakLate := 0\<rparr>) s1"
  obtain c st where step: "Controller_Step (s_delay s2) now (foldl (\<lambda>late (a, b). max late (b_peakLate b)) 0 (s_buffers s1)) = (c, st)" by fastforce
  have "stream_rel R s (s\<lparr>s_lastAdjust := now\<rparr>)" by (rule same) simp
  moreover have "stream_rel R (s\<lparr>s_lastAdjust := now\<rparr>) s1" unfolding s1_def by (rule mapped) (rule offset)
  moreover have "stream_rel R s1 s2" unfolding s2_def by (rule mapped) (rule marks)
  moreover have "stream_rel R s2 (s2\<lparr>s_delay := c\<rparr>)" by (rule same) simp
  ultimately have s3: "stream_rel R s (s2\<lparr>s_delay := c\<rparr>)" by (meson compose)
  then have "stream_rel R s (fst (Stream_askKeyframe (s2\<lparr>s_delay := c\<rparr>) since stamp))" by (rule compose) (rule asked)
  moreover have "fst (Stream_adjustDelay s now since stamp) \<in> {s, s2\<lparr>s_delay := c\<rparr>, fst (Stream_askKeyframe (s2\<lparr>s_delay := c\<rparr>) since stamp)}"
    by (simp add: Stream_adjustDelay_def s1_def [symmetric] s2_def [symmetric] step Let_def split: option.split)
  ultimately show ?thesis using s3 same [of s s] by auto
qed

lemma rolled_back: "stream_rel R s (s\<lparr>s_buffers := fst (senderCorrections (s_buffers s) wall)\<rparr>)"
proof -
  have "list_all2 (\<lambda>(a, b) (a', b'). a' = a \<and> R b b') bufs (fst (senderCorrections bufs wall))" for bufs wall
  proof (induction bufs wall rule: senderCorrections.induct)
    case (2 a b bufs wall)
    obtain b1 r where "Buffer_senderCorrection b = (b1, r)" by fastforce
    with 2 rollback [of b] show ?case by (simp add: case_prod_beta)
  qed simp
  then show ?thesis by (simp add: stream_rel_def)
qed

lemma aligned: "stream_rel R s (fst (Stream_alignSenderClocks s))"
proof -
  obtain bufs wall where run: "senderCorrections (s_buffers s) (s_senderBaseWall s) = (bufs, wall)" by fastforce
  have one: "stream_rel R s (s\<lparr>s_buffers := bufs\<rparr>)" using rolled_back [of s "s_senderBaseWall s"] by (simp add: run)
  have "stream_rel R (s\<lparr>s_buffers := bufs\<rparr>)
      (s\<lparr>s_buffers := map (\<lambda>(a, b). (a, Buffer_alignSenderClock b (f b) est)) bufs, s_senderBaseMS := ms, s_senderBaseWall := w\<rparr>)" for f est ms w
    by (simp add: stream_rel_nth case_prod_beta align)
  from compose [OF one this] show ?thesis
    by (auto simp: Stream_alignSenderClocks_def Let_def run same)
qed

lemma charged: "stream_rel R s (fst (Stream_clockCorrection s now senderClocks until))"
proof -
  have upd: "stream_rel R s (s\<lparr>s_buffers := (s_buffers s)[i := apsnd (source_correction d) (s_buffers s ! i)]\<rparr>)" for i d
    by (cases "i < length (s_buffers s)") (auto simp: stream_rel_nth nth_list_update source refl)
  have "stream_rel R s (x\<lparr>s_recoveryAt := t, s_recoveryShift := d\<rparr>)" if "stream_rel R s x" for x t d
    using that same [of "x\<lparr>s_recoveryAt := t, s_recoveryShift := d\<rparr>" x] compose by simp
  then show ?thesis by (auto simp: Stream_clockCorrection_def Let_def upd same split: option.split)
qed

lemma corrected: "stream_rel R s (s\<lparr>s_buffers := map (correct_buffer shift senderClocks t until) (enumerate 0 (s_buffers s))\<rparr>)"
proof -
  have "R b ((Buffer_moveClock b d True)\<lparr>b_recoveryAt := t\<rparr>)" for b d using trans [OF move marks(2)] .
  then show ?thesis by (auto simp: stream_rel_nth nth_enumerate_eq correct_buffer_def refl split: prod.split)
qed

lemma clocks_corrected: "stream_rel R s (fst (Stream_correctClocks s now until1 until2 since stamp))"
proof -
  define s1 where "s1 = map_buffers (\<lambda>b. fst (Buffer_dynamicOffset (s_delay s) b now)) s"
  obtain s2 sc where s2: "Stream_alignSenderClocks s1 = (s2, sc)" by fastforce
  obtain s3 shift waiting where s3: "Stream_clockCorrection s2 now sc until1 = (s3, shift, waiting)" by (metis prod_cases3)
  define s4 where "s4 = (if sc then s3\<lparr>s_senderBaseWall := s_senderBaseWall s3 - shift\<rparr> else s3)"
  define s5 where "s5 = s4\<lparr>s_buffers := map (correct_buffer shift sc (s_recoveryAt s4) until2) (enumerate 0 (s_buffers s4))\<rparr>"
  have "stream_rel R s s1" unfolding s1_def by (rule mapped) (rule offset)
  moreover have "stream_rel R s1 s2" using aligned [of s1] by (simp add: s2)
  moreover have "stream_rel R s2 s3" using charged [of s2 now sc until1] by (simp add: s3)
  moreover have "stream_rel R s3 s4" unfolding s4_def by (simp add: same)
  moreover have "stream_rel R s4 s5" unfolding s5_def by (rule corrected)
  ultimately have s5: "stream_rel R s s5" by (meson compose)
  then have "stream_rel R s (fst (Stream_askKeyframe s5 since stamp))" by (rule compose) (rule asked)
  then show ?thesis
    using s5 by (auto simp: Stream_correctClocks_def s1_def [symmetric] s2 s3 s4_def [symmetric] s5_def [symmetric] Let_def split: prod.split)
qed

lemma tick: "stream_rel R s (fst (Buffer_Correct s buf now1 now2 until1 until2 ask1 ask2))"
proof -
  obtain s1 q1 where s1: "Stream_adjustDelay s now1 (fst ask1) (snd ask1) = (s1, q1)" by fastforce
  obtain s2 st q2 where s2: "Stream_correctClocks s1 now2 until1 until2 (fst ask2) (snd ask2) = (s2, st, q2)" by (metis prod_cases3)
  have "stream_rel R s s1" "stream_rel R s1 s2"
    using adjusted [of s now1 "fst ask1" "snd ask1"] clocks_corrected [of s1 now2 until1 until2 "fst ask2" "snd ask2"] s1 s2 by simp_all
  then show ?thesis using compose same [of s s] by (auto simp: Buffer_Correct_def s1 s2 Let_def)
qed

end

section \<open>The shared controller\<close>

text \<open>A tick moves the controller by one step at most.\<close>

lemma map_buffers_delay [simp]: "s_delay (map_buffers f s) = s_delay s"
  by (simp add: map_buffers_def)

lemma askKeyframe_delay [simp]: "s_delay (fst (Stream_askKeyframe s since stamp)) = s_delay s"
  by (simp add: Stream_askKeyframe_def split: option.split)

lemma correctClocks_delay: "s_delay (fst (Stream_correctClocks s now until1 until2 since stamp)) = s_delay s"
proof -
  have a: "s_delay (fst (Stream_alignSenderClocks x)) = s_delay x" for x :: "'a Stream"
    by (simp add: Stream_alignSenderClocks_def Let_def case_prod_beta)
  have c: "s_delay (fst (Stream_clockCorrection x now sc until1)) = s_delay x" for x :: "'a Stream" and sc
    by (simp add: Stream_clockCorrection_def Let_def split: option.split)
  show ?thesis by (simp add: Stream_correctClocks_def Let_def case_prod_beta a c)
qed

lemma tick_delay:
  "s_delay (fst (Buffer_Correct s buf now1 now2 until1 until2 ask1 ask2)) = s_delay s \<or>
   (\<exists>late. s_delay (fst (Buffer_Correct s buf now1 now2 until1 until2 ask1 ask2)) = fst (Controller_Step (s_delay s) now1 late))"
proof -
  have "s_delay (fst (Stream_adjustDelay s now1 since stamp)) = s_delay s \<or>
      (\<exists>late. s_delay (fst (Stream_adjustDelay s now1 since stamp)) = fst (Controller_Step (s_delay s) now1 late))" for since stamp
    by (auto simp: Stream_adjustDelay_def Let_def case_prod_beta split: option.split)
  then show ?thesis by (auto simp: Buffer_Correct_def Let_def case_prod_beta correctClocks_delay)
qed

section \<open>Accounting\<close>

text \<open>A correction neither loses a packet uncounted, nor invents one, nor opens or closes a buffer.\<close>

definition accounted :: "Buffer \<Rightarrow> Buffer \<Rightarrow> bool" where
  "accounted b b' \<longleftrightarrow> keeps b b' \<and> b_closed b' = b_closed b"

lemma accounted_same:
  "b_queue b' = b_queue b \<Longrightarrow> b_dropped b' = b_dropped b \<Longrightarrow> b_catchUp b' = b_catchUp b \<Longrightarrow> b_closed b' = b_closed b \<Longrightarrow> accounted b b'"
  by (simp add: accounted_def keeps_def held_def buffer_inv_def contents_def)

lemma accounted_ops:
  "accounted b b" "accounted b (fst (Buffer_dynamicOffset c b now))" "accounted b (Buffer_moveClock b d reset)"
  "accounted b (fst (Buffer_senderCorrection b))" "accounted b (Buffer_alignSenderClock b base est)" "accounted b (source_correction d b)"
  "accounted b (b\<lparr>b_peakLate := t\<rparr>)" "accounted b (b\<lparr>b_recoveryAt := t\<rparr>)" "accounted b (Buffer_SenderReport b rtp ntp)"
  "accounted b (Buffer_SetTarget b target)"
proof -
  have closed: "b_closed (Buffer_moveClock b d reset) = b_closed b" for b by (simp add: Buffer_moveClock_def Buffer_dropAll_def Let_def)
  show "accounted b (Buffer_moveClock b d reset)" by (simp add: accounted_def keeps_clock closed)
  show "accounted b (Buffer_alignSenderClock b base est)"
    by (simp add: accounted_def keeps_align) (simp add: Buffer_alignSenderClock_def Buffer_moveClock_def Buffer_dropAll_def Let_def)
  show "accounted b (Buffer_SetTarget b target)" by (simp add: accounted_def keeps_simple) (simp add: Buffer_SetTarget_def Let_def)
  show "accounted b (fst (Buffer_dynamicOffset c b now))" by (simp add: accounted_def keeps_clock dynamicOffset_closed)
  show "accounted b (source_correction d b)" by (rule accounted_same) (simp_all add: source_correction_def split: option.split)
  show "accounted b (fst (Buffer_senderCorrection b))" by (rule accounted_same) (simp_all add: Buffer_senderCorrection_def Let_def)
  show "accounted b (Buffer_SenderReport b rtp ntp)" by (rule accounted_same) (simp_all add: Buffer_SenderReport_def Let_def)
qed (simp_all add: accounted_same)

lemma accounted_trans: "accounted b b1 \<Longrightarrow> accounted b1 b2 \<Longrightarrow> accounted b b2"
  by (auto simp: accounted_def intro: keeps_trans)

interpretation accounted: buffer_law accounted
  by unfold_locales (fact accounted_ops accounted_trans)+

lemma accounted_configure: "accounted b (configure_buffer c target changed b)"
  by (rule accounted_trans [OF accounted_ops(10) [of b target] accounted_same])
    (simp_all add: configure_buffer_def Let_def split: option.split)

end
