(* ===== verification/Stats_Registry.thy ===== *)
theory Stats_Registry
  imports Relay_Stream
begin

text \<open>
  \<^verbatim>\<open>internal/stats\<close>: what the dashboard shows of every ingest (\<^verbatim>\<open>stats.go\<close>), and the numbers
  \<^verbatim>\<open>internal/ingest/paths.go\<close> reads from the WebRTC stack's report.

  A method that reads the clock several times takes the readings as \<open>clk 0\<close>, \<open>clk 1\<close>, and so
  on, in the order the code makes them.  The registry is the map of counters; the relay it
  queries is an argument.
\<close>

section \<open>Counters\<close>

definition window :: duration where "window = 5 * Second"
definition sampleEvery :: duration where "sampleEvery = 250 * Millisecond"
definition adviceWindow :: duration where "adviceWindow = 30 * Second"

record Snapshot =
  sn_Live :: bool
  sn_Bitrate :: int
  sn_Late :: u64
  sn_Dropped :: u64
  sn_Since :: int
  sn_Advice :: string
  sn_Path :: string
  sn_Switches :: int
  sn_Codec :: string
  sn_RTT :: int
  sn_Lost :: u64
  sn_PathsLive :: int
  sn_PathsTotal :: int
  sn_Playout :: "Status option"

record sample =
  sm_at :: instant
  sm_bytes :: u64

record counter =
  ct_samples :: "sample list"
  ct_path :: string
  ct_codec :: string
  ct_pathsLive :: int
  ct_pathsTotal :: int
  ct_switches :: int
  ct_rtt :: int
  ct_lost :: u64
  ct_started :: instant
  ct_live :: bool
  ct_late :: u64
  ct_dropped :: u64
  ct_lastMoved :: instant
  ct_prevBad :: u64
  ct_lastSkipped :: instant
  ct_prevSkipped :: u64

definition counter_zero :: counter where
  "counter_zero = \<lparr>ct_samples = [], ct_path = [], ct_codec = [], ct_pathsLive = 0, ct_pathsTotal = 0,
     ct_switches = 0, ct_rtt = 0, ct_lost = 0, ct_started = 0, ct_live = False, ct_late = 0, ct_dropped = 0,
     ct_lastMoved = 0, ct_prevBad = 0, ct_lastSkipped = 0, ct_prevSkipped = 0\<rparr>"

definition Snapshot_zero :: Snapshot where
  "Snapshot_zero = \<lparr>sn_Live = False, sn_Bitrate = 0, sn_Late = 0, sn_Dropped = 0, sn_Since = 0, sn_Advice = [],
     sn_Path = [], sn_Switches = 0, sn_Codec = [], sn_RTT = 0, sn_Lost = 0, sn_PathsLive = 0, sn_PathsTotal = 0,
     sn_Playout = None\<rparr>"

type_synonym Registry = "string \<Rightarrow> counter option"

definition Registry_New :: Registry where
  "Registry_New = (\<lambda>_. None)"

section \<open>Recording\<close>

definition observeBuffer :: "counter \<Rightarrow> u64 \<Rightarrow> u64 \<Rightarrow> instant \<Rightarrow> counter" where
  "observeBuffer c late dropped now =
     (let c1 = c\<lparr>ct_late := late, ct_dropped := dropped\<rparr>;
          bad = late + dropped;
          c2 = (if bad > ct_prevBad c1 then c1\<lparr>ct_prevBad := bad, ct_lastMoved := now\<rparr> else c1)
      in if dropped > ct_prevSkipped c2 then c2\<lparr>ct_prevSkipped := dropped, ct_lastSkipped := now\<rparr> else c2)"

text \<open>The loop that drops samples older than the window, except the last.\<close>

fun expire :: "instant \<Rightarrow> sample list \<Rightarrow> sample list" where
  "expire cutoff (s # s' # rest) = (if sm_at s < cutoff then expire cutoff (s' # rest) else s # s' # rest)"
| "expire cutoff samples = samples"

definition counter_observe :: "counter \<Rightarrow> u64 \<Rightarrow> instant \<Rightarrow> counter" where
  "counter_observe c tot now =
     (if length (ct_samples c) > 0 \<and> time_Sub now (sm_at (last (ct_samples c))) < sampleEvery then c
      else let samples = ct_samples c @ [\<lparr>sm_at = now, sm_bytes = tot\<rparr>];
               cutoff = now - window
           in c\<lparr>ct_samples := expire cutoff samples\<rparr>)"

definition Registry_Publishing :: "Registry \<Rightarrow> string \<Rightarrow> instant \<Rightarrow> Registry" where
  "Registry_Publishing r ingestID now =
     (let previous = r ingestID;
          fresh = counter_zero\<lparr>ct_started := now, ct_live := True\<rparr>;
          fresh1 = (case previous of
                      None \<Rightarrow> fresh
                    | Some p \<Rightarrow> fresh\<lparr>ct_path := ct_path p, ct_switches := ct_switches p, ct_codec := ct_codec p\<rparr>)
      in r(ingestID \<mapsto> fresh1))"

text \<open>\<^verbatim>\<open>playout\<close> reads the relay and the clock: \<open>stamp\<close> is the relay's reading, \<open>now\<close> its own.\<close>

definition Registry_playout ::
  "'t Relay \<Rightarrow> string \<Rightarrow> counter \<Rightarrow> instant \<Rightarrow> instant \<Rightarrow> counter \<times> Status option" where
  "Registry_playout relay ingestID entry stamp now =
     (if \<not> ct_live entry then (entry, None)
      else case Relay_Stats relay ingestID stamp of
             None \<Rightarrow> (entry, None)
           | Some current \<Rightarrow> (observeBuffer entry (sta_Late current) (sta_Dropped current) now, sta_Playout current))"

definition Registry_Stopped :: "'t Relay \<Rightarrow> Registry \<Rightarrow> string \<Rightarrow> (nat \<Rightarrow> instant) \<Rightarrow> Registry" where
  "Registry_Stopped relay r ingestID clk =
     (case r ingestID of
        None \<Rightarrow> r
      | Some entry \<Rightarrow>
          let (entry1, _) = Registry_playout relay ingestID entry (clk 0) (clk 1)
          in r(ingestID \<mapsto> entry1\<lparr>ct_live := False, ct_samples := []\<rparr>))"

definition Registry_Path :: "Registry \<Rightarrow> string \<Rightarrow> string \<Rightarrow> Registry" where
  "Registry_Path r ingestID path =
     (let entry = (case r ingestID of None \<Rightarrow> counter_zero | Some e \<Rightarrow> e)
      in if ct_path entry = path then r(ingestID \<mapsto> entry)
         else let entry1 = (if ct_path entry \<noteq> [] then entry\<lparr>ct_switches := ct_switches entry + 1\<rparr> else entry)
              in r(ingestID \<mapsto> entry1\<lparr>ct_path := path\<rparr>))"

definition Registry_Codec :: "Registry \<Rightarrow> string \<Rightarrow> string \<Rightarrow> Registry" where
  "Registry_Codec r ingestID codec =
     (let entry = (case r ingestID of None \<Rightarrow> counter_zero | Some e \<Rightarrow> e)
      in r(ingestID \<mapsto> entry\<lparr>ct_codec := codec\<rparr>))"

definition Registry_Pairs :: "Registry \<Rightarrow> string \<Rightarrow> int \<Rightarrow> int \<Rightarrow> Registry" where
  "Registry_Pairs r ingestID live tot =
     (case r ingestID of
        None \<Rightarrow> r
      | Some entry \<Rightarrow> r(ingestID \<mapsto> entry\<lparr>ct_pathsLive := live, ct_pathsTotal := tot\<rparr>))"

definition Registry_Link :: "Registry \<Rightarrow> string \<Rightarrow> int \<Rightarrow> u64 \<Rightarrow> Registry" where
  "Registry_Link r ingestID rttMS lost =
     (case r ingestID of
        None \<Rightarrow> r
      | Some entry \<Rightarrow> r(ingestID \<mapsto> entry\<lparr>ct_rtt := rttMS, ct_lost := lost\<rparr>))"

definition Registry_Observe :: "Registry \<Rightarrow> string \<Rightarrow> u64 \<Rightarrow> u64 \<Rightarrow> u64 \<Rightarrow> instant \<Rightarrow> Registry" where
  "Registry_Observe r ingestID tot late dropped now =
     (case r ingestID of
        None \<Rightarrow> r
      | Some entry \<Rightarrow> r(ingestID \<mapsto> counter_observe (observeBuffer entry late dropped now) tot now))"

definition Registry_ObserveBytes :: "Registry \<Rightarrow> string \<Rightarrow> u64 \<Rightarrow> instant \<Rightarrow> Registry" where
  "Registry_ObserveBytes r ingestID tot now =
     (case r ingestID of
        None \<Rightarrow> r
      | Some entry \<Rightarrow> r(ingestID \<mapsto> counter_observe entry tot now))"

section \<open>Reporting\<close>

text \<open>\<^verbatim>\<open>Duration.Seconds\<close>.\<close>

definition duration_Seconds :: "duration \<Rightarrow> rat" where
  "duration_Seconds d =
     (let sec = d sdiv Second; nsec = d - sec * Second
      in f64 (f64 (of_int sec) + f64 (of_int nsec / 1000000000)))"

definition bitrate :: "sample list \<Rightarrow> instant \<Rightarrow> int" where
  "bitrate samples now =
     (if length samples < 2 then 0
      else let first = hd samples; final = last samples
           in if time_Sub now (sm_at final) > window then 0
              else let seconds = duration_Seconds (time_Sub (sm_at final) (sm_at first))
                   in if seconds \<le> 0 then 0
                      else f64_to_int (f64 (f64 (f64 (f64 (of_int (uint (sm_bytes final - sm_bytes first))) * 8)
                             / seconds) / 1000)))"

definition advise :: "Snapshot \<Rightarrow> bool \<Rightarrow> bool \<Rightarrow> string" where
  "advise snap recent skipping =
     (if \<not> sn_Live snap \<or> \<not> recent then []
      else if (case sn_Playout snap of None \<Rightarrow> False | Some st \<Rightarrow> st_Enabled st)
      then (if skipping then ''The relay discarded packets during recovery.''
            else ''Packets have recently arrived after their slot.'')
      else if skipping then ''Skipping to keyframes to keep up. Raise the delay for this camera.''
      else ''Packets are arriving after their slot. Raise the delay for this camera.'')"

definition Registry_Of :: "'t Relay \<Rightarrow> Registry \<Rightarrow> string \<Rightarrow> (nat \<Rightarrow> instant) \<Rightarrow> Registry \<times> Snapshot" where
  "Registry_Of relay r ingestID clk =
     (case r ingestID of
        None \<Rightarrow> (r, Snapshot_zero)
      | Some entry0 \<Rightarrow>
          let (entry, playout) = Registry_playout relay ingestID entry0 (clk 0) (clk 1);
              snap = \<lparr>sn_Live = ct_live entry, sn_Bitrate = bitrate (ct_samples entry) (clk 2),
                      sn_Late = ct_late entry, sn_Dropped = ct_dropped entry,
                      sn_Since = (if ct_live entry
                                  then f64_to_int (duration_Seconds (time_Sub (clk 3) (ct_started entry))) else 0),
                      sn_Advice = [], sn_Path = ct_path entry, sn_Switches = ct_switches entry,
                      sn_Codec = ct_codec entry, sn_RTT = ct_rtt entry, sn_Lost = ct_lost entry,
                      sn_PathsLive = ct_pathsLive entry, sn_PathsTotal = ct_pathsTotal entry, sn_Playout = playout\<rparr>
          in (r(ingestID \<mapsto> entry),
              snap\<lparr>sn_Advice := advise snap (time_Sub (clk 4) (ct_lastMoved entry) < adviceWindow)
                                           (time_Sub (clk 5) (ct_lastSkipped entry) < adviceWindow)\<rparr>))"

text \<open>\<^verbatim>\<open>Report\<close> over the cameras in order; \<open>clks k\<close> are the readings for the \<open>k\<close>-th.\<close>

fun Registry_Report ::
  "'t Relay \<Rightarrow> Registry \<Rightarrow> string list \<Rightarrow> (nat \<Rightarrow> nat \<Rightarrow> instant) \<Rightarrow> Registry \<times> (string \<Rightarrow> Snapshot option)" where
  "Registry_Report relay r [] clks = (r, \<lambda>_. None)"
| "Registry_Report relay r (ident # rest) clks =
     (let (r1, snap) = Registry_Of relay r ident (clks 0);
          (r2, out) = Registry_Report relay r1 rest (\<lambda>k. clks (k + 1))
      in (r2, if ident \<in> set rest then out else out(ident \<mapsto> snap)))"

section \<open>The report of the WebRTC stack\<close>

text \<open>The entries of \<^verbatim>\<open>webrtc.StatsReport\<close> the program looks at, in the order they are visited.\<close>

datatype stats_entry =
    CandidatePair (pair_Nominated: bool) (pair_Succeeded: bool) (pair_RTT: rat)
  | InboundRTP (inbound_PacketsLost: "32 word")
  | OtherEntry

fun roundTrip :: "stats_entry list \<Rightarrow> int" where
  "roundTrip [] = 0"
| "roundTrip (CandidatePair True _ rtt # rest) = f64_to_int (f64 (rtt * 1000))"
| "roundTrip (_ # rest) = roundTrip rest"

text \<open>\<^verbatim>\<open>lost\<close> is an \<^verbatim>\<open>int32\<close> and wraps; its conversion to \<^verbatim>\<open>uint64\<close> sign-extends.\<close>

definition packetsLost :: "stats_entry list \<Rightarrow> u64" where
  "packetsLost report =
     scast (foldl (\<lambda>lost entry. case entry of
                     InboundRTP n \<Rightarrow> if 0 <s n then lost + n else lost
                   | _ \<Rightarrow> lost) (0 :: 32 word) report)"

definition countPairs :: "stats_entry list \<Rightarrow> int \<times> int" where
  "countPairs report =
     foldl (\<lambda>(succeeded, tot) entry. case entry of
              CandidatePair _ ok _ \<Rightarrow> (if ok then succeeded + 1 else succeeded, tot + 1)
            | _ \<Rightarrow> (succeeded, tot)) (0, 0) report"

section \<open>Sequences of operations\<close>

datatype 't registry_op =
    RPublishing string instant | RStopped "'t Relay" string "nat \<Rightarrow> instant" | RPath string string | RCodec string string
  | RPairs string int int | RLink string int u64 | RObserve string u64 u64 u64 instant | RObserveBytes string u64 instant
  | ROf "'t Relay" string "nat \<Rightarrow> instant"

fun registry_step :: "Registry \<Rightarrow> 't registry_op \<Rightarrow> Registry" where
  "registry_step r (RPublishing ing now) = Registry_Publishing r ing now"
| "registry_step r (RStopped relay ing clk) = Registry_Stopped relay r ing clk"
| "registry_step r (RPath ing path) = Registry_Path r ing path"
| "registry_step r (RCodec ing codec) = Registry_Codec r ing codec"
| "registry_step r (RPairs ing live tot) = Registry_Pairs r ing live tot"
| "registry_step r (RLink ing rtt lost) = Registry_Link r ing rtt lost"
| "registry_step r (RObserve ing tot late dropped now) = Registry_Observe r ing tot late dropped now"
| "registry_step r (RObserveBytes ing tot now) = Registry_ObserveBytes r ing tot now"
| "registry_step r (ROf relay ing clk) = fst (Registry_Of relay r ing clk)"

definition registry_run :: "'t registry_op list \<Rightarrow> Registry" where
  "registry_run ops = foldl registry_step Registry_New ops"

section \<open>The sampling window\<close>

text \<open>Samples are at least 250 ms apart and span at most the window.\<close>

definition samples_ok :: "sample list \<Rightarrow> bool" where
  "samples_ok xs \<longleftrightarrow> sorted_wrt (\<lambda>x y. sm_at x + sampleEvery \<le> sm_at y) xs \<and>
     (xs \<noteq> [] \<longrightarrow> sm_at (last xs) - sm_at (hd xs) \<le> window)"

lemma expire_suffix: "\<exists>ys. xs = ys @ expire cutoff xs"
proof (induction cutoff xs rule: expire.induct)
  case (1 cutoff s s' rest)
  then show ?case by (cases "sm_at s < cutoff") (auto simp: Cons_eq_append_conv)
qed auto

lemma expire_hd: "xs \<noteq> [] \<Longrightarrow> cutoff \<le> sm_at (last xs) \<Longrightarrow> expire cutoff xs \<noteq> [] \<and> cutoff \<le> sm_at (hd (expire cutoff xs))"
  by (induction cutoff xs rule: expire.induct) auto

lemma expire_last: "xs \<noteq> [] \<Longrightarrow> last (expire cutoff xs) = last xs"
  by (induction cutoff xs rule: expire.induct) auto

lemma observe_samples_ok:
  assumes "samples_ok (ct_samples c)"
  shows "samples_ok (ct_samples (counter_observe c tot now))"
proof (cases "ct_samples c \<noteq> [] \<and> time_Sub now (sm_at (last (ct_samples c))) < sampleEvery")
  case False
  let ?xs = "ct_samples c @ [\<lparr>sm_at = now, sm_bytes = tot\<rparr>]"
  have far: "sm_at (last (ct_samples c)) + sampleEvery \<le> now" if "ct_samples c \<noteq> []"
    using False that time_Sub_less_iff [of sampleEvery now "sm_at (last (ct_samples c))"] by (simp add: sampleEvery_def)
  have "sm_at x + sampleEvery \<le> now" if "x \<in> set (ct_samples c)" for x
  proof -
    have "x = last (ct_samples c) \<or> sm_at x + sampleEvery \<le> sm_at (last (ct_samples c))"
      using that assms by (cases "ct_samples c" rule: rev_cases) (auto simp: samples_ok_def sorted_wrt_append)
    moreover have "ct_samples c \<noteq> []" using that by auto
    ultimately show ?thesis using far by (auto simp: sampleEvery_def)
  qed
  then have "sorted_wrt (\<lambda>x y. sm_at x + sampleEvery \<le> sm_at y) ?xs"
    using assms by (simp add: samples_ok_def sorted_wrt_append)
  moreover obtain ys where "?xs = ys @ expire (now - window) ?xs" using expire_suffix by blast
  ultimately have "sorted_wrt (\<lambda>x y. sm_at x + sampleEvery \<le> sm_at y) (expire (now - window) ?xs)"
    by (metis sorted_wrt_append)
  moreover have "now - window \<le> sm_at (hd (expire (now - window) ?xs))"
    using expire_hd [of ?xs "now - window"] by (simp add: window_def)
  ultimately show ?thesis
    using False expire_last [of ?xs "now - window"] by (auto simp: counter_observe_def samples_ok_def Let_def)
qed (use assms in \<open>simp add: counter_observe_def\<close>)

lemma spaced_length:
  assumes "sorted_wrt (\<lambda>x y. sm_at x + sampleEvery \<le> sm_at y) xs" "xs \<noteq> []"
  shows "sampleEvery * (int (length xs) - 1) \<le> sm_at (last xs) - sm_at (hd xs)"
  using assms
proof (induction xs)
  case (Cons x xs)
  then show ?case by (cases xs) (auto simp: algebra_simps)
qed simp

lemma samples_ok_length: "samples_ok xs \<Longrightarrow> length xs \<le> 21"
  using spaced_length [of xs] by (cases "xs = []") (auto simp: samples_ok_def sampleEvery_def window_def)

definition registry_ok :: "Registry \<Rightarrow> bool" where
  "registry_ok r \<longleftrightarrow> (\<forall>ing c. r ing = Some c \<longrightarrow> samples_ok (ct_samples c))"

lemma samples_ok_Nil [simp]: "samples_ok []"
  by (simp add: samples_ok_def)

lemma observeBuffer_frame [simp]:
  "ct_samples (observeBuffer c late dropped now) = ct_samples c" "ct_path (observeBuffer c late dropped now) = ct_path c"
  "ct_switches (observeBuffer c late dropped now) = ct_switches c"
  by (simp_all add: observeBuffer_def Let_def)

lemma counter_observe_frame [simp]:
  "ct_path (counter_observe c tot now) = ct_path c" "ct_switches (counter_observe c tot now) = ct_switches c"
  by (simp_all add: counter_observe_def Let_def)

lemma playout_frame [simp]:
  "ct_samples (fst (Registry_playout relay ing c stamp now)) = ct_samples c"
  "ct_path (fst (Registry_playout relay ing c stamp now)) = ct_path c"
  "ct_switches (fst (Registry_playout relay ing c stamp now)) = ct_switches c"
  by (simp_all add: Registry_playout_def split: option.split)

lemmas registry_defs = Registry_Publishing_def Registry_Stopped_def Registry_Path_def Registry_Codec_def Registry_Pairs_def
  Registry_Link_def Registry_Observe_def Registry_ObserveBytes_def Registry_Of_def Let_def case_prod_unfold counter_zero_def

interpretation registry: kept_invariant registry_step registry_ok
proof
  fix r :: Registry and op :: "'a registry_op"
  assume r: "registry_ok r"
  then have ok: "r ing = Some c \<Longrightarrow> samples_ok (ct_samples c)" for ing c by (simp add: registry_ok_def)
  show "registry_ok (registry_step r op)"
    by (cases op) (auto simp: registry_defs registry_ok_def ok observe_samples_ok split: option.splits if_splits)
qed

text \<open>
  The dashboard's memory per camera is bounded, and its bitrate is an average over at most five
  seconds: whatever is recorded and read, in any order and however often, a counter holds at
  most 21 samples, at least 250 ms apart, the oldest at most five seconds before the newest.
\<close>

theorem samples_stay_in_window:
  "case registry_run ops ing of
     None \<Rightarrow> True
   | Some c \<Rightarrow> length (ct_samples c) \<le> 21 \<and> sorted_wrt (\<lambda>x y. sm_at x + 250 * Millisecond \<le> sm_at y) (ct_samples c) \<and>
       (ct_samples c = [] \<or> sm_at (last (ct_samples c)) - sm_at (hd (ct_samples c)) \<le> 5 * Second)"
proof -
  have "registry_ok (registry_run ops)"
    unfolding registry_run_def by (rule registry.run_keeps) (simp add: registry_ok_def Registry_New_def)
  then show ?thesis
    using samples_ok_length by (auto simp: registry_ok_def samples_ok_def sampleEvery_def window_def split: option.split)
qed

section \<open>Path changes\<close>

text \<open>The paths reported for one ingest, and how often they change.\<close>

definition reported_paths :: "string \<Rightarrow> 't registry_op list \<Rightarrow> string list" where
  "reported_paths ing ops = concat (map (\<lambda>op. case op of RPath i p \<Rightarrow> if i = ing then [p] else [] | _ \<Rightarrow> []) ops)"

fun path_changes :: "string list \<Rightarrow> int" where
  "path_changes (p # q # rest) = (if p = q then 0 else 1) + path_changes (q # rest)"
| "path_changes _ = 0"

lemma path_changes_snoc:
  "path_changes (ps @ [q]) = path_changes ps + (if ps = [] \<or> last ps = q then 0 else 1)"
  by (induction ps rule: path_changes.induct) auto

definition seen :: "Registry \<Rightarrow> string \<Rightarrow> string \<times> int" where
  "seen r ing = (case r ing of None \<Rightarrow> ([], 0) | Some c \<Rightarrow> (ct_path c, ct_switches c))"

lemma step_seen:
  "seen (registry_step r op) ing =
     (case op of
        RPath i p \<Rightarrow> if i = ing then (p, snd (seen r ing) + (if fst (seen r ing) \<in> {[], p} then 0 else 1)) else seen r ing
      | _ \<Rightarrow> seen r ing)"
  by (cases op) (auto simp: registry_defs seen_def split: option.splits)

lemma run_seen:
  assumes "[] \<notin> set (reported_paths ing ops)"
  shows "seen (registry_run ops) ing =
    (if reported_paths ing ops = [] then [] else last (reported_paths ing ops), path_changes (reported_paths ing ops))"
  using assms
proof (induction ops rule: rev_induct)
  case (snoc op ops)
  have "reported_paths ing (ops @ [op]) =
      reported_paths ing ops @ (case op of RPath i p \<Rightarrow> if i = ing then [p] else [] | _ \<Rightarrow> [])"
    by (simp add: reported_paths_def)
  moreover have "registry_run (ops @ [op]) = registry_step (registry_run ops) op" by (simp add: registry_run_def)
  moreover have "reported_paths ing ops \<noteq> [] \<Longrightarrow> last (reported_paths ing ops) \<in> set (reported_paths ing ops)" by simp
  ultimately show ?case
    using snoc by (cases op) (auto simp: step_seen path_changes_snoc simp del: registry_step.simps last_in_set)
qed (simp add: seen_def registry_run_def Registry_New_def reported_paths_def)

text \<open>
  The switch count of the dashboard is exact: it is the number of times the reported network
  path of the camera changed, not counting the first; reconnects, statistics and reads between
  the reports do not disturb it, and the path shown is the last one reported.
\<close>

theorem switches_count_path_changes:
  assumes "[] \<notin> set (reported_paths ing ops)"
  shows "sn_Switches (snd (Registry_Of relay (registry_run ops) ing clk)) = path_changes (reported_paths ing ops) \<and>
    sn_Path (snd (Registry_Of relay (registry_run ops) ing clk)) =
      (if reported_paths ing ops = [] then [] else last (reported_paths ing ops))"
proof -
  have "seen r ing = (sn_Path (snd (Registry_Of relay r ing clk)), sn_Switches (snd (Registry_Of relay r ing clk)))" for r
    by (simp add: seen_def Registry_Of_def Snapshot_zero_def Let_def case_prod_unfold split: option.split)
  with run_seen [OF assms] show ?thesis by simp
qed

definition example_reports :: "nat registry_op list" where
  "example_reports = [RPath ''a'' ''p'', RPublishing ''a'' 5, RPath ''a'' ''q'', RPath ''a'' ''q'',
     RPublishing ''a'' 9, RPath ''a'' ''p'']"

theorem switches_count_path_changes_witness:
  "sn_Switches (snd (Registry_Of (Relay_New :: nat Relay) (registry_run example_reports) ''a'' (\<lambda>_. 0))) = 2"
proof -
  have "reported_paths ''a'' example_reports = [''p'', ''q'', ''q'', ''p'']"
    by (simp add: reported_paths_def example_reports_def)
  then show ?thesis
    using switches_count_path_changes [of "''a''" example_reports "Relay_New :: nat Relay" "\<lambda>_. 0"] by simp
qed

section \<open>The bitrate\<close>

lemma seconds_near:
  assumes "0 \<le> d" "d < 2 ^ 53"
  shows "near 2 (duration_Seconds d) (of_int d / 1000000000)"
proof -
  let ?sec = "d sdiv Second" and ?nsec = "d - d sdiv Second * Second"
  have sec: "0 \<le> ?sec" "0 \<le> ?nsec" "?nsec < Second"
    using assms sdiv_rest_pos [of Second d] sdiv_nonneg [of d Second] by auto
  have "f64 (of_int ?sec) = of_int ?sec" using sec assms by (intro f64_of_int) simp
  then have "near 1 (f64 (of_int ?sec)) (of_int ?sec)" using near_mono [OF near_refl, of "of_int ?sec" 1] sec by simp
  moreover have "near 1 (f64 (of_int ?nsec / 1000000000)) (of_int ?nsec / 1000000000)"
    using sec by (intro near_f64_self) simp
  ultimately have "near 2 (duration_Seconds d) (of_int ?sec + of_int ?nsec / 1000000000)"
    using near_f64 [OF near_add] by (simp add: duration_Seconds_def Let_def numeral_2_eq_2)
  then show ?thesis by (simp add: field_simps)
qed

text \<open>
  C28: The bitrate shown is the average over the sampling window in kbit/s, rounded down: with the
  newest sample no older than five seconds, it is within \<open>2\<^sup>-\<^sup>4\<^sup>9\<close> of the exact quotient
  of bits and time, relatively, and less than one below it, despite the roundings of the floating
  point; after five seconds without media it is zero.
\<close>

theorem bitrate_is_average:
  assumes "2 \<le> length samples" "sm_at (hd samples) < sm_at (last samples)"
    and "sm_at (last samples) - sm_at (hd samples) \<le> window" "\<bar>now - sm_at (last samples)\<bar> < 2 ^ 63"
  shows "(if now - sm_at (last samples) > 5 * Second then bitrate samples now = 0
    else let bits = 8 * of_int (uint (sm_bytes (last samples) - sm_bytes (hd samples)));
             exact = bits / (of_int (sm_at (last samples) - sm_at (hd samples)) / 1000000000) / 1000
         in exact * (1 - 1 / 2 ^ 49) - 1 < of_int (bitrate samples now) \<and>
            (of_int (bitrate samples now) :: rat) \<le> exact * (1 + 1 / 2 ^ 49))"
proof (cases "now - sm_at (last samples) > 5 * Second")
  case True
  then show ?thesis using assms time_Sub_exact [OF assms(4)] by (simp add: bitrate_def window_def)
next
  case False
  define T where "T = sm_at (last samples) - sm_at (hd samples)"
  define B where "B = uint (sm_bytes (last samples) - sm_bytes (hd samples))"
  define S where "S = duration_Seconds T"
  define exact where "exact = 8 * of_int B / (of_int T / 1000000000) / (1000::rat)"
  have T: "0 < T" "T \<le> 5 * Second" using assms by (simp_all add: T_def window_def)
  have S: "near 2 S (of_int T / 1000000000)" unfolding S_def using T by (intro seconds_near) auto
  then have "0 < S" using T ulp1_pos by (auto simp: near_def intro: less_le_trans [rotated])
  define d where "d = f64 (f64 (f64 (f64 (of_int B) * 8) / S) / 1000)"
  have "0 \<le> B" by (simp add: B_def)
  then have "near 2 (f64 (f64 (of_int B) * 8)) (of_int B * 8)"
    using near_f64 [OF near_scale [OF near_f64_self]] by (simp add: numeral_2_eq_2)
  then have "near 4 (f64 (f64 (of_int B) * 8) / S) (of_int B * 8 / (of_int T / 1000000000))"
    using near_divide [OF _ S] T by fastforce
  then have "near 5 (f64 (f64 (f64 (of_int B) * 8) / S)) (of_int B * 8 / (of_int T / 1000000000))"
    using near_f64 by fastforce
  then have "near 5 (f64 (f64 (f64 (of_int B) * 8) / S) / 1000) exact"
    using near_scale [of 5 _ _ "1 / 1000"] by (fastforce simp: exact_def mult.commute)
  then have d: "near 6 d exact" using near_f64 unfolding d_def by fastforce
  have rate: "bitrate samples now = \<lfloor>d\<rfloor>"
    using False assms \<open>0 < S\<close> near_nonneg [OF d] time_Sub_exact [OF assms(4)] time_Sub_exact [of "sm_at (last samples)" "sm_at (hd samples)"] T
    by (simp add: bitrate_def window_def Let_def f64_to_int_def d_def S_def B_def T_def)
  have "exact * (1 - 1 / 2 ^ 49) \<le> exact * (1 / ulp1 ^ 6)" "exact * ulp1 ^ 6 \<le> exact * (1 + 1 / 2 ^ 49)"
    using d ulp1_6 unfolding near_def by (blast intro: mult_left_mono)+
  then have "exact * (1 - 1 / 2 ^ 49) \<le> d" "d \<le> exact * (1 + 1 / 2 ^ 49)"
    using d unfolding near_def times_divide_eq_right mult_1_right by (blast intro: order_trans)+
  moreover have "d - 1 < of_int \<lfloor>d\<rfloor>" "of_int \<lfloor>d\<rfloor> \<le> d" by linarith+
  ultimately have "exact * (1 - 1 / 2 ^ 49) - 1 < of_int (bitrate samples now)"
    "of_int (bitrate samples now) \<le> exact * (1 + 1 / 2 ^ 49)" unfolding rate by linarith+
  then show ?thesis using False by (simp only: Let_def exact_def B_def T_def if_False)
qed

theorem bitrate_is_average_witness:
  "999 < bitrate [\<lparr>sm_at = 1000000000, sm_bytes = 0\<rparr>, \<lparr>sm_at = 2000000000, sm_bytes = 125125\<rparr>] 2500000000"
  using bitrate_is_average [of "[\<lparr>sm_at = 1000000000, sm_bytes = 0\<rparr>, \<lparr>sm_at = 2000000000, sm_bytes = 125125\<rparr>]" 2500000000]
  by (simp add: window_def)

text \<open>The loss total wraps: the sum of positive counts can come out as a huge number.\<close>

lemma packetsLost_wraps: "packetsLost [InboundRTP 0x7fffffff, InboundRTP 1] = 0xffffffff80000000"
  by (simp add: packetsLost_def word_sless_alt)

end
