(* ===== verification/Config.thy ===== *)
theory Config
  imports Dynamic_Delay
begin

text \<open>
  \<^verbatim>\<open>internal/config\<close>: the persisted settings and the camera list (\<^verbatim>\<open>config.go\<close>, \<^verbatim>\<open>keys.go\<close>,
  \<^verbatim>\<open>transport.go\<close>, \<^verbatim>\<open>reset_key.go\<close>, \<^verbatim>\<open>control_token.go\<close>).

  A method that writes the file takes the outcomes of the system calls it makes
  (\<open>save_io\<close>) and the file's contents, and returns the configuration, the contents
  and an error, if any.  The contents are the configuration they hold: the JSON
  encoding is not modelled.  Random bytes are an argument; \<open>None\<close> is a failure of the source.
  An optional field is a pointer that may be nil.
\<close>

section \<open>Settings\<close>

definition DelayFloorMS :: int where "DelayFloorMS = 0"
definition DelayDefaultMS :: int where "DelayDefaultMS = 2000"
definition DelayMaxMS :: int where "DelayMaxMS = 10000"
definition ConfigVersion :: int where "ConfigVersion = 1"
definition DefaultMediaPort :: int where "DefaultMediaPort = 7332"
definition DefaultSignalPort :: int where "DefaultSignalPort = 7331"
definition DefaultUIPort :: int where "DefaultUIPort = 7330"
definition DefaultControlPort :: int where "DefaultControlPort = 7333"

definition CodecH264 :: string where "CodecH264 = ''h264''"
definition CodecH265 :: string where "CodecH265 = ''h265''"
definition CodecAV1 :: string where "CodecAV1 = ''av1''"

definition AllCodecs :: "string list" where
  "AllCodecs = [CodecH264, CodecH265, CodecAV1]"

definition CodecLabel :: "string \<Rightarrow> string" where
  "CodecLabel name =
     (if name = CodecH264 then ''H.264'' else if name = CodecH265 then ''H.265''
      else if name = CodecAV1 then ''AV1'' else [])"

definition CodecLabelOf :: "string \<Rightarrow> string" where
  "CodecLabelOf mimeType =
     (case filter (\<lambda>name. EqualFold mimeType (''video/'' @ name)) AllCodecs of
        [] \<Rightarrow> [] | name # _ \<Rightarrow> CodecLabel name)"

record Ingest =
  i_Options :: Options
  i_ID :: string
  i_Label :: string
  i_SenderKey :: string
  i_ReceiverKey :: string
  i_Codecs :: "string list"
  i_DelayMS :: int
  i_SyncGroup :: string

record Config =
  cfg_Version :: int
  cfg_PublicHost :: string
  cfg_SignalBind :: string
  cfg_ControlBind :: string
  cfg_ControlLAN :: "bool option"
  cfg_ControlRemote :: "bool option"
  cfg_TLSCert :: string
  cfg_TLSKey :: string
  cfg_PublicURL :: string
  cfg_ICEPublicIPs :: "string list"
  cfg_MediaPort :: int
  cfg_SignalPort :: int
  cfg_UIPort :: int
  cfg_Autostart :: bool
  cfg_ControlToken :: string
  cfg_ControlPort :: int
  cfg_FloorMS :: "int option"
  cfg_Ingests :: "Ingest list"

datatype config_error =
    ErrLocateConfig | ErrReadConfig | ErrParseConfig | ErrFutureConfig | ErrWriteConfig | ErrGenerateKey
  | ErrUnknownIngest string | ErrBadIngest nat string | ErrBadKey string | ErrDuplicateKey string | ErrTokenExists

section \<open>Ranges\<close>

definition clampFloor :: "int option \<Rightarrow> int" where
  "clampFloor floorMS =
     (case floorMS of None \<Rightarrow> DelayFloorMS | Some f \<Rightarrow> min DelayMaxMS (max 0 f))"

definition Config_clampDelay :: "Config \<Rightarrow> int \<Rightarrow> int" where
  "Config_clampDelay c delayMS = min DelayMaxMS (max (clampFloor (cfg_FloorMS c)) delayMS)"

definition keepCodecs :: "string list \<Rightarrow> string list" where
  "keepCodecs codecs =
     (let keep = filter (\<lambda>name. name \<in> set codecs) AllCodecs
      in if length keep = 0 then [CodecH264] else keep)"

definition normalise_ingest :: "Config \<Rightarrow> Ingest \<Rightarrow> Ingest" where
  "normalise_ingest c ing =
     (let delay = Config_clampDelay c (i_DelayMS ing)
      in ing\<lparr>i_DelayMS := delay, i_Options := Options_Normalize (i_Options ing) delay,
             i_Codecs := keepCodecs (i_Codecs ing)\<rparr>)"

definition Config_normalise :: "Config \<Rightarrow> Config" where
  "Config_normalise c =
     (let c1 = c\<lparr>cfg_Version := ConfigVersion,
                 cfg_MediaPort := (if cfg_MediaPort c = 0 then DefaultMediaPort else cfg_MediaPort c),
                 cfg_SignalPort := (if cfg_SignalPort c = 0 then DefaultSignalPort else cfg_SignalPort c),
                 cfg_UIPort := (if cfg_UIPort c = 0 then DefaultUIPort else cfg_UIPort c),
                 cfg_ControlPort := (if cfg_ControlPort c = 0 then DefaultControlPort else cfg_ControlPort c),
                 cfg_FloorMS := (case cfg_FloorMS c of None \<Rightarrow> None | Some f \<Rightarrow> Some (clampFloor (Some f)))\<rparr>
      in c1\<lparr>cfg_Ingests := map (normalise_ingest c1) (cfg_Ingests c1)\<rparr>)"

section \<open>Saving and loading\<close>

record save_io =
  io_mkdir :: bool
  io_marshal :: bool
  io_create :: bool
  io_write :: bool
  io_sync :: bool
  io_close :: bool
  io_rename :: bool

type_synonym disk = "Config option"

text \<open>The file changes in the last step only: the rename of a complete temporary file.\<close>

definition saveLocked :: "save_io \<Rightarrow> Config \<Rightarrow> disk \<Rightarrow> disk \<times> config_error option" where
  "saveLocked io c d =
     (if \<not> io_mkdir io then (d, Some ErrWriteConfig)
      else if \<not> io_marshal io then (d, Some ErrWriteConfig)
      else if \<not> io_create io then (d, Some ErrWriteConfig)
      else let err = \<not> (io_write io \<and> io_sync io); closeErr = \<not> io_close io
           in if err then (d, Some ErrWriteConfig)
              else if closeErr then (d, Some ErrWriteConfig)
              else if \<not> io_rename io then (d, Some ErrWriteConfig)
              else (Some c, None))"

definition Config_default :: Config where
  "Config_default = \<lparr>cfg_Version = ConfigVersion, cfg_PublicHost = [], cfg_SignalBind = [], cfg_ControlBind = [],
     cfg_ControlLAN = None, cfg_ControlRemote = None, cfg_TLSCert = [], cfg_TLSKey = [], cfg_PublicURL = [],
     cfg_ICEPublicIPs = [], cfg_MediaPort = DefaultMediaPort, cfg_SignalPort = DefaultSignalPort,
     cfg_UIPort = DefaultUIPort, cfg_Autostart = False, cfg_ControlToken = [], cfg_ControlPort = 0,
     cfg_FloorMS = None, cfg_Ingests = []\<rparr>"

text \<open>What reading the file gives: it is absent, unreadable, not JSON, or JSON that sets
  fields of the defaults.\<close>

datatype file_read = FileAbsent | FileUnreadable | FileMalformed | FileConfig Config

definition Config_Load :: "bool \<Rightarrow> file_read \<Rightarrow> save_io \<Rightarrow> disk \<Rightarrow> disk \<times> (config_error + Config \<times> config_error option)" where
  "Config_Load located file io d =
     (if \<not> located then (d, Inl ErrLocateConfig)
      else case file of
             FileAbsent \<Rightarrow> (let (d', err) = saveLocked io Config_default d in (d', Inr (Config_default, err)))
           | FileUnreadable \<Rightarrow> (d, Inl ErrReadConfig)
           | FileMalformed \<Rightarrow> (d, Inl ErrParseConfig)
           | FileConfig c \<Rightarrow> if cfg_Version c > ConfigVersion then (d, Inl ErrFutureConfig)
                             else (d, Inr (Config_normalise c, None)))"

section \<open>Keys\<close>

definition SenderPrefix :: string where "SenderPrefix = ''s_''"
definition ReceiverPrefix :: string where "ReceiverPrefix = ''r_''"
definition keyBytes :: nat where "keyBytes = 16"

definition hex_digit :: "nat \<Rightarrow> char" where
  "hex_digit n = char_of (if n < 10 then 48 + n else 87 + n)"

definition hex_EncodeToString :: "bytes \<Rightarrow> string" where
  "hex_EncodeToString b = concat (map (\<lambda>x. [hex_digit (unat x div 16), hex_digit (unat x mod 16)]) b)"

definition is_hex :: "char \<Rightarrow> bool" where
  "is_hex ch \<longleftrightarrow> (let n = of_char ch :: nat in 48 \<le> n \<and> n \<le> 57 \<or> 97 \<le> n \<and> n \<le> 102 \<or> 65 \<le> n \<and> n \<le> 70)"

text \<open>\<open>random\<close> is what \<^verbatim>\<open>rand.Read\<close> fills the buffer with.\<close>

definition newKey :: "string \<Rightarrow> bytes option \<Rightarrow> config_error + string" where
  "newKey pre random =
     (case random of None \<Rightarrow> Inl ErrGenerateKey | Some buf \<Rightarrow> Inr (pre @ hex_EncodeToString buf))"

definition validKey :: "string \<Rightarrow> string \<Rightarrow> bool" where
  "validKey pre key \<longleftrightarrow>
     (if length key \<noteq> length pre + 2 * keyBytes then False
      else if \<not> HasPrefix key pre then False
      else let rest = ToLower (drop (length pre) key)
           in even (length rest) \<and> list_all is_hex rest \<and> key = ToLower key)"

section \<open>Mutation\<close>

type_synonym store = "Config \<times> disk"

definition Config_SetPublicHost :: "save_io \<Rightarrow> store \<Rightarrow> string \<Rightarrow> store \<times> config_error option" where
  "Config_SetPublicHost io s host =
     (case s of (c, d) \<Rightarrow>
        if cfg_PublicHost c = host then (s, None)
        else let previous = cfg_PublicHost c; c1 = c\<lparr>cfg_PublicHost := host\<rparr>
             in case saveLocked io c1 d of
                  (d', Some err) \<Rightarrow> ((c1\<lparr>cfg_PublicHost := previous\<rparr>, d'), Some err)
                | (d', None) \<Rightarrow> ((c1, d'), None))"

definition Config_SetAutostart :: "save_io \<Rightarrow> store \<Rightarrow> bool \<Rightarrow> store \<times> config_error option" where
  "Config_SetAutostart io s on =
     (case s of (c, d) \<Rightarrow>
        let previous = cfg_Autostart c; c1 = c\<lparr>cfg_Autostart := on\<rparr>
        in case saveLocked io c1 d of
             (d', Some err) \<Rightarrow> ((c1\<lparr>cfg_Autostart := previous\<rparr>, d'), Some err)
           | (d', None) \<Rightarrow> ((c1, d'), None))"

definition Config_SetControlAccess :: "save_io \<Rightarrow> store \<Rightarrow> string \<Rightarrow> bool \<Rightarrow> store \<times> config_error option" where
  "Config_SetControlAccess io s scope on =
     (case s of (c, d) \<Rightarrow>
        let previousLAN = cfg_ControlLAN c; previousRemote = cfg_ControlRemote c
        in if scope \<noteq> ''lan'' \<and> scope \<noteq> ''remote'' then (s, Some ErrParseConfig)
           else let c1 = (if scope = ''lan'' then c\<lparr>cfg_ControlLAN := Some on\<rparr>
                          else c\<lparr>cfg_ControlRemote := Some on\<rparr>)
                in case saveLocked io c1 d of
                     (d', Some err) \<Rightarrow> ((c1\<lparr>cfg_ControlLAN := previousLAN, cfg_ControlRemote := previousRemote\<rparr>, d'),
                                        Some err)
                   | (d', None) \<Rightarrow> ((c1, d'), None))"

definition Config_SetLANControl :: "save_io \<Rightarrow> store \<Rightarrow> bool \<Rightarrow> store \<times> config_error option" where
  "Config_SetLANControl io s on = Config_SetControlAccess io s ''lan'' on"

definition Config_CreateControlToken ::
  "save_io \<Rightarrow> store \<Rightarrow> bytes option \<Rightarrow> store \<times> (config_error + string)" where
  "Config_CreateControlToken io s random =
     (case s of (c, d) \<Rightarrow>
        if cfg_ControlToken c \<noteq> [] then (s, Inl ErrTokenExists)
        else case random of
               None \<Rightarrow> (s, Inl ErrGenerateKey)
             | Some secret \<Rightarrow>
                 let c1 = c\<lparr>cfg_ControlToken := hex_EncodeToString secret\<rparr>
                 in case saveLocked io c1 d of
                      (d', Some err) \<Rightarrow> ((c1\<lparr>cfg_ControlToken := []\<rparr>, d'), Inl err)
                    | (d', None) \<Rightarrow> ((c1, d'), Inr (cfg_ControlToken c1)))"

text \<open>The index of the first camera with an identifier.\<close>

fun find_ingest :: "string \<Rightarrow> Ingest list \<Rightarrow> nat option" where
  "find_ingest ident [] = None"
| "find_ingest ident (ing # rest) = (if i_ID ing = ident then Some 0 else map_option Suc (find_ingest ident rest))"

definition Config_update :: "save_io \<Rightarrow> store \<Rightarrow> string \<Rightarrow> (Ingest \<Rightarrow> Ingest) \<Rightarrow> store \<times> config_error option" where
  "Config_update io s ident change =
     (case s of (c, d) \<Rightarrow>
        case find_ingest ident (cfg_Ingests c) of
          None \<Rightarrow> (s, Some (ErrUnknownIngest ident))
        | Some idx \<Rightarrow>
            let previous = cfg_Ingests c ! idx;
                c1 = c\<lparr>cfg_Ingests := (cfg_Ingests c)[idx := change previous]\<rparr>
            in case saveLocked io c1 d of
                 (d', Some err) \<Rightarrow> ((c1\<lparr>cfg_Ingests := (cfg_Ingests c1)[idx := previous]\<rparr>, d'), Some err)
               | (d', None) \<Rightarrow> ((c1, d'), None))"

definition Config_SetSyncGroup :: "save_io \<Rightarrow> store \<Rightarrow> string \<Rightarrow> string \<Rightarrow> store \<times> config_error option" where
  "Config_SetSyncGroup io s ident grp = Config_update io s ident (\<lambda>ing. ing\<lparr>i_SyncGroup := grp\<rparr>)"

definition Config_SetLabel :: "save_io \<Rightarrow> store \<Rightarrow> string \<Rightarrow> string \<Rightarrow> store \<times> config_error option" where
  "Config_SetLabel io s ident label = Config_update io s ident (\<lambda>ing. ing\<lparr>i_Label := label\<rparr>)"

definition Config_SetCodecs :: "save_io \<Rightarrow> store \<Rightarrow> string \<Rightarrow> string list \<Rightarrow> store \<times> config_error option" where
  "Config_SetCodecs io s ident codecs =
     (let keep = keepCodecs codecs in Config_update io s ident (\<lambda>ing. ing\<lparr>i_Codecs := keep\<rparr>))"

definition Config_SetDelay :: "save_io \<Rightarrow> store \<Rightarrow> string \<Rightarrow> int \<Rightarrow> store \<times> config_error option" where
  "Config_SetDelay io s ident delayMS =
     Config_update io s ident (\<lambda>ing.
       let delay = Config_clampDelay (fst s) delayMS
       in ing\<lparr>i_DelayMS := delay, i_Options := Options_Normalize (i_Options ing) delay\<rparr>)"

definition Config_SetDynamicDelay :: "save_io \<Rightarrow> store \<Rightarrow> string \<Rightarrow> Options \<Rightarrow> store \<times> config_error option" where
  "Config_SetDynamicDelay io s ident options =
     Config_update io s ident (\<lambda>ing. ing\<lparr>i_Options := Options_Normalize options (i_DelayMS ing)\<rparr>)"

text \<open>\<^verbatim>\<open>AddIngest\<close> draws three keys.\<close>

definition Config_AddIngest ::
  "save_io \<Rightarrow> store \<Rightarrow> string \<Rightarrow> bytes option \<Rightarrow> bytes option \<Rightarrow> bytes option \<Rightarrow> store \<times> (config_error + Ingest)" where
  "Config_AddIngest io s label r1 r2 r3 =
     (case newKey SenderPrefix r1 of
        Inl err \<Rightarrow> (s, Inl err)
      | Inr senderKey \<Rightarrow>
          (case newKey ReceiverPrefix r2 of
             Inl err \<Rightarrow> (s, Inl err)
           | Inr receiverKey \<Rightarrow>
               (case newKey [] r3 of
                  Inl err \<Rightarrow> (s, Inl err)
                | Inr ident \<Rightarrow>
                    (case s of (c, d) \<Rightarrow>
                       let ing = \<lparr>i_Options = Options_Normalize Options_zero (Config_clampDelay c DelayDefaultMS),
                                  i_ID = ident, i_Label = label, i_SenderKey = senderKey,
                                  i_ReceiverKey = receiverKey, i_Codecs = [CodecH264],
                                  i_DelayMS = Config_clampDelay c DelayDefaultMS, i_SyncGroup = []\<rparr>;
                           c1 = c\<lparr>cfg_Ingests := cfg_Ingests c @ [ing]\<rparr>
                       in case saveLocked io c1 d of
                            (d', Some err) \<Rightarrow>
                              ((c1\<lparr>cfg_Ingests := take (length (cfg_Ingests c1) - 1) (cfg_Ingests c1)\<rparr>, d'), Inl err)
                          | (d', None) \<Rightarrow> ((c1, d'), Inr (last (cfg_Ingests c1)))))))"

definition Config_RemoveIngest :: "save_io \<Rightarrow> store \<Rightarrow> string \<Rightarrow> store \<times> config_error option" where
  "Config_RemoveIngest io s ident =
     (case s of (c, d) \<Rightarrow>
        case find_ingest ident (cfg_Ingests c) of
          None \<Rightarrow> (s, Some (ErrUnknownIngest ident))
        | Some idx \<Rightarrow>
            let previous = cfg_Ingests c;
                c1 = c\<lparr>cfg_Ingests := take idx previous @ drop (idx + 1) previous\<rparr>
            in case saveLocked io c1 d of
                 (d', Some err) \<Rightarrow> ((c1\<lparr>cfg_Ingests := previous\<rparr>, d'), Some err)
               | (d', None) \<Rightarrow> ((c1, d'), None))"

definition Config_ResetSenderKey :: "save_io \<Rightarrow> store \<Rightarrow> string \<Rightarrow> bytes option \<Rightarrow> store \<times> (config_error + Ingest)" where
  "Config_ResetSenderKey io s ident random =
     (case s of (c, d) \<Rightarrow>
        case find_ingest ident (cfg_Ingests c) of
          None \<Rightarrow> (s, Inl (ErrUnknownIngest ident))
        | Some idx \<Rightarrow>
            (case newKey SenderPrefix random of
               Inl err \<Rightarrow> (s, Inl err)
             | Inr key \<Rightarrow>
                 let previous = i_SenderKey (cfg_Ingests c ! idx);
                     c1 = c\<lparr>cfg_Ingests := (cfg_Ingests c)[idx := (cfg_Ingests c ! idx)\<lparr>i_SenderKey := key\<rparr>]\<rparr>
                 in case saveLocked io c1 d of
                      (d', Some err) \<Rightarrow>
                        ((c1\<lparr>cfg_Ingests := (cfg_Ingests c1)[idx := (cfg_Ingests c1 ! idx)\<lparr>i_SenderKey := previous\<rparr>]\<rparr>, d'),
                         Inl err)
                    | (d', None) \<Rightarrow> ((c1, d'), Inr (cfg_Ingests c1 ! idx))))"

text \<open>The loop of \<^verbatim>\<open>validateIngests\<close>; \<open>seen\<close> holds identifiers and keys.\<close>

fun validate_loop :: "nat \<Rightarrow> string set \<Rightarrow> Ingest list \<Rightarrow> config_error option" where
  "validate_loop idx seen [] = None"
| "validate_loop idx seen (ing # rest) =
     (if i_ID ing = [] then Some (ErrBadIngest idx [])
      else if i_ID ing \<in> seen then Some (ErrBadIngest idx (i_ID ing))
      else let seen1 = insert (i_ID ing) seen
           in if \<not> validKey SenderPrefix (i_SenderKey ing) \<or> \<not> validKey ReceiverPrefix (i_ReceiverKey ing)
              then Some (ErrBadKey (i_ID ing))
              else if i_SenderKey ing \<in> seen1 then Some (ErrDuplicateKey (i_ID ing))
              else let seen2 = insert (i_SenderKey ing) seen1
                   in if i_ReceiverKey ing \<in> seen2 then Some (ErrDuplicateKey (i_ID ing))
                      else validate_loop (idx + 1) (insert (i_ReceiverKey ing) seen2) rest)"

definition validateIngests :: "Ingest list \<Rightarrow> config_error option" where
  "validateIngests list = validate_loop 0 {} list"

definition staleIngests :: "Ingest list \<Rightarrow> Ingest list \<Rightarrow> string list" where
  "staleIngests current next =
     concat (map (\<lambda>was.
       case find_ingest (i_ID was) next of
         None \<Rightarrow> [i_ID was]
       | Some idx \<Rightarrow>
           let now = next ! idx
           in if i_SenderKey now \<noteq> i_SenderKey was \<or> i_ReceiverKey now \<noteq> i_ReceiverKey was \<or>
                 keepCodecs (i_Codecs now) \<noteq> i_Codecs was
              then [i_ID was] else []) current)"

definition Config_ReplaceIngests ::
  "save_io \<Rightarrow> store \<Rightarrow> Ingest list \<Rightarrow> store \<times> (config_error + string list)" where
  "Config_ReplaceIngests io s next =
     (case validateIngests next of
        Some err \<Rightarrow> (s, Inl err)
      | None \<Rightarrow>
          (case s of (c, d) \<Rightarrow>
             let stale = staleIngests (cfg_Ingests c) next;
                 replacement = map (\<lambda>ing.
                   let delay = Config_clampDelay c (i_DelayMS ing)
                   in ing\<lparr>i_Codecs := keepCodecs (i_Codecs ing), i_DelayMS := delay,
                          i_Options := Options_Normalize (i_Options ing) delay\<rparr>) next;
                 previous = cfg_Ingests c;
                 c1 = c\<lparr>cfg_Ingests := replacement\<rparr>
             in case saveLocked io c1 d of
                  (d', Some err) \<Rightarrow> ((c1\<lparr>cfg_Ingests := previous\<rparr>, d'), Inl err)
                | (d', None) \<Rightarrow> ((c1, d'), Inr stale)))"

section \<open>Queries\<close>

definition Config_EffectiveDelay :: "Config \<Rightarrow> string \<Rightarrow> int" where
  "Config_EffectiveDelay c ident =
     (let (own, grp) = (case find_ingest ident (cfg_Ingests c) of
                          None \<Rightarrow> (0, [])
                        | Some idx \<Rightarrow> (i_DelayMS (cfg_Ingests c ! idx), i_SyncGroup (cfg_Ingests c ! idx)))
      in if grp = [] then own
         else foldl (\<lambda>best ing. if i_SyncGroup ing = grp \<and> i_DelayMS ing > best then i_DelayMS ing else best)
                    own (cfg_Ingests c))"

definition Config_GroupPeers :: "Config \<Rightarrow> string \<Rightarrow> string list" where
  "Config_GroupPeers c ident =
     (let grp = (case find_ingest ident (cfg_Ingests c) of
                   None \<Rightarrow> [] | Some idx \<Rightarrow> i_SyncGroup (cfg_Ingests c ! idx))
      in if grp = [] then [ident]
         else map i_ID (filter (\<lambda>ing. i_SyncGroup ing = grp) (cfg_Ingests c)))"

definition Config_DelayOptions :: "Config \<Rightarrow> string \<Rightarrow> Options" where
  "Config_DelayOptions c ident =
     (case find_ingest ident (cfg_Ingests c) of
        None \<Rightarrow> Options_zero
      | Some idx \<Rightarrow>
          let ing = cfg_Ingests c ! idx;
              options = Options_Normalize (i_Options ing) (i_DelayMS ing)
          in options\<lparr>Enabled := Enabled options \<and> i_SyncGroup ing = []\<rparr>)"

datatype Role = RoleNone | RoleSender | RoleReceiver

definition Config_Resolve :: "Config \<Rightarrow> string \<Rightarrow> Ingest option \<times> Role" where
  "Config_Resolve c key =
     foldl (\<lambda>found ing.
       let found1 = (if key = i_SenderKey ing then (Some ing, RoleSender) else found)
       in if key = i_ReceiverKey ing then (Some ing, RoleReceiver) else found1)
     (None, RoleNone) (cfg_Ingests c)"

definition Config_Floor :: "Config \<Rightarrow> int" where
  "Config_Floor c = clampFloor (cfg_FloorMS c)"

definition Config_IngestIDs :: "Config \<Rightarrow> string list" where
  "Config_IngestIDs c = map i_ID (cfg_Ingests c)"

definition Config_LANControlEnabled :: "Config \<Rightarrow> bool" where
  "Config_LANControlEnabled c = (case cfg_ControlLAN c of None \<Rightarrow> True | Some on \<Rightarrow> on)"

definition Config_RemoteControlEnabled :: "Config \<Rightarrow> bool" where
  "Config_RemoteControlEnabled c = (case cfg_ControlRemote c of Some on \<Rightarrow> on | None \<Rightarrow> cfg_ControlToken c \<noteq> [])"

text \<open>A parsed URL, as far as \<^verbatim>\<open>httpsOrigin\<close> looks at it.\<close>

record parsed_url =
  u_Scheme :: string
  u_Host :: string
  u_User :: bool
  u_RawQuery :: string
  u_Fragment :: string
  u_Path :: string

definition httpsOrigin :: "(string \<Rightarrow> parsed_url option) \<Rightarrow> string \<Rightarrow> bool" where
  "httpsOrigin parse text =
     (case parse text of
        None \<Rightarrow> False
      | Some u \<Rightarrow> u_Scheme u = ''https'' \<and> u_Host u \<noteq> [] \<and> \<not> u_User u \<and> u_RawQuery u = [] \<and>
                  u_Fragment u = [] \<and> (u_Path u = [] \<or> u_Path u = ''/''))"

definition Config_ValidateTransport :: "(string \<Rightarrow> parsed_url option) \<Rightarrow> Config \<Rightarrow> config_error option" where
  "Config_ValidateTransport parse c =
     (if (cfg_TLSCert c = []) \<noteq> (cfg_TLSKey c = []) then Some ErrParseConfig
      else if cfg_PublicURL c \<noteq> [] \<and> \<not> httpsOrigin parse (cfg_PublicURL c) then Some ErrParseConfig
      else None)"

definition TrimSuffix :: "string \<Rightarrow> string \<Rightarrow> string" where
  "TrimSuffix s suffix =
     (if length suffix \<le> length s \<and> drop (length s - length suffix) s = suffix
      then take (length s - length suffix) s else s)"

definition TrimPrefix :: "string \<Rightarrow> string \<Rightarrow> string" where
  "TrimPrefix s pre = (if HasPrefix s pre then drop (length pre) s else s)"

text \<open>\<^verbatim>\<open>strings.Trim(s, "[]")\<close>.\<close>

definition trim_brackets :: "string \<Rightarrow> string" where
  "trim_brackets s =
     (let inner = dropWhile (\<lambda>ch. ch \<in> set ''[]'') s
      in rev (dropWhile (\<lambda>ch. ch \<in> set ''[]'') (rev inner)))"

fun decimal_nat :: "nat \<Rightarrow> string" where
  "decimal_nat n = (if n < 10 then [char_of (48 + n)] else decimal_nat (n div 10) @ [char_of (48 + n mod 10)])"

definition decimal :: "int \<Rightarrow> string" where
  "decimal n = (if n < 0 then ''-'' @ decimal_nat (nat (- n)) else decimal_nat (nat n))"

definition JoinHostPort :: "string \<Rightarrow> string \<Rightarrow> string" where
  "JoinHostPort host port =
     (if CHR '':'' \<in> set host then ''['' @ host @ '']:'' @ port else host @ '':'' @ port)"

definition Config_SignalLinks :: "Config \<Rightarrow> string \<Rightarrow> string \<times> string" where
  "Config_SignalLinks c host =
     (if cfg_PublicURL c \<noteq> []
      then let base = TrimSuffix (cfg_PublicURL c) ''/''
           in (''whips'' @ TrimPrefix base ''https'' @ ''/whip/'', base @ ''/player/'')
      else let tls = (cfg_TLSCert c \<noteq> [] \<and> cfg_TLSKey c \<noteq> []);
               sender = (if tls then ''whips'' else ''whip'');
               receiver = (if tls then ''https'' else ''http'');
               authority = JoinHostPort (trim_brackets host) (decimal (cfg_SignalPort c))
           in (sender @ ''://'' @ authority @ ''/whip/'', receiver @ ''://'' @ authority @ ''/player/''))"

section \<open>Ranges and codecs\<close>

lemma clampFloor_range: "0 \<le> clampFloor f \<and> clampFloor f \<le> DelayMaxMS"
  by (auto simp: clampFloor_def DelayMaxMS_def DelayFloorMS_def split: option.split)

lemma clampDelay_range:
  "clampFloor (cfg_FloorMS c) \<le> Config_clampDelay c d \<and> Config_clampDelay c d \<le> DelayMaxMS"
  using clampFloor_range by (auto simp: Config_clampDelay_def)

lemma keepCodecs_props:
  "keepCodecs cs \<noteq> []" "set (keepCodecs cs) \<subseteq> set AllCodecs" "distinct (keepCodecs cs)"
  "keepCodecs (keepCodecs cs) = keepCodecs cs"
  by (auto simp: keepCodecs_def Let_def AllCodecs_def CodecH264_def CodecH265_def CodecAV1_def)

text \<open>A camera in range: its delay between the floor and ten seconds, its adaptive
  settings normalised for it, its codecs a non-empty set the relay can carry.\<close>

definition ingest_ok :: "Config \<Rightarrow> Ingest \<Rightarrow> bool" where
  "ingest_ok c ing \<longleftrightarrow> clampFloor (cfg_FloorMS c) \<le> i_DelayMS ing \<and> i_DelayMS ing \<le> DelayMaxMS \<and>
     Options_Normalize (i_Options ing) (i_DelayMS ing) = i_Options ing \<and> keepCodecs (i_Codecs ing) = i_Codecs ing"

definition config_ok :: "Config \<Rightarrow> bool" where
  "config_ok c \<longleftrightarrow> list_all (ingest_ok c) (cfg_Ingests c)"

lemma ingest_ok_floor: "cfg_FloorMS c' = cfg_FloorMS c \<Longrightarrow> ingest_ok c' ing = ingest_ok c ing"
  by (simp add: ingest_ok_def)

lemma clampFloor_idem [simp]: "clampFloor (Some (clampFloor (Some f))) = clampFloor (Some f)"
  by (simp add: clampFloor_def DelayMaxMS_def)

lemma normalise_ok: "config_ok (Config_normalise c)"
  using clampFloor_range
  by (auto simp: config_ok_def Config_normalise_def Let_def list_all_iff ingest_ok_def normalise_ingest_def
      Normalize_idem keepCodecs_props Config_clampDelay_def split: option.split)

lemma find_ingest_Some:
  "find_ingest ident xs = Some i \<Longrightarrow> i < length xs \<and> i_ID (xs ! i) = ident \<and> (\<forall>j < i. i_ID (xs ! j) \<noteq> ident)"
proof (induction xs arbitrary: i)
  case (Cons x xs)
  show ?case
  proof (cases "i_ID x = ident")
    case False
    then obtain k where k: "find_ingest ident xs = Some k" "i = Suc k" using Cons.prems by auto
    have "i_ID ((x # xs) ! j) \<noteq> ident" if "j < Suc k" for j
      using Cons.IH [OF k(1)] False that by (cases j) auto
    with Cons.IH [OF k(1)] k(2) show ?thesis by simp
  qed (use Cons.prems in simp)
qed simp

lemma find_ingest_None: "find_ingest ident xs = None \<longleftrightarrow> ident \<notin> i_ID ` set xs"
  by (induction xs) auto

section \<open>Transactions\<close>

datatype config_op =
    OpPublicHost string | OpAutostart bool | OpControlAccess string bool | OpToken "bytes option"
  | OpSyncGroup string string | OpLabel string string | OpCodecs string "string list" | OpDelay string int
  | OpDynamicDelay string Options | OpAdd string "bytes option" "bytes option" "bytes option" | OpRemove string
  | OpResetKey string "bytes option" | OpReplace "Ingest list"

definition error_of :: "'e + 'a \<Rightarrow> 'e option" where
  "error_of r = (case r of Inl e \<Rightarrow> Some e | Inr _ \<Rightarrow> None)"

fun config_apply :: "save_io \<Rightarrow> store \<Rightarrow> config_op \<Rightarrow> store \<times> config_error option" where
  "config_apply io s (OpPublicHost host) = Config_SetPublicHost io s host"
| "config_apply io s (OpAutostart on) = Config_SetAutostart io s on"
| "config_apply io s (OpControlAccess scope on) = Config_SetControlAccess io s scope on"
| "config_apply io s (OpToken r) = apsnd error_of (Config_CreateControlToken io s r)"
| "config_apply io s (OpSyncGroup ident grp) = Config_SetSyncGroup io s ident grp"
| "config_apply io s (OpLabel ident label) = Config_SetLabel io s ident label"
| "config_apply io s (OpCodecs ident codecs) = Config_SetCodecs io s ident codecs"
| "config_apply io s (OpDelay ident delay) = Config_SetDelay io s ident delay"
| "config_apply io s (OpDynamicDelay ident options) = Config_SetDynamicDelay io s ident options"
| "config_apply io s (OpAdd label r1 r2 r3) = apsnd error_of (Config_AddIngest io s label r1 r2 r3)"
| "config_apply io s (OpRemove ident) = Config_RemoveIngest io s ident"
| "config_apply io s (OpResetKey ident r) = apsnd error_of (Config_ResetSenderKey io s ident r)"
| "config_apply io s (OpReplace next) = apsnd error_of (Config_ReplaceIngests io s next)"

text \<open>The specification of a change: the configuration it asks for, or why it is refused.\<close>

definition change_ingest :: "Config \<Rightarrow> string \<Rightarrow> (Ingest \<Rightarrow> Ingest) \<Rightarrow> config_error + Config" where
  "change_ingest c ident change =
     (case find_ingest ident (cfg_Ingests c) of
        None \<Rightarrow> Inl (ErrUnknownIngest ident)
      | Some i \<Rightarrow> Inr (c\<lparr>cfg_Ingests := (cfg_Ingests c)[i := change (cfg_Ingests c ! i)]\<rparr>))"

definition new_ingest :: "Config \<Rightarrow> string \<Rightarrow> bytes \<Rightarrow> bytes \<Rightarrow> bytes \<Rightarrow> Ingest" where
  "new_ingest c label b1 b2 b3 =
     \<lparr>i_Options = Options_Normalize Options_zero (Config_clampDelay c DelayDefaultMS),
      i_ID = hex_EncodeToString b3, i_Label = label, i_SenderKey = SenderPrefix @ hex_EncodeToString b1,
      i_ReceiverKey = ReceiverPrefix @ hex_EncodeToString b2, i_Codecs = [CodecH264],
      i_DelayMS = Config_clampDelay c DelayDefaultMS, i_SyncGroup = []\<rparr>"

fun config_goal :: "Config \<Rightarrow> config_op \<Rightarrow> config_error + Config" where
  "config_goal c (OpPublicHost host) = Inr (c\<lparr>cfg_PublicHost := host\<rparr>)"
| "config_goal c (OpAutostart on) = Inr (c\<lparr>cfg_Autostart := on\<rparr>)"
| "config_goal c (OpControlAccess scope on) =
     (if scope = ''lan'' then Inr (c\<lparr>cfg_ControlLAN := Some on\<rparr>)
      else if scope = ''remote'' then Inr (c\<lparr>cfg_ControlRemote := Some on\<rparr>) else Inl ErrParseConfig)"
| "config_goal c (OpToken r) =
     (if cfg_ControlToken c \<noteq> [] then Inl ErrTokenExists
      else case r of None \<Rightarrow> Inl ErrGenerateKey | Some b \<Rightarrow> Inr (c\<lparr>cfg_ControlToken := hex_EncodeToString b\<rparr>))"
| "config_goal c (OpSyncGroup ident grp) = change_ingest c ident (\<lambda>ing. ing\<lparr>i_SyncGroup := grp\<rparr>)"
| "config_goal c (OpLabel ident label) = change_ingest c ident (\<lambda>ing. ing\<lparr>i_Label := label\<rparr>)"
| "config_goal c (OpCodecs ident codecs) = change_ingest c ident (\<lambda>ing. ing\<lparr>i_Codecs := keepCodecs codecs\<rparr>)"
| "config_goal c (OpDelay ident delay) = change_ingest c ident (\<lambda>ing.
     ing\<lparr>i_DelayMS := Config_clampDelay c delay, i_Options := Options_Normalize (i_Options ing) (Config_clampDelay c delay)\<rparr>)"
| "config_goal c (OpDynamicDelay ident options) = change_ingest c ident (\<lambda>ing.
     ing\<lparr>i_Options := Options_Normalize options (i_DelayMS ing)\<rparr>)"
| "config_goal c (OpAdd label r1 r2 r3) =
     (case (r1, r2, r3) of
        (Some b1, Some b2, Some b3) \<Rightarrow> Inr (c\<lparr>cfg_Ingests := cfg_Ingests c @ [new_ingest c label b1 b2 b3]\<rparr>)
      | _ \<Rightarrow> Inl ErrGenerateKey)"
| "config_goal c (OpRemove ident) =
     (case find_ingest ident (cfg_Ingests c) of
        None \<Rightarrow> Inl (ErrUnknownIngest ident)
      | Some i \<Rightarrow> Inr (c\<lparr>cfg_Ingests := take i (cfg_Ingests c) @ drop (i + 1) (cfg_Ingests c)\<rparr>))"
| "config_goal c (OpResetKey ident r) =
     (case r of
        None \<Rightarrow> (if find_ingest ident (cfg_Ingests c) = None then Inl (ErrUnknownIngest ident) else Inl ErrGenerateKey)
      | Some b \<Rightarrow> change_ingest c ident (\<lambda>ing. ing\<lparr>i_SenderKey := SenderPrefix @ hex_EncodeToString b\<rparr>))"
| "config_goal c (OpReplace cams) =
     (case validateIngests cams of
        Some err \<Rightarrow> Inl err
      | None \<Rightarrow> Inr (c\<lparr>cfg_Ingests := map (normalise_ingest c) cams\<rparr>))"

text \<open>The file system does every step of a save.\<close>

definition io_ok :: "save_io \<Rightarrow> bool" where
  "io_ok io \<longleftrightarrow> io_mkdir io \<and> io_marshal io \<and> io_create io \<and> io_write io \<and> io_sync io \<and> io_close io \<and> io_rename io"

text \<open>A transaction that asks for \<open>goal\<close>: refused, saved, or rolled back.\<close>

definition transact :: "save_io \<Rightarrow> store \<Rightarrow> config_error + Config \<Rightarrow> store \<times> config_error option" where
  "transact io s goal =
     (case goal of
        Inl err \<Rightarrow> (s, Some err)
      | Inr c' \<Rightarrow> if io_ok io then ((c', Some c'), None) else (s, Some ErrWriteConfig))"

lemma saveLocked_outcome: "saveLocked io c d = (if io_ok io then (Some c, None) else (d, Some ErrWriteConfig))"
  by (auto simp: saveLocked_def io_ok_def)

lemma update_transact: "Config_update io (c, d) ident change = transact io (c, d) (change_ingest c ident change)"
  using find_ingest_Some [of ident "cfg_Ingests c"]
  by (auto simp: Config_update_def change_ingest_def transact_def saveLocked_outcome Let_def split: option.split)

lemma add_transact:
  "apsnd error_of (Config_AddIngest io (c, d) label r1 r2 r3) = transact io (c, d) (config_goal c (OpAdd label r1 r2 r3))"
  by (cases r1; cases r2; cases r3)
    (simp_all add: Config_AddIngest_def newKey_def transact_def error_of_def saveLocked_outcome Let_def new_ingest_def)

lemma reset_transact:
  "apsnd error_of (Config_ResetSenderKey io (c, d) ident r) = transact io (c, d) (config_goal c (OpResetKey ident r))"
  using find_ingest_Some [of ident "cfg_Ingests c"]
  by (auto simp: Config_ResetSenderKey_def newKey_def transact_def error_of_def saveLocked_outcome change_ingest_def
      Let_def split: option.split)

lemma replace_transact:
  "apsnd error_of (Config_ReplaceIngests io (c, d) cams) = transact io (c, d) (config_goal c (OpReplace cams))"
proof -
  have "(\<lambda>ing. let delay = Config_clampDelay c (i_DelayMS ing)
           in ing\<lparr>i_Codecs := keepCodecs (i_Codecs ing), i_DelayMS := delay,
                  i_Options := Options_Normalize (i_Options ing) delay\<rparr>) = normalise_ingest c"
    by (simp add: fun_eq_iff normalise_ingest_def Let_def)
  then show ?thesis
    by (simp add: Config_ReplaceIngests_def transact_def error_of_def saveLocked_outcome Let_def split: option.split)
qed

lemma apply_transact:
  "config_apply io (c, d) op =
     (if op = OpPublicHost (cfg_PublicHost c) then ((c, d), None) else transact io (c, d) (config_goal c op))"
proof (cases op)
  case (OpRemove ident)
  then show ?thesis
    by (simp add: Config_RemoveIngest_def transact_def saveLocked_outcome Let_def split: option.split)
next
  case (OpToken r)
  then show ?thesis
    by (simp add: Config_CreateControlToken_def transact_def saveLocked_outcome error_of_def Let_def split: option.split)
qed (simp_all add: Config_SetPublicHost_def Config_SetAutostart_def Config_SetControlAccess_def
    Config_SetSyncGroup_def Config_SetLabel_def Config_SetCodecs_def Config_SetDelay_def Config_SetDynamicDelay_def
    update_transact add_transact reset_transact replace_transact transact_def saveLocked_outcome Let_def
    del: config_goal.simps(10,12,13))

text \<open>
  C4: Every method that changes the settings is a transaction over its specification: a
  refused change and a change that cannot be saved leave the configuration and the file as
  they were and report why; any other change puts the specified configuration in memory and
  on disk.  Setting the public host to its present value does nothing.
\<close>

theorem config_changes_are_transactions:
  "config_apply io (c, d) op =
     (if op = OpPublicHost (cfg_PublicHost c) then ((c, d), None) else transact io (c, d) (config_goal c op))"
  by (rule apply_transact)

section \<open>Values in range\<close>

lemma normalise_ingest_ok: "ingest_ok c (normalise_ingest c ing)"
  using clampDelay_range [of c "i_DelayMS ing"]
  by (simp add: ingest_ok_def normalise_ingest_def Let_def Normalize_idem keepCodecs_props)

lemma new_ingest_ok: "ingest_ok c (new_ingest c label b1 b2 b3)"
  using clampDelay_range [of c DelayDefaultMS]
  by (simp add: ingest_ok_def new_ingest_def Normalize_idem)
    (simp add: keepCodecs_def AllCodecs_def CodecH264_def CodecH265_def CodecAV1_def)

lemma config_ok_ingests: "config_ok (c\<lparr>cfg_Ingests := xs\<rparr>) \<longleftrightarrow> list_all (ingest_ok c) xs"
  by (simp add: config_ok_def ingest_ok_floor [of "c\<lparr>cfg_Ingests := xs\<rparr>" c] cong: list.pred_cong)

lemma config_ok_same:
  "config_ok c \<Longrightarrow> cfg_FloorMS c' = cfg_FloorMS c \<Longrightarrow> cfg_Ingests c' = cfg_Ingests c \<Longrightarrow> config_ok c'"
  by (simp add: config_ok_def ingest_ok_floor [of c' c] cong: list.pred_cong)

lemma change_ingest_ok:
  assumes "config_ok c" "\<And>ing. ingest_ok c ing \<Longrightarrow> ingest_ok c (change ing)" "change_ingest c ident change = Inr c'"
  shows "config_ok c'"
proof -
  obtain i where i: "find_ingest ident (cfg_Ingests c) = Some i"
    "c' = c\<lparr>cfg_Ingests := (cfg_Ingests c)[i := change (cfg_Ingests c ! i)]\<rparr>"
    using assms(3) by (auto simp: change_ingest_def split: option.splits)
  have "ingest_ok c (cfg_Ingests c ! i)"
    using find_ingest_Some [OF i(1)] assms(1) by (auto simp: config_ok_def list_all_length)
  then show ?thesis
    using assms(1,2) set_update_subset_insert [of "cfg_Ingests c" i]
    unfolding i(2) config_ok_ingests by (auto simp: config_ok_def list_all_iff)
qed

lemma goal_ok:
  assumes "config_ok c" "config_goal c op = Inr c'"
  shows "config_ok c'"
proof (cases op)
  case (OpDelay ident delay)
  then show ?thesis
    using assms(2) clampDelay_range [of c delay]
    by (intro change_ingest_ok [OF assms(1) _ assms(2) [unfolded OpDelay config_goal.simps]])
      (simp add: ingest_ok_def Normalize_idem)
next
  case (OpAdd label r1 r2 r3)
  then show ?thesis
    using assms(2) assms(1) [unfolded config_ok_def] new_ingest_ok
    by (auto simp: config_ok_ingests split: option.splits)
next
  case (OpRemove ident)
  then show ?thesis
    using assms(2) assms(1) [unfolded config_ok_def]
    by (auto simp: config_ok_ingests list_all_iff dest!: in_set_takeD in_set_dropD split: option.splits)
next
  case (OpReplace cams)
  then show ?thesis
    using assms normalise_ingest_ok by (auto simp: config_ok_ingests list_all_iff split: option.splits)
qed (use assms in \<open>auto simp: ingest_ok_def Normalize_idem keepCodecs_props intro: config_ok_same
      elim!: change_ingest_ok [OF assms(1), rotated] split: if_splits option.splits\<close>)

lemma apply_ok: "config_ok (fst s) \<Longrightarrow> config_ok (fst (fst (config_apply io s op)))"
  using goal_ok [of "fst s" op]
  by (cases s; cases "config_goal (fst s) op") (simp_all add: apply_transact transact_def)

text \<open>The settings after a sequence of changes, each with its own file system outcomes.\<close>

definition config_run :: "store \<Rightarrow> (save_io \<times> config_op) list \<Rightarrow> store" where
  "config_run s ops = foldl (\<lambda>s (io, op). fst (config_apply io s op)) s ops"

lemma run_ok: "config_ok (fst s) \<Longrightarrow> config_ok (fst (config_run s ops))"
  unfolding config_run_def by (induction ops arbitrary: s) (auto simp: apply_ok split: prod.split)

lemma load_ok: "Config_Load located file io d = (d', Inr (c, err)) \<Longrightarrow> config_ok c"
  using normalise_ok
  by (auto simp: Config_Load_def Config_default_def config_ok_def split: if_splits file_read.splits prod.splits)

text \<open>
  C12: Whatever the file held and whatever is then asked of the settings, in any order and with
  any failures of the file system, every camera's delay lies between the deployment's floor and
  ten seconds, its adaptive ceiling is no lower than its delay and at most ten seconds, and its
  codecs are a non-empty set without repetition of codecs the relay carries.
\<close>

theorem config_stays_in_range:
  assumes "Config_Load located file io d = (d', Inr (c, err))"
    and "ing \<in> set (cfg_Ingests (fst (config_run (c, d') ops)))"
  shows "0 \<le> Config_Floor (fst (config_run (c, d') ops)) \<and>
    Config_Floor (fst (config_run (c, d') ops)) \<le> i_DelayMS ing \<and> i_DelayMS ing \<le> MaximumMS (i_Options ing) \<and>
    MaximumMS (i_Options ing) \<le> 10000 \<and>
    i_Codecs ing \<noteq> [] \<and> distinct (i_Codecs ing) \<and> set (i_Codecs ing) \<subseteq> {''h264'', ''h265'', ''av1''}"
proof -
  let ?c = "fst (config_run (c, d') ops)"
  have ok: "ingest_ok ?c ing"
    using run_ok [of "(c, d')" ops] load_ok [OF assms(1)] assms(2) by (simp add: config_ok_def list_all_iff)
  then have "MaximumMS (i_Options ing) = MaximumMS (Options_Normalize (i_Options ing) (i_DelayMS ing))"
    by (simp only: ingest_ok_def)
  moreover have "MaximumMS (Options_Normalize opts b) = max 1 (max b (min 10000 (if MaximumMS opts = 0 then 10000 else MaximumMS opts)))" for opts b
    by (simp add: Options_Normalize_def Let_def MaximumMS_limit_def)
  ultimately have "i_DelayMS ing \<le> MaximumMS (i_Options ing) \<and> MaximumMS (i_Options ing) \<le> 10000"
    using ok by (simp only: ingest_ok_def DelayMaxMS_def) linarith
  moreover have "i_Codecs ing \<noteq> [] \<and> distinct (i_Codecs ing) \<and> set (i_Codecs ing) \<subseteq> set AllCodecs"
    using ok keepCodecs_props [of "i_Codecs ing"] by (simp add: ingest_ok_def)
  ultimately show ?thesis
    using ok clampFloor_range [of "cfg_FloorMS ?c"]
    by (simp add: ingest_ok_def Config_Floor_def AllCodecs_def CodecH264_def CodecH265_def CodecAV1_def)
qed

text \<open>A camera as a deployment may write it, with a delay, a ceiling and codecs out of range.\<close>

definition example_ingest :: "string \<Rightarrow> nat \<Rightarrow> string \<Rightarrow> Ingest" where
  "example_ingest ident n grp =
     \<lparr>i_Options = Options_zero\<lparr>MaximumMS := 90000\<rparr>, i_ID = ident, i_Label = ''cam'',
      i_SenderKey = SenderPrefix @ replicate 31 CHR ''0'' @ [hex_digit n],
      i_ReceiverKey = ReceiverPrefix @ replicate 31 CHR ''0'' @ [hex_digit n],
      i_Codecs = [''vp8'', ''av1'', ''av1'', ''h264''], i_DelayMS = 1000 * int n, i_SyncGroup = grp\<rparr>"

definition all_ok :: save_io where
  "all_ok = \<lparr>io_mkdir = True, io_marshal = True, io_create = True, io_write = True, io_sync = True,
     io_close = True, io_rename = True\<rparr>"

definition one_camera :: Config where
  "one_camera = Config_default\<lparr>cfg_Ingests := [example_ingest ''a'' 1 []]\<rparr>"

definition camera_key :: string where
  "camera_key = i_SenderKey (example_ingest ''a'' 1 [])"

definition viewer_key :: string where
  "viewer_key = i_ReceiverKey (example_ingest ''a'' 1 [])"

lemma one_camera_resolves:
  "Config_Resolve one_camera camera_key = (Some (example_ingest ''a'' 1 []), RoleSender)"
  "Config_Resolve one_camera viewer_key = (Some (example_ingest ''a'' 1 []), RoleReceiver)"
  by (simp_all add: Config_Resolve_def one_camera_def camera_key_def viewer_key_def example_ingest_def SenderPrefix_def ReceiverPrefix_def)

lemma example_load:
  "Config_Load True (FileConfig (Config_default\<lparr>cfg_Ingests := [example_ingest ''a'' 15 []]\<rparr>)) all_ok None =
     (None, Inr (Config_normalise (Config_default\<lparr>cfg_Ingests := [example_ingest ''a'' 15 []]\<rparr>), None))"
  by (simp add: Config_Load_def Config_default_def)

theorem config_stays_in_range_witness:
  "\<exists>c d' ing. ing \<in> set (cfg_Ingests (fst (config_run (c, d') [(all_ok, OpDelay ''a'' 0)]))) \<and>
     0 \<le> i_DelayMS ing \<and> MaximumMS (i_Options ing) \<le> 10000 \<and> i_Codecs ing = [''h264'', ''av1'']"
proof -
  let ?c = "Config_normalise (Config_default\<lparr>cfg_Ingests := [example_ingest ''a'' 15 []]\<rparr>)"
  let ?ings = "cfg_Ingests (fst (config_run (?c, None) [(all_ok, OpDelay ''a'' 0)]))"
  obtain ing where ing: "?ings = [ing]" "i_Codecs ing = [''h264'', ''av1'']"
    by (simp add: config_run_def Config_SetDelay_def Config_update_def saveLocked_outcome io_ok_def all_ok_def Let_def
        Config_normalise_def normalise_ingest_def Config_default_def example_ingest_def keepCodecs_def AllCodecs_def
        CodecH264_def CodecH265_def CodecAV1_def)
  then show ?thesis
    using config_stays_in_range [OF example_load, of ing "[(all_ok, OpDelay ''a'' 0)]"]
    by (intro exI [of _ ?c] exI [of _ "None"] exI [of _ ing]) simp
qed

section \<open>Links\<close>

lemma hex_digit_is_hex: "n < 16 \<Longrightarrow> is_hex (hex_digit n)"
  by (auto simp: is_hex_def hex_digit_def Let_def)

lemma hex_digit_lower: "n < 16 \<Longrightarrow> lower_char (hex_digit n) = hex_digit n"
  by (auto simp: lower_char_def hex_digit_def Let_def)

lemma hex_encoded:
  "length (hex_EncodeToString b) = 2 * length b" "list_all is_hex (hex_EncodeToString b)"
  "ToLower (hex_EncodeToString b) = hex_EncodeToString b"
proof -
  have "unat x div 16 < 16" "unat x mod 16 < 16" for x :: "8 word"
    using unsigned_less [of x, where ?'a = nat] by auto
  then show "length (hex_EncodeToString b) = 2 * length b" "list_all is_hex (hex_EncodeToString b)"
    "ToLower (hex_EncodeToString b) = hex_EncodeToString b"
    by (induction b) (simp_all add: hex_EncodeToString_def hex_digit_is_hex hex_digit_lower ToLower_def)
qed

lemma newKey_valid:
  assumes "length b = keyBytes" "ToLower pre = pre"
  shows "validKey pre (pre @ hex_EncodeToString b)"
  using assms hex_encoded [of b] by (simp add: validKey_def HasPrefix_def ToLower_def keyBytes_def)

lemma valid_keys_differ: "validKey SenderPrefix k \<Longrightarrow> validKey ReceiverPrefix k' \<Longrightarrow> k \<noteq> k'"
  by (auto simp: validKey_def HasPrefix_def SenderPrefix_def ReceiverPrefix_def split: if_splits)

text \<open>The names a camera occupies, and the cameras that occupy them once.\<close>

definition names :: "Ingest \<Rightarrow> string list" where
  "names ing = [i_ID ing, i_SenderKey ing, i_ReceiverKey ing]"

definition keyed :: "Ingest \<Rightarrow> bool" where
  "keyed ing \<longleftrightarrow> i_ID ing \<noteq> [] \<and> validKey SenderPrefix (i_SenderKey ing) \<and> validKey ReceiverPrefix (i_ReceiverKey ing)"

lemma validate_loop_None:
  "validate_loop i seen xs = None \<longleftrightarrow>
     list_all keyed xs \<and> distinct (concat (map names xs)) \<and> set (concat (map names xs)) \<inter> seen = {}"
  by (induction xs arbitrary: i seen) (auto simp: Let_def names_def keyed_def)

lemma validateIngests_None:
  "validateIngests xs = None \<longleftrightarrow> list_all keyed xs \<and> distinct (concat (map names xs))"
  by (simp add: validateIngests_def validate_loop_None)

text \<open>The scan of \<^verbatim>\<open>Resolve\<close> over the cameras of a validated list.\<close>

definition resolve_scan :: "string \<Rightarrow> Ingest option \<times> Role \<Rightarrow> Ingest list \<Rightarrow> Ingest option \<times> Role" where
  "resolve_scan key found xs = foldl (\<lambda>found ing.
       let found1 = (if key = i_SenderKey ing then (Some ing, RoleSender) else found)
       in if key = i_ReceiverKey ing then (Some ing, RoleReceiver) else found1) found xs"

lemma Config_Resolve_scan: "Config_Resolve c key = resolve_scan key (None, RoleNone) (cfg_Ingests c)"
  by (simp add: Config_Resolve_def resolve_scan_def)

lemma resolve_scan_none:
  "key \<notin> i_SenderKey ` set xs \<Longrightarrow> key \<notin> i_ReceiverKey ` set xs \<Longrightarrow> resolve_scan key found xs = found"
  unfolding resolve_scan_def by (induction xs arbitrary: found) auto

lemma resolve_scan_found:
  assumes "ing \<in> set xs" "distinct (concat (map names xs))"
  shows "resolve_scan (i_SenderKey ing) found xs = (Some ing, RoleSender)"
    and "resolve_scan (i_ReceiverKey ing) found xs = (Some ing, RoleReceiver)"
proof -
  obtain ys zs where xs: "xs = ys @ ing # zs" using split_list [OF assms(1)] by blast
  have other: "x \<in> set ys \<union> set zs \<Longrightarrow> set (names x) \<inter> set (names ing) = {}" for x
    using assms(2) unfolding xs by auto
  have own: "i_SenderKey ing \<noteq> i_ReceiverKey ing" using assms(2) unfolding xs by (auto simp: names_def)
  have "i_SenderKey ing \<notin> i_SenderKey ` set zs" "i_SenderKey ing \<notin> i_ReceiverKey ` set zs"
    "i_ReceiverKey ing \<notin> i_SenderKey ` set zs" "i_ReceiverKey ing \<notin> i_ReceiverKey ` set zs"
    using other by (force simp: names_def)+
  note rest = resolve_scan_none [OF this(1,2), unfolded resolve_scan_def] resolve_scan_none [OF this(3,4), unfolded resolve_scan_def]
  show "resolve_scan (i_SenderKey ing) found xs = (Some ing, RoleSender)"
    "resolve_scan (i_ReceiverKey ing) found xs = (Some ing, RoleReceiver)"
    using own rest by (simp_all add: resolve_scan_def xs Let_def)
qed

text \<open>
  C8: On a camera list the validation accepts, a link's key opens exactly the camera and the
  half it was issued for: a sender key publishes to its own camera only, a receiver key plays
  its own camera only, and any other text opens nothing.
\<close>

theorem links_open_their_camera:
  assumes "validateIngests (cfg_Ingests c) = None"
  shows "(Config_Resolve c key = (Some ing, RoleSender) \<longleftrightarrow> ing \<in> set (cfg_Ingests c) \<and> key = i_SenderKey ing) \<and>
    (Config_Resolve c key = (Some ing, RoleReceiver) \<longleftrightarrow> ing \<in> set (cfg_Ingests c) \<and> key = i_ReceiverKey ing) \<and>
    (Config_Resolve c key = (None, RoleNone) \<longleftrightarrow>
       key \<notin> i_SenderKey ` set (cfg_Ingests c) \<union> i_ReceiverKey ` set (cfg_Ingests c))"
proof -
  have distinct: "distinct (concat (map names (cfg_Ingests c)))"
    using assms by (simp add: validateIngests_None)
  have sender: "Config_Resolve c key = (Some x, RoleSender)" if "x \<in> set (cfg_Ingests c)" "key = i_SenderKey x" for x
    using resolve_scan_found(1) [OF that(1) distinct] that(2) by (simp add: Config_Resolve_scan)
  have receiver: "Config_Resolve c key = (Some x, RoleReceiver)" if "x \<in> set (cfg_Ingests c)" "key = i_ReceiverKey x" for x
    using resolve_scan_found(2) [OF that(1) distinct] that(2) by (simp add: Config_Resolve_scan)
  have none: "Config_Resolve c key = (None, RoleNone)"
    if "key \<notin> i_SenderKey ` set (cfg_Ingests c) \<union> i_ReceiverKey ` set (cfg_Ingests c)"
    using that by (simp add: Config_Resolve_scan resolve_scan_none)
  consider x where "x \<in> set (cfg_Ingests c)" "key = i_SenderKey x" | x where "x \<in> set (cfg_Ingests c)" "key = i_ReceiverKey x"
    | "key \<notin> i_SenderKey ` set (cfg_Ingests c) \<union> i_ReceiverKey ` set (cfg_Ingests c)" by blast
  then show ?thesis
  proof cases
    case 1
    then have "Config_Resolve c key = (Some x, RoleSender)" by (rule sender)
    with 1 show ?thesis using sender [of ing] receiver [of ing] by (metis Role.distinct(5) UnI1 image_eqI option.distinct(1) option.inject prod.inject)
  next
    case 2
    then have "Config_Resolve c key = (Some x, RoleReceiver)" by (rule receiver)
    with 2 show ?thesis using sender [of ing] receiver [of ing] by (metis Role.distinct(5) UnI2 image_eqI option.distinct(1) option.inject prod.inject)
  next
    case 3
    with none [OF 3] show ?thesis by auto
  qed
qed

lemma validKey_example: "n < 16 \<Longrightarrow> ToLower pre = pre \<Longrightarrow> validKey pre (pre @ replicate 31 CHR ''0'' @ [hex_digit n])"
  by (simp add: validKey_def keyBytes_def HasPrefix_def ToLower_def hex_digit_lower hex_digit_is_hex)
    (simp add: lower_char_def is_hex_def list_all_iff)

lemma example_list_valid: "validateIngests [example_ingest ''a'' 1 ''g'', example_ingest ''b'' 2 ''g''] = None"
proof -
  have "ToLower SenderPrefix = SenderPrefix" "ToLower ReceiverPrefix = ReceiverPrefix"
    by (simp_all add: SenderPrefix_def ReceiverPrefix_def ToLower_def lower_char_def)
  moreover have "hex_digit 1 \<noteq> hex_digit 2" by (simp add: hex_digit_def)
  ultimately show ?thesis
    using validKey_example [of 1 SenderPrefix] validKey_example [of 2 SenderPrefix]
      validKey_example [of 1 ReceiverPrefix] validKey_example [of 2 ReceiverPrefix]
    by (simp add: validateIngests_None keyed_def names_def example_ingest_def)
      (simp add: SenderPrefix_def ReceiverPrefix_def)
qed

theorem links_open_their_camera_witness:
  "\<exists>c. validateIngests (cfg_Ingests c) = None \<and>
     Config_Resolve c (i_SenderKey (example_ingest ''a'' 1 ''g'')) = (Some (example_ingest ''a'' 1 ''g''), RoleSender) \<and>
     Config_Resolve c (i_ReceiverKey (example_ingest ''b'' 2 ''g'')) = (Some (example_ingest ''b'' 2 ''g''), RoleReceiver)"
proof -
  let ?c = "Config_default\<lparr>cfg_Ingests := [example_ingest ''a'' 1 ''g'', example_ingest ''b'' 2 ''g'']\<rparr>"
  have "validateIngests (cfg_Ingests ?c) = None" using example_list_valid by simp
  then show ?thesis
    using links_open_their_camera [of ?c "i_SenderKey (example_ingest ''a'' 1 ''g'')" "example_ingest ''a'' 1 ''g''"]
      links_open_their_camera [of ?c "i_ReceiverKey (example_ingest ''b'' 2 ''g'')" "example_ingest ''b'' 2 ''g''"]
    by (intro exI [of _ ?c]) simp
qed

section \<open>Sync groups\<close>

lemma Max_insert_insert: "finite A \<Longrightarrow> Max (insert (a::int) (insert b A)) = Max (insert (max a b) A)"
  by (cases "A = {}") (simp_all add: max.assoc)

lemma foldl_best:
  fixes D :: "'a \<Rightarrow> int"
  shows "foldl (\<lambda>best x. if P x \<and> D x > best then D x else best) b xs = Max (insert b (D ` {x \<in> set xs. P x}))"
proof (induction xs arbitrary: b)
  case (Cons x xs)
  have "{y. (y = x \<or> y \<in> set xs) \<and> P y} = (if P x then insert x {y \<in> set xs. P y} else {y \<in> set xs. P y})" by auto
  then show ?case
    using Cons.IH [of "D x"] Cons.IH [of b] Max_insert_insert [of "D ` {y \<in> set xs. P y}" b "D x"]
    by (simp add: max_def)
qed simp

lemma find_ingest_member:
  assumes "distinct (map i_ID xs)" "ing \<in> set xs"
  obtains i where "find_ingest (i_ID ing) xs = Some i" "i < length xs" "xs ! i = ing"
proof -
  obtain i where i: "find_ingest (i_ID ing) xs = Some i"
    using assms(2) find_ingest_None [of "i_ID ing" xs] by (cases "find_ingest (i_ID ing) xs") auto
  moreover have "xs ! i = ing"
    using find_ingest_Some [OF i] assms inj_onD [of i_ID "set xs" "xs ! i" ing] by (auto simp: distinct_map)
  ultimately show ?thesis using that find_ingest_Some [OF i] by blast
qed

lemma effective_delay_of:
  assumes "distinct (map i_ID (cfg_Ingests c))" "cam \<in> set (cfg_Ingests c)"
  shows "Config_EffectiveDelay c (i_ID cam) =
      (if i_SyncGroup cam = [] then i_DelayMS cam
       else Max (i_DelayMS ` {x \<in> set (cfg_Ingests c). i_SyncGroup x = i_SyncGroup cam}))"
    and "Config_GroupPeers c (i_ID cam) =
      (if i_SyncGroup cam = [] then [i_ID cam]
       else map i_ID (filter (\<lambda>x. i_SyncGroup x = i_SyncGroup cam) (cfg_Ingests c)))"
    and "Enabled (Config_DelayOptions c (i_ID cam)) = (Enabled (i_Options cam) \<and> i_SyncGroup cam = [])"
proof -
  obtain i where "find_ingest (i_ID cam) (cfg_Ingests c) = Some i" "cfg_Ingests c ! i = cam"
    using find_ingest_member [OF assms] by metis
  moreover have "insert (i_DelayMS cam) (i_DelayMS ` {x \<in> set (cfg_Ingests c). i_SyncGroup x = i_SyncGroup cam}) =
      i_DelayMS ` {x \<in> set (cfg_Ingests c). i_SyncGroup x = i_SyncGroup cam}"
    using assms(2) by auto
  ultimately show "Config_EffectiveDelay c (i_ID cam) =
      (if i_SyncGroup cam = [] then i_DelayMS cam
       else Max (i_DelayMS ` {x \<in> set (cfg_Ingests c). i_SyncGroup x = i_SyncGroup cam}))"
    "Config_GroupPeers c (i_ID cam) =
      (if i_SyncGroup cam = [] then [i_ID cam]
       else map i_ID (filter (\<lambda>x. i_SyncGroup x = i_SyncGroup cam) (cfg_Ingests c)))"
    "Enabled (Config_DelayOptions c (i_ID cam)) = (Enabled (i_Options cam) \<and> i_SyncGroup cam = [])"
    by (simp_all add: Config_EffectiveDelay_def Config_GroupPeers_def Config_DelayOptions_def foldl_best
        Options_Normalize_def Let_def)
qed

lemma group_members:
  assumes "distinct (map i_ID (cfg_Ingests c))" "cam \<in> set (cfg_Ingests c)"
  shows "{x \<in> set (cfg_Ingests c). i_ID x \<in> set (Config_GroupPeers c (i_ID cam))} =
    (if i_SyncGroup cam = [] then {cam} else {x \<in> set (cfg_Ingests c). i_SyncGroup x = i_SyncGroup cam})"
  using assms effective_delay_of(2) [OF assms] inj_onD [of i_ID "set (cfg_Ingests c)"]
  by (auto simp: distinct_map)

text \<open>
  Cameras of a sync group play out together: every member's target is the same, and it is
  the largest delay any of them asks for; a group never runs on an adaptive delay.
\<close>

theorem sync_group_shares_delay:
  assumes "distinct (Config_IngestIDs c)" "ident \<in> set (Config_IngestIDs c)" "peer \<in> set (Config_GroupPeers c ident)"
  shows "Config_EffectiveDelay c peer =
      Max (i_DelayMS ` {ing \<in> set (cfg_Ingests c). i_ID ing \<in> set (Config_GroupPeers c ident)}) \<and>
    (1 < length (Config_GroupPeers c ident) \<longrightarrow> \<not> Enabled (Config_DelayOptions c peer))"
proof -
  have ids: "distinct (map i_ID (cfg_Ingests c))" using assms(1) by (simp add: Config_IngestIDs_def)
  obtain cam where cam: "cam \<in> set (cfg_Ingests c)" "ident = i_ID cam" using assms(2) by (auto simp: Config_IngestIDs_def)
  show ?thesis
  proof (cases "i_SyncGroup cam = []")
    case True
    then have "peer = i_ID cam" "Config_GroupPeers c ident = [i_ID cam]"
      using assms(3) effective_delay_of(2) [OF ids cam(1)] cam(2) by auto
    then show ?thesis
      using True group_members [OF ids cam(1)] effective_delay_of(1) [OF ids cam(1)] cam(2) by simp
  next
    case False
    then obtain other where other: "other \<in> set (cfg_Ingests c)" "peer = i_ID other" "i_SyncGroup other = i_SyncGroup cam"
      using assms(3) effective_delay_of(2) [OF ids cam(1)] cam(2) by auto
    then show ?thesis
      using False group_members [OF ids cam(1)] effective_delay_of(1,3) [OF ids other(1)] cam(2) by simp
  qed
qed

definition example_group :: Config where
  "example_group = Config_default\<lparr>cfg_Ingests := [example_ingest ''a'' 1 ''g'', example_ingest ''b'' 2 ''g'']\<rparr>"

theorem sync_group_shares_delay_witness:
  "Config_EffectiveDelay example_group ''a'' = 2000"
proof -
  have peers: "Config_GroupPeers example_group ''b'' = [''a'', ''b'']"
    by (simp add: example_group_def Config_GroupPeers_def example_ingest_def Let_def)
  then have "{ing \<in> set (cfg_Ingests example_group). i_ID ing \<in> set (Config_GroupPeers example_group ''b'')} =
      {example_ingest ''a'' 1 ''g'', example_ingest ''b'' 2 ''g''}"
    by (auto simp: example_group_def) (auto simp: example_ingest_def)
  then show ?thesis
    using sync_group_shares_delay [of example_group "''b''" "''a''"] peers
    by (simp add: Config_IngestIDs_def) (simp add: example_ingest_def example_group_def)
qed

section \<open>New and replaced cameras\<close>

lemma new_ingest_keyed:
  assumes "length b1 = keyBytes" "length b2 = keyBytes" "length b3 = keyBytes"
  shows "keyed (new_ingest c label b1 b2 b3)" "distinct (names (new_ingest c label b1 b2 b3))"
proof -
  have "ToLower SenderPrefix = SenderPrefix" "ToLower ReceiverPrefix = ReceiverPrefix"
    by (simp_all add: SenderPrefix_def ReceiverPrefix_def ToLower_def lower_char_def)
  moreover have "hex_EncodeToString b3 \<noteq> []"
    using hex_encoded(1) [of b3] assms(3) by (auto simp: keyBytes_def)
  ultimately show "keyed (new_ingest c label b1 b2 b3)"
    using assms newKey_valid [of b1 SenderPrefix] newKey_valid [of b2 ReceiverPrefix] by (simp add: keyed_def new_ingest_def)
  have "length (hex_EncodeToString b3) \<noteq> length (SenderPrefix @ hex_EncodeToString b1)"
    "length (hex_EncodeToString b3) \<noteq> length (ReceiverPrefix @ hex_EncodeToString b2)"
    using assms by (simp_all add: hex_encoded SenderPrefix_def ReceiverPrefix_def)
  then have "hex_EncodeToString b3 \<noteq> SenderPrefix @ hex_EncodeToString b1"
    "hex_EncodeToString b3 \<noteq> ReceiverPrefix @ hex_EncodeToString b2" by metis+
  then show "distinct (names (new_ingest c label b1 b2 b3))"
    by (simp add: names_def new_ingest_def) (simp add: SenderPrefix_def ReceiverPrefix_def)
qed

text \<open>
  Adding a camera, when the random source works, the file is written and the drawn names are
  not in use, keeps the list valid and returns a camera both of whose links resolve to it.
\<close>

theorem new_camera_links_work:
  assumes "validateIngests (cfg_Ingests c) = None" "io_ok io"
    and "length b1 = keyBytes" "length b2 = keyBytes" "length b3 = keyBytes"
    and "set (names (new_ingest c label b1 b2 b3)) \<inter> set (concat (map names (cfg_Ingests c))) = {}"
  shows "\<exists>c' ing. Config_AddIngest io (c, d) label (Some b1) (Some b2) (Some b3) = ((c', Some c'), Inr ing) \<and>
    cfg_Ingests c' = cfg_Ingests c @ [ing] \<and> i_Label ing = label \<and> validateIngests (cfg_Ingests c') = None \<and>
    Config_Resolve c' (i_SenderKey ing) = (Some ing, RoleSender) \<and>
    Config_Resolve c' (i_ReceiverKey ing) = (Some ing, RoleReceiver)"
proof -
  define ing where "ing = new_ingest c label b1 b2 b3"
  define c' where "c' = c\<lparr>cfg_Ingests := cfg_Ingests c @ [ing]\<rparr>"
  have add: "Config_AddIngest io (c, d) label (Some b1) (Some b2) (Some b3) = ((c', Some c'), Inr ing)"
    using assms(2) by (simp add: Config_AddIngest_def newKey_def saveLocked_outcome Let_def c'_def ing_def new_ingest_def)
  have valid: "validateIngests (cfg_Ingests c') = None"
    using assms(1,6) new_ingest_keyed [OF assms(3-5), of c label]
    by (auto simp: validateIngests_None c'_def ing_def)
  have "i_Label ing = label" by (simp add: ing_def new_ingest_def)
  moreover have "ing \<in> set (cfg_Ingests c')" "cfg_Ingests c' = cfg_Ingests c @ [ing]" by (simp_all add: c'_def)
  moreover note resolve_scan_found [of ing "cfg_Ingests c'" "(None, RoleNone)"]
  ultimately show ?thesis
    using add valid by (intro exI [of _ c'] exI [of _ ing]) (simp add: Config_Resolve_scan validateIngests_None)
qed

theorem new_camera_links_work_witness:
  "\<exists>c' ing. Config_AddIngest all_ok (Config_default, None) ''cam'' (Some (replicate 16 1)) (Some (replicate 16 2))
      (Some (replicate 16 3)) = ((c', Some c'), Inr ing) \<and>
    Config_Resolve c' (i_SenderKey ing) = (Some ing, RoleSender)"
proof -
  have "validateIngests (cfg_Ingests Config_default) = None" "io_ok all_ok" "length (replicate 16 b :: bytes) = keyBytes" for b
    by (simp_all add: Config_default_def validateIngests_def io_ok_def all_ok_def keyBytes_def)
  then show ?thesis
    using new_camera_links_work [of Config_default all_ok "replicate 16 1" "replicate 16 2" "replicate 16 3" "''cam''" None]
    by (auto simp: Config_default_def)
qed

text \<open>A camera's links and codecs, which a session is negotiated with.\<close>

definition same_session :: "Ingest \<Rightarrow> Ingest \<Rightarrow> bool" where
  "same_session x y \<longleftrightarrow> i_ID x = i_ID y \<and> i_SenderKey x = i_SenderKey y \<and> i_ReceiverKey x = i_ReceiverKey y \<and>
     i_Codecs x = i_Codecs y"

lemma distinct_ids: "distinct (concat (map names xs)) \<Longrightarrow> distinct (map i_ID xs)"
  by (induction xs) (auto simp: names_def)

lemma stale_iff:
  assumes "distinct (map i_ID current)" "distinct (map i_ID cams)" "was \<in> set current"
  shows "i_ID was \<in> set (staleIngests current cams) \<longleftrightarrow>
    \<not> (\<exists>now \<in> set cams. same_session (normalise_ingest c now) was)"
proof -
  have same: "x = was" if "x \<in> set current" "i_ID x = i_ID was" for x
    using that assms(1,3) inj_onD [of i_ID "set current" x was] by (simp add: distinct_map)
  show ?thesis
  proof (cases "find_ingest (i_ID was) cams")
    case None
    then have "i_ID now \<noteq> i_ID was" if "now \<in> set cams" for now using that by (metis find_ingest_None imageI)
    moreover have "i_ID was \<in> set (staleIngests current cams)"
      using None assms(3) by (auto simp: staleIngests_def intro!: bexI [of _ was])
    ultimately show ?thesis by (auto simp: same_session_def normalise_ingest_def Let_def)
  next
    case (Some i)
    have now: "now = cams ! i" if "now \<in> set cams" "i_ID now = i_ID was" for now
      using that find_ingest_Some [OF Some] assms(2) inj_onD [of i_ID "set cams" now "cams ! i"] by (simp add: distinct_map)
    have "i_ID was \<in> set (staleIngests current cams) \<longleftrightarrow> \<not> same_session (normalise_ingest c (cams ! i)) was"
      using Some find_ingest_Some [OF Some] same assms(3)
      by (auto simp: staleIngests_def same_session_def normalise_ingest_def Let_def split: option.splits if_splits
          intro!: bexI [of _ was])
    then show ?thesis
      using now find_ingest_Some [OF Some] by (auto simp: same_session_def normalise_ingest_def Let_def)
  qed
qed

text \<open>
  When a deployment replaces the camera list, the sessions it is told to close are exactly
  those of the cameras that are gone or whose links or codecs are different in the new list; a
  camera the new list keeps as it was is not interrupted.
\<close>

theorem replace_closes_changed_cameras:
  assumes "Config_ReplaceIngests io (c, d) cams = ((c', d'), Inr stale)"
    and "distinct (Config_IngestIDs c)" "was \<in> set (cfg_Ingests c)"
  shows "i_ID was \<in> set stale \<longleftrightarrow> \<not> (\<exists>now \<in> set (cfg_Ingests c'). same_session now was)"
proof -
  have valid: "validateIngests cams = None"
    using assms(1) by (auto simp: Config_ReplaceIngests_def split: option.splits)
  have "apsnd error_of (Config_ReplaceIngests io (c, d) cams) = ((c', d'), None)"
    using assms(1) by (simp add: error_of_def)
  then have "cfg_Ingests c' = map (normalise_ingest c) cams"
    using valid by (auto simp: replace_transact transact_def split: if_splits)
  moreover have "stale = staleIngests (cfg_Ingests c) cams"
    using assms(1) valid by (auto simp: Config_ReplaceIngests_def Let_def saveLocked_outcome split: if_splits)
  moreover have "distinct (map i_ID cams)"
    using valid by (simp add: validateIngests_None distinct_ids)
  ultimately show ?thesis
    using stale_iff [of "cfg_Ingests c" cams was c] assms(2,3) by (simp add: Config_IngestIDs_def)
qed

theorem replace_closes_changed_cameras_witness:
  "\<exists>c d' stale. Config_ReplaceIngests all_ok (example_group, None) [example_ingest ''b'' 2 ''h''] = ((c, d'), Inr stale) \<and>
     ''a'' \<in> set stale"
proof -
  let ?r = "Config_ReplaceIngests all_ok (example_group, None) [example_ingest ''b'' 2 ''h'']"
  have "validateIngests [example_ingest ''b'' 2 ''h''] = None"
    using example_list_valid by (simp add: validateIngests_None keyed_def names_def) (simp add: example_ingest_def)
  then obtain c d' stale where r: "?r = ((c, d'), Inr stale)" "cfg_Ingests c = [normalise_ingest example_group (example_ingest ''b'' 2 ''h'')]"
    by (simp add: Config_ReplaceIngests_def saveLocked_outcome io_ok_def all_ok_def Let_def normalise_ingest_def)
  have "i_ID (normalise_ingest example_group (example_ingest ''b'' 2 ''h'')) = ''b''"
    "i_ID (example_ingest ''a'' 1 ''g'') = ''a''" "distinct (Config_IngestIDs example_group)"
    "example_ingest ''a'' 1 ''g'' \<in> set (cfg_Ingests example_group)"
    by (simp_all add: normalise_ingest_def example_ingest_def Let_def Config_IngestIDs_def example_group_def)
  then show ?thesis
    using replace_closes_changed_cameras [OF r(1), of "example_ingest ''a'' 1 ''g''"] r by (auto simp: same_session_def)
qed

section \<open>What loading does not correct\<close>

text \<open>
  Loading a file corrects a port of zero only: any other number, for instance one beyond
  the 16 bits a port has, is kept, and so is a list of cameras that share a key, although the
  comment of \<^verbatim>\<open>Load\<close> says values outside their permitted range are corrected.
\<close>

theorem load_keeps_bad_values:
  "Config_Load True (FileConfig (Config_default\<lparr>cfg_SignalPort := 70000,
       cfg_Ingests := [example_ingest ''a'' 1 [], example_ingest ''a'' 1 []]\<rparr>)) io d =
     (d, Inr (Config_normalise (Config_default\<lparr>cfg_SignalPort := 70000,
       cfg_Ingests := [example_ingest ''a'' 1 [], example_ingest ''a'' 1 []]\<rparr>), None)) \<and>
   cfg_SignalPort (Config_normalise (Config_default\<lparr>cfg_SignalPort := 70000,
       cfg_Ingests := [example_ingest ''a'' 1 [], example_ingest ''a'' 1 []]\<rparr>)) = 70000 \<and>
   validateIngests (cfg_Ingests (Config_normalise (Config_default\<lparr>cfg_SignalPort := 70000,
       cfg_Ingests := [example_ingest ''a'' 1 [], example_ingest ''a'' 1 []]\<rparr>))) \<noteq> None"
  by (simp add: Config_Load_def Config_default_def Config_normalise_def Let_def validateIngests_None normalise_ingest_def
      names_def)

end
