(* ===== verification/Peer.thy ===== *)
theory Peer
  imports Prelude
begin

text \<open>
  \<^verbatim>\<open>internal/peer\<close>: what an offer asks for, and how it is answered.  The SDP parser belongs to the WebRTC stack and is
  a parameter; of a parsed offer the code reads the attribute names of each media section.  The peer connection belongs to it too: the model is
  the sequence of calls made on it, given what each answers.  The handlers of both sides take the outcome of \<open>Answer\<close>.
\<close>

type_synonym sdp_parser = "string \<Rightarrow> string list list option"

definition bothWays :: string where "bothWays = ''sendrecv''"

definition directions :: "string list" where
  "directions = [''sendonly'', ''recvonly'', bothWays, ''inactive'']"

definition facing :: "string list \<Rightarrow> string" where
  "facing keys = foldl (\<lambda>f key. if key \<in> set directions then key else f) bothWays keys"

text \<open>\<open>None\<close> is the error of an offer that does not parse.\<close>

definition Direction :: "sdp_parser \<Rightarrow> string \<Rightarrow> string \<Rightarrow> bool option" where
  "Direction parse offer wanted =
     (case parse offer of
        None \<Rightarrow> None
      | Some sections \<Rightarrow> Some (list_ex (\<lambda>keys. facing keys = wanted \<or> facing keys = bothWays) sections))"

text \<open>A section without a direction faces both ways; otherwise its last direction counts.\<close>

lemma facing_last:
  "facing keys = (if filter (\<lambda>k. k \<in> set directions) keys = [] then bothWays
     else last (filter (\<lambda>k. k \<in> set directions) keys))"
  by (induction keys rule: rev_induct) (auto simp: facing_def)

section \<open>Answering\<close>

datatype peer_call = SetRemoteDescription string | CreateAnswer | GatheringCompletePromise | SetLocalDescription string | LocalDescription | PeerClose

datatype answer_error = RemoteFailed | CreateFailed | LocalFailed | GatheringTimedOut

text \<open>\<open>pa_gathered\<close>: gathering completes before the timer of ten seconds.\<close>

record peer_answers =
  pa_remote :: bool
  pa_create :: "string option"
  pa_local :: bool
  pa_gathered :: bool
  pa_sdp :: string

definition Answer :: "peer_answers \<Rightarrow> string \<Rightarrow> peer_call list \<times> (answer_error + string)" where
  "Answer env offer =
     (if \<not> pa_remote env then ([SetRemoteDescription offer], Inl RemoteFailed)
      else case pa_create env of
             None \<Rightarrow> ([SetRemoteDescription offer, CreateAnswer], Inl CreateFailed)
           | Some answer \<Rightarrow>
               let calls = [SetRemoteDescription offer, CreateAnswer, GatheringCompletePromise, SetLocalDescription answer]
               in if \<not> pa_local env then (calls, Inl LocalFailed)
                  else if \<not> pa_gathered env then (calls, Inl GatheringTimedOut)
                  else (calls @ [LocalDescription], Inr (pa_sdp env)))"

text \<open>A failure to close is only logged, which is the flag.\<close>

definition Discard :: "bool \<Rightarrow> 'e \<Rightarrow> peer_call list \<times> bool \<times> 'e" where
  "Discard closeOk cause = ([PeerClose], \<not> closeOk, cause)"

text \<open>
  The promise of gathering is made before gathering can start, and an answer goes back only after it is complete: neither endpoint trickles.
\<close>

lemma answer_is_gathered:
  assumes "Answer env offer = (calls, Inr sdp)"
  shows "pa_gathered env" "sdp = pa_sdp env" "\<exists>answer. pa_create env = Some answer \<and>
    calls = [SetRemoteDescription offer, CreateAnswer, GatheringCompletePromise, SetLocalDescription answer, LocalDescription]"
  using assms by (auto simp: Answer_def Let_def split: if_splits option.splits)

end
