(* ===== verification/Ingest_Sessions.thy ===== *)
theory Ingest_Sessions
  imports Stats_Registry Config Peer
begin

text \<open>
  \<^verbatim>\<open>internal/ingest/whip.go\<close>: the publishers.  \<^verbatim>\<open>Server.mu\<close> is held for short sections only; what
  happens between two of them can interleave with every other goroutine.  Each section is one
  definition here (\<open>negotiate_claim\<close>, \<open>negotiate_register\<close>, \<open>stop_begin\<close>, and so on).  The handlers
  compose them in the order of the code (\<open>ingest_Publish\<close>, \<open>ingest_Teardown\<close>, \<open>ingest_Close\<close>), and
  \<open>ingest_step\<close> lets any number of goroutines run them interleaved.

  A session is named by the address of its object (\<^verbatim>\<open>*Session\<close>); \<open>sv_heap\<close> holds the objects.
  The \<^verbatim>\<open>sync.Once\<close> of a session is the phase of its stop.  The WebRTC stack is a parameter: what
  its calls return is an argument of the handler that makes them.
\<close>

section \<open>State\<close>

datatype ingest_error =
    ErrBuildAPI | ErrUnknownKey | ErrWrongRole | ErrNotSending | ErrBadOffer | ErrAlreadyLive string | ErrNoSession
  | ErrMintResource | ErrNegotiate

text \<open>How far \<^verbatim>\<open>stopOnce.Do\<close> is: not called, past the first section (with its \<^verbatim>\<open>owned\<close>), past the cleanup, over.\<close>

datatype once = NotRun | Began bool | Cleaned | Ran

record ingest_Session =
  ss_Resource :: string
  ss_IngestID :: string
  ss_ended :: bool
  ss_once :: once

record ingest_Server =
  sv_sessions :: "string \<Rightarrow> nat option"
  sv_byIngest :: "string \<Rightarrow> string option"
  sv_pending :: "string set"
  sv_closed :: bool
  sv_heap :: "nat \<Rightarrow> ingest_Session option"

definition ingest_NewServer :: ingest_Server where
  "ingest_NewServer = \<lparr>sv_sessions = (\<lambda>_. None), sv_byIngest = (\<lambda>_. None), sv_pending = {}, sv_closed = False,
     sv_heap = (\<lambda>_. None)\<rparr>"

text \<open>What a section works on: the server, the relay, the statistics, and the cameras whose
  subscribers \<^verbatim>\<open>stopped\<close> was told to disconnect.\<close>

record 't world =
  w_srv :: ingest_Server
  w_relay :: "'t Relay"
  w_stats :: Registry
  w_stopped :: "string list"

section \<open>Sections under the lock\<close>

definition currentLocked :: "ingest_Server \<Rightarrow> nat \<Rightarrow> bool" where
  "currentLocked s a =
     (case sv_heap s a of
        None \<Rightarrow> False
      | Some x \<Rightarrow> \<not> ss_ended x \<and> (case sv_byIngest s (ss_IngestID x) of None \<Rightarrow> [] | Some r \<Rightarrow> r) = ss_Resource x \<and>
          sv_sessions s (ss_Resource x) = Some a)"

definition negotiate_claim :: "ingest_Server \<Rightarrow> string \<Rightarrow> string \<Rightarrow> ingest_Server \<times> ingest_error option" where
  "negotiate_claim s ident label =
     (if sv_closed s \<or> ident \<in> sv_pending s then (s, Some (ErrAlreadyLive label))
      else (s\<lparr>sv_pending := insert ident (sv_pending s)\<rparr>, None))"

definition negotiate_release :: "ingest_Server \<Rightarrow> string \<Rightarrow> ingest_Server" where
  "negotiate_release s ident = s\<lparr>sv_pending := sv_pending s - {ident}\<rparr>"

text \<open>The session that has the camera, if any: its resource, its object and whether it is stopping.\<close>

definition clearPrevious_look :: "ingest_Server \<Rightarrow> string \<Rightarrow> (string \<times> nat \<times> bool) option" where
  "clearPrevious_look s ident =
     (case sv_byIngest s ident of
        None \<Rightarrow> None
      | Some resource \<Rightarrow>
          (case sv_sessions s resource of
             None \<Rightarrow> None
           | Some a \<Rightarrow> Some (resource, a, case sv_heap s a of None \<Rightarrow> False | Some x \<Rightarrow> ss_ended x)))"

definition negotiate_register ::
  "ingest_Server \<Rightarrow> nat \<Rightarrow> string \<Rightarrow> string \<Rightarrow> ingest_Server \<times> ingest_error option" where
  "negotiate_register s a resource ident =
     (if sv_closed s then (s, Some ErrNoSession)
      else (s\<lparr>sv_heap := (sv_heap s)(a \<mapsto> \<lparr>ss_Resource = resource, ss_IngestID = ident, ss_ended = False, ss_once = NotRun\<rparr>),
              sv_sessions := (sv_sessions s)(resource \<mapsto> a),
              sv_byIngest := (sv_byIngest s)(ident \<mapsto> resource)\<rparr>, None))"

definition session_lookup :: "ingest_Server \<Rightarrow> string \<Rightarrow> nat option" where
  "session_lookup s resource = sv_sessions s resource"

definition ingest_forget :: "ingest_Server \<Rightarrow> string \<Rightarrow> ingest_Server" where
  "ingest_forget s resource =
     (case sv_sessions s resource of
        None \<Rightarrow> s
      | Some a \<Rightarrow>
          (case sv_heap s a of
             None \<Rightarrow> s
           | Some x \<Rightarrow>
               let s1 = (if (case sv_byIngest s (ss_IngestID x) of None \<Rightarrow> [] | Some r \<Rightarrow> r) = resource
                         then s\<lparr>sv_byIngest := (sv_byIngest s)(ss_IngestID x := None)\<rparr> else s)
               in s1\<lparr>sv_sessions := (sv_sessions s1)(resource := None)\<rparr>))"

text \<open>The three parts of \<^verbatim>\<open>stopSession\<close>; each does nothing unless it is its turn.\<close>

definition set_once :: "ingest_Server \<Rightarrow> nat \<Rightarrow> ingest_Session \<Rightarrow> once \<Rightarrow> ingest_Server" where
  "set_once s a x phase = s\<lparr>sv_heap := (sv_heap s)(a \<mapsto> x\<lparr>ss_once := phase\<rparr>)\<rparr>"

definition stop_begin :: "ingest_Server \<Rightarrow> nat \<Rightarrow> ingest_Server" where
  "stop_begin s a =
     (case sv_heap s a of
        None \<Rightarrow> s
      | Some x \<Rightarrow> if ss_once x = NotRun then set_once s a (x\<lparr>ss_ended := True\<rparr>) (Began (currentLocked s a)) else s)"

definition stop_cleanup :: "'t world \<Rightarrow> nat \<Rightarrow> (nat \<Rightarrow> instant) \<Rightarrow> 't world" where
  "stop_cleanup w a clk =
     (case sv_heap (w_srv w) a of
        None \<Rightarrow> w
      | Some x \<Rightarrow>
          (case ss_once x of
             Began owned \<Rightarrow>
               let w1 = (if owned
                         then w\<lparr>w_stats := Registry_Stopped (w_relay w) (w_stats w) (ss_IngestID x) clk,
                                w_relay := Relay_Drop (w_relay w) (ss_IngestID x),
                                w_stopped := w_stopped w @ [ss_IngestID x]\<rparr>
                         else w)
               in w1\<lparr>w_srv := set_once (w_srv w1) a x Cleaned\<rparr>
           | _ \<Rightarrow> w))"

definition stop_forget :: "ingest_Server \<Rightarrow> nat \<Rightarrow> ingest_Server" where
  "stop_forget s a =
     (case sv_heap s a of
        None \<Rightarrow> s
      | Some x \<Rightarrow> if ss_once x = Cleaned then ingest_forget (set_once s a x Ran) (ss_Resource x) else s)"

section \<open>Handlers\<close>

text \<open>A caller that finds the stop under way waits for it: on return all three parts have run.\<close>

definition stopSession :: "'t world \<Rightarrow> nat \<Rightarrow> (nat \<Rightarrow> instant) \<Rightarrow> 't world" where
  "stopSession w a clk =
     (let w1 = w\<lparr>w_srv := stop_begin (w_srv w) a\<rparr>;
          w2 = stop_cleanup w1 a clk
      in w2\<lparr>w_srv := stop_forget (w_srv w2) a\<rparr>)"

definition ingest_Teardown :: "'t world \<Rightarrow> string \<Rightarrow> bool \<Rightarrow> (nat \<Rightarrow> instant) \<Rightarrow> 't world \<times> ingest_error option" where
  "ingest_Teardown w resource closeOk clk =
     (case session_lookup (w_srv w) resource of
        None \<Rightarrow> (w, Some ErrNoSession)
      | Some a \<Rightarrow> (stopSession w a clk, if closeOk then None else Some ErrNoSession))"

definition ingest_CloseIngest :: "'t world \<Rightarrow> string \<Rightarrow> bool \<Rightarrow> (nat \<Rightarrow> instant) \<Rightarrow> 't world" where
  "ingest_CloseIngest w ident closeOk clk =
     (case sv_byIngest (w_srv w) ident of
        None \<Rightarrow> w
      | Some resource \<Rightarrow> fst (ingest_Teardown w resource closeOk clk))"

text \<open>\<open>live\<close> is the order in which the map of sessions is visited.\<close>

definition ingest_Close :: "'t world \<Rightarrow> nat list \<Rightarrow> (nat \<Rightarrow> instant) \<Rightarrow> 't world" where
  "ingest_Close w live clk =
     foldl (\<lambda>w a. stopSession w a clk) (w\<lparr>w_srv := (w_srv w)\<lparr>sv_closed := True\<rparr>\<rparr>) live"

text \<open>What the WebRTC stack and the random source answer during one negotiation.\<close>

record publish_env =
  pe_connected :: bool
  pe_closeOk :: bool
  pe_buildAPI :: bool
  pe_newPeer :: bool
  pe_transceivers :: bool
  pe_random :: "bytes option"
  pe_address :: nat
  pe_answer :: "string option"
  pe_clk :: "nat \<Rightarrow> instant"

definition clearPrevious :: "'t world \<Rightarrow> Ingest \<Rightarrow> publish_env \<Rightarrow> 't world \<times> ingest_error option" where
  "clearPrevious w ing env =
     (case clearPrevious_look (w_srv w) (i_ID ing) of
        None \<Rightarrow> (w, None)
      | Some (resource, a, stopping) \<Rightarrow>
          if \<not> stopping \<and> pe_connected env then (w, Some (ErrAlreadyLive (i_Label ing)))
          else (case ingest_Teardown w resource (pe_closeOk env) (pe_clk env) of
                  (w1, Some err) \<Rightarrow> (w1, if err = ErrNoSession then None else Some (ErrAlreadyLive (i_Label ing)))
                | (w1, None) \<Rightarrow> (w1, None)))"

definition answerSession ::
  "'t world \<Rightarrow> nat \<Rightarrow> string \<Rightarrow> publish_env \<Rightarrow> 't world \<times> (ingest_error + string \<times> string)" where
  "answerSession w a resource env =
     (case pe_answer env of
        None \<Rightarrow> (stopSession w a (pe_clk env), Inl ErrNegotiate)
      | Some answer \<Rightarrow> if currentLocked (w_srv w) a then (w, Inr (answer, resource)) else (w, Inl ErrNoSession))"

definition negotiate_build :: "publish_env \<Rightarrow> ingest_error + string" where
  "negotiate_build env =
     (if \<not> pe_buildAPI env then Inl ErrBuildAPI
      else if \<not> pe_newPeer env then Inl ErrBadOffer
      else if \<not> pe_transceivers env then Inl ErrBadOffer
      else case newKey [] (pe_random env) of Inl _ \<Rightarrow> Inl ErrMintResource | Inr resource \<Rightarrow> Inr resource)"

definition negotiate_claimed :: "'t world \<Rightarrow> Ingest \<Rightarrow> publish_env \<Rightarrow> 't world \<times> (ingest_error + string \<times> string)" where
  "negotiate_claimed w ing env =
     (case clearPrevious w ing env of
        (w1, Some err) \<Rightarrow> (w1, Inl err)
      | (w1, None) \<Rightarrow>
          (case negotiate_build env of
             Inl err \<Rightarrow> (w1, Inl err)
           | Inr resource \<Rightarrow>
               (case negotiate_register (w_srv w1) (pe_address env) resource (i_ID ing) of
                  (s, Some err) \<Rightarrow> (w1, Inl err)
                | (s, None) \<Rightarrow> answerSession (w1\<lparr>w_srv := s\<rparr>) (pe_address env) resource env)))"

definition ingest_negotiate :: "'t world \<Rightarrow> Ingest \<Rightarrow> publish_env \<Rightarrow> 't world \<times> (ingest_error + string \<times> string)" where
  "ingest_negotiate w ing env =
     (case negotiate_claim (w_srv w) (i_ID ing) (i_Label ing) of
        (s, Some err) \<Rightarrow> (w, Inl err)
      | (s, None) \<Rightarrow>
          (case negotiate_claimed (w\<lparr>w_srv := s\<rparr>) ing env of
             (w1, res) \<Rightarrow> (w1\<lparr>w_srv := negotiate_release (w_srv w1) (i_ID ing)\<rparr>, res)))"

definition ingest_Publish ::
  "sdp_parser \<Rightarrow> Config \<Rightarrow> 't world \<Rightarrow> string \<Rightarrow> string \<Rightarrow> publish_env \<Rightarrow> 't world \<times> (ingest_error + string \<times> string)" where
  "ingest_Publish parse cfg w key offer env =
     (case Config_Resolve cfg key of
        (_, RoleNone) \<Rightarrow> (w, Inl ErrUnknownKey)
      | (_, RoleReceiver) \<Rightarrow> (w, Inl ErrWrongRole)
      | (None, RoleSender) \<Rightarrow> (w, Inl ErrUnknownKey)
      | (Some ing, RoleSender) \<Rightarrow>
          (case Direction parse offer ''sendonly'' of
             None \<Rightarrow> (w, Inl ErrBadOffer)
           | Some sends \<Rightarrow> if \<not> sends then (w, Inl ErrNotSending) else ingest_negotiate w ing env))"

section \<open>The life of a publisher\<close>

text \<open>The first section of \<^verbatim>\<open>drain\<close>: a track of a session that is no longer current is not published.
  \<open>addr\<close> is the address of the new buffer and stands for its keyframe callback.  The section runs under the lock of the server; the settings,
  which have their own lock, are read in it at one moment.\<close>

definition drain_start ::
  "('codec \<Rightarrow> RTPCodecType \<Rightarrow> string \<Rightarrow> 'e + 't) \<Rightarrow> Config \<Rightarrow> 't world \<Rightarrow> nat \<Rightarrow> string \<Rightarrow> RTPCodecType \<Rightarrow> 'codec \<Rightarrow>
     string \<Rightarrow> u32 \<Rightarrow> nat \<Rightarrow> instant \<Rightarrow> 't world \<times> 't option" where
  "drain_start newTrack cfg w a ident kind codec mime clockRate addr now =
     (if \<not> currentLocked (w_srv w) a then (w, None)
      else let stats = (if kind = KindVideo then Registry_Codec (w_stats w) ident (CodecLabelOf mime) else w_stats w);
               ask = (if kind = KindVideo then Some addr else None)
           in case Relay_Publish newTrack (w_relay w) ident kind codec ask of
                (relay, Inl err) \<Rightarrow> (w\<lparr>w_stats := stats, w_relay := relay\<rparr>, None)
              | (relay, Inr out) \<Rightarrow>
                  let target = i64 (Config_EffectiveDelay cfg ident * Millisecond);
                      relay1 = Relay_ConfigureDelay relay ident target (Config_DelayOptions cfg ident) now;
                      buf = NewBuffer target clockRate mime (ask \<noteq> None)
                  in (w\<lparr>w_stats := stats, w_relay := Relay_Track relay1 ident (addr, buf)\<rparr>, Some out))"

text \<open>The section after each packet; \<open>bytes\<close> is the session's total, the rest the buffer's counters.\<close>

definition drain_observe ::
  "'t world \<Rightarrow> nat \<Rightarrow> string \<Rightarrow> RTPCodecType \<Rightarrow> u64 \<Rightarrow> u64 \<Rightarrow> u64 \<Rightarrow> instant \<Rightarrow> 't world" where
  "drain_observe w a ident kind byte_count late dropped now =
     (if \<not> currentLocked (w_srv w) a then w
      else if kind = KindVideo then w\<lparr>w_stats := Registry_Observe (w_stats w) ident byte_count late dropped now\<rparr>
      else w\<lparr>w_stats := Registry_ObserveBytes (w_stats w) ident byte_count now\<rparr>)"

datatype PeerConnectionState = PeerNew | PeerConnecting | PeerConnected | PeerDisconnected | PeerFailed | PeerClosed

definition watch_state :: "'t world \<Rightarrow> nat \<Rightarrow> string \<Rightarrow> PeerConnectionState \<Rightarrow> (nat \<Rightarrow> instant) \<Rightarrow> 't world" where
  "watch_state w a ident state clk =
     (case state of
        PeerConnected \<Rightarrow>
          if currentLocked (w_srv w) a then w\<lparr>w_stats := Registry_Publishing (w_stats w) ident (clk 0)\<rparr> else w
      | PeerFailed \<Rightarrow> stopSession w a clk
      | PeerClosed \<Rightarrow> stopSession w a clk
      | _ \<Rightarrow> w)"

definition watchPath :: "'t world \<Rightarrow> nat \<Rightarrow> string \<Rightarrow> string \<Rightarrow> 't world" where
  "watchPath w a ident path =
     (if currentLocked (w_srv w) a then w\<lparr>w_stats := Registry_Path (w_stats w) ident path\<rparr> else w)"

definition watchPairs :: "'t world \<Rightarrow> nat \<Rightarrow> string \<Rightarrow> stats_entry list \<Rightarrow> 't world" where
  "watchPairs w a ident report =
     (let (live, tot) = countPairs report
      in if currentLocked (w_srv w) a
         then w\<lparr>w_stats := Registry_Link (Registry_Pairs (w_stats w) ident live tot) ident (roundTrip report) (packetsLost report)\<rparr>
         else w)"

end
