(* ===== verification/Track_Forward.thy ===== *)
theory Track_Forward
  imports Stream_Laws Ingest_Sessions
begin

text \<open>
  The goroutines of a publisher's tracks, from the packet that arrives to the packet that leaves: for each track \<^verbatim>\<open>drain\<close> and
  \<^verbatim>\<open>drainRTCP\<close> of \<^verbatim>\<open>internal/ingest/whip.go\<close>, and \<^verbatim>\<open>Feed\<close> of \<^verbatim>\<open>internal/relay/relay.go\<close> with its correction timer.  They share the session's
  byte counter, the statistics, the stream with its controller, and a buffer per track.  Each step is one call
  that locks, or the reading or writing of a packet; steps interleave in any order, also with new settings, keyframe requests and
  the end of the stream in the relay.  A step that does not apply leaves the state as it is.

  A buffer is named by its address.  \<open>fd_gone\<close> holds the buffers the stream no longer lists.  The stream outlives its entry in
  the relay (\<open>fd_dropped\<close>), because the goroutines still point to it.
\<close>

section \<open>State\<close>

text \<open>Where \<^verbatim>\<open>drain\<close> is: it waits for a packet; it has counted a packet; it has pushed it; it has closed the buffer; it has returned.\<close>

datatype reader = Reading | Pushing packet | Observing | Leaving | Left

datatype feeder = Popping | Writing packet | Returned

text \<open>Where the correction timer of \<^verbatim>\<open>Feed\<close> is: it waits for a tick; it has adjusted the delay and will correct the clocks; it has ended.\<close>

datatype ticker = Ticking | Correcting | Stopped

datatype receiver_packet = SenderReport u32 u32 u64 | OtherReport

record forwarder =
  fw_kind :: RTPCodecType
  fw_ssrc :: u32
  fw_reader :: reader
  fw_feed :: feeder
  fw_ticker :: ticker
  fw_rtcp :: "receiver_packet list option"
  fw_read :: "packet list"
  fw_written :: "packet list"
  fw_errors :: "packet list"

record 't forwarding =
  fd_stream :: "'t Stream"
  fd_gone :: "nat \<Rightarrow> Buffer option"
  fd_dropped :: bool
  fd_bytes :: u64
  fd_sizes :: "nat list"
  fd_totals :: "u64 list"
  fd_stats :: Registry
  fd_tracks :: "nat \<Rightarrow> forwarder option"

record publication =
  pb_session :: nat
  pb_ident :: string

definition forwarder_new :: "RTPCodecType \<Rightarrow> u32 \<Rightarrow> forwarder" where
  "forwarder_new kind ssrc =
     \<lparr>fw_kind = kind, fw_ssrc = ssrc, fw_reader = Reading, fw_feed = Popping, fw_ticker = Ticking, fw_rtcp = Some [],
      fw_read = [], fw_written = [], fw_errors = []\<rparr>"

definition forward_start :: "'t Stream \<Rightarrow> Registry \<Rightarrow> 't forwarding" where
  "forward_start s stats =
     \<lparr>fd_stream = s\<lparr>s_buffers := []\<rparr>, fd_gone = (\<lambda>_. None), fd_dropped = False, fd_bytes = 0, fd_sizes = [], fd_totals = [],
      fd_stats = stats, fd_tracks = (\<lambda>_. None)\<rparr>"

definition buffer_at :: "'t forwarding \<Rightarrow> nat \<Rightarrow> Buffer option" where
  "buffer_at f a = (case map_of (s_buffers (fd_stream f)) a of Some b \<Rightarrow> Some b | None \<Rightarrow> fd_gone f a)"

text \<open>A method of the buffer at an address, which may change the controller as well.\<close>

definition at_track :: "'t forwarding \<Rightarrow> nat \<Rightarrow> (Controller \<Rightarrow> Buffer \<Rightarrow> Controller \<times> Buffer) \<Rightarrow> 't forwarding" where
  "at_track f a g =
     (let s = fd_stream f
      in case map_of (s_buffers s) a of
           Some b \<Rightarrow> let (c, b') = g (s_delay s) b
                     in f\<lparr>fd_stream := s\<lparr>s_delay := c, s_buffers := map (\<lambda>(a', x). (a', if a' = a then b' else x)) (s_buffers s)\<rparr>\<rparr>
         | None \<Rightarrow>
             (case fd_gone f a of
                None \<Rightarrow> f
              | Some b \<Rightarrow> let (c, b') = g (s_delay s) b in f\<lparr>fd_stream := s\<lparr>s_delay := c\<rparr>, fd_gone := (fd_gone f)(a \<mapsto> b')\<rparr>))"

abbreviation set_track :: "'t forwarding \<Rightarrow> nat \<Rightarrow> forwarder \<Rightarrow> 't forwarding" where
  "set_track f a w \<equiv> f\<lparr>fd_tracks := (fd_tracks f)(a \<mapsto> w)\<rparr>"

text \<open>The relay as far as this camera is concerned, and the stream after a call on it.\<close>

definition relay_of :: "publication \<Rightarrow> 't forwarding \<Rightarrow> 't Relay" where
  "relay_of P f = (if fd_dropped f then Relay_New else Relay_New(pb_ident P \<mapsto> fd_stream f))"

definition set_relay :: "publication \<Rightarrow> 't forwarding \<Rightarrow> 't Relay \<Rightarrow> 't forwarding" where
  "set_relay P f r = (case r (pb_ident P) of None \<Rightarrow> f | Some s \<Rightarrow> f\<lparr>fd_stream := s\<rparr>)"

section \<open>Steps of one goroutine\<close>

text \<open>\<^verbatim>\<open>drain\<close>: a packet with its size, or the error that ends the track.\<close>

definition drain_read :: "'t forwarding \<Rightarrow> nat \<Rightarrow> forwarder \<Rightarrow> (packet \<times> nat) option \<Rightarrow> instant \<Rightarrow> 't forwarding" where
  "drain_read f a w r now =
     (if fw_reader w \<noteq> Reading then f
      else case r of
             Some (p, n) \<Rightarrow>
               set_track (f\<lparr>fd_bytes := fd_bytes f + of_nat n, fd_sizes := fd_sizes f @ [n]\<rparr>) a
                 (w\<lparr>fw_reader := Pushing p, fw_read := fw_read w @ [p]\<rparr>)
           | None \<Rightarrow> set_track (at_track f a (\<lambda>c b. (c, Buffer_Close b now))) a (w\<lparr>fw_reader := Leaving\<rparr>))"

definition drain_push :: "'t forwarding \<Rightarrow> nat \<Rightarrow> forwarder \<Rightarrow> instant \<Rightarrow> instant \<Rightarrow> instant \<Rightarrow> 't forwarding" where
  "drain_push f a w t1 t2 now =
     (case fw_reader w of
        Pushing p \<Rightarrow>
          set_track (at_track f a (\<lambda>c b. case Buffer_Push c b p t1 t2 now of (c', b', _) \<Rightarrow> (c', b'))) a (w\<lparr>fw_reader := Observing\<rparr>)
      | _ \<Rightarrow> f)"

text \<open>The section after a push; \<open>world\<close> is the server at that moment, whose statistics are the shared ones.\<close>

definition drain_count :: "publication \<Rightarrow> 't forwarding \<Rightarrow> nat \<Rightarrow> forwarder \<Rightarrow> 't world \<Rightarrow> instant \<Rightarrow> 't forwarding" where
  "drain_count P f a w world now =
     (if fw_reader w \<noteq> Observing then f
      else case buffer_at f a of
             None \<Rightarrow> f
           | Some b \<Rightarrow>
               let (late, dropped) = Buffer_Stats b;
                   world' = drain_observe (world\<lparr>w_stats := fd_stats f\<rparr>) (pb_session P) (pb_ident P) (fw_kind w) (fd_bytes f) late dropped now
               in set_track (f\<lparr>fd_stats := w_stats world',
                     fd_totals := fd_totals f @ (if currentLocked (w_srv world) (pb_session P) then [fd_bytes f] else [])\<rparr>) a
                    (w\<lparr>fw_reader := Reading\<rparr>))"

definition drain_untrack :: "publication \<Rightarrow> 't forwarding \<Rightarrow> nat \<Rightarrow> forwarder \<Rightarrow> 't forwarding" where
  "drain_untrack P f a w =
     (if fw_reader w \<noteq> Leaving then f
      else set_track (set_relay P (f\<lparr>fd_gone := (fd_gone f)(a := buffer_at f a)\<rparr>) (Relay_Untrack (relay_of P f) (pb_ident P) a)) a
             (w\<lparr>fw_reader := Left\<rparr>))"

text \<open>\<^verbatim>\<open>drainRTCP\<close>: the packets of one read, or the error that ends it; then packet after packet.\<close>

definition rtcp_read :: "'t forwarding \<Rightarrow> nat \<Rightarrow> forwarder \<Rightarrow> receiver_packet list option \<Rightarrow> 't forwarding" where
  "rtcp_read f a w r = (if fw_rtcp w = Some [] then set_track f a (w\<lparr>fw_rtcp := r\<rparr>) else f)"

definition rtcp_handle :: "'t forwarding \<Rightarrow> nat \<Rightarrow> forwarder \<Rightarrow> 't forwarding" where
  "rtcp_handle f a w =
     (case fw_rtcp w of
        Some (packet # rest) \<Rightarrow>
          let w' = w\<lparr>fw_rtcp := Some rest\<rparr>
          in (case packet of
                SenderReport ssrc rtp ntp \<Rightarrow>
                  if ssrc = fw_ssrc w then set_track (at_track f a (\<lambda>c b. (c, Buffer_SenderReport b rtp ntp))) a w' else set_track f a w'
              | OtherReport \<Rightarrow> set_track f a w')
      | _ \<Rightarrow> f)"

text \<open>\<^verbatim>\<open>Feed\<close>: a round of \<^verbatim>\<open>Pop\<close>, and the write of the packet it gave.\<close>

definition feed_pop :: "'t forwarding \<Rightarrow> nat \<Rightarrow> forwarder \<Rightarrow> instant \<Rightarrow> 't forwarding" where
  "feed_pop f a w now =
     (if fw_feed w \<noteq> Popping then f
      else case buffer_at f a of
             None \<Rightarrow> f
           | Some b \<Rightarrow>
               let phase = (case snd (Buffer_Pop (s_delay (fd_stream f)) b now) of Closed \<Rightarrow> Returned | Packet p \<Rightarrow> Writing p | _ \<Rightarrow> Popping)
               in set_track (at_track f a (\<lambda>c b. (c, fst (Buffer_Pop c b now)))) a (w\<lparr>fw_feed := phase\<rparr>))"

definition feed_write :: "'t forwarding \<Rightarrow> nat \<Rightarrow> forwarder \<Rightarrow> bool \<Rightarrow> 't forwarding" where
  "feed_write f a w ok =
     (case fw_feed w of
        Writing p \<Rightarrow>
          set_track f a (w\<lparr>fw_feed := Popping, fw_written := fw_written w @ [p], fw_errors := (if ok then fw_errors w else fw_errors w @ [p])\<rparr>)
      | _ \<Rightarrow> f)"

text \<open>The correction timer: a tick runs \<^verbatim>\<open>Buffer.Correct\<close>, whose two calls lock the stream one after the other; the closed
  channel ends it.\<close>

definition feed_tick :: "'t forwarding \<Rightarrow> nat \<Rightarrow> forwarder \<Rightarrow> instant \<Rightarrow> instant \<times> instant \<Rightarrow> 't forwarding" where
  "feed_tick f a w now ask =
     (case buffer_at f a of
        Some b \<Rightarrow>
          if fw_ticker w \<noteq> Ticking \<or> \<not> b_stream b then f
          else set_track (f\<lparr>fd_stream := fst (Stream_adjustDelay (fd_stream f) now (fst ask) (snd ask))\<rparr>) a (w\<lparr>fw_ticker := Correcting\<rparr>)
      | None \<Rightarrow> f)"

definition feed_correct ::
  "'t forwarding \<Rightarrow> nat \<Rightarrow> forwarder \<Rightarrow> instant \<Rightarrow> (nat \<Rightarrow> instant) \<Rightarrow> (nat \<Rightarrow> instant) \<Rightarrow> instant \<times> instant \<Rightarrow> 't forwarding" where
  "feed_correct f a w now until1 until2 ask =
     (if fw_ticker w \<noteq> Correcting then f
      else set_track (f\<lparr>fd_stream := fst (Stream_correctClocks (fd_stream f) now until1 until2 (fst ask) (snd ask))\<rparr>) a (w\<lparr>fw_ticker := Ticking\<rparr>))"

definition feed_stop :: "'t forwarding \<Rightarrow> nat \<Rightarrow> forwarder \<Rightarrow> 't forwarding" where
  "feed_stop f a w = (if fw_feed w = Returned \<and> fw_ticker w = Ticking then set_track f a (w\<lparr>fw_ticker := Stopped\<rparr>) else f)"

section \<open>All goroutines\<close>

datatype 't track_event =
    DRead "(packet \<times> nat) option" instant
  | DPush instant instant instant
  | DCount "'t world" instant
  | DUntrack
  | DReadRTCP "receiver_packet list option"
  | DRTCP
  | DPop instant
  | DWrite bool
  | DTick instant "instant \<times> instant"
  | DCorrect instant "nat \<Rightarrow> instant" "nat \<Rightarrow> instant" "instant \<times> instant"
  | DStop

datatype 't forward_event =
    DTrack nat RTPCodecType u32 duration u32 string
  | DOn nat "'t track_event"
  | DConfigure duration Options instant
  | DKeyframe instant instant
  | DStats Registry
  | DDrop

fun track_step :: "publication \<Rightarrow> 't forwarding \<Rightarrow> nat \<Rightarrow> forwarder \<Rightarrow> 't track_event \<Rightarrow> 't forwarding" where
  "track_step P f a w (DRead r now) = drain_read f a w r now"
| "track_step P f a w (DPush t1 t2 now) = drain_push f a w t1 t2 now"
| "track_step P f a w (DCount world now) = drain_count P f a w world now"
| "track_step P f a w DUntrack = drain_untrack P f a w"
| "track_step P f a w (DReadRTCP r) = rtcp_read f a w r"
| "track_step P f a w DRTCP = rtcp_handle f a w"
| "track_step P f a w (DPop now) = feed_pop f a w now"
| "track_step P f a w (DWrite ok) = feed_write f a w ok"
| "track_step P f a w (DTick now ask) = feed_tick f a w now ask"
| "track_step P f a w (DCorrect now until1 until2 ask) = feed_correct f a w now until1 until2 ask"
| "track_step P f a w DStop = feed_stop f a w"

text \<open>A new track is what \<^verbatim>\<open>drain\<close> starts with, once the stream exists; its buffer has an address of its own.\<close>

fun forward_step :: "publication \<Rightarrow> 't forwarding \<Rightarrow> 't forward_event \<Rightarrow> 't forwarding" where
  "forward_step P f (DTrack a kind ssrc target clockRate mime) =
     (if fd_dropped f \<or> fd_tracks f a \<noteq> None then f
      else set_track (set_relay P f (Relay_Track (relay_of P f) (pb_ident P) (a, NewBuffer target clockRate mime (kind = KindVideo)))) a
             (forwarder_new kind ssrc))"
| "forward_step P f (DOn a e) = (case fd_tracks f a of None \<Rightarrow> f | Some w \<Rightarrow> track_step P f a w e)"
| "forward_step P f (DConfigure target options now) =
     set_relay P f (Relay_ConfigureDelay (relay_of P f) (pb_ident P) target options now)"
| "forward_step P f (DKeyframe since stamp) = set_relay P f (fst (Relay_Keyframe (relay_of P f) (pb_ident P) since stamp))"
| "forward_step P f (DStats stats) = f\<lparr>fd_stats := stats\<rparr>"
| "forward_step P f DDrop = f\<lparr>fd_dropped := True\<rparr>"

section \<open>Invariant\<close>

text \<open>What \<^verbatim>\<open>drain\<close> has read and not pushed, what \<^verbatim>\<open>Feed\<close> has taken and not written.\<close>

definition incoming :: "forwarder \<Rightarrow> packet list" where
  "incoming w = (case fw_reader w of Pushing p \<Rightarrow> [p] | _ \<Rightarrow> [])"

definition outgoing :: "forwarder \<Rightarrow> packet list" where
  "outgoing w = (case fw_feed w of Writing p \<Rightarrow> [p] | _ \<Rightarrow> [])"

definition handed :: "forwarder \<Rightarrow> packet list" where
  "handed w = fw_written w @ outgoing w @ incoming w"

definition track_ok :: "forwarder \<Rightarrow> Buffer \<Rightarrow> bool" where
  "track_ok w b \<longleftrightarrow> buffer_inv b \<and> of_nat (length (fw_read w)) = of_nat (length (handed w)) + held b \<and>
     mset (handed w) + contents b \<subseteq># mset (fw_read w) \<and>
     (b_closed b \<longleftrightarrow> fw_reader w \<in> {Leaving, Left}) \<and>
     (fw_feed w = Returned \<longrightarrow> b_closed b \<and> b_queue b = []) \<and> (fw_ticker w = Stopped \<longrightarrow> fw_feed w = Returned)"

definition forward_inv :: "'t forwarding \<Rightarrow> bool" where
  "forward_inv f \<longleftrightarrow> distinct (map fst (s_buffers (fd_stream f))) \<and>
     (\<forall>a. buffer_at f a \<noteq> None \<longrightarrow> fd_tracks f a \<noteq> None) \<and>
     (\<forall>a w. fd_tracks f a = Some w \<longrightarrow> (\<exists>b. buffer_at f a = Some b \<and> track_ok w b)) \<and>
     fd_bytes f = of_nat (sum_list (fd_sizes f)) \<and>
     (\<forall>n \<in> set (fd_totals f). unat n \<le> sum_list (fd_sizes f)) \<and>
     (sum_list (fd_sizes f) < 2 ^ 64 \<longrightarrow> sorted (map unat (fd_totals f)))"

lemma forward_invI:
  assumes "distinct (map fst (s_buffers (fd_stream f)))"
    and "\<And>a. buffer_at f a \<noteq> None \<Longrightarrow> fd_tracks f a \<noteq> None"
    and "\<And>a w. fd_tracks f a = Some w \<Longrightarrow> \<exists>b. buffer_at f a = Some b \<and> track_ok w b"
    and "fd_bytes f = of_nat (sum_list (fd_sizes f))"
    and "\<forall>n \<in> set (fd_totals f). unat n \<le> sum_list (fd_sizes f)"
    and "sum_list (fd_sizes f) < 2 ^ 64 \<Longrightarrow> sorted (map unat (fd_totals f))"
  shows "forward_inv f"
  using assms by (simp add: forward_inv_def)

lemma forward_invD:
  assumes "forward_inv f"
  shows "distinct (map fst (s_buffers (fd_stream f)))" "buffer_at f a = Some b \<Longrightarrow> \<exists>w. fd_tracks f a = Some w"
    "fd_tracks f a = Some w \<Longrightarrow> \<exists>b. buffer_at f a = Some b \<and> track_ok w b"
  using assms by (auto simp: forward_inv_def)

lemma track_ok_kept: "track_ok w b \<Longrightarrow> accounted b b' \<Longrightarrow> track_ok w b'"
  by (auto simp: track_ok_def accounted_def keeps_def contents_def intro: subset_mset.order_trans [OF subset_mset.add_left_mono])

text \<open>Steps on the shared state: the buffers stay accounted for, one by one.\<close>

lemma inv_buffers:
  assumes "forward_inv f" "\<And>a. rel_option accounted (buffer_at f a) (buffer_at f' a)" "distinct (map fst (s_buffers (fd_stream f')))"
    "fd_tracks f' = fd_tracks f" "fd_bytes f' = fd_bytes f" "fd_sizes f' = fd_sizes f" "fd_totals f' = fd_totals f"
  shows "forward_inv f'"
proof -
  have "\<exists>b. buffer_at f' a = Some b \<and> track_ok w b" if t: "fd_tracks f a = Some w" for a w
  proof -
    obtain b where b: "buffer_at f a = Some b" "track_ok w b" using forward_invD(3) [OF assms(1) t] by blast
    obtain b' where "buffer_at f' a = Some b'" "accounted b b'" using assms(2) [of a] b(1) by (cases "buffer_at f' a") auto
    with track_ok_kept b(2) show ?thesis by blast
  qed
  moreover have "fd_tracks f a \<noteq> None" if "buffer_at f' a \<noteq> None" for a
  proof -
    have "buffer_at f a \<noteq> None" using assms(2) [of a] that by (cases "buffer_at f a") auto
    then show ?thesis using assms(1) by (simp add: forward_inv_def)
  qed
  ultimately show ?thesis using assms(1,3-7) by (auto simp: forward_inv_def)
qed

text \<open>Steps of one track.\<close>

lemma at_track_fields [simp]:
  "fd_tracks (at_track f a g) = fd_tracks f" "fd_bytes (at_track f a g) = fd_bytes f" "fd_sizes (at_track f a g) = fd_sizes f"
  "fd_totals (at_track f a g) = fd_totals f" "map fst (s_buffers (fd_stream (at_track f a g))) = map fst (s_buffers (fd_stream f))"
  by (auto simp: at_track_def Let_def split: option.split prod.split)

lemma map_of_update_at:
  "map_of (map (\<lambda>(k, x). (k, if k = a then y else x)) xs) k = (if k = a then map_option (\<lambda>_. y) (map_of xs a) else map_of xs k)"
  by (induction xs) auto

lemma buffer_at_track [simp]:
  "buffer_at (at_track f a g) a' =
     (if a' = a then map_option (\<lambda>b. snd (g (s_delay (fd_stream f)) b)) (buffer_at f a) else buffer_at f a')"
  by (auto simp: at_track_def buffer_at_def map_of_update_at Let_def split: option.split prod.split)

lemma buffer_at_same [simp]:
  "buffer_at (f\<lparr>fd_tracks := t\<rparr>) a = buffer_at f a" "buffer_at (f\<lparr>fd_bytes := n\<rparr>) a = buffer_at f a"
  "buffer_at (f\<lparr>fd_sizes := ns\<rparr>) a = buffer_at f a" "buffer_at (f\<lparr>fd_totals := us\<rparr>) a = buffer_at f a"
  "buffer_at (f\<lparr>fd_stats := st\<rparr>) a = buffer_at f a" "buffer_at (f\<lparr>fd_dropped := d\<rparr>) a = buffer_at f a"
  by (simp_all add: buffer_at_def split: option.split)

lemma inv_track:
  assumes "forward_inv f" "fd_tracks f a = Some w" "buffer_at f a = Some b" "track_ok w' (snd (g (s_delay (fd_stream f)) b))"
  shows "forward_inv (set_track (at_track f a g) a w')"
  using assms by (auto simp: forward_inv_def)

lemma inv_set:
  assumes "forward_inv f" "fd_tracks f a = Some w" "buffer_at f a = Some b" "track_ok w' b"
  shows "forward_inv (set_track f a w')"
  using assms by (auto simp: forward_inv_def)

section \<open>Every step\<close>

lemma inv_read:
  assumes "forward_inv f" "fd_tracks f a = Some w"
  shows "forward_inv (drain_read f a w r now)"
proof (cases "fw_reader w = Reading")
  case True
  obtain b where b: "buffer_at f a = Some b" "track_ok w b" using forward_invD(3) [OF assms] by blast
  show ?thesis
  proof (cases r)
    case None
    have "track_ok (w\<lparr>fw_reader := Leaving\<rparr>) (Buffer_Close b now)"
      using b(2) True keeps_simple(4) [of b now]
      by (auto simp: track_ok_def keeps_def handed_def incoming_def outgoing_def Buffer_Close_def Let_def Buffer_dropAll_def
          intro: subset_mset.order_trans [OF subset_mset.add_left_mono])
    then show ?thesis using inv_track [OF assms b(1)] by (simp add: drain_read_def None True)
  next
    case (Some pn)
    obtain p n where pn: "pn = (p, n)" by fastforce
    let ?f = "f\<lparr>fd_bytes := fd_bytes f + of_nat n, fd_sizes := fd_sizes f @ [n]\<rparr>"
    have "forward_inv ?f" using assms(1) by (auto simp: forward_inv_def intro: trans_le_add1)
    moreover have "track_ok (w\<lparr>fw_reader := Pushing p, fw_read := fw_read w @ [p]\<rparr>) b"
      using b(2) True by (auto simp: track_ok_def handed_def incoming_def outgoing_def add.assoc)
    ultimately have "forward_inv (set_track ?f a (w\<lparr>fw_reader := Pushing p, fw_read := fw_read w @ [p]\<rparr>))"
      using assms(2) b(1) by (intro inv_set [of ?f a w b]) simp_all
    then show ?thesis by (simp add: drain_read_def Some pn True)
  qed
qed (simp add: drain_read_def assms(1))

lemma inv_push:
  assumes "forward_inv f" "fd_tracks f a = Some w"
  shows "forward_inv (drain_push f a w t1 t2 now)"
proof (cases "fw_reader w")
  case (Pushing p)
  obtain b where b: "buffer_at f a = Some b" "track_ok w b" using forward_invD(3) [OF assms] by blast
  obtain c' b' sig where push: "Buffer_Push (s_delay (fd_stream f)) b p t1 t2 now = (c', b', sig)" by (metis prod_cases3)
  have inv: "buffer_inv b" and unclosed: "\<not> b_closed b" "fw_feed w \<noteq> Returned" using b(2) Pushing by (auto simp: track_ok_def)
  note h = Push_held_inv [OF push inv]
  have "mset (fw_written w @ outgoing w) + contents b' \<subseteq># mset (fw_written w @ outgoing w) + add_mset p (contents b)"
    using h(4) unclosed by simp
  also have "\<dots> \<subseteq># mset (fw_read w)" using b(2) Pushing by (simp add: track_ok_def handed_def incoming_def)
  finally have "track_ok (w\<lparr>fw_reader := Observing\<rparr>) b'"
    using b(2) Pushing h unclosed by (auto simp: track_ok_def handed_def incoming_def outgoing_def)
  then show ?thesis
    using inv_track [OF assms b(1), where g = "\<lambda>c b. case Buffer_Push c b p t1 t2 now of (c', b', _) \<Rightarrow> (c', b')"]
    by (simp add: drain_push_def Pushing push)
qed (simp_all add: drain_push_def assms(1))

lemma inv_count:
  assumes "forward_inv f" "fd_tracks f a = Some w"
  shows "forward_inv (drain_count P f a w world now)"
proof (cases "fw_reader w = Observing")
  case True
  obtain b where b: "buffer_at f a = Some b" "track_ok w b" using forward_invD(3) [OF assms] by blast
  have "track_ok (w\<lparr>fw_reader := Reading\<rparr>) b" using b(2) True by (auto simp: track_ok_def handed_def incoming_def outgoing_def)
  moreover have "unat (fd_bytes f) \<le> sum_list (fd_sizes f)" "sum_list (fd_sizes f) < 2 ^ 64 \<Longrightarrow> unat (fd_bytes f) = sum_list (fd_sizes f)"
    using assms(1) by (simp_all add: forward_inv_def unat_of_nat take_bit_eq_mod)
  ultimately show ?thesis
    using assms b by (auto simp: drain_count_def True case_prod_beta Let_def forward_inv_def sorted_append)
qed (simp add: drain_count_def assms(1))

lemma inv_rtcp:
  assumes "forward_inv f" "fd_tracks f a = Some w"
  shows "forward_inv (rtcp_read f a w r)" "forward_inv (rtcp_handle f a w)"
proof -
  obtain b where b: "buffer_at f a = Some b" "track_ok w b" using forward_invD(3) [OF assms] by blast
  have same: "track_ok (w\<lparr>fw_rtcp := r\<rparr>) b' = track_ok w b'" for r b'
    by (simp add: track_ok_def handed_def incoming_def outgoing_def)
  have rep: "track_ok w (Buffer_SenderReport b rtp ntp)" for rtp ntp
    by (rule track_ok_kept [OF b(2) accounted_ops(9)])
  have set: "forward_inv (set_track f a (w\<lparr>fw_rtcp := r\<rparr>))" for r using inv_set [OF assms b(1)] b(2) same by simp
  have "forward_inv (set_track (at_track f a (\<lambda>c b. (c, Buffer_SenderReport b rtp ntp))) a (w\<lparr>fw_rtcp := r\<rparr>))" for r rtp ntp
    using inv_track [OF assms b(1)] rep same by simp
  with set assms(1) show "forward_inv (rtcp_handle f a w)"
    by (auto simp: rtcp_handle_def Let_def split: option.split list.split receiver_packet.split)
  show "forward_inv (rtcp_read f a w r)" using set assms(1) by (simp add: rtcp_read_def)
qed

lemma inv_feed:
  assumes "forward_inv f" "fd_tracks f a = Some w"
  shows "forward_inv (feed_pop f a w now)" "forward_inv (feed_write f a w ok)" "forward_inv (feed_stop f a w)"
proof -
  obtain b where b: "buffer_at f a = Some b" "track_ok w b" using forward_invD(3) [OF assms] by blast
  have "track_ok (w\<lparr>fw_feed := Popping, fw_written := fw_written w @ [p], fw_errors := errors\<rparr>) b" if "fw_feed w = Writing p" for p errors
    using b(2) that by (auto simp: track_ok_def handed_def incoming_def outgoing_def)
  then show "forward_inv (feed_write f a w ok)"
    using inv_set [OF assms b(1)] assms(1) by (auto simp: feed_write_def split: feeder.split)
  have "track_ok (w\<lparr>fw_ticker := Stopped\<rparr>) b" if "fw_feed w = Returned"
    using b(2) that by (auto simp: track_ok_def handed_def incoming_def outgoing_def)
  then show "forward_inv (feed_stop f a w)" using inv_set [OF assms b(1)] assms(1) by (simp add: feed_stop_def)
  show "forward_inv (feed_pop f a w now)"
  proof (cases "fw_feed w = Popping")
    case True
    obtain b' out where pop: "Buffer_Pop (s_delay (fd_stream f)) b now = (b', out)" by fastforce
    have inv: "buffer_inv b" using b(2) by (simp add: track_ok_def)
    let ?w = "w\<lparr>fw_feed := case out of Closed \<Rightarrow> Returned | Packet p \<Rightarrow> Writing p | _ \<Rightarrow> Popping\<rparr>"
    have "track_ok ?w b'"
    proof (cases "\<exists>p. out = Packet p")
      case packet: True
      then obtain p where out: "out = Packet p" by blast
      note h = Pop_packet_held_inv [OF pop [unfolded out] inv]
      show ?thesis
        using b(2) True out h(2,3)
        by (simp add: track_ok_def h(1,4) [symmetric] handed_def incoming_def outgoing_def ac_simps split: reader.splits)
    next
      case False
      then have "accounted b b'" using Pop_other [OF pop] inv by (auto simp: keeps_def accounted_def)
      from track_ok_kept [OF b(2) this] have "track_ok w b'" .
      moreover have "out = Closed \<Longrightarrow> b_closed b' \<and> b_queue b' = []" using pop by (auto simp: Buffer_Pop_def Let_def split: if_splits option.splits prod.splits)
      moreover have "outgoing ?w = outgoing w" using False True by (simp add: outgoing_def split: pop_outcome.split)
      ultimately show ?thesis using True False by (cases out) (auto simp: track_ok_def handed_def incoming_def)
    qed
    then show ?thesis using inv_track [OF assms b(1), where g = "\<lambda>c b. (c, fst (Buffer_Pop c b now))"] by (simp add: feed_pop_def True b(1) pop)
  qed (simp add: feed_pop_def assms(1))
qed

text \<open>Steps that change the whole stream.\<close>

lemma inv_stream:
  assumes "forward_inv f" "stream_rel accounted (fd_stream f) s"
  shows "forward_inv (f\<lparr>fd_stream := s\<rparr>)"
proof (rule inv_buffers [OF assms(1)])
  note r = stream_rel_map_of [OF assms(2)]
  show "distinct (map fst (s_buffers (fd_stream (f\<lparr>fd_stream := s\<rparr>))))" using r(2) forward_invD(1) [OF assms(1)] by simp
  fix a
  show "rel_option accounted (buffer_at f a) (buffer_at (f\<lparr>fd_stream := s\<rparr>) a)"
    using r(1) [of a] by (auto simp: buffer_at_def option.rel_sel accounted_ops(1) split: option.splits)
qed simp_all

lemma inv_relay:
  assumes "forward_inv f" "\<And>s. r (pb_ident P) = Some s \<Longrightarrow> stream_rel accounted (fd_stream f) s"
  shows "forward_inv (set_relay P f r)"
  using assms inv_stream by (auto simp: set_relay_def split: option.split)

lemma inv_configure: "forward_inv f \<Longrightarrow> forward_inv (forward_step P f (DConfigure target options now))"
  unfolding forward_step.simps
proof (rule inv_relay)
  fix s assume "Relay_ConfigureDelay (relay_of P f) (pb_ident P) target options now (pb_ident P) = Some s"
  then obtain c changed where s: "s = map_buffers (configure_buffer c target changed) (fd_stream f\<lparr>s_delay := c\<rparr>)"
    by (auto simp: Relay_ConfigureDelay_def relay_of_def Relay_New_def Let_def split: if_splits)
  have "stream_rel accounted (fd_stream f) (fd_stream f\<lparr>s_delay := c\<rparr>)" by (rule accounted.same) simp
  then show "stream_rel accounted (fd_stream f) s" unfolding s
    by (rule accounted.compose) (rule accounted.mapped, rule accounted_configure)
qed

lemma inv_keyframe: "forward_inv f \<Longrightarrow> forward_inv (forward_step P f (DKeyframe since stamp))"
  unfolding forward_step.simps
proof (rule inv_relay)
  fix s assume "fst (Relay_Keyframe (relay_of P f) (pb_ident P) since stamp) (pb_ident P) = Some s"
  then have "s = fst (Stream_askKeyframe (fd_stream f) since stamp)"
    by (auto simp: Relay_Keyframe_def relay_of_def Relay_New_def case_prod_beta split: if_splits)
  then show "stream_rel accounted (fd_stream f) s" using accounted.asked by blast
qed

lemma untrack_spec:
  "untrack a bufs = (r, rest) \<Longrightarrow> distinct (map fst bufs) \<Longrightarrow>
     r = map_of bufs a \<and> map_of rest = (map_of bufs)(a := None) \<and> distinct (map fst rest) \<and> set (map fst rest) \<subseteq> set (map fst bufs)"
proof (induction bufs arbitrary: rest)
  case (Cons x bufs)
  obtain a' b' where x: "x = (a', b')" by fastforce
  show ?case
  proof (cases "a' = a")
    case True
    with Cons.prems x have "r = Some b'" "rest = bufs" "map_of bufs a = None" by (auto simp: map_of_eq_None_iff)
    then show ?thesis using True Cons.prems(2) x by (auto simp: fun_eq_iff)
  next
    case False
    then obtain rest' where rest: "untrack a bufs = (r, rest')" "rest = (a', b') # rest'"
      using Cons.prems(1) x by (cases "untrack a bufs") auto
    from Cons.IH [OF rest(1)] Cons.prems(2) x rest(2) False show ?thesis by (auto simp: fun_eq_iff)
  qed
qed auto

lemma inv_untrack:
  assumes "forward_inv f" "fd_tracks f a = Some w"
  shows "forward_inv (drain_untrack P f a w)"
proof (cases "fw_reader w = Leaving")
  case True
  let ?g = "f\<lparr>fd_gone := (fd_gone f)(a := buffer_at f a)\<rparr>"
  let ?f = "set_relay P ?g (Relay_Untrack (relay_of P f) (pb_ident P) a)"
  obtain b where b: "buffer_at f a = Some b" "track_ok w b" using forward_invD(3) [OF assms] by blast
  obtain r rest where run: "untrack a (s_buffers (fd_stream f)) = (r, rest)" by fastforce
  note u = untrack_spec [OF run forward_invD(1) [OF assms(1)]]
  have g: "buffer_at ?g k = buffer_at f k" for k by (auto simp: buffer_at_def split: option.split)
  have "s_buffers (fd_stream ?f) = s_buffers (fd_stream f) \<or> s_buffers (fd_stream ?f) = rest \<and> r \<noteq> None"
    by (auto simp: set_relay_def Relay_Untrack_def relay_of_def Relay_New_def run Let_def split: option.splits)
  moreover have gone: "fd_gone ?f = fd_gone ?g" by (simp add: set_relay_def split: option.split)
  ultimately have bufs: "buffer_at ?f k = buffer_at f k" for k
    using u g [of k] by (auto simp: buffer_at_def split: option.splits)
  have "forward_inv ?f"
  proof (rule inv_buffers [OF assms(1)])
    show "distinct (map fst (s_buffers (fd_stream ?f)))"
      using u forward_invD(1) [OF assms(1)]
      by (auto simp: set_relay_def Relay_Untrack_def relay_of_def Relay_New_def run Let_def split: option.splits)
    show "rel_option accounted (buffer_at f k) (buffer_at ?f k)" for k
      using accounted_ops(1) by (simp add: bufs option.rel_refl)
  qed (simp_all add: set_relay_def split: option.split)
  moreover have "fd_tracks ?f = fd_tracks f" by (simp add: set_relay_def split: option.split)
  moreover have "track_ok (w\<lparr>fw_reader := Left\<rparr>) b" using b(2) True by (auto simp: track_ok_def handed_def incoming_def outgoing_def)
  ultimately show ?thesis using inv_set [of ?f a w b] assms(2) b(1) bufs by (simp add: drain_untrack_def True)
qed (simp add: drain_untrack_def assms(1))

lemma inv_ticker:
  assumes "forward_inv f" "fd_tracks f a = Some w" "t \<noteq> Stopped"
  shows "forward_inv (set_track f a (w\<lparr>fw_ticker := t\<rparr>))"
proof -
  obtain b where b: "buffer_at f a = Some b" "track_ok w b" using forward_invD(3) [OF assms(1,2)] by blast
  have "track_ok (w\<lparr>fw_ticker := t\<rparr>) b" using b(2) assms(3) by (auto simp: track_ok_def handed_def incoming_def outgoing_def)
  then show ?thesis by (rule inv_set [OF assms(1,2) b(1)])
qed

lemma inv_new_track:
  assumes "forward_inv f"
  shows "forward_inv (forward_step P f (DTrack a kind ssrc target clockRate mime))"
proof (cases "fd_dropped f \<or> fd_tracks f a \<noteq> None")
  case False
  let ?b = "NewBuffer target clockRate mime (kind = KindVideo)"
  let ?f = "set_relay P f (Relay_Track (relay_of P f) (pb_ident P) (a, ?b))"
  obtain b where b: "s_buffers (fd_stream ?f) = s_buffers (fd_stream f) @ [(a, b)]"
      "b_queue b = []" "b_dropped b = 0" "\<not> b_catchUp b" "\<not> b_closed b"
    using False by (cases "c_state (s_delay (fd_stream f))") (auto simp: set_relay_def Relay_Track_def relay_of_def Relay_New_def NewBuffer_def Let_def)
  have other: "fd_tracks ?f = fd_tracks f" "fd_bytes ?f = fd_bytes f" "fd_sizes ?f = fd_sizes f" "fd_totals ?f = fd_totals f" "fd_gone ?f = fd_gone f"
    by (simp_all add: set_relay_def split: option.split)
  have none: "buffer_at f a = None" using forward_invD(2) [OF assms, of a] False by (cases "buffer_at f a") auto
  then have fresh: "map_of (s_buffers (fd_stream f)) a = None" by (simp add: buffer_at_def split: option.splits)
  then have new: "a \<notin> fst ` set (s_buffers (fd_stream f))" by (simp add: map_of_eq_None_iff)
  have bufs: "buffer_at ?f k = (if k = a then Some b else buffer_at f k)" for k
    using fresh by (auto simp: buffer_at_def b(1) other map_add_def split: option.split)
  have ok: "track_ok (forwarder_new kind ssrc) b"
    using b by (simp add: track_ok_def forwarder_new_def handed_def incoming_def outgoing_def buffer_inv_def is_heap_def held_def contents_def)
  have "forward_inv (set_track ?f a (forwarder_new kind ssrc))"
    using assms new ok by (auto simp: forward_inv_def bufs b(1) other)
  then show ?thesis using False by simp
qed (use assms in auto)

lemma inv_forward_step:
  assumes "forward_inv f"
  shows "forward_inv (forward_step P f e)"
proof (cases e)
  case (DOn a te)
  show ?thesis
  proof (cases "fd_tracks f a")
    case (Some w)
    have adjust: "forward_inv (feed_tick f a w now ask)" for now ask
    proof -
      let ?f = "f\<lparr>fd_stream := fst (Stream_adjustDelay (fd_stream f) now (fst ask) (snd ask))\<rparr>"
      have inv: "forward_inv ?f" by (rule inv_stream [OF assms accounted.adjusted])
      have "forward_inv (set_track ?f a (w\<lparr>fw_ticker := Correcting\<rparr>))" by (rule inv_ticker [OF inv]) (simp_all add: Some)
      then show ?thesis using assms by (simp add: feed_tick_def split: option.split)
    qed
    have correct: "forward_inv (feed_correct f a w now until1 until2 ask)" for now until1 until2 ask
    proof -
      let ?f = "f\<lparr>fd_stream := fst (Stream_correctClocks (fd_stream f) now until1 until2 (fst ask) (snd ask))\<rparr>"
      have inv: "forward_inv ?f" by (rule inv_stream [OF assms accounted.clocks_corrected])
      have "forward_inv (set_track ?f a (w\<lparr>fw_ticker := Ticking\<rparr>))" by (rule inv_ticker [OF inv]) (simp_all add: Some)
      then show ?thesis using assms by (simp add: feed_correct_def)
    qed
    show ?thesis
      by (cases te) (simp_all add: DOn Some adjust correct inv_read [OF assms Some] inv_push [OF assms Some] inv_count [OF assms Some]
          inv_untrack [OF assms Some] inv_rtcp [OF assms Some] inv_feed [OF assms Some])
  qed (simp add: DOn assms)
next
  case DTrack
  then show ?thesis using inv_new_track [OF assms] by simp
next
  case DConfigure
  then show ?thesis using inv_configure [OF assms] by blast
next
  case DKeyframe
  then show ?thesis using inv_keyframe [OF assms] by blast
next
  case (DStats stats)
  with assms show ?thesis by (simp add: forward_inv_def)
next
  case DDrop
  with assms show ?thesis by (simp add: forward_inv_def)
qed

interpretation forward: kept_invariant "forward_step P" forward_inv for P
  by unfold_locales (rule inv_forward_step)

lemma forward_start_inv: "forward_inv (forward_start s stats)"
  by (simp add: forward_inv_def forward_start_def buffer_at_def)

section \<open>Properties\<close>

text \<open>
  C1: No packet is lost between the phone and the subscribers without being counted.  However the goroutines of a publisher's tracks
  interleave, with each other, with corrections of the clocks, new settings and the end of the publication, every packet that
  \<^verbatim>\<open>drain\<close> has read from a track is on its way into the buffer, in the buffer, on its way out, written to the
  outgoing track once, or counted as dropped; nothing is written that was not read, or twice.  The buffer is closed exactly when the reader
  has ended, so that no packet is refused, and \<^verbatim>\<open>Feed\<close> returns only when nothing is left to write.
\<close>

theorem forwarding_loses_nothing:
  assumes "f = foldl (forward_step P) (forward_start s stats) es" "fd_tracks f a = Some w" "buffer_at f a = Some b"
  shows "of_nat (length (fw_read w)) =
      of_nat (length (incoming w)) + of_nat (length (b_queue b)) + of_nat (length (outgoing w)) + of_nat (length (fw_written w)) + b_dropped b \<and>
    mset (fw_written w @ outgoing w @ incoming w) + image_mset pkt (mset (b_queue b)) \<subseteq># mset (fw_read w) \<and>
    (b_closed b \<longleftrightarrow> fw_reader w \<in> {Leaving, Left}) \<and> (fw_feed w = Returned \<longrightarrow> b_closed b \<and> b_queue b = [])"
proof -
  have "forward_inv f" unfolding assms(1) by (rule forward.run_keeps) (rule forward_start_inv)
  from forward_invD(3) [OF this assms(2)] have "track_ok w b" using assms(3) by simp
  then show ?thesis by (auto simp: track_ok_def handed_def held_def contents_def ac_simps)
qed

definition example_forwarding :: "unit forwarding" where
  "example_forwarding =
     foldl (forward_step \<lparr>pb_session = 1, pb_ident = ''cam''\<rparr>) (forward_start Stream_new Registry_New)
       [DTrack 3 KindAudio 9 0 48000 ''audio/opus'', DOn 3 (DRead (Some (\<lparr>SequenceNumber = 7, Timestamp = 0, Payload = [1]\<rparr>, 13)) 0), DOn 3 (DPush 10 10 10),
        DOn 3 (DCount \<lparr>w_srv = ingest_NewServer, w_relay = Relay_New, w_stats = Registry_New, w_stopped = []\<rparr> 10), DOn 3 (DPop 20), DOn 3 (DWrite True), DOn 3 (DRead None 30), DOn 3 DUntrack, DOn 3 (DPop 40)]"

theorem forwarding_loses_nothing_witness:
  "\<exists>w. fd_tracks example_forwarding 3 = Some w \<and> fw_feed w = Returned \<and> length (fw_read w) = 1 \<and> mset (fw_written w) \<subseteq># mset (fw_read w)"
proof -
  have "map_option fw_feed (fd_tracks example_forwarding 3) = Some Returned \<and>
      map_option (\<lambda>w. length (fw_read w)) (fd_tracks example_forwarding 3) = Some 1"
    by code_simp
  then obtain w where w: "fd_tracks example_forwarding 3 = Some w" "fw_feed w = Returned" "length (fw_read w) = 1" by auto
  moreover have "map_option b_closed (buffer_at example_forwarding 3) = Some True" by code_simp
  then obtain b where "buffer_at example_forwarding 3 = Some b" by auto
  note forwarding_loses_nothing [OF example_forwarding_def w(1) this]
  ultimately show ?thesis by (auto simp: incoming_def outgoing_def)
qed

text \<open>
  The totals given to the statistics come in order.  Audio and video add to one counter, and each takes the total under the lock: as long
  as a session carries less than \<open>2 ^ 64\<close> bytes, a later observation is never smaller, so that a bitrate is never negative.
\<close>

theorem totals_come_in_order:
  assumes "f = foldl (forward_step P) (forward_start s stats) es" "sum_list (fd_sizes f) < 2 ^ 64"
  shows "sorted (map unat (fd_totals f))"
proof -
  have "forward_inv f" unfolding assms(1) by (rule forward.run_keeps) (rule forward_start_inv)
  with assms(2) show ?thesis by (simp add: forward_inv_def)
qed

end
