(* ===== verification/Http.thy ===== *)
theory Http
  imports Config "HOL-Library.AList"
begin

text \<open>
  What the handlers use of \<^verbatim>\<open>net/http\<close> and \<^verbatim>\<open>strings\<close>.  A response is its status, headers and body; a value that a
  handler encodes as JSON stays a value.  A request is the parts of it the handlers read: the path
  values that the route extracted, the \<^verbatim>\<open>Authorization\<close> header and the body, \<open>None\<close> when
  reading it failed.  White space is that of ASCII.
\<close>

datatype 'v http_body = NoBody | Text string | JSON 'v

record 'v http_response =
  hr_status :: nat
  hr_headers :: "(string \<times> string) list"
  hr_body :: "'v http_body"

record http_request =
  hq_key :: string
  hq_resource :: string
  hq_authorization :: string
  hq_body :: "string option"

abbreviation StatusOK :: nat where "StatusOK \<equiv> 200"
abbreviation StatusCreated :: nat where "StatusCreated \<equiv> 201"
abbreviation StatusNoContent :: nat where "StatusNoContent \<equiv> 204"
abbreviation StatusBadRequest :: nat where "StatusBadRequest \<equiv> 400"
abbreviation StatusNotFound :: nat where "StatusNotFound \<equiv> 404"
abbreviation StatusConflict :: nat where "StatusConflict \<equiv> 409"
abbreviation StatusRequestEntityTooLarge :: nat where "StatusRequestEntityTooLarge \<equiv> 413"
abbreviation StatusTooManyRequests :: nat where "StatusTooManyRequests \<equiv> 429"
abbreviation StatusInternalServerError :: nat where "StatusInternalServerError \<equiv> 500"
abbreviation StatusServiceUnavailable :: nat where "StatusServiceUnavailable \<equiv> 503"

definition newline :: char where "newline = CHR 0x0A"

text \<open>\<^verbatim>\<open>http.Error\<close> on a response with the headers \<open>h\<close>.\<close>

definition http_Error :: "(string \<times> string) list \<Rightarrow> string \<Rightarrow> nat \<Rightarrow> 'v http_response" where
  "http_Error h msg status =
     \<lparr>hr_status = status,
      hr_headers = AList.update ''X-Content-Type-Options'' ''nosniff'' (AList.update ''Content-Type'' ''text/plain; charset=utf-8'' h),
      hr_body = Text (msg @ [newline])\<rparr>"

definition is_space :: "char \<Rightarrow> bool" where
  "is_space c \<longleftrightarrow> c = CHR '' '' \<or> c \<in> {CHR 0x09, CHR 0x0A, CHR 0x0B, CHR 0x0C, CHR 0x0D}"

definition TrimSpace :: "string \<Rightarrow> string" where
  "TrimSpace s = rev (dropWhile is_space (rev (dropWhile is_space s)))"

definition CutPrefix :: "string \<Rightarrow> string \<Rightarrow> string \<times> bool" where
  "CutPrefix s prefix = (if HasPrefix s prefix then (drop (length prefix) s, True) else (s, False))"

lemma CutPrefix_iff: "snd (CutPrefix s p) \<and> fst (CutPrefix s p) = t \<longleftrightarrow> s = p @ t"
  by (auto simp: CutPrefix_def HasPrefix_def) (metis append_take_drop_id)

lemma TrimSpace_ends:
  assumes "s \<noteq> []" "\<not> is_space (hd s)" "\<not> is_space (last s)"
  shows "TrimSpace s = s"
proof -
  have "dropWhile is_space s = s" using assms(1,2) by (cases s) auto
  moreover have "dropWhile is_space (rev s) = rev s" using assms(1,3) by (cases s rule: rev_cases) auto
  ultimately show ?thesis by (simp add: TrimSpace_def)
qed

end
