(* ===== verification/Egress.thy ===== *)
theory Egress
  imports Relay_Stream Config Peer "HOL-Library.AList"
begin

text \<open>
  \<^verbatim>\<open>internal/egress/whep.go\<close>: the subscribers.  A request reserves a place under the lock, negotiates
  without it, and attaches under it again if the reservation was not cancelled meanwhile.  The
  two Go maps are association lists, so that \<^verbatim>\<open>len\<close> and the loops over them compute; a
  \<^verbatim>\<open>*Session\<close> is the address of its object in \<open>eg_heap\<close>.  \<open>sb_peers\<close> holds the peer connections
  that have been created and not closed, each with the tracks added to it.

  The handlers are \<open>egress_Subscribe\<close>, \<open>egress_Teardown\<close>, \<open>egress_CloseIngest\<close> and \<open>egress_Close\<close>;
  \<open>egress_step\<close> runs the sections of any number of requests interleaved with them.
\<close>

section \<open>State\<close>

datatype egress_error =
    ErrCapacity | ErrUnknownKey | ErrWrongRole | ErrNotReceiving | ErrOffline "string option" | ErrBadOffer | ErrNoSession
  | ErrNegotiate

record egress_Session =
  es_Resource :: string
  es_IngestID :: string
  es_peer :: "nat option"

record egress_Server =
  eg_sessions :: "(string \<times> nat) list"
  eg_pending :: "(nat \<times> bool) list"
  eg_closed :: bool
  eg_heap :: "nat \<Rightarrow> egress_Session option"

definition maxSubscribers :: nat where "maxSubscribers = 64"
definition maxSubscribersPerIngest :: nat where "maxSubscribersPerIngest = 8"

definition egress_NewServer :: egress_Server where
  "egress_NewServer = \<lparr>eg_sessions = [], eg_pending = [], eg_closed = False, eg_heap = (\<lambda>_. None)\<rparr>"

record 't subscribers =
  sb_srv :: egress_Server
  sb_peers :: "nat \<Rightarrow> 't list option"

definition egress_ingest_of :: "egress_Server \<Rightarrow> nat \<Rightarrow> string" where
  "egress_ingest_of s a = (case eg_heap s a of None \<Rightarrow> [] | Some x \<Rightarrow> es_IngestID x)"

definition egress_peer_of :: "egress_Server \<Rightarrow> nat \<Rightarrow> nat option" where
  "egress_peer_of s a = (case eg_heap s a of None \<Rightarrow> None | Some x \<Rightarrow> es_peer x)"

section \<open>Sections under the lock\<close>

definition egress_reserve :: "egress_Server \<Rightarrow> string \<Rightarrow> nat \<Rightarrow> egress_Server \<times> nat option" where
  "egress_reserve s ident a =
     (let slots = length (eg_sessions s) + length (eg_pending s);
          camera = length (filter (\<lambda>(b, _). egress_ingest_of s b = ident) (eg_pending s)) +
                   length (filter (\<lambda>(_, b). egress_ingest_of s b = ident) (eg_sessions s))
      in if eg_closed s \<or> slots \<ge> maxSubscribers \<or> camera \<ge> maxSubscribersPerIngest then (s, None)
         else (s\<lparr>eg_heap := (eg_heap s)(a \<mapsto> \<lparr>es_Resource = [], es_IngestID = ident, es_peer = None\<rparr>),
                 eg_pending := AList.update a True (eg_pending s)\<rparr>, Some a))"

definition releaseReservation :: "egress_Server \<Rightarrow> nat \<Rightarrow> egress_Server" where
  "releaseReservation s a = s\<lparr>eg_pending := AList.delete a (eg_pending s)\<rparr>"

text \<open>\<^verbatim>\<open>session.Resource, session.peer = resource, peer\<close>, before the section that attaches.\<close>

definition egress_prepare :: "egress_Server \<Rightarrow> nat \<Rightarrow> string \<Rightarrow> nat \<Rightarrow> egress_Server" where
  "egress_prepare s a resource p =
     s\<lparr>eg_heap := (eg_heap s)(a := map_option (\<lambda>x. x\<lparr>es_Resource := resource, es_peer := Some p\<rparr>) (eg_heap s a))\<rparr>"

definition egress_attach :: "egress_Server \<Rightarrow> nat \<Rightarrow> string \<Rightarrow> egress_Server option" where
  "egress_attach s a resource =
     (if map_of (eg_pending s) a \<noteq> Some True then None
      else Some (s\<lparr>eg_sessions := AList.update resource a (eg_sessions s)\<rparr>))"

definition egress_forget :: "egress_Server \<Rightarrow> string \<Rightarrow> egress_Server" where
  "egress_forget s resource = s\<lparr>eg_sessions := AList.delete resource (eg_sessions s)\<rparr>"

section \<open>Handlers\<close>

definition open_peer :: "'t subscribers \<Rightarrow> nat \<Rightarrow> 't list \<Rightarrow> 't subscribers" where
  "open_peer w p tracks = w\<lparr>sb_peers := (sb_peers w)(p \<mapsto> tracks)\<rparr>"

definition close_peer :: "'t subscribers \<Rightarrow> nat option \<Rightarrow> 't subscribers" where
  "close_peer w p = (case p of None \<Rightarrow> w | Some p \<Rightarrow> w\<lparr>sb_peers := (sb_peers w)(p := None)\<rparr>)"

definition set_server :: "'t subscribers \<Rightarrow> egress_Server \<Rightarrow> 't subscribers" where
  "set_server w s = w\<lparr>sb_srv := s\<rparr>"

definition egress_CloseIngest :: "'t subscribers \<Rightarrow> string \<Rightarrow> 't subscribers" where
  "egress_CloseIngest w ident =
     (let s = sb_srv w;
          s1 = s\<lparr>eg_pending := map (\<lambda>(a, ok). (a, if egress_ingest_of s a = ident then False else ok)) (eg_pending s)\<rparr>;
          doomed = filter (\<lambda>(_, a). egress_ingest_of s a = ident) (eg_sessions s1);
          s2 = s1\<lparr>eg_sessions := filter (\<lambda>(_, a). egress_ingest_of s a \<noteq> ident) (eg_sessions s1)\<rparr>
      in foldl (\<lambda>w (_, a). close_peer w (egress_peer_of s a)) (set_server w s2) doomed)"

definition egress_Teardown :: "'t subscribers \<Rightarrow> string \<Rightarrow> bool \<Rightarrow> 't subscribers \<times> egress_error option" where
  "egress_Teardown w resource closeOk =
     (let s = sb_srv w; w1 = set_server w (egress_forget s resource)
      in case map_of (eg_sessions s) resource of
           None \<Rightarrow> (w1, Some ErrNoSession)
         | Some a \<Rightarrow> (close_peer w1 (egress_peer_of s a), if closeOk then None else Some ErrNoSession))"

definition egress_Close :: "'t subscribers \<Rightarrow> 't subscribers" where
  "egress_Close w =
     (let s = sb_srv w;
          s1 = s\<lparr>eg_closed := True, eg_pending := map (\<lambda>(a, _). (a, False)) (eg_pending s), eg_sessions := []\<rparr>
      in foldl (\<lambda>w (_, a). close_peer w (egress_peer_of s a)) (set_server w s1) (eg_sessions s))"

definition egress_Playback :: "Config \<Rightarrow> 't Relay \<Rightarrow> string \<Rightarrow> instant \<Rightarrow> Playback" where
  "egress_Playback cfg relay ident now =
     (Relay_Playback relay ident now)\<lparr>pb_Options := Config_DelayOptions cfg ident, pb_DelayMS := Config_EffectiveDelay cfg ident\<rparr>"

text \<open>What the WebRTC stack, the random source and the clock answer during one request.\<close>

record 't subscribe_env =
  se_address :: nat
  se_since :: instant
  se_stamp :: instant
  se_newPeer :: "nat option"
  se_addTrack :: "'t \<Rightarrow> bool"
  se_answer :: "string option"
  se_random :: "bytes option"

definition egress_negotiate ::
  "'t subscribers \<Rightarrow> 't list \<Rightarrow> nat \<Rightarrow> 't subscribe_env \<Rightarrow> 't subscribers \<times> (egress_error + string \<times> string)" where
  "egress_negotiate w tracks a env =
     (case se_newPeer env of
        None \<Rightarrow> (w, Inl ErrBadOffer)
      | Some p \<Rightarrow>
          let w1 = open_peer w p (takeWhile (se_addTrack env) tracks)
          in if \<not> list_all (se_addTrack env) tracks then (close_peer w1 (Some p), Inl ErrBadOffer)
             else case se_answer env of
                    None \<Rightarrow> (close_peer w1 (Some p), Inl ErrNegotiate)
                  | Some answer \<Rightarrow>
                      (case newKey [] (se_random env) of
                         Inl _ \<Rightarrow> (close_peer w1 (Some p), Inl ErrBadOffer)
                       | Inr resource \<Rightarrow>
                           let w2 = set_server w1 (egress_prepare (sb_srv w1) a resource p)
                           in case egress_attach (sb_srv w2) a resource of
                                None \<Rightarrow> (close_peer w2 (Some p), Inl (ErrOffline None))
                              | Some s \<Rightarrow> (set_server w2 s, Inr (answer, resource))))"

text \<open>The part of \<^verbatim>\<open>Subscribe\<close> between the reservation and its deferred release.\<close>

definition egress_reserved ::
  "'t Relay \<Rightarrow> 't subscribers \<Rightarrow> Ingest \<Rightarrow> nat \<Rightarrow> 't subscribe_env \<Rightarrow>
     't Relay \<times> 't subscribers \<times> (egress_error + string \<times> string)" where
  "egress_reserved relay w ing a env =
     (case Relay_Subscribe relay (i_ID ing) (se_since env) (se_stamp env) :: 't Relay \<times> (unit relay_error + 't list) \<times> nat option of
        (relay1, Inl _, _) \<Rightarrow> (relay1, w, Inl (ErrOffline (Some (i_Label ing))))
      | (relay1, Inr tracks, _) \<Rightarrow> (relay1, egress_negotiate w tracks a env))"

definition egress_Subscribe ::
  "sdp_parser \<Rightarrow> Config \<Rightarrow> 't Relay \<Rightarrow> 't subscribers \<Rightarrow> string \<Rightarrow> string \<Rightarrow> 't subscribe_env \<Rightarrow>
     't Relay \<times> 't subscribers \<times> (egress_error + string \<times> string)" where
  "egress_Subscribe parse cfg relay w key offer env =
     (case Config_Resolve cfg key of
        (_, RoleNone) \<Rightarrow> (relay, w, Inl ErrUnknownKey)
      | (_, RoleSender) \<Rightarrow> (relay, w, Inl ErrWrongRole)
      | (None, RoleReceiver) \<Rightarrow> (relay, w, Inl ErrUnknownKey)
      | (Some ing, RoleReceiver) \<Rightarrow>
          (case Direction parse offer ''recvonly'' of
             None \<Rightarrow> (relay, w, Inl ErrBadOffer)
           | Some receives \<Rightarrow>
               if \<not> receives then (relay, w, Inl ErrNotReceiving)
               else case egress_reserve (sb_srv w) (i_ID ing) (se_address env) of
                      (s, None) \<Rightarrow> (relay, w, Inl ErrCapacity)
                    | (s, Some a) \<Rightarrow>
                        (case egress_reserved relay (set_server w s) ing a env of
                           (relay1, w1, res) \<Rightarrow> (relay1, set_server w1 (releaseReservation (sb_srv w1) a), res))))"

text \<open>One packet of a subscriber's feedback in \<^verbatim>\<open>drainRTCP\<close>: a picture loss or a full intra request is passed on.\<close>

datatype rtcp_packet = PictureLossIndication | FullIntraRequest | OtherRTCP

definition egress_drainRTCP :: "'t Relay \<Rightarrow> string \<Rightarrow> rtcp_packet list \<Rightarrow> (nat \<Rightarrow> instant) \<Rightarrow> 't Relay" where
  "egress_drainRTCP relay ident packets clk =
     snd (foldl (\<lambda>(n, r) packet.
            (Suc n, if packet = OtherRTCP then r else fst (Relay_Keyframe r ident (clk (2 * n)) (clk (2 * n + 1)))))
          (0, relay) packets)"

end
