(* ===== verification/Signal.thy ===== *)
theory Signal
  imports Http Ingest_Sessions Egress
begin

text \<open>
  \<^verbatim>\<open>internal/signal/server.go\<close>: the public listener.  Each handler is one definition that takes the state it may
  change and returns it with the response; \<open>negotiations\<close> is the length of the channel that bounds the
  negotiations in progress, before the request and after it.  The embedded player files are
  parameters.
\<close>

section \<open>Handlers\<close>

definition maxOfferBytes :: nat where "maxOfferBytes = 256 * 1024"
definition maxNegotiations :: nat where "maxNegotiations = 8"

definition keyFrom :: "http_request \<Rightarrow> string" where
  "keyFrom req =
     (if hq_key req \<noteq> [] then hq_key req
      else let scheme = ''bearer ''; header = TrimSpace (hq_authorization req)
           in if length header \<le> length scheme \<or> \<not> EqualFold (take (length scheme) header) scheme then []
              else TrimSpace (drop (length scheme) header))"

definition not_found :: "'v http_response" where
  "not_found = http_Error [] ''not found'' StatusNotFound"

definition writeSDP :: "string \<Rightarrow> string \<Rightarrow> 'v http_response" where
  "writeSDP answer location =
     \<lparr>hr_status = StatusCreated,
      hr_headers = [(''Content-Type'', ''application/sdp''), (''X-Content-Type-Options'', ''nosniff''), (''Location'', location)],
      hr_body = Text answer\<rparr>"

text \<open>The body is read through a limit of \<open>maxOfferBytes\<close>; any failure to read it is reported as too large.\<close>

definition read_offer :: "http_request \<Rightarrow> string option" where
  "read_offer req = (case hq_body req of None \<Rightarrow> None | Some body \<Rightarrow> if length body \<le> maxOfferBytes then Some body else None)"

definition signal_negotiate ::
  "Config \<Rightarrow> nat \<Rightarrow> 's \<Rightarrow> http_request \<Rightarrow> string \<Rightarrow> (string \<Rightarrow> string \<Rightarrow> 's \<times> ('e + string \<times> string)) \<Rightarrow>
     (string \<Rightarrow> 'e \<Rightarrow> 'v http_response) \<Rightarrow> nat \<times> 's \<times> 'v http_response" where
  "signal_negotiate cfg negotiations st req prefix run refuse =
     (let key = keyFrom req
      in if snd (Config_Resolve cfg key) = RoleNone then (negotiations, st, not_found)
         else if \<not> negotiations < maxNegotiations
         then (negotiations, st, http_Error [(''Retry-After'', ''2'')] ''too many negotiations'' StatusTooManyRequests)
         else let busy = negotiations + 1
              in case read_offer req of
                   None \<Rightarrow> (busy - 1, st, http_Error [] ''offer too large'' StatusRequestEntityTooLarge)
                 | Some offer \<Rightarrow>
                     (case run key offer of
                        (st1, Inl err) \<Rightarrow> (busy - 1, st1, refuse key err)
                      | (st1, Inr (answer, resource)) \<Rightarrow> (busy - 1, st1, writeSDP answer (prefix @ resource))))"

definition signal_release :: "'s \<Rightarrow> http_request \<Rightarrow> (string \<Rightarrow> 's \<times> 'e option) \<Rightarrow> 's \<times> 'v http_response" where
  "signal_release st req run =
     (case run (hq_resource req) of
        (st1, Some _) \<Rightarrow> (st1, not_found)
      | (st1, None) \<Rightarrow> (st1, \<lparr>hr_status = StatusNoContent, hr_headers = [], hr_body = NoBody\<rparr>))"

definition signal_reject :: "string \<Rightarrow> ingest_error \<Rightarrow> 'v http_response" where
  "signal_reject key cause =
     (case cause of
        ingest_error.ErrWrongRole \<Rightarrow>
          http_Error [] ''This is the receiver link, which belongs in OBS. Moblin needs the sender link.'' StatusBadRequest
      | ErrNotSending \<Rightarrow>
          http_Error [] ''This endpoint publishes media. An OBS receiver should use the receiver link instead.'' StatusBadRequest
      | ErrAlreadyLive _ \<Rightarrow> http_Error [] ''That camera already has a publisher.'' StatusConflict
      | ingest_error.ErrUnknownKey \<Rightarrow> not_found
      | _ \<Rightarrow> http_Error [] ''cannot negotiate'' StatusBadRequest)"

definition rejectSubscribe :: "string \<Rightarrow> egress_error \<Rightarrow> 'v http_response" where
  "rejectSubscribe key cause =
     (case cause of
        ErrCapacity \<Rightarrow> http_Error [] ''subscriber limit reached'' StatusTooManyRequests
      | egress_error.ErrWrongRole \<Rightarrow>
          http_Error [] ''This is the sender link, which belongs in Moblin. OBS needs the receiver link.'' StatusBadRequest
      | ErrNotReceiving \<Rightarrow>
          http_Error [] ''This endpoint serves media. A publisher should use the sender link instead.'' StatusBadRequest
      | ErrOffline _ \<Rightarrow> http_Error [] ''That camera is not streaming yet.'' StatusServiceUnavailable
      | egress_error.ErrUnknownKey \<Rightarrow> not_found
      | _ \<Rightarrow> http_Error [] ''cannot negotiate'' StatusBadRequest)"

text \<open>The line that \<^verbatim>\<open>reject\<close> logs about a key: its shape, never the key.\<close>

definition logKeyShape :: "string \<Rightarrow> string" where
  "logKeyShape key =
     (if HasPrefix key SenderPrefix then ''failed negotiation for a sender key''
      else if HasPrefix key ReceiverPrefix then ''failed negotiation for a receiver key''
      else ''failed negotiation for an unrecognized key shape'')"

definition handlePublish ::
  "sdp_parser \<Rightarrow> Config \<Rightarrow> nat \<Rightarrow> 't world \<Rightarrow> http_request \<Rightarrow> publish_env \<Rightarrow> nat \<times> 't world \<times> 'v http_response" where
  "handlePublish parse cfg negotiations w req env =
     signal_negotiate cfg negotiations w req ''/whip/resource/'' (\<lambda>key offer. ingest_Publish parse cfg w key offer env) signal_reject"

definition handleTeardown :: "'t world \<Rightarrow> http_request \<Rightarrow> bool \<Rightarrow> (nat \<Rightarrow> instant) \<Rightarrow> 't world \<times> 'v http_response" where
  "handleTeardown w req closeOk clk = signal_release w req (\<lambda>resource. ingest_Teardown w resource closeOk clk)"

definition handleSubscribe ::
  "sdp_parser \<Rightarrow> Config \<Rightarrow> nat \<Rightarrow> 't Relay \<Rightarrow> 't subscribers \<Rightarrow> http_request \<Rightarrow> 't subscribe_env \<Rightarrow>
     nat \<times> ('t Relay \<times> 't subscribers) \<times> 'v http_response" where
  "handleSubscribe parse cfg negotiations relay w req env =
     signal_negotiate cfg negotiations (relay, w) req ''/whep/resource/''
       (\<lambda>key offer. case egress_Subscribe parse cfg relay w key offer env of (relay1, w1, res) \<Rightarrow> ((relay1, w1), res)) rejectSubscribe"

definition handleUnsubscribe :: "'t subscribers \<Rightarrow> http_request \<Rightarrow> bool \<Rightarrow> 't subscribers \<times> 'v http_response" where
  "handleUnsubscribe w req closeOk = signal_release w req (\<lambda>resource. egress_Teardown w resource closeOk)"

definition handlePlayer :: "string option \<Rightarrow> Config \<Rightarrow> http_request \<Rightarrow> 'v http_response" where
  "handlePlayer page cfg req =
     (if snd (Config_Resolve cfg (hq_key req)) \<noteq> RoleReceiver then not_found
      else case page of
             None \<Rightarrow> not_found
           | Some data \<Rightarrow> \<lparr>hr_status = StatusOK,
               hr_headers = [(''Content-Type'', ''text/html; charset=utf-8''), (''Cache-Control'', ''no-store'')], hr_body = Text data\<rparr>)"

definition handlePlayback :: "Config \<Rightarrow> 't Relay \<Rightarrow> http_request \<Rightarrow> instant \<Rightarrow> Playback http_response" where
  "handlePlayback cfg relay req now =
     (case Config_Resolve cfg (hq_key req) of
        (Some ing, RoleReceiver) \<Rightarrow> \<lparr>hr_status = StatusOK,
          hr_headers = [(''Content-Type'', ''application/json''), (''Cache-Control'', ''no-store'')],
          hr_body = JSON (egress_Playback cfg relay (i_ID ing) now)\<rparr>
      | _ \<Rightarrow> not_found)"

definition handlePlaybackAsset :: "string option \<Rightarrow> Config \<Rightarrow> http_request \<Rightarrow> 'v http_response" where
  "handlePlaybackAsset script cfg req =
     (if snd (Config_Resolve cfg (hq_key req)) \<noteq> RoleReceiver then not_found
      else case script of
             None \<Rightarrow> not_found
           | Some data \<Rightarrow> \<lparr>hr_status = StatusOK,
               hr_headers = [(''Content-Type'', ''text/javascript; charset=utf-8''), (''X-Content-Type-Options'', ''nosniff''),
                 (''Cache-Control'', ''no-store'')], hr_body = Text data\<rparr>)"


section \<open>Responses\<close>

lemma negotiate_unknown:
  "snd (Config_Resolve cfg (keyFrom req)) = RoleNone \<Longrightarrow> signal_negotiate cfg n st req prefix run refuse = (n, st, not_found)"
  by (simp add: signal_negotiate_def)

text \<open>
  C38: Whoever presents a key that names no camera learns nothing and changes nothing: publishing,
  subscribing, the player page, its script and its settings all answer the same 404, whether or not
  the server is busy and whatever the body is.
\<close>

theorem unknown_key_learns_nothing:
  assumes "snd (Config_Resolve cfg (hq_key req)) = RoleNone" "snd (Config_Resolve cfg (keyFrom req)) = RoleNone"
  shows "handlePublish parse cfg n w req env = (n, w, not_found) \<and>
    handleSubscribe parse cfg n relay s req senv = (n, (relay, s), not_found) \<and>
    handlePlayer page cfg req = not_found \<and> handlePlaybackAsset script cfg req = not_found \<and> handlePlayback cfg relay req now = not_found"
proof -
  obtain x where "Config_Resolve cfg (hq_key req) = (x, RoleNone)" using assms(1) by (metis prod.collapse)
  then have "handlePlayback cfg relay req now = not_found" by (cases x) (simp_all add: handlePlayback_def)
  then show ?thesis
    using assms by (simp add: handlePublish_def handleSubscribe_def negotiate_unknown handlePlayer_def handlePlaybackAsset_def)
qed

theorem unknown_key_learns_nothing_witness:
  "\<forall>w env. handlePublish (\<lambda>_. None) one_camera 8 w
     \<lparr>hq_key = ''x'', hq_resource = [], hq_authorization = [], hq_body = None\<rparr> env = (8, w, not_found)"
proof (intro allI)
  fix w env
  let ?req = "\<lparr>hq_key = ''x'', hq_resource = [], hq_authorization = [], hq_body = None\<rparr>"
  have "snd (Config_Resolve one_camera ''x'') = RoleNone"
    by (simp add: Config_Resolve_def one_camera_def example_ingest_def SenderPrefix_def ReceiverPrefix_def)
  then have "snd (Config_Resolve one_camera (hq_key ?req)) = RoleNone" "snd (Config_Resolve one_camera (keyFrom ?req)) = RoleNone"
    by (simp_all add: keyFrom_def)
  from unknown_key_learns_nothing [OF this] show "handlePublish (\<lambda>_. None) one_camera 8 w ?req env = (8, w, not_found)" by blast
qed

text \<open>What \<^verbatim>\<open>negotiate\<close> answers on each of its paths.\<close>

lemma negotiate_cases:
  fixes refuse :: "string \<Rightarrow> 'e \<Rightarrow> 'v http_response"
  assumes "signal_negotiate cfg n st req prefix run refuse = (n', st', resp)"
  obtains (unknown) "snd (Config_Resolve cfg (keyFrom req)) = RoleNone" "st' = st" "resp = not_found"
  | (busy) "snd (Config_Resolve cfg (keyFrom req)) \<noteq> RoleNone" "8 \<le> n" "st' = st" "hr_status resp = StatusTooManyRequests"
  | (large) "snd (Config_Resolve cfg (keyFrom req)) \<noteq> RoleNone" "n < 8" "read_offer req = None" "st' = st"
      "hr_status resp = StatusRequestEntityTooLarge"
  | (refused) offer err where "snd (Config_Resolve cfg (keyFrom req)) \<noteq> RoleNone" "n < 8" "read_offer req = Some offer"
      "run (keyFrom req) offer = (st', Inl err)" "resp = refuse (keyFrom req) err"
  | (answered) offer answer resource where "snd (Config_Resolve cfg (keyFrom req)) \<noteq> RoleNone" "n < 8" "read_offer req = Some offer"
      "run (keyFrom req) offer = (st', Inr (answer, resource))" "resp = writeSDP answer (prefix @ resource)"
proof (cases "snd (Config_Resolve cfg (keyFrom req)) = RoleNone")
  case True
  then show thesis using assms unknown by (simp add: signal_negotiate_def)
next
  case key: False
  show thesis
  proof (cases "n < 8")
    case False
    then show thesis using assms busy key by (auto simp: signal_negotiate_def maxNegotiations_def http_Error_def)
  next
    case True
    show thesis
    proof (cases "read_offer req")
      case None
      then show thesis using assms large key True by (auto simp: signal_negotiate_def maxNegotiations_def http_Error_def)
    next
      case (Some offer)
      obtain st1 res where run: "run (keyFrom req) offer = (st1, res)" by fastforce
      show thesis
      proof (cases res)
        case (Inl err)
        then show thesis using assms refused [OF key True Some] run Some key True by (simp add: signal_negotiate_def maxNegotiations_def)
      next
        case (Inr r)
        then show thesis
          using assms answered [OF key True Some] run Some key True
          by (cases r) (simp add: signal_negotiate_def maxNegotiations_def)
      qed
    qed
  qed
qed

lemma negotiate_slots: "fst (signal_negotiate cfg n st req prefix run refuse) = n"
  by (simp add: signal_negotiate_def Let_def split: option.split prod.split sum.split)

definition publish_status :: "ingest_error \<Rightarrow> nat" where
  "publish_status err = (case err of ErrAlreadyLive _ \<Rightarrow> 409 | ingest_error.ErrUnknownKey \<Rightarrow> 404 | _ \<Rightarrow> 400)"

definition subscribe_status :: "egress_error \<Rightarrow> nat" where
  "subscribe_status err = (case err of ErrCapacity \<Rightarrow> 429 | ErrOffline _ \<Rightarrow> 503 | egress_error.ErrUnknownKey \<Rightarrow> 404 | _ \<Rightarrow> 400)"

lemma reject_status: "hr_status (signal_reject key err) = publish_status err"
  by (cases err) (simp_all add: signal_reject_def publish_status_def not_found_def http_Error_def)

lemma rejectSubscribe_status: "hr_status (rejectSubscribe key err) = subscribe_status err"
  by (cases err) (simp_all add: rejectSubscribe_def subscribe_status_def not_found_def http_Error_def)

text \<open>A key that resolves does so to a camera.\<close>

lemma Resolve_role: "Config_Resolve cfg key = (x, role) \<Longrightarrow> role \<noteq> RoleNone \<Longrightarrow> x \<noteq> None"
proof -
  have "(fst (foldl (\<lambda>found ing. let found1 = (if key = i_SenderKey ing then (Some ing, RoleSender) else found)
       in if key = i_ReceiverKey ing then (Some ing, RoleReceiver) else found1) found xs) = None \<longrightarrow>
       snd (foldl (\<lambda>found ing. let found1 = (if key = i_SenderKey ing then (Some ing, RoleSender) else found)
       in if key = i_ReceiverKey ing then (Some ing, RoleReceiver) else found1) found xs) = RoleNone)"
    if "fst found = None \<longrightarrow> snd found = RoleNone" for found xs
    using that by (induction xs arbitrary: found) (simp_all add: Let_def)
  from this [of "(None, RoleNone)" "cfg_Ingests cfg"]
  show "Config_Resolve cfg key = (x, role) \<Longrightarrow> role \<noteq> RoleNone \<Longrightarrow> x \<noteq> None" by (auto simp: Config_Resolve_def)
qed

lemma clearPrevious_error: "clearPrevious w ing env = (w1, Some err) \<Longrightarrow> err = ErrAlreadyLive (i_Label ing)"
  by (auto simp: clearPrevious_def split: option.splits prod.splits if_splits)

lemma build_error: "negotiate_build env = Inl err \<Longrightarrow> err \<in> {ErrBuildAPI, ingest_error.ErrBadOffer, ErrMintResource}"
  by (auto simp: negotiate_build_def split: if_splits sum.splits)

lemma answer_error: "answerSession w a r env = (w1, Inl err) \<Longrightarrow> err \<in> {ingest_error.ErrNegotiate, ingest_error.ErrNoSession}"
  by (auto simp: answerSession_def split: option.splits if_splits)

lemma claimed_error: "negotiate_claimed w ing env = (w1, Inl err) \<Longrightarrow> err \<noteq> ingest_error.ErrUnknownKey"
  unfolding negotiate_claimed_def negotiate_register_def
  by (auto split: prod.splits option.splits sum.splits if_splits dest: clearPrevious_error build_error answer_error)

lemma negotiate_error: "ingest_negotiate w ing env = (w1, Inl err) \<Longrightarrow> err \<noteq> ingest_error.ErrUnknownKey"
  by (auto simp: ingest_negotiate_def negotiate_claim_def split: prod.splits if_splits dest: claimed_error)

lemma Publish_known_key:
  assumes "snd (Config_Resolve cfg key) \<noteq> RoleNone" "ingest_Publish parse cfg w key offer env = (w1, Inl err)"
  shows "err \<noteq> ingest_error.ErrUnknownKey"
proof -
  obtain x role where r: "Config_Resolve cfg key = (x, role)" by fastforce
  then obtain ing where "x = Some ing" using Resolve_role [OF r] assms(1) by auto
  then show ?thesis
    using r assms by (cases role) (auto simp: ingest_Publish_def split: option.splits if_splits dest: negotiate_error)
qed

lemma publish_status_range: "publish_status err \<in> {400, 404, 409} \<and> (publish_status err = 404 \<longleftrightarrow> err = ingest_error.ErrUnknownKey) \<and>
    (publish_status err = 409 \<longleftrightarrow> (\<exists>label. err = ErrAlreadyLive label))"
  by (cases err) (simp_all add: publish_status_def)

text \<open>
  The status of a publish request says what happened: 404 exactly for a key that names no camera,
  429 exactly when eight negotiations are in progress, 413 exactly for an offer that could not be
  read or is larger than 256 KiB, 409 exactly when the camera has a publisher, 201 exactly when the session was
  negotiated, and then the answer is the body and the location names its resource.  The
  slot is given back on every path, and the server's state changes only by \<^verbatim>\<open>Publish\<close>.
\<close>

theorem publish_status_is_exact:
  fixes env :: publish_env
  assumes "handlePublish parse cfg n w req env = (n', w', resp)"
  shows "n' = n \<and>
    (hr_status resp = 404 \<longleftrightarrow> snd (Config_Resolve cfg (keyFrom req)) = RoleNone) \<and>
    (hr_status resp = 429 \<longleftrightarrow> snd (Config_Resolve cfg (keyFrom req)) \<noteq> RoleNone \<and> 8 \<le> n) \<and>
    (hr_status resp = 413 \<longleftrightarrow> snd (Config_Resolve cfg (keyFrom req)) \<noteq> RoleNone \<and> n < 8 \<and> read_offer req = None) \<and>
    (w' = w \<or> (\<exists>offer. read_offer req = Some offer \<and> w' = fst (ingest_Publish parse cfg w (keyFrom req) offer env))) \<and>
    (hr_status resp = 409 \<longleftrightarrow> n < 8 \<and> (\<exists>offer label. read_offer req = Some offer \<and>
       snd (ingest_Publish parse cfg w (keyFrom req) offer env) = Inl (ErrAlreadyLive label))) \<and>
    (hr_status resp = 201 \<longleftrightarrow> n < 8 \<and> (\<exists>offer answer resource. read_offer req = Some offer \<and>
       ingest_Publish parse cfg w (keyFrom req) offer env = (w', Inr (answer, resource)) \<and>
       hr_body resp = Text answer \<and> map_of (hr_headers resp) ''Location'' = Some (''/whip/resource/'' @ resource)))"
proof -
  have n: "n' = n" using assms negotiate_slots unfolding handlePublish_def by (metis fst_conv)
  have none: "snd (ingest_Publish parse cfg w (keyFrom req) offer env) = Inl ingest_error.ErrUnknownKey"
    if "snd (Config_Resolve cfg (keyFrom req)) = RoleNone" for offer
    using that by (cases "Config_Resolve cfg (keyFrom req)") (simp add: ingest_Publish_def split: option.split)
  show ?thesis
    using assms unfolding handlePublish_def
  proof (cases rule: negotiate_cases)
    case unknown
    then show ?thesis using n none by (auto simp: not_found_def http_Error_def)
  next
    case busy
    then show ?thesis using n by simp
  next
    case large
    then show ?thesis using n by simp
  next
    case (refused offer err)
    then have "err \<noteq> ingest_error.ErrUnknownKey" using Publish_known_key by metis
    then show ?thesis using refused n publish_status_range [of err] by (auto simp: reject_status)
  next
    case (answered offer answer resource)
    then show ?thesis using n by (auto simp: writeSDP_def)
  qed
qed


theorem publish_status_is_exact_witness:
  "\<forall>w env. \<exists>w' (resp :: unit http_response). handlePublish (\<lambda>_. None) one_camera 8 w
     \<lparr>hq_key = camera_key, hq_resource = [], hq_authorization = [], hq_body = Some ''o''\<rparr> env = (8, w', resp) \<and> hr_status resp = 429"
proof (intro allI)
  fix w :: "'t world" and env
  define req where "req = \<lparr>hq_key = camera_key, hq_resource = [], hq_authorization = [], hq_body = Some ''o''\<rparr>"
  obtain n w' and resp :: "unit http_response" where run: "handlePublish (\<lambda>_. None) one_camera 8 w req env = (n, w', resp)"
    by (metis prod_cases3)
  have "camera_key \<noteq> []" by (simp add: camera_key_def example_ingest_def SenderPrefix_def)
  then have "snd (Config_Resolve one_camera (keyFrom req)) \<noteq> RoleNone" by (simp add: req_def keyFrom_def one_camera_resolves)
  then have "n = 8" "hr_status resp = 429" using publish_status_is_exact [OF run] by simp_all
  then show "\<exists>w' (resp :: unit http_response). handlePublish (\<lambda>_. None) one_camera 8 w
     \<lparr>hq_key = camera_key, hq_resource = [], hq_authorization = [], hq_body = Some ''o''\<rparr> env = (8, w', resp) \<and> hr_status resp = 429"
    using run unfolding req_def by blast
qed

section \<open>Two ways in\<close>

lemma hex_not_space: "is_hex c \<Longrightarrow> \<not> is_space c"
  by (auto simp: is_hex_def is_space_def Let_def)

lemma valid_key_ends:
  assumes "validKey pre key" "pre \<noteq> []" "\<not> is_space (hd pre)"
  shows "key \<noteq> []" "\<not> is_space (hd key)" "\<not> is_space (last key)"
proof -
  have k: "length key = length pre + 32" "take (length pre) key = pre" "list_all is_hex (ToLower (drop (length pre) key))" "key = ToLower key"
    using assms(1) by (auto simp: validKey_def keyBytes_def HasPrefix_def Let_def split: if_splits)
  then have "ToLower (drop (length pre) key) = drop (length pre) key" by (metis ToLower_def drop_map)
  then have hex: "list_all is_hex (drop (length pre) key)" using k(3) by simp
  show "key \<noteq> []" using k(1) by auto
  have "hd key = hd pre" using k(2) assms(2) by (metis append_take_drop_id hd_append2)
  then show "\<not> is_space (hd key)" using assms(3) by simp
  have "drop (length pre) key \<noteq> []" using k(1) by simp
  then have "last key \<in> set (drop (length pre) key)" by (metis last_drop last_in_set length_drop drop_eq_Nil not_le)
  then show "\<not> is_space (last key)" using hex hex_not_space by (auto simp: list_all_iff)
qed

lemma keyFrom_bearer:
  assumes "EqualFold scheme ''bearer ''" "key \<noteq> []" "\<not> is_space (hd key)" "\<not> is_space (last key)"
  shows "keyFrom \<lparr>hq_key = [], hq_resource = r, hq_authorization = scheme @ key, hq_body = b\<rparr> = key"
proof -
  have "length (ToLower scheme) = length (ToLower ''bearer '')" using assms(1) by (simp only: EqualFold_def)
  then have len: "length scheme = 7" by (simp add: ToLower_def)
  have first: "\<not> is_space (hd scheme)" "scheme \<noteq> []"
    using assms(1) len by (cases scheme; auto simp: EqualFold_def ToLower_def lower_char_def is_space_def Let_def)+
  have "TrimSpace (scheme @ key) = scheme @ key" using first assms(2,4) by (intro TrimSpace_ends) (auto simp: hd_append)
  moreover have "TrimSpace key = key" using assms(2-4) by (rule TrimSpace_ends)
  ultimately show ?thesis using assms(1,2) len by (simp add: keyFrom_def)
qed

text \<open>
  A link and a token are the same credential: in a validated list, a camera's key reaches that camera and
  its half whether it is the path of the request or a bearer token, in any capitalisation
  of the scheme; and the path wins over whatever token a request also carries.
\<close>

theorem both_ways_in_reach_the_camera:
  assumes "validateIngests (cfg_Ingests cfg) = None" "ing \<in> set (cfg_Ingests cfg)" "EqualFold scheme ''bearer ''"
  shows "Config_Resolve cfg (keyFrom \<lparr>hq_key = i_SenderKey ing, hq_resource = r, hq_authorization = other, hq_body = b\<rparr>) = (Some ing, RoleSender) \<and>
    Config_Resolve cfg (keyFrom \<lparr>hq_key = [], hq_resource = r, hq_authorization = scheme @ i_SenderKey ing, hq_body = b\<rparr>) = (Some ing, RoleSender) \<and>
    Config_Resolve cfg (keyFrom \<lparr>hq_key = i_ReceiverKey ing, hq_resource = r, hq_authorization = other, hq_body = b\<rparr>) = (Some ing, RoleReceiver) \<and>
    Config_Resolve cfg (keyFrom \<lparr>hq_key = [], hq_resource = r, hq_authorization = scheme @ i_ReceiverKey ing, hq_body = b\<rparr>) = (Some ing, RoleReceiver)"
proof -
  have list: "list_all keyed (cfg_Ingests cfg)" "distinct (concat (map names (cfg_Ingests cfg)))"
    using assms(1) by (simp_all add: validateIngests_None)
  note found = resolve_scan_found [OF assms(2) list(2), of "(None, RoleNone)", folded Config_Resolve_scan]
  have "keyed ing" using list(1) assms(2) by (auto simp: list_all_iff)
  then have s: "i_SenderKey ing \<noteq> []" "\<not> is_space (hd (i_SenderKey ing))" "\<not> is_space (last (i_SenderKey ing))"
    and r: "i_ReceiverKey ing \<noteq> []" "\<not> is_space (hd (i_ReceiverKey ing))" "\<not> is_space (last (i_ReceiverKey ing))"
    using valid_key_ends [of SenderPrefix "i_SenderKey ing"] valid_key_ends [of ReceiverPrefix "i_ReceiverKey ing"]
    by (auto simp: keyed_def SenderPrefix_def ReceiverPrefix_def is_space_def)
  show ?thesis
    using found keyFrom_bearer [OF assms(3) s] keyFrom_bearer [OF assms(3) r] s(1) r(1) by (simp add: keyFrom_def)
qed


theorem both_ways_in_reach_the_camera_witness:
  "Config_Resolve example_group (keyFrom \<lparr>hq_key = [], hq_resource = [], hq_authorization = ''BEARER '' @ i_ReceiverKey (example_ingest ''b'' 2 ''g''),
     hq_body = None\<rparr>) = (Some (example_ingest ''b'' 2 ''g''), RoleReceiver)"
proof -
  have "validateIngests (cfg_Ingests example_group) = None" "example_ingest ''b'' 2 ''g'' \<in> set (cfg_Ingests example_group)"
    using example_list_valid by (simp_all add: example_group_def)
  moreover have "EqualFold ''BEARER '' ''bearer ''" by code_simp
  ultimately show ?thesis using both_ways_in_reach_the_camera by blast
qed

end
