(* ===== verification/Ingest_Interleaving.thy ===== *)
theory Ingest_Interleaving
  imports Ingest_Sessions
begin

text \<open>
  The publishers of \<^verbatim>\<open>whip.go\<close> with every goroutine running: any number of negotiations, stops and
  tracks, whose sections under the lock (\<open>Ingest_Sessions\<close>) interleave in any order with each
  other, with changes of the settings and with a shutdown.  A track is named by the session
  that published it.  The model allows more than the code does: a stop can begin for any session at any time,
  and a negotiation can fail between any two sections.
\<close>

section \<open>Steps\<close>

text \<open>Where a negotiation is: it has resolved its key; it holds the camera's claim; it tears down a
  resource; it waits for the stop of a session; the camera is free; its session is registered.\<close>

datatype phase = Resolved Ingest | Claimed string | Tearing string string | Waiting string nat | Cleared string
  | Answering string nat

fun claim_of :: "phase \<Rightarrow> string option" where
  "claim_of (Resolved _) = None"
| "claim_of (Claimed i) = Some i"
| "claim_of (Tearing i _) = Some i"
| "claim_of (Waiting i _) = Some i"
| "claim_of (Cleared i) = Some i"
| "claim_of (Answering i _) = Some i"

type_synonym track = "nat \<times> RTPCodecType"

record system =
  sys_cfg :: Config
  sys_w :: "track world"
  sys_neg :: "nat \<Rightarrow> phase option"

datatype event =
    EConfig Config | EResolve nat string | EClaim nat | ELook nat bool | ETear nat | EWaited nat | EFail nat
  | ERegister nat nat string | EFinish nat | EStopBegin nat | EStopCleanup nat "nat \<Rightarrow> instant" | EStopForget nat
  | EDrain nat RTPCodecType string u32 nat instant | EShutdown

definition srv :: "system \<Rightarrow> ingest_Server" where
  "srv S = w_srv (sys_w S)"

definition set_srv :: "system \<Rightarrow> ingest_Server \<Rightarrow> system" where
  "set_srv S s = S\<lparr>sys_w := (sys_w S)\<lparr>w_srv := s\<rparr>\<rparr>"

definition set_neg :: "system \<Rightarrow> nat \<Rightarrow> phase option \<Rightarrow> system" where
  "set_neg S t p = S\<lparr>sys_neg := (sys_neg S)(t := p)\<rparr>"

definition end_neg :: "system \<Rightarrow> nat \<Rightarrow> string \<Rightarrow> system" where
  "end_neg S t i = set_neg (set_srv S (negotiate_release (srv S) i)) t None"

text \<open>A step is not enabled (\<open>None\<close>) unless the goroutine is at that point of its code.\<close>

fun ingest_step :: "system \<Rightarrow> event \<Rightarrow> system option" where
  "ingest_step S (EConfig c) = Some (S\<lparr>sys_cfg := c\<rparr>)"
| "ingest_step S (EResolve t key) =
     (case (sys_neg S t, Config_Resolve (sys_cfg S) key) of
        (None, Some ing, RoleSender) \<Rightarrow> Some (set_neg S t (Some (Resolved ing)))
      | _ \<Rightarrow> None)"
| "ingest_step S (EClaim t) =
     (case sys_neg S t of
        Some (Resolved ing) \<Rightarrow>
          (case negotiate_claim (srv S) (i_ID ing) (i_Label ing) of
             (_, Some _) \<Rightarrow> Some (set_neg S t None)
           | (s, None) \<Rightarrow> Some (set_neg (set_srv S s) t (Some (Claimed (i_ID ing)))))
      | _ \<Rightarrow> None)"
| "ingest_step S (ELook t conn) =
     (case sys_neg S t of
        Some (Claimed i) \<Rightarrow>
          (case clearPrevious_look (srv S) i of
             None \<Rightarrow> Some (set_neg S t (Some (Cleared i)))
           | Some (resource, _, stopping) \<Rightarrow>
               if \<not> stopping \<and> conn then Some (end_neg S t i) else Some (set_neg S t (Some (Tearing i resource))))
      | _ \<Rightarrow> None)"
| "ingest_step S (ETear t) =
     (case sys_neg S t of
        Some (Tearing i resource) \<Rightarrow>
          (case session_lookup (srv S) resource of
             None \<Rightarrow> Some (set_neg S t (Some (Cleared i)))
           | Some a \<Rightarrow> Some (set_neg S t (Some (Waiting i a))))
      | _ \<Rightarrow> None)"
| "ingest_step S (EWaited t) =
     (case sys_neg S t of
        Some (Waiting i a) \<Rightarrow>
          (case sv_heap (srv S) a of
             Some x \<Rightarrow> if ss_once x = Ran then Some (set_neg S t (Some (Cleared i))) else None
           | None \<Rightarrow> None)
      | _ \<Rightarrow> None)"
| "ingest_step S (EFail t) =
     (case sys_neg S t of
        Some p \<Rightarrow> (case claim_of p of None \<Rightarrow> Some (set_neg S t None) | Some i \<Rightarrow> Some (end_neg S t i))
      | None \<Rightarrow> None)"
| "ingest_step S (ERegister t a resource) =
     (case sys_neg S t of
        Some (Cleared i) \<Rightarrow>
          if sv_heap (srv S) a \<noteq> None \<or> sv_sessions (srv S) resource \<noteq> None \<or> resource = [] then None
          else (case negotiate_register (srv S) a resource i of
                  (_, Some _) \<Rightarrow> Some (end_neg S t i)
                | (s, None) \<Rightarrow> Some (set_neg (set_srv S s) t (Some (Answering i a))))
      | _ \<Rightarrow> None)"
| "ingest_step S (EFinish t) =
     (case sys_neg S t of Some (Answering i a) \<Rightarrow> Some (end_neg S t i) | _ \<Rightarrow> None)"
| "ingest_step S (EStopBegin a) = Some (set_srv S (stop_begin (srv S) a))"
| "ingest_step S (EStopCleanup a clk) = Some (S\<lparr>sys_w := stop_cleanup (sys_w S) a clk\<rparr>)"
| "ingest_step S (EStopForget a) = Some (set_srv S (stop_forget (srv S) a))"
| "ingest_step S (EDrain a kind mime clockRate addr now) =
     (case sv_heap (srv S) a of
        None \<Rightarrow> None
      | Some x \<Rightarrow>
          Some (S\<lparr>sys_w := fst (drain_start (\<lambda>(_::unit) _ _. Inr (a, kind) :: unit + track) (sys_cfg S) (sys_w S) a (ss_IngestID x) kind ()
                   mime clockRate addr now)\<rparr>))"
| "ingest_step S EShutdown = Some (set_srv S ((srv S)\<lparr>sv_closed := True\<rparr>))"

definition ingest_start :: "Config \<Rightarrow> system" where
  "ingest_start cfg = \<lparr>sys_cfg = cfg, sys_w = \<lparr>w_srv = ingest_NewServer, w_relay = Relay_New, w_stats = Registry_New,
     w_stopped = []\<rparr>, sys_neg = (\<lambda>_. None)\<rparr>"

inductive reachable :: "system \<Rightarrow> bool" where
  start: "reachable (ingest_start cfg)"
| step: "reachable S \<Longrightarrow> ingest_step S e = Some S' \<Longrightarrow> reachable S'"

section \<open>The invariant\<close>

text \<open>The tables agree: a camera's entry names a session of that camera, every session in the table is its
  camera's entry, and a session is in the table until its stop is over.\<close>

definition tables_ok :: "ingest_Server \<Rightarrow> bool" where
  "tables_ok s \<longleftrightarrow>
     (\<forall>i r. sv_byIngest s i = Some r \<longrightarrow> (\<exists>a x. sv_sessions s r = Some a \<and> sv_heap s a = Some x \<and> ss_IngestID x = i)) \<and>
     (\<forall>r a. sv_sessions s r = Some a \<longrightarrow>
        (\<exists>x. sv_heap s a = Some x \<and> ss_Resource x = r \<and> r \<noteq> [] \<and> sv_byIngest s (ss_IngestID x) = Some r \<and> ss_once x \<noteq> Ran)) \<and>
     (\<forall>a x. sv_heap s a = Some x \<and> ss_once x \<noteq> Ran \<longrightarrow> sv_sessions s (ss_Resource x) = Some a)"

text \<open>A session has ended exactly when its stop began, and a stop that began owns its camera.\<close>

definition stops_ok :: "ingest_Server \<Rightarrow> bool" where
  "stops_ok s \<longleftrightarrow> (\<forall>a x. sv_heap s a = Some x \<longrightarrow> ss_ended x = (ss_once x \<noteq> NotRun) \<and> ss_once x \<noteq> Began False)"

text \<open>What each negotiation knows of its camera.\<close>

fun phase_ok :: "ingest_Server \<Rightarrow> phase \<Rightarrow> bool" where
  "phase_ok s (Cleared i) \<longleftrightarrow> sv_byIngest s i = None"
| "phase_ok s (Tearing i r) \<longleftrightarrow> sv_byIngest s i \<in> {None, Some r}"
| "phase_ok s (Waiting i a) \<longleftrightarrow> (\<forall>r. sv_byIngest s i = Some r \<longrightarrow> sv_sessions s r = Some a)"
| "phase_ok s _ \<longleftrightarrow> True"

definition claims_ok :: "ingest_Server \<Rightarrow> (nat \<Rightarrow> phase option) \<Rightarrow> bool" where
  "claims_ok s neg \<longleftrightarrow>
     (\<forall>t p i. neg t = Some p \<and> claim_of p = Some i \<longrightarrow> i \<in> sv_pending s) \<and>
     (\<forall>t t' p p' i. neg t = Some p \<and> neg t' = Some p' \<and> claim_of p = Some i \<and> claim_of p' = Some i \<longrightarrow> t = t') \<and>
     (\<forall>t p. neg t = Some p \<longrightarrow> phase_ok s p)"

text \<open>The relay holds tracks of sessions whose cleanup is still to come.\<close>

definition relay_ok :: "ingest_Server \<Rightarrow> track Relay \<Rightarrow> bool" where
  "relay_ok s r \<longleftrightarrow> (\<forall>i st kind a k. r i = Some st \<and> s_tracks st kind = Some (a, k) \<longrightarrow>
     (\<exists>x. sv_heap s a = Some x \<and> ss_IngestID x = i \<and> ss_once x \<in> {NotRun, Began True}))"

definition system_inv :: "system \<Rightarrow> bool" where
  "system_inv S \<longleftrightarrow> tables_ok (srv S) \<and> stops_ok (srv S) \<and> claims_ok (srv S) (sys_neg S) \<and> relay_ok (srv S) (w_relay (sys_w S))"

lemma tables_byIngest:
  assumes "tables_ok s" "sv_byIngest s i = Some r"
  obtains a x where "sv_sessions s r = Some a" "sv_heap s a = Some x" "ss_IngestID x = i"
  using assms unfolding tables_ok_def by blast

lemma tables_sessions:
  assumes "tables_ok s" "sv_sessions s r = Some a"
  obtains x where "sv_heap s a = Some x" "ss_Resource x = r" "r \<noteq> []" "sv_byIngest s (ss_IngestID x) = Some r" "ss_once x \<noteq> Ran"
  using assms unfolding tables_ok_def by blast

lemma tables_heap: "tables_ok s \<Longrightarrow> sv_heap s a = Some x \<Longrightarrow> ss_once x \<noteq> Ran \<Longrightarrow> sv_sessions s (ss_Resource x) = Some a"
  unfolding tables_ok_def by blast

lemma not_stopped_current:
  assumes "tables_ok s" "stops_ok s" "sv_heap s a = Some x" "ss_once x = NotRun"
  shows "currentLocked s a"
proof -
  have "sv_sessions s (ss_Resource x) = Some a" using tables_heap [OF assms(1,3)] assms(4) by simp
  moreover from tables_sessions [OF assms(1) this] have "sv_byIngest s (ss_IngestID x) = Some (ss_Resource x)"
    using assms(3) by auto
  ultimately show ?thesis using assms(2-4) by (simp add: currentLocked_def stops_ok_def)
qed

text \<open>Changing the phase of a stop, except to its end, keeps the tables.\<close>

lemma set_once_tables:
  assumes "tables_ok s" "sv_heap s a = Some x" "ss_once x \<noteq> Ran" "phase \<noteq> Ran" "ss_Resource y = ss_Resource x" "ss_IngestID y = ss_IngestID x"
  shows "tables_ok (set_once s a y phase)"
proof -
  have r: "sv_sessions s (ss_Resource x) = Some a" using tables_heap assms(1-3) by blast
  show ?thesis
    unfolding tables_ok_def set_once_def
  proof (intro conjI allI impI, goal_cases)
    case (1 i r)
    then have "sv_byIngest s i = Some r" by simp
    from tables_byIngest [OF assms(1) this] obtain b z
      where "sv_sessions s r = Some b" "sv_heap s b = Some z" "ss_IngestID z = i" .
    then show ?case using assms by (cases "b = a") auto
  next
    case (2 r b)
    then have "sv_sessions s r = Some b" by simp
    from tables_sessions [OF assms(1) this] obtain z where "sv_heap s b = Some z" "ss_Resource z = r" "r \<noteq> []"
      "sv_byIngest s (ss_IngestID z) = Some r" "ss_once z \<noteq> Ran" .
    then show ?case using assms by (cases "b = a") auto
  next
    case (3 b z)
    then show ?case using assms(4,5) r tables_heap [OF assms(1)] by (cases "b = a") auto
  qed
qed

lemma stop_begin_tables: "tables_ok s \<Longrightarrow> stops_ok s \<Longrightarrow> tables_ok (stop_begin s a) \<and> stops_ok (stop_begin s a)"
  using not_stopped_current [of s a]
  by (auto simp: stop_begin_def split: option.split intro: set_once_tables)
    (auto simp: stops_ok_def set_once_def)

lemma register_tables:
  assumes "tables_ok s" "stops_ok s" "sv_heap s a = None" "sv_sessions s r = None" "r \<noteq> []" "sv_byIngest s i = None" "\<not> sv_closed s"
  shows "tables_ok (fst (negotiate_register s a r i)) \<and> stops_ok (fst (negotiate_register s a r i))"
proof
  let ?s = "fst (negotiate_register s a r i)"
  have s': "sv_heap ?s = (sv_heap s)(a \<mapsto> \<lparr>ss_Resource = r, ss_IngestID = i, ss_ended = False, ss_once = NotRun\<rparr>)"
    "sv_sessions ?s = (sv_sessions s)(r \<mapsto> a)" "sv_byIngest ?s = (sv_byIngest s)(i \<mapsto> r)"
    using assms(7) by (simp_all add: negotiate_register_def)
  show "tables_ok ?s"
    unfolding tables_ok_def s'
  proof (intro conjI allI impI, goal_cases)
    case (1 i' r')
    show ?case
    proof (cases "i' = i")
      case False
      with 1 have "sv_byIngest s i' = Some r'" by simp
      from tables_byIngest [OF assms(1) this] obtain b z
        where z: "sv_sessions s r' = Some b" "sv_heap s b = Some z" "ss_IngestID z = i'" .
      then have "r' \<noteq> r" "b \<noteq> a" using assms(3,4) by auto
      with z show ?thesis by auto
    qed (use 1 in auto)
  next
    case (2 r' b)
    show ?case
    proof (cases "r' = r")
      case False
      then obtain z where z: "sv_heap s b = Some z" "ss_Resource z = r'" "r' \<noteq> []" "sv_byIngest s (ss_IngestID z) = Some r'" "ss_once z \<noteq> Ran"
        using 2 tables_sessions [OF assms(1), of r' b] by auto
      then have "b \<noteq> a" "ss_IngestID z \<noteq> i" using assms(3,6) by auto
      with z show ?thesis by auto
    qed (use 2 assms(5) in auto)
  next
    case (3 b z)
    then show ?case using tables_heap [OF assms(1), of b z] assms(4) by (cases "b = a") auto
  qed
  show "stops_ok ?s" using assms(2) by (auto simp: stops_ok_def s')
qed

lemma stop_forget_fields:
  assumes "tables_ok s" "sv_heap s a = Some x" "ss_once x = Cleaned"
  shows "sv_heap (stop_forget s a) = (sv_heap s)(a \<mapsto> x\<lparr>ss_once := Ran\<rparr>)"
    "sv_sessions (stop_forget s a) = (sv_sessions s)(ss_Resource x := None)"
    "sv_byIngest (stop_forget s a) = (sv_byIngest s)(ss_IngestID x := None)"
    "sv_pending (stop_forget s a) = sv_pending s"
proof -
  have r: "sv_sessions s (ss_Resource x) = Some a" using tables_heap [OF assms(1,2)] assms(3) by simp
  from tables_sessions [OF assms(1) r] have "sv_byIngest s (ss_IngestID x) = Some (ss_Resource x)" using assms(2) by auto
  with r show "sv_heap (stop_forget s a) = (sv_heap s)(a \<mapsto> x\<lparr>ss_once := Ran\<rparr>)"
    "sv_sessions (stop_forget s a) = (sv_sessions s)(ss_Resource x := None)"
    "sv_byIngest (stop_forget s a) = (sv_byIngest s)(ss_IngestID x := None)"
    "sv_pending (stop_forget s a) = sv_pending s"
    using assms(2,3) by (simp_all add: stop_forget_def ingest_forget_def set_once_def Let_def)
qed

lemma stop_forget_idle: "(\<And>x. sv_heap s a = Some x \<Longrightarrow> ss_once x \<noteq> Cleaned) \<Longrightarrow> stop_forget s a = s"
  by (auto simp: stop_forget_def split: option.split)

lemma stop_forget_tables:
  assumes "tables_ok s" "stops_ok s"
  shows "tables_ok (stop_forget s a) \<and> stops_ok (stop_forget s a)"
proof (cases "\<exists>x. sv_heap s a = Some x \<and> ss_once x = Cleaned")
  case False
  then show ?thesis using assms stop_forget_idle by metis
next
  case True
  then obtain x where x: "sv_heap s a = Some x" "ss_once x = Cleaned" by blast
  note s' = stop_forget_fields [OF assms(1) x]
  have r: "sv_sessions s (ss_Resource x) = Some a" using tables_heap [OF assms(1) x(1)] x(2) by simp
  have one: "sv_sessions s r = Some a \<longleftrightarrow> r = ss_Resource x" for r
    using r tables_sessions [OF assms(1), of r a] x(1) by auto
  have "tables_ok (stop_forget s a)"
    unfolding tables_ok_def s'
  proof (intro conjI allI impI, goal_cases)
    case (1 i r')
    then have i: "i \<noteq> ss_IngestID x" "sv_byIngest s i = Some r'" by (auto split: if_splits)
    from tables_byIngest [OF assms(1) i(2)] obtain b z where z: "sv_sessions s r' = Some b" "sv_heap s b = Some z" "ss_IngestID z = i" .
    then have "b \<noteq> a" using i(1) x(1) by auto
    then have "r' \<noteq> ss_Resource x" using z(1) r by auto
    with z \<open>b \<noteq> a\<close> show ?case by auto
  next
    case (2 r' b)
    then have r': "r' \<noteq> ss_Resource x" "sv_sessions s r' = Some b" by (auto split: if_splits)
    then have "b \<noteq> a" using one by auto
    from tables_sessions [OF assms(1) r'(2)] obtain z where z: "sv_heap s b = Some z" "ss_Resource z = r'" "r' \<noteq> []"
      "sv_byIngest s (ss_IngestID z) = Some r'" "ss_once z \<noteq> Ran" .
    have "ss_IngestID z \<noteq> ss_IngestID x"
    proof
      assume "ss_IngestID z = ss_IngestID x"
      moreover from tables_sessions [OF assms(1) r] have "sv_byIngest s (ss_IngestID x) = Some (ss_Resource x)" using x(1) by auto
      ultimately show False using z(4) r'(1) by simp
    qed
    with z \<open>b \<noteq> a\<close> show ?case by auto
  next
    case (3 b z)
    then have "b \<noteq> a" by (auto split: if_splits)
    with 3 have z: "sv_heap s b = Some z" "ss_once z \<noteq> Ran" by auto
    then have "sv_sessions s (ss_Resource z) = Some b" by (rule tables_heap [OF assms(1)])
    with \<open>b \<noteq> a\<close> r show ?case by auto
  qed
  moreover have "stops_ok (stop_forget s a)" using assms(2) x by (auto simp: stops_ok_def s')
  ultimately show ?thesis by simp
qed

text \<open>The claims and the relay under the operations on the tables.\<close>

lemma claims_shrink:
  assumes "claims_ok s neg" "sv_pending s' = sv_pending s"
    and "\<And>i r. sv_byIngest s' i = Some r \<Longrightarrow> sv_byIngest s i = Some r \<and> sv_sessions s' r = sv_sessions s r"
  shows "claims_ok s' neg"
proof -
  have "phase_ok s p \<Longrightarrow> phase_ok s' p" for p
    using assms(3) by (cases p) (auto, (metis not_None_eq option.inject)+)
  then show ?thesis using assms(1,2) by (auto simp: claims_ok_def)
qed

lemma relay_ok_mono:
  assumes "relay_ok s r" and "\<And>a x. sv_heap s a = Some x \<Longrightarrow> ss_once x \<in> {NotRun, Began True} \<Longrightarrow>
     \<exists>y. sv_heap s' a = Some y \<and> ss_IngestID y = ss_IngestID x \<and> ss_once y \<in> {NotRun, Began True}"
  shows "relay_ok s' r"
  using assms unfolding relay_ok_def by metis

lemma claims_set:
  assumes "claims_ok s neg" "neg t = Some p" "claim_of q = claim_of p" "phase_ok s q"
  shows "claims_ok s (neg(t \<mapsto> q))"
  unfolding claims_ok_def
proof (intro conjI allI impI, goal_cases)
  case (2 t1 t2 p1 p2 i)
  then have "\<exists>p1' p2'. neg t1 = Some p1' \<and> claim_of p1' = Some i \<and> neg t2 = Some p2' \<and> claim_of p2' = Some i"
    using assms(2,3) by (auto split: if_splits)
  then show ?case using assms(1) unfolding claims_ok_def by blast
qed (use assms in \<open>auto simp: claims_ok_def split: if_splits\<close>)

lemma claims_new:
  assumes "claims_ok s neg" "i \<notin> sv_pending s"
  shows "claims_ok (s\<lparr>sv_pending := insert i (sv_pending s)\<rparr>) (neg(t \<mapsto> Claimed i))"
proof -
  have "phase_ok s p \<Longrightarrow> phase_ok (s\<lparr>sv_pending := insert i (sv_pending s)\<rparr>) p" for p by (cases p) auto
  moreover have "neg t' = Some p \<Longrightarrow> claim_of p \<noteq> Some i" for t' p using assms by (auto simp: claims_ok_def)
  ultimately show ?thesis using assms(1) by (auto simp: claims_ok_def split: if_splits)
qed

lemma claims_none:
  assumes "claims_ok s neg"
  shows "claims_ok s (neg(t := None))"
  using assms by (auto simp: claims_ok_def split: if_splits)

lemma claims_end:
  assumes "claims_ok s neg" "neg t = Some p" "claim_of p = Some i"
  shows "claims_ok (negotiate_release s i) (neg(t := None))"
proof -
  have "phase_ok s p \<Longrightarrow> phase_ok (negotiate_release s i) p" for p by (cases p) (auto simp: negotiate_release_def)
  moreover have "claim_of p' \<noteq> Some i" if "neg t' = Some p'" "t' \<noteq> t" for t' p'
    using assms that unfolding claims_ok_def by blast
  ultimately show ?thesis using assms(1) by (auto simp: claims_ok_def negotiate_release_def split: if_splits)
qed

lemma claims_register:
  assumes "claims_ok s neg" "neg t = Some (Cleared i)" "sv_sessions s r = None" "\<not> sv_closed s"
  shows "claims_ok (fst (negotiate_register s a r i)) (neg(t \<mapsto> Answering i a))"
proof -
  let ?s = "fst (negotiate_register s a r i)"
  have "phase_ok s p \<Longrightarrow> claim_of p \<noteq> Some i \<Longrightarrow> phase_ok ?s p" for p
    using assms(3,4) by (cases p) (auto simp: negotiate_register_def)
  moreover have "claim_of p' \<noteq> Some i" if "neg t' = Some p'" "t' \<noteq> t" for t' p'
    using assms(1,2) that unfolding claims_ok_def by (metis claim_of.simps(5))
  moreover have "sv_pending ?s = sv_pending s" by (simp add: negotiate_register_def)
  moreover have "i \<in> sv_pending s" using assms(1,2) unfolding claims_ok_def by (metis claim_of.simps(5))
  ultimately show ?thesis
    using assms(1,2) by (auto simp: claims_ok_def split: if_splits)
qed

section \<open>The relay's tracks\<close>

lemma drain_tracks:
  assumes "fst (drain_start (\<lambda>_ _ _. Inr (a, kind)) cfg w a i kind c mime rate addr now) = w'" "w_relay w' j = Some st"
    "s_tracks st k = Some tr"
  shows "tr = (a, kind) \<and> j = i \<and> currentLocked (w_srv w) a \<or> (\<exists>st0. w_relay w j = Some st0 \<and> s_tracks st0 k = Some tr)"
  using assms
  by (cases "j = i"; cases "w_relay w i")
    (auto simp: drain_start_def Relay_Publish_def Relay_ConfigureDelay_def Relay_Track_def map_buffers_def Stream_new_def Let_def
      split: if_splits option.splits)

lemma drain_srv: "w_srv (fst (drain_start newTrack cfg w a i kind c mime rate addr now)) = w_srv w"
  by (simp add: drain_start_def Let_def split: prod.split sum.split)

lemma relay_ok_drain:
  assumes "relay_ok (w_srv w) (w_relay w)" "sv_heap (w_srv w) a = Some x" "stops_ok (w_srv w)"
  shows "relay_ok (w_srv w) (w_relay (fst (drain_start (\<lambda>_ _ _. Inr (a, kind)) cfg w a (ss_IngestID x) kind c mime rate addr now)))"
proof -
  have "currentLocked (w_srv w) a \<Longrightarrow> ss_once x = NotRun"
    using assms(2,3) by (auto simp: currentLocked_def stops_ok_def)
  then show ?thesis
    using drain_tracks [OF refl] assms(1,2) unfolding relay_ok_def by (metis insertI1 prod.inject)
qed

lemma relay_ok_cleanup:
  assumes "relay_ok (w_srv w) (w_relay w)" "stops_ok (w_srv w)"
  shows "relay_ok (w_srv (stop_cleanup w a clk)) (w_relay (stop_cleanup w a clk))"
proof (cases "\<exists>x. sv_heap (w_srv w) a = Some x \<and> ss_once x = Began True")
  case True
  then obtain x where x: "sv_heap (w_srv w) a = Some x" "ss_once x = Began True" by blast
  have "relay_ok (set_once (w_srv w) a x Cleaned) (Relay_Drop (w_relay w) (ss_IngestID x))"
    unfolding relay_ok_def Relay_Drop_def
  proof (intro allI impI, goal_cases)
    case (1 i st kind b k)
    then have "i \<noteq> ss_IngestID x" "w_relay w i = Some st" "s_tracks st kind = Some (b, k)" by (auto split: if_splits)
    with assms(1) obtain y where y: "sv_heap (w_srv w) b = Some y" "ss_IngestID y = i" "ss_once y \<in> {NotRun, Began True}"
      unfolding relay_ok_def by blast
    with \<open>i \<noteq> _\<close> x(1) have "b \<noteq> a" by auto
    with y show ?case by (simp add: set_once_def)
  qed
  then show ?thesis using x by (simp add: stop_cleanup_def Let_def)
next
  case False
  then have "stop_cleanup w a clk = w"
    using assms(2) by (auto simp: stop_cleanup_def stops_ok_def split: option.split once.split)
  then show ?thesis using assms by simp
qed

lemma cleanup_srv:
  "w_srv (stop_cleanup w a clk) =
     (case sv_heap (w_srv w) a of
        Some x \<Rightarrow> (case ss_once x of Began _ \<Rightarrow> set_once (w_srv w) a x Cleaned | _ \<Rightarrow> w_srv w)
      | None \<Rightarrow> w_srv w)"
  by (simp add: stop_cleanup_def Let_def split: option.split once.split)

section \<open>Every step keeps the invariant\<close>

lemma srv_simps [simp]:
  "srv (set_srv S s) = s" "srv (set_neg S t p) = srv S" "sys_neg (set_srv S s) = sys_neg S"
  "sys_neg (set_neg S t p) = (sys_neg S)(t := p)" "w_relay (sys_w (set_srv S s)) = w_relay (sys_w S)"
  "w_relay (sys_w (set_neg S t p)) = w_relay (sys_w S)" "srv (S\<lparr>sys_cfg := c\<rparr>) = srv S" "srv (S\<lparr>sys_w := w\<rparr>) = w_srv w"
  by (simp_all add: srv_def set_srv_def set_neg_def)

lemma pending_frame:
  "tables_ok (s\<lparr>sv_pending := P\<rparr>) = tables_ok s" "stops_ok (s\<lparr>sv_pending := P\<rparr>) = stops_ok s"
  "relay_ok (s\<lparr>sv_pending := P\<rparr>) r = relay_ok s r"
  "tables_ok (s\<lparr>sv_closed := b\<rparr>) = tables_ok s" "stops_ok (s\<lparr>sv_closed := b\<rparr>) = stops_ok s"
  "relay_ok (s\<lparr>sv_closed := b\<rparr>) r = relay_ok s r"
  by (simp_all add: tables_ok_def stops_ok_def relay_ok_def)

lemma system_invD:
  assumes "system_inv S"
  shows "tables_ok (srv S)" "stops_ok (srv S)" "claims_ok (srv S) (sys_neg S)" "relay_ok (srv S) (w_relay (sys_w S))"
  using assms by (simp_all add: system_inv_def)

lemma inv_set_neg:
  "system_inv S \<Longrightarrow> sys_neg S t = Some p \<Longrightarrow> claim_of q = claim_of p \<Longrightarrow> phase_ok (srv S) q \<Longrightarrow>
     system_inv (set_neg S t (Some q))"
  using claims_set by (simp add: system_inv_def)

lemma inv_end_neg:
  "system_inv S \<Longrightarrow> sys_neg S t = Some p \<Longrightarrow> claim_of p = Some i \<Longrightarrow> system_inv (end_neg S t i)"
  using claims_end [of "srv S" "sys_neg S" t p i]
  by (simp add: system_inv_def end_neg_def negotiate_release_def pending_frame)

lemma inv_claim:
  assumes "system_inv S" "sys_neg S t = Some (Resolved ing)" "ingest_step S (EClaim t) = Some S'"
  shows "system_inv S'"
proof (cases "sv_closed (srv S) \<or> i_ID ing \<in> sv_pending (srv S)")
  case True
  then show ?thesis using assms claims_none by (auto simp: negotiate_claim_def system_inv_def)
next
  case False
  then show ?thesis
    using assms claims_new [of "srv S" "sys_neg S" "i_ID ing" t]
    by (auto simp: negotiate_claim_def system_inv_def pending_frame)
qed

lemma inv_register:
  assumes "system_inv S" "sys_neg S t = Some (Cleared i)" "ingest_step S (ERegister t a r) = Some S'"
  shows "system_inv S'"
proof (cases "sv_closed (srv S)")
  case True
  then show ?thesis
    using assms inv_end_neg [OF assms(1,2)] by (auto simp: negotiate_register_def split: if_splits)
next
  case False
  have fresh: "sv_heap (srv S) a = None" "sv_sessions (srv S) r = None" "r \<noteq> []" using assms(2,3) by (auto split: if_splits)
  let ?s = "fst (negotiate_register (srv S) a r i)"
  have S': "S' = set_neg (set_srv S ?s) t (Some (Answering i a))"
    using assms(2,3) False fresh by (auto simp: negotiate_register_def)
  have "sv_byIngest (srv S) i = None" using assms(1,2) unfolding system_inv_def claims_ok_def by (metis phase_ok.simps(1))
  then have "tables_ok ?s \<and> stops_ok ?s" using register_tables fresh False assms(1) by (simp add: system_inv_def)
  moreover have "relay_ok ?s (w_relay (sys_w S))"
    by (rule relay_ok_mono [OF system_invD(4) [OF assms(1)]]) (use fresh False in \<open>auto simp: negotiate_register_def\<close>)
  ultimately show ?thesis
    using claims_register [of "srv S" "sys_neg S" t i r a] assms(1,2) fresh False by (simp add: system_inv_def S')
qed

lemma inv_stop_begin:
  assumes "system_inv S"
  shows "system_inv (set_srv S (stop_begin (srv S) a))"
proof -
  let ?s = "stop_begin (srv S) a"
  have same: "sv_sessions ?s = sv_sessions (srv S)" "sv_byIngest ?s = sv_byIngest (srv S)" "sv_pending ?s = sv_pending (srv S)"
    by (simp_all add: stop_begin_def set_once_def split: option.split)
  have "relay_ok ?s (w_relay (sys_w S))"
  proof (rule relay_ok_mono [OF system_invD(4) [OF assms]])
    fix b x
    assume "sv_heap (srv S) b = Some x" "ss_once x \<in> {NotRun, Began True}"
    then show "\<exists>y. sv_heap ?s b = Some y \<and> ss_IngestID y = ss_IngestID x \<and> ss_once y \<in> {NotRun, Began True}"
      using not_stopped_current [OF system_invD(1,2) [OF assms], of a x]
      by (cases "b = a") (auto simp: stop_begin_def set_once_def split: option.split)
  qed
  moreover have "claims_ok ?s (sys_neg S)"
    by (rule claims_shrink [OF system_invD(3) [OF assms]]) (simp_all add: same)
  ultimately show ?thesis using assms stop_begin_tables by (simp add: system_inv_def)
qed

lemma inv_stop_cleanup:
  assumes "system_inv S"
  shows "system_inv (S\<lparr>sys_w := stop_cleanup (sys_w S) a clk\<rparr>)"
proof -
  let ?s = "w_srv (stop_cleanup (sys_w S) a clk)"
  have inv: "tables_ok (w_srv (sys_w S))" "stops_ok (w_srv (sys_w S))" using assms by (simp_all add: system_inv_def srv_def)
  have "tables_ok ?s" using inv by (auto simp: cleanup_srv split: option.split once.split intro: set_once_tables)
  moreover have "stops_ok ?s" using inv(2) by (auto simp: cleanup_srv stops_ok_def set_once_def split: option.split once.split)
  moreover have "claims_ok ?s (sys_neg S)"
    by (rule claims_shrink [OF system_invD(3) [OF assms]])
      (simp_all add: srv_def cleanup_srv set_once_def split: option.splits once.splits)
  ultimately show ?thesis
    using assms relay_ok_cleanup [of "sys_w S" a clk] by (simp add: system_inv_def srv_def)
qed

lemma inv_stop_forget:
  assumes "system_inv S"
  shows "system_inv (set_srv S (stop_forget (srv S) a))"
proof (cases "\<exists>x. sv_heap (srv S) a = Some x \<and> ss_once x = Cleaned")
  case False
  then show ?thesis using assms stop_forget_idle [of "srv S" a] by (auto simp: system_inv_def)
next
  case True
  then obtain x where x: "sv_heap (srv S) a = Some x" "ss_once x = Cleaned" by blast
  have tab: "tables_ok (srv S)" using assms by (simp add: system_inv_def)
  note s' = stop_forget_fields [OF tab x]
  have r: "sv_sessions (srv S) (ss_Resource x) = Some a" using tables_heap [OF tab x(1)] x(2) by simp
  have "claims_ok (stop_forget (srv S) a) (sys_neg S)"
  proof (rule claims_shrink [of "srv S"])
    fix i r'
    assume "sv_byIngest (stop_forget (srv S) a) i = Some r'"
    then have i: "i \<noteq> ss_IngestID x" "sv_byIngest (srv S) i = Some r'" by (auto simp: s' split: if_splits)
    from tables_byIngest [OF tab i(2)] obtain b z where "sv_sessions (srv S) r' = Some b" "sv_heap (srv S) b = Some z" "ss_IngestID z = i" .
    then have "r' \<noteq> ss_Resource x" using i(1) r x(1) by auto
    with i(2) show "sv_byIngest (srv S) i = Some r' \<and> sv_sessions (stop_forget (srv S) a) r' = sv_sessions (srv S) r'"
      by (simp add: s')
  qed (use assms in \<open>simp_all add: system_inv_def s'\<close>)
  moreover have "relay_ok (stop_forget (srv S) a) (w_relay (sys_w S))"
    by (rule relay_ok_mono [OF system_invD(4) [OF assms]]) (use x in \<open>auto simp: s'\<close>)
  ultimately show ?thesis using assms stop_forget_tables by (simp add: system_inv_def)
qed

lemma inv_look:
  assumes "system_inv S" "sys_neg S t = Some (Claimed i)" "ingest_step S (ELook t conn) = Some S'"
  shows "system_inv S'"
proof (cases "sv_byIngest (srv S) i")
  case None
  then show ?thesis
    using assms inv_set_neg [OF assms(1,2), of "Cleared i"] by (simp add: clearPrevious_look_def)
next
  case (Some r)
  from tables_byIngest [OF system_invD(1) [OF assms(1)] Some] obtain a x where "sv_sessions (srv S) r = Some a" "sv_heap (srv S) a = Some x" .
  then show ?thesis
    using assms Some inv_set_neg [OF assms(1,2), of "Tearing i r"] inv_end_neg [OF assms(1,2)]
    by (auto simp: clearPrevious_look_def split: if_splits)
qed

lemma inv_tear:
  assumes "system_inv S" "sys_neg S t = Some (Tearing i r)" "ingest_step S (ETear t) = Some S'"
  shows "system_inv S'"
proof -
  have ok: "sv_byIngest (srv S) i \<in> {None, Some r}"
    using system_invD(3) [OF assms(1)] assms(2) unfolding claims_ok_def by (metis phase_ok.simps(2))
  show ?thesis
  proof (cases "sv_sessions (srv S) r")
    case None
    then have "sv_byIngest (srv S) i = None"
      using ok tables_byIngest [OF system_invD(1) [OF assms(1)], of i r] by fastforce
    then show ?thesis
      using None assms inv_set_neg [OF assms(1,2), of "Cleared i"] by (simp add: session_lookup_def)
  next
    case (Some a)
    then have "phase_ok (srv S) (Waiting i a)" using ok by auto
    then show ?thesis
      using Some assms inv_set_neg [OF assms(1,2), of "Waiting i a"] by (simp add: session_lookup_def)
  qed
qed

lemma inv_waited:
  assumes "system_inv S" "sys_neg S t = Some (Waiting i a)" "ingest_step S (EWaited t) = Some S'"
  shows "system_inv S'"
proof -
  obtain x where x: "sv_heap (srv S) a = Some x" "ss_once x = Ran" "S' = set_neg S t (Some (Cleared i))"
    using assms(2,3) by (auto split: option.splits if_splits)
  have "sv_byIngest (srv S) i = Some r \<Longrightarrow> sv_sessions (srv S) r = Some a" for r
    using system_invD(3) [OF assms(1)] assms(2) unfolding claims_ok_def by (metis phase_ok.simps(3))
  then have "sv_byIngest (srv S) i = None"
    using tables_sessions [OF system_invD(1) [OF assms(1)]] x(1,2) by (metis not_None_eq option.inject)
  then show ?thesis using x(3) inv_set_neg [OF assms(1,2), of "Cleared i"] by simp
qed

lemma inv_resolve: "system_inv S \<Longrightarrow> sys_neg S t = None \<Longrightarrow> system_inv (set_neg S t (Some (Resolved ing)))"
  by (auto simp: system_inv_def claims_ok_def split: if_splits)

lemma inv_none: "system_inv S \<Longrightarrow> system_inv (set_neg S t None)"
  using claims_none by (simp add: system_inv_def)

lemma inv_drain:
  assumes "system_inv S" "ingest_step S (EDrain a kind mime rate addr now) = Some S'"
  shows "system_inv S'"
proof -
  obtain x where x: "sv_heap (w_srv (sys_w S)) a = Some x"
    "S' = S\<lparr>sys_w := fst (drain_start (\<lambda>(_::unit) _ _. Inr (a, kind) :: unit + track) (sys_cfg S) (sys_w S) a (ss_IngestID x) kind () mime rate addr now)\<rparr>"
    using assms(2) by (auto simp: srv_def split: option.splits)
  show ?thesis
    using assms(1) relay_ok_drain [of "sys_w S" a x kind] x(1) by (simp add: x(2) system_inv_def srv_def drain_srv)
qed

lemma step_system_inv:
  assumes "system_inv S" "ingest_step S e = Some S'"
  shows "system_inv S'"
proof (cases e)
  case (EConfig c)
  then show ?thesis using assms by (auto simp: system_inv_def)
next
  case (EResolve t key)
  then show ?thesis using assms inv_resolve by (auto split: option.splits prod.splits Role.splits)
next
  case (EClaim t)
  then show ?thesis using assms inv_claim [of S t] by (auto split: option.splits phase.splits)
next
  case (ELook t conn)
  then show ?thesis using assms inv_look [OF assms(1)] by (auto split: option.splits phase.splits)
next
  case (ETear t)
  then show ?thesis using assms inv_tear [OF assms(1)] by (auto split: option.splits phase.splits)
next
  case (EWaited t)
  then show ?thesis using assms inv_waited [OF assms(1)] by (auto split: option.splits phase.splits)
next
  case (EFail t)
  then show ?thesis using assms inv_none inv_end_neg [OF assms(1)] by (auto split: option.splits)
next
  case (ERegister t a r)
  then show ?thesis using assms inv_register [OF assms(1)] by (auto split: option.splits phase.splits)
next
  case (EFinish t)
  then show ?thesis using assms inv_end_neg [OF assms(1)] by (auto split: option.splits phase.splits)
next
  case EShutdown
  have "claims_ok ((srv S)\<lparr>sv_closed := True\<rparr>) (sys_neg S)"
    by (rule claims_shrink [OF system_invD(3) [OF assms(1)]]) simp_all
  then show ?thesis using assms EShutdown by (auto simp: system_inv_def pending_frame)
qed (use assms inv_stop_begin inv_stop_cleanup inv_stop_forget inv_drain in auto)

lemma reachable_system_inv: "reachable S \<Longrightarrow> system_inv S"
proof (induction rule: reachable.induct)
  case (start cfg)
  show ?case
    by (simp add: ingest_start_def system_inv_def srv_def tables_ok_def stops_ok_def claims_ok_def relay_ok_def
        ingest_NewServer_def Relay_New_def)
qed (rule step_system_inv)

section \<open>Safety\<close>

lemma tables_agree:
  assumes "tables_ok s"
  shows "sv_byIngest s i = Some r \<longleftrightarrow>
    (\<exists>a x. sv_sessions s r = Some a \<and> sv_heap s a = Some x \<and> ss_IngestID x = i \<and> ss_Resource x = r \<and> ss_once x \<noteq> Ran)"
proof
  assume "sv_byIngest s i = Some r"
  from tables_byIngest [OF assms this] obtain a x where a: "sv_sessions s r = Some a" "sv_heap s a = Some x" "ss_IngestID x = i" .
  with tables_sessions [OF assms a(1)] show
    "\<exists>a x. sv_sessions s r = Some a \<and> sv_heap s a = Some x \<and> ss_IngestID x = i \<and> ss_Resource x = r \<and> ss_once x \<noteq> Ran" by fastforce
next
  assume "\<exists>a x. sv_sessions s r = Some a \<and> sv_heap s a = Some x \<and> ss_IngestID x = i \<and> ss_Resource x = r \<and> ss_once x \<noteq> Ran"
  then show "sv_byIngest s i = Some r" using tables_sessions [OF assms] by fastforce
qed

text \<open>
  C25: A camera never has two publishers, and the server's tables agree.  In every state the goroutines can reach, \<^verbatim>\<open>byIngest\<close>
  names a resource for a camera exactly when \<^verbatim>\<open>sessions\<close> has under that resource a session of that camera whose stop is not
  over; two sessions in \<^verbatim>\<open>sessions\<close> that belong to the same camera are the same session, under the same resource
  identifier; a negotiation that holds the claim of a camera is recorded in \<^verbatim>\<open>pending\<close>, and two that
  hold the claim of a camera are the same negotiation.
\<close>

theorem one_publisher_per_camera:
  assumes "reachable S"
  shows "(sv_byIngest (srv S) c = Some r0 \<longleftrightarrow>
      (\<exists>a x. sv_sessions (srv S) r0 = Some a \<and> sv_heap (srv S) a = Some x \<and> ss_IngestID x = c \<and> ss_Resource x = r0 \<and> ss_once x \<noteq> Ran)) \<and>
    (sv_sessions (srv S) r = Some a \<and> sv_heap (srv S) a = Some x \<and> sv_sessions (srv S) r' = Some a' \<and>
      sv_heap (srv S) a' = Some x' \<and> ss_IngestID x = ss_IngestID x' \<longrightarrow> a = a' \<and> r = r') \<and>
    (sys_neg S t = Some p \<and> claim_of p = Some i \<longrightarrow> i \<in> sv_pending (srv S)) \<and>
    (sys_neg S t = Some p \<and> sys_neg S t' = Some p' \<and> claim_of p = Some i \<and> claim_of p' = Some i \<longrightarrow> t = t')"
proof -
  note inv = system_invD [OF reachable_system_inv [OF assms]]
  have "r = r'" if "sv_sessions (srv S) r = Some a" "sv_heap (srv S) a = Some x" "sv_sessions (srv S) r' = Some a'"
    "sv_heap (srv S) a' = Some x'" "ss_IngestID x = ss_IngestID x'"
    using tables_sessions [OF inv(1) that(1)] tables_sessions [OF inv(1) that(3)] that by (metis option.inject)
  then show ?thesis using inv(3) tables_agree [OF inv(1), of c r0] unfolding claims_ok_def by auto
qed

text \<open>
  C26: A stop never takes down another publisher's stream, and viewers are never given a dead one.  In every
  reachable state, a track the relay offers for a camera was published by the session registered for that
  camera, which is not stopped yet: so the cleanup of a session, which drops the camera's stream,
  only ever drops its own tracks, although a replacement may be waiting.
\<close>

theorem relay_tracks_belong_to_publisher:
  assumes "reachable S" "w_relay (sys_w S) i = Some st" "s_tracks st kind = Some (a, k)"
  shows "\<exists>r x. sv_byIngest (srv S) i = Some r \<and> sv_sessions (srv S) r = Some a \<and> sv_heap (srv S) a = Some x \<and>
    ss_IngestID x = i \<and> ss_once x \<in> {NotRun, Began True}"
proof -
  note inv = system_invD [OF reachable_system_inv [OF assms(1)]]
  obtain x where x: "sv_heap (srv S) a = Some x" "ss_IngestID x = i" "ss_once x \<in> {NotRun, Began True}"
    using inv(4) assms(2,3) unfolding relay_ok_def by blast
  then have r: "sv_sessions (srv S) (ss_Resource x) = Some a" using tables_heap [OF inv(1) x(1)] by auto
  with tables_sessions [OF inv(1) r] x show ?thesis by auto
qed

text \<open>A run of the events, in order.\<close>

fun ingest_run :: "system \<Rightarrow> event list \<Rightarrow> system option" where
  "ingest_run S [] = Some S"
| "ingest_run S (e # es) = (case ingest_step S e of None \<Rightarrow> None | Some S' \<Rightarrow> ingest_run S' es)"

lemma run_reachable: "reachable S \<Longrightarrow> ingest_run S es = Some S' \<Longrightarrow> reachable S'"
  by (induction es arbitrary: S) (auto split: option.splits intro: reachable.step)

lemma no_camera_resolves: "Config_Resolve Config_default key = (None, RoleNone)"
  by (simp add: Config_Resolve_def Config_default_def)

text \<open>One publisher with a video track, and a second negotiation for the same camera.\<close>

definition busy_events :: "event list" where
  "busy_events = [EResolve 0 camera_key, EClaim 0, ELook 0 False, ERegister 0 7 ''r'', EDrain 7 KindVideo ''video/H264'' 90000 9 5,
     EFinish 0, EResolve 1 camera_key, EClaim 1, ELook 1 False]"

lemma example_camera: "i_ID (example_ingest ident n grp) = ident"
  by (simp add: example_ingest_def)

lemmas run_defs = ingest_start_def srv_def set_srv_def set_neg_def end_neg_def one_camera_resolves no_camera_resolves
  example_camera negotiate_claim_def negotiate_release_def clearPrevious_look_def negotiate_register_def
  ingest_NewServer_def

lemma busy_run:
  obtains S st where "reachable S" "w_relay (sys_w S) ''a'' = Some st" "s_tracks st KindVideo = Some (7, KindVideo)"
    "sv_sessions (srv S) ''r'' = Some 7" "sys_neg S 1 = Some (Tearing ''a'' ''r'')"
proof -
  have "\<exists>S. ingest_run (ingest_start one_camera) busy_events = Some S \<and>
      (\<exists>st. w_relay (sys_w S) ''a'' = Some st \<and> s_tracks st KindVideo = Some (7, KindVideo)) \<and>
      sv_sessions (srv S) ''r'' = Some 7 \<and> sys_neg S 1 = Some (Tearing ''a'' ''r'')"
    by (simp add: busy_events_def run_defs drain_start_def currentLocked_def Relay_Publish_def Relay_New_def
        Relay_ConfigureDelay_def Relay_Track_def map_buffers_def Stream_new_def Let_def)
  then show ?thesis using that run_reachable [OF reachable.start] by blast
qed

theorem one_publisher_per_camera_witness:
  "\<exists>S. reachable S \<and> (\<forall>t. (\<exists>p. sys_neg S t = Some p \<and> claim_of p = Some ''a'') \<longleftrightarrow> t = 1) \<and> ''a'' \<in> sv_pending (srv S) \<and>
     (\<forall>c. sv_byIngest (srv S) c = Some ''r'' \<longleftrightarrow> (\<exists>x. sv_heap (srv S) 7 = Some x \<and> ss_IngestID x = c \<and> ss_Resource x = ''r'' \<and> ss_once x \<noteq> Ran))"
proof -
  obtain S where S: "reachable S" "sys_neg S 1 = Some (Tearing ''a'' ''r'')" "sv_sessions (srv S) ''r'' = Some 7" using busy_run by blast
  note one = one_publisher_per_camera [OF S(1)]
  have "(\<exists>p. sys_neg S t = Some p \<and> claim_of p = Some ''a'') \<longleftrightarrow> t = 1" for t using one S(2) by (metis claim_of.simps(3))
  moreover have "''a'' \<in> sv_pending (srv S)" using one S(2) by (metis claim_of.simps(3))
  moreover have "sv_byIngest (srv S) c = Some ''r'' \<longleftrightarrow>
      (\<exists>x. sv_heap (srv S) 7 = Some x \<and> ss_IngestID x = c \<and> ss_Resource x = ''r'' \<and> ss_once x \<noteq> Ran)" for c
    using one [THEN conjunct1, of c "''r''"] S(3) by auto
  ultimately show ?thesis using S(1) by blast
qed

theorem relay_tracks_belong_to_publisher_witness:
  "\<exists>S r. reachable S \<and> sv_byIngest (srv S) ''a'' = Some r \<and> sv_sessions (srv S) r = Some 7"
  using busy_run relay_tracks_belong_to_publisher by metis

section \<open>A negotiation on its own\<close>

lemma cleanup_tables:
  "tables_ok (w_srv w) \<Longrightarrow> stops_ok (w_srv w) \<Longrightarrow>
     tables_ok (w_srv (stop_cleanup w a clk)) \<and> stops_ok (w_srv (stop_cleanup w a clk))"
  by (auto simp: cleanup_srv split: option.split once.split intro: set_once_tables)
    (auto simp: stops_ok_def set_once_def)

text \<open>After \<^verbatim>\<open>stopSession\<close> the session is stopped and its camera is free; nothing else changed hands.\<close>

lemma stopSession_done:
  assumes "tables_ok (w_srv w)" "stops_ok (w_srv w)" "sv_sessions (w_srv w) r = Some a" "sv_heap (w_srv w) a = Some x"
  shows "tables_ok (w_srv (stopSession w a clk))" "stops_ok (w_srv (stopSession w a clk))"
    "\<exists>y. sv_heap (w_srv (stopSession w a clk)) = (sv_heap (w_srv w))(a \<mapsto> y) \<and> ss_once y = Ran"
    "sv_sessions (w_srv (stopSession w a clk)) = (sv_sessions (w_srv w))(r := None)"
    "sv_byIngest (w_srv (stopSession w a clk)) = (sv_byIngest (w_srv w))(ss_IngestID x := None)"
    "sv_pending (w_srv (stopSession w a clk)) = sv_pending (w_srv w)" "sv_closed (w_srv (stopSession w a clk)) = sv_closed (w_srv w)"
proof -
  define w1 where "w1 = w\<lparr>w_srv := stop_begin (w_srv w) a\<rparr>"
  define w2 where "w2 = stop_cleanup w1 a clk"
  have stop: "w_srv (stopSession w a clk) = stop_forget (w_srv w2) a" by (simp add: stopSession_def w1_def w2_def Let_def)
  have x: "ss_Resource x = r" "ss_once x \<noteq> Ran" using tables_sessions [OF assms(1,3)] assms(4) by auto
  have ok1: "tables_ok (w_srv w1)" "stops_ok (w_srv w1)" using stop_begin_tables [OF assms(1,2)] by (simp_all add: w1_def)
  then have ok2: "tables_ok (w_srv w2)" "stops_ok (w_srv w2)" using cleanup_tables [OF ok1] by (simp_all add: w2_def)
  obtain x1 where x1: "sv_heap (w_srv w1) = (sv_heap (w_srv w))(a \<mapsto> x1)" "ss_Resource x1 = r" "ss_IngestID x1 = ss_IngestID x"
    "ss_once x1 \<in> range Began \<union> {Cleaned}"
    "sv_sessions (w_srv w1) = sv_sessions (w_srv w)" "sv_byIngest (w_srv w1) = sv_byIngest (w_srv w)"
    "sv_pending (w_srv w1) = sv_pending (w_srv w)" "sv_closed (w_srv w1) = sv_closed (w_srv w)"
    using assms(4) x by (cases "ss_once x") (auto simp: w1_def stop_begin_def set_once_def intro: map_upd_triv [symmetric])
  obtain x2 where x2: "sv_heap (w_srv w2) = (sv_heap (w_srv w))(a \<mapsto> x2)" "ss_Resource x2 = r" "ss_IngestID x2 = ss_IngestID x" "ss_once x2 = Cleaned"
    "sv_sessions (w_srv w2) = sv_sessions (w_srv w)" "sv_byIngest (w_srv w2) = sv_byIngest (w_srv w)"
    "sv_pending (w_srv w2) = sv_pending (w_srv w)" "sv_closed (w_srv w2) = sv_closed (w_srv w)"
    using x1 by (auto simp: w2_def cleanup_srv set_once_def)
  have heap2: "sv_heap (w_srv w2) a = Some x2" using x2(1) by simp
  note f = stop_forget_fields [OF ok2(1) heap2 x2(4)]
  show "tables_ok (w_srv (stopSession w a clk))" "stops_ok (w_srv (stopSession w a clk))"
    using stop_forget_tables [OF ok2] by (simp_all add: stop)
  show "\<exists>y. sv_heap (w_srv (stopSession w a clk)) = (sv_heap (w_srv w))(a \<mapsto> y) \<and> ss_once y = Ran"
    by (rule exI [of _ "x2\<lparr>ss_once := Ran\<rparr>"]) (simp add: stop f x2(1))
  show "sv_sessions (w_srv (stopSession w a clk)) = (sv_sessions (w_srv w))(r := None)"
    "sv_byIngest (w_srv (stopSession w a clk)) = (sv_byIngest (w_srv w))(ss_IngestID x := None)"
    "sv_pending (w_srv (stopSession w a clk)) = sv_pending (w_srv w)"
    by (simp_all add: stop f x2)
  show "sv_closed (w_srv (stopSession w a clk)) = sv_closed (w_srv w)"
    by (simp add: stop stop_forget_def ingest_forget_def set_once_def Let_def x2(8) split: option.split)
qed

lemma clearPrevious_outcome:
  assumes "tables_ok (w_srv w)" "stops_ok (w_srv w)" "clearPrevious w ing env = (w', res)"
  shows "(case sv_byIngest (w_srv w) (i_ID ing) of
      None \<Rightarrow> res = None \<and> w' = w
    | Some r \<Rightarrow> (\<exists>a x. sv_sessions (w_srv w) r = Some a \<and> sv_heap (w_srv w) a = Some x \<and>
        (if \<not> ss_ended x \<and> pe_connected env then res = Some (ErrAlreadyLive (i_Label ing)) \<and> w' = w
         else res = None \<and> w' = stopSession w a (pe_clk env))))"
proof (cases "sv_byIngest (w_srv w) (i_ID ing)")
  case None
  then show ?thesis using assms(3) by (simp add: clearPrevious_def clearPrevious_look_def)
next
  case (Some r)
  from tables_byIngest [OF assms(1) Some] obtain a x where "sv_sessions (w_srv w) r = Some a" "sv_heap (w_srv w) a = Some x" .
  then show ?thesis
    using Some assms(3)
    by (auto simp: clearPrevious_def clearPrevious_look_def ingest_Teardown_def session_lookup_def split: if_splits)
qed

text \<open>What a publisher with a good key and a good offer gets when the WebRTC stack can serve it.\<close>

definition can_publish :: "sdp_parser \<Rightarrow> Config \<Rightarrow> 't world \<Rightarrow> string \<Rightarrow> string \<Rightarrow> publish_env \<Rightarrow> Ingest \<Rightarrow> string \<Rightarrow> string \<Rightarrow> bool" where
  "can_publish parse cfg w key offer env ing resource answer \<longleftrightarrow>
     Config_Resolve cfg key = (Some ing, RoleSender) \<and> Direction parse offer ''sendonly'' = Some True \<and>
     \<not> sv_closed (w_srv w) \<and> i_ID ing \<notin> sv_pending (w_srv w) \<and> negotiate_build env = Inr resource \<and> resource \<noteq> [] \<and>
     sv_heap (w_srv w) (pe_address env) = None \<and> sv_sessions (w_srv w) resource = None \<and> pe_answer env = Some answer"

text \<open>The state inside the claim.\<close>

definition claimed :: "'t world \<Rightarrow> string \<Rightarrow> 't world" where
  "claimed w i = w\<lparr>w_srv := (w_srv w)\<lparr>sv_pending := insert i (sv_pending (w_srv w))\<rparr>\<rparr>"

lemma claimed_simps [simp]:
  "sv_byIngest (w_srv (claimed w i)) = sv_byIngest (w_srv w)" "sv_sessions (w_srv (claimed w i)) = sv_sessions (w_srv w)"
  "sv_heap (w_srv (claimed w i)) = sv_heap (w_srv w)" "sv_closed (w_srv (claimed w i)) = sv_closed (w_srv w)"
  "tables_ok (w_srv (claimed w i)) = tables_ok (w_srv w)" "stops_ok (w_srv (claimed w i)) = stops_ok (w_srv w)"
  by (simp_all add: claimed_def pending_frame)

lemma publish_cleared:
  assumes "can_publish parse cfg w key offer env ing resource answer"
    and "clearPrevious (claimed w (i_ID ing)) ing env = (w1, None)" "\<not> sv_closed (w_srv w1)"
  shows "\<exists>w'. ingest_Publish parse cfg w key offer env = (w', Inr (answer, resource)) \<and>
    currentLocked (w_srv w') (pe_address env) \<and> sv_heap (w_srv w') = (sv_heap (w_srv w1))(pe_address env \<mapsto>
      \<lparr>ss_Resource = resource, ss_IngestID = i_ID ing, ss_ended = False, ss_once = NotRun\<rparr>)"
  using assms
  by (simp add: can_publish_def ingest_Publish_def ingest_negotiate_def negotiate_claim_def negotiate_claimed_def claimed_def
      negotiate_register_def answerSession_def currentLocked_def negotiate_release_def)

lemma publish_refused:
  assumes "can_publish parse cfg w key offer env ing resource answer"
    and "clearPrevious (claimed w (i_ID ing)) ing env = (claimed w (i_ID ing), Some err)"
  shows "ingest_Publish parse cfg w key offer env = (w, Inl err)"
  using assms
  by (simp add: can_publish_def ingest_Publish_def ingest_negotiate_def negotiate_claim_def negotiate_claimed_def claimed_def
      negotiate_release_def)

lemma publish_replaces:
  assumes "tables_ok (w_srv w)" "stops_ok (w_srv w)" "can_publish parse cfg w key offer env ing resource answer"
    and "sv_sessions (w_srv w) r = Some a" "sv_heap (w_srv w) a = Some x"
    and "clearPrevious (claimed w (i_ID ing)) ing env = (stopSession (claimed w (i_ID ing)) a (pe_clk env), None)"
  shows "\<exists>w' y. ingest_Publish parse cfg w key offer env = (w', Inr (answer, resource)) \<and>
    currentLocked (w_srv w') (pe_address env) \<and> sv_heap (w_srv w') a = Some y \<and> ss_once y = Ran"
proof -
  have "tables_ok (w_srv (claimed w (i_ID ing)))" "stops_ok (w_srv (claimed w (i_ID ing)))"
    "sv_sessions (w_srv (claimed w (i_ID ing))) r = Some a" "sv_heap (w_srv (claimed w (i_ID ing))) a = Some x"
    using assms by simp_all
  note gone = stopSession_done(3,7) [OF this, of "pe_clk env"]
  have "pe_address env \<noteq> a" "\<not> sv_closed (w_srv w)" using assms(3,5) by (auto simp: can_publish_def)
  then show ?thesis using publish_cleared [OF assms(3,6)] gone by auto
qed

text \<open>
  C27: A publisher takes over a camera unless another one is connected.  With no other negotiation in progress for
  the camera, an answered offer ends with a registered, current session, whatever the state of an earlier one:
  absent, disconnected or stopping; the earlier session is then stopped completely and gone from the tables.  A
  connected publisher keeps its camera: the newcomer gets \<open>ErrAlreadyLive\<close> and nothing changes.
\<close>

theorem publisher_takes_over:
  assumes "reachable S" "can_publish parse cfg (sys_w S) key offer env ing resource answer"
  shows "case clearPrevious_look (srv S) (i_ID ing) of
      None \<Rightarrow> \<exists>w. ingest_Publish parse cfg (sys_w S) key offer env = (w, Inr (answer, resource)) \<and>
          currentLocked (w_srv w) (pe_address env)
    | Some (r, a, stopping) \<Rightarrow>
        if \<not> stopping \<and> pe_connected env
        then ingest_Publish parse cfg (sys_w S) key offer env = (sys_w S, Inl (ErrAlreadyLive (i_Label ing)))
        else \<exists>w y. ingest_Publish parse cfg (sys_w S) key offer env = (w, Inr (answer, resource)) \<and>
          currentLocked (w_srv w) (pe_address env) \<and> sv_heap (w_srv w) a = Some y \<and> ss_once y = Ran"
proof -
  let ?w = "claimed (sys_w S) (i_ID ing)"
  have ok: "tables_ok (w_srv (sys_w S))" "stops_ok (w_srv (sys_w S))"
    using system_invD [OF reachable_system_inv [OF assms(1)]] by (simp_all add: srv_def)
  obtain w1 res where clear: "clearPrevious ?w ing env = (w1, res)" by fastforce
  have outcome: "case sv_byIngest (w_srv (sys_w S)) (i_ID ing) of
      None \<Rightarrow> res = None \<and> w1 = ?w
    | Some r \<Rightarrow> (\<exists>a x. sv_sessions (w_srv (sys_w S)) r = Some a \<and> sv_heap (w_srv (sys_w S)) a = Some x \<and>
        (if \<not> ss_ended x \<and> pe_connected env then res = Some (ErrAlreadyLive (i_Label ing)) \<and> w1 = ?w
         else res = None \<and> w1 = stopSession ?w a (pe_clk env)))"
    using clearPrevious_outcome [of ?w, OF _ _ clear] ok by (simp cong: option.case_cong)
  show ?thesis
  proof (cases "sv_byIngest (w_srv (sys_w S)) (i_ID ing)")
    case None
    then have "\<not> sv_closed (w_srv w1)" "clearPrevious ?w ing env = (w1, None)"
      using outcome clear assms(2) by (simp_all add: can_publish_def)
    with None show ?thesis using publish_cleared [OF assms(2)] by (simp add: clearPrevious_look_def srv_def) blast
  next
    case (Some r)
    then obtain a x where a: "sv_sessions (w_srv (sys_w S)) r = Some a" "sv_heap (w_srv (sys_w S)) a = Some x"
      "if \<not> ss_ended x \<and> pe_connected env then res = Some (ErrAlreadyLive (i_Label ing)) \<and> w1 = ?w
       else res = None \<and> w1 = stopSession ?w a (pe_clk env)"
      using outcome by auto
    have "clearPrevious_look (srv S) (i_ID ing) = Some (r, a, ss_ended x)"
      using Some a by (simp add: clearPrevious_look_def srv_def)
    then show ?thesis
      using clear a(3) publish_refused [OF assms(2)] publish_replaces [OF ok assms(2) a(1,2)] by (auto split: if_splits)
  qed
qed

definition example_env :: publish_env where
  "example_env = \<lparr>pe_connected = False, pe_closeOk = True, pe_buildAPI = True, pe_newPeer = True, pe_transceivers = True,
     pe_random = Some [255], pe_address = 8, pe_answer = Some ''v=0'', pe_clk = (\<lambda>_. 0)\<rparr>"

theorem publisher_takes_over_witness:
  "\<exists>w. ingest_Publish (\<lambda>_. Some [[''sendonly'']]) one_camera (sys_w (ingest_start one_camera)) camera_key ''o'' example_env =
     (w, Inr (''v=0'', ''ff'')) \<and> currentLocked (w_srv w) 8"
proof -
  let ?S = "ingest_start one_camera"
  have "Direction (\<lambda>_. Some [[''sendonly'']]) ''o'' ''sendonly'' = Some True"
    by (simp add: Direction_def facing_def directions_def)
  moreover have "negotiate_build example_env = Inr ''ff''"
    by code_simp
  ultimately have "can_publish (\<lambda>_. Some [[''sendonly'']]) one_camera (sys_w ?S) camera_key ''o'' example_env
      (example_ingest ''a'' 1 []) ''ff'' ''v=0''"
    by (simp add: can_publish_def one_camera_resolves ingest_start_def ingest_NewServer_def example_env_def)
  then show ?thesis
    using publisher_takes_over [OF reachable.start [of one_camera]]
    by (fastforce simp: clearPrevious_look_def srv_def ingest_start_def ingest_NewServer_def example_env_def)
qed

section \<open>Revocation\<close>

text \<open>
  C39: Removing a camera can miss a publisher.  \<^verbatim>\<open>Publish\<close> resolves the key before it claims the camera, and nothing
  checks it again: if the camera is removed and its sessions are closed in between, there is no session to close yet,
  and the negotiation still ends with a live session whose key no longer opens anything, although
  \<^verbatim>\<open>CloseIngest\<close> is there so that a revoked key does not keep working.
\<close>

theorem revoked_key_can_publish:
  "\<exists>S S'. reachable S \<and> Config_Resolve (sys_cfg S) camera_key = (None, RoleNone) \<and>
     ingest_CloseIngest (sys_w S) ''a'' ok clk = sys_w S \<and>
     ingest_run S [EClaim 0, ELook 0 False, ERegister 0 7 ''r'', EFinish 0] = Some S' \<and>
     Config_Resolve (sys_cfg S') camera_key = (None, RoleNone) \<and> currentLocked (srv S') 7 \<and> sys_neg S' = (\<lambda>_. None)"
proof -
  obtain S where S: "ingest_run (ingest_start one_camera) [EResolve 0 camera_key, EConfig Config_default] = Some S"
    "S = (ingest_start one_camera)\<lparr>sys_neg := (\<lambda>_. None)(0 \<mapsto> Resolved (example_ingest ''a'' 1 [])), sys_cfg := Config_default\<rparr>"
    by (simp add: run_defs)
  have "reachable S" using run_reachable [OF reachable.start S(1)] .
  moreover obtain S' where S': "ingest_run S [EClaim 0, ELook 0 False, ERegister 0 7 ''r'', EFinish 0] = Some S'"
    "sys_cfg S' = Config_default" "currentLocked (srv S') 7" "sys_neg S' = (\<lambda>_. None)"
    by (simp add: S(2) run_defs currentLocked_def)
  moreover have "ingest_CloseIngest (sys_w S) ''a'' ok clk = sys_w S" "sys_cfg S = Config_default"
    by (simp_all add: S(2) run_defs ingest_CloseIngest_def)
  ultimately show ?thesis by (intro exI [of _ S] exI [of _ S']) (simp add: no_camera_resolves)
qed

end
