(* ===== verification/Egress_Interleaving.thy ===== *)
theory Egress_Interleaving
  imports Egress
begin

text \<open>
  Subscribers interleaved.  Every step is one section under \<^verbatim>\<open>Server.mu\<close> of \<^verbatim>\<open>internal/egress/whep.go\<close>, or
  one call between two sections, of any number of requests (\<open>ey_neg\<close>: how far each is), together
  with \<^verbatim>\<open>CloseIngest\<close>, \<^verbatim>\<open>Teardown\<close>, \<^verbatim>\<open>forget\<close> and \<^verbatim>\<open>Close\<close> at any moment.  An event that does not
  apply leaves the state as it is.  A session opens one peer connection at most, which is named by
  the session's address.  Settings and relay are given anew with every step, because other
  components change them in between.
\<close>

section \<open>Steps\<close>

datatype 't sub_phase =
    SubResolved string | SubReserved nat | SubTracks nat "'t list" | SubPeer nat | SubReady nat string | SubDone nat

fun sub_address :: "'t sub_phase \<Rightarrow> nat option" where
  "sub_address (SubResolved _) = None"
| "sub_address (SubReserved a) = Some a"
| "sub_address (SubTracks a _) = Some a"
| "sub_address (SubPeer a) = Some a"
| "sub_address (SubReady a _) = Some a"
| "sub_address (SubDone a) = Some a"

record 't subscribing =
  ey_w :: "'t subscribers"
  ey_neg :: "nat \<Rightarrow> 't sub_phase option"

datatype subscribe_event =
    SResolve nat string | SReserve nat nat | SSubscribe nat instant instant | SOpen nat | SMint nat string | SAttach nat
  | SFail nat | SRelease nat | SCloseIngest string | STeardown string bool | SForget string | SShutdown

abbreviation esrv :: "'t subscribing \<Rightarrow> egress_Server" where
  "esrv S \<equiv> sb_srv (ey_w S)"

definition go_sub :: "'t subscribing \<Rightarrow> nat \<Rightarrow> 't subscribers \<Rightarrow> 't sub_phase option \<Rightarrow> 't subscribing" where
  "go_sub S t w ph = S\<lparr>ey_w := w, ey_neg := (ey_neg S)(t := ph)\<rparr>"

fun subscribe_step :: "Config \<Rightarrow> 't Relay \<Rightarrow> 't subscribing \<Rightarrow> subscribe_event \<Rightarrow> 't subscribing" where
  "subscribe_step cfg relay S (SResolve t key) =
     (case (ey_neg S t, Config_Resolve cfg key) of
        (None, Some ing, RoleReceiver) \<Rightarrow> go_sub S t (ey_w S) (Some (SubResolved (i_ID ing)))
      | _ \<Rightarrow> S)"
| "subscribe_step cfg relay S (SReserve t a) =
     (case ey_neg S t of
        Some (SubResolved i) \<Rightarrow>
          if eg_heap (esrv S) a \<noteq> None then S
          else (case egress_reserve (esrv S) i a of
                  (_, None) \<Rightarrow> go_sub S t (ey_w S) None
                | (s, Some b) \<Rightarrow> go_sub S t (set_server (ey_w S) s) (Some (SubReserved b)))
      | _ \<Rightarrow> S)"
| "subscribe_step cfg relay S (SSubscribe t since stamp) =
     (case ey_neg S t of
        Some (SubReserved a) \<Rightarrow>
          (case Relay_Subscribe relay (egress_ingest_of (esrv S) a) since stamp :: 't Relay \<times> (unit relay_error + 't list) \<times> nat option of
             (_, Inl _, _) \<Rightarrow> go_sub S t (ey_w S) (Some (SubDone a))
           | (_, Inr tracks, _) \<Rightarrow> go_sub S t (ey_w S) (Some (SubTracks a tracks)))
      | _ \<Rightarrow> S)"
| "subscribe_step cfg relay S (SOpen t) =
     (case ey_neg S t of
        Some (SubTracks a tracks) \<Rightarrow> go_sub S t (open_peer (ey_w S) a tracks) (Some (SubPeer a))
      | _ \<Rightarrow> S)"
| "subscribe_step cfg relay S (SMint t resource) =
     (case ey_neg S t of
        Some (SubPeer a) \<Rightarrow> go_sub S t (set_server (ey_w S) (egress_prepare (esrv S) a resource a)) (Some (SubReady a resource))
      | _ \<Rightarrow> S)"
| "subscribe_step cfg relay S (SAttach t) =
     (case ey_neg S t of
        Some (SubReady a resource) \<Rightarrow>
          (case egress_attach (esrv S) a resource of
             None \<Rightarrow> go_sub S t (close_peer (ey_w S) (Some a)) (Some (SubDone a))
           | Some s \<Rightarrow> go_sub S t (set_server (ey_w S) s) (Some (SubDone a)))
      | _ \<Rightarrow> S)"
| "subscribe_step cfg relay S (SFail t) =
     (case ey_neg S t of
        Some (SubResolved _) \<Rightarrow> go_sub S t (ey_w S) None
      | Some (SubReserved a) \<Rightarrow> go_sub S t (ey_w S) (Some (SubDone a))
      | Some (SubTracks a _) \<Rightarrow> go_sub S t (ey_w S) (Some (SubDone a))
      | Some (SubPeer a) \<Rightarrow> go_sub S t (close_peer (ey_w S) (Some a)) (Some (SubDone a))
      | _ \<Rightarrow> S)"
| "subscribe_step cfg relay S (SRelease t) =
     (case ey_neg S t of
        Some (SubDone a) \<Rightarrow> go_sub S t (set_server (ey_w S) (releaseReservation (esrv S) a)) None
      | _ \<Rightarrow> S)"
| "subscribe_step cfg relay S (SCloseIngest i) = S\<lparr>ey_w := egress_CloseIngest (ey_w S) i\<rparr>"
| "subscribe_step cfg relay S (STeardown resource closeOk) = S\<lparr>ey_w := fst (egress_Teardown (ey_w S) resource closeOk)\<rparr>"
| "subscribe_step cfg relay S (SForget resource) = S\<lparr>ey_w := set_server (ey_w S) (egress_forget (esrv S) resource)\<rparr>"
| "subscribe_step cfg relay S SShutdown = S\<lparr>ey_w := egress_Close (ey_w S)\<rparr>"

definition subscribing_start :: "'t subscribing" where
  "subscribing_start = \<lparr>ey_w = \<lparr>sb_srv = egress_NewServer, sb_peers = (\<lambda>_. None)\<rparr>, ey_neg = (\<lambda>_. None)\<rparr>"

definition subscribing_step :: "'t subscribing \<Rightarrow> Config \<times> 't Relay \<times> subscribe_event \<Rightarrow> 't subscribing" where
  "subscribing_step S = (\<lambda>(cfg, relay, e). subscribe_step cfg relay S e)"

definition subscribing_run :: "(Config \<times> 't Relay \<times> subscribe_event) list \<Rightarrow> 't subscribing" where
  "subscribing_run es = foldl subscribing_step subscribing_start es"

section \<open>The invariant of the tables\<close>

text \<open>The sessions that hold a place: reserved, attached or both.\<close>

definition egress_held :: "egress_Server \<Rightarrow> nat set" where
  "egress_held s = fst ` set (eg_pending s) \<union> snd ` set (eg_sessions s)"

definition seats_ok :: "egress_Server \<Rightarrow> bool" where
  "seats_ok s \<longleftrightarrow> card (egress_held s) \<le> maxSubscribers \<and>
     (\<forall>i. card {a \<in> egress_held s. egress_ingest_of s a = i} \<le> maxSubscribersPerIngest)"

definition lists_ok :: "egress_Server \<Rightarrow> bool" where
  "lists_ok s \<longleftrightarrow> distinct (map fst (eg_pending s)) \<and> distinct (map snd (eg_sessions s)) \<and> distinct (map fst (eg_sessions s)) \<and>
     (\<forall>a \<in> egress_held s. eg_heap s a \<noteq> None) \<and>
     (\<forall>a \<in> snd ` set (eg_sessions s). egress_peer_of s a = Some a) \<and>
     (eg_closed s \<longrightarrow> eg_sessions s = [] \<and> True \<notin> snd ` set (eg_pending s))"

fun sub_phase_ok :: "egress_Server \<Rightarrow> 't sub_phase \<Rightarrow> bool" where
  "sub_phase_ok s (SubResolved _) \<longleftrightarrow> True"
| "sub_phase_ok s (SubDone a) \<longleftrightarrow> a \<in> fst ` set (eg_pending s)"
| "sub_phase_ok s (SubReady a _) \<longleftrightarrow> a \<in> fst ` set (eg_pending s) \<and> a \<notin> snd ` set (eg_sessions s) \<and> egress_peer_of s a = Some a"
| "sub_phase_ok s (SubReserved a) \<longleftrightarrow> a \<in> fst ` set (eg_pending s) \<and> a \<notin> snd ` set (eg_sessions s)"
| "sub_phase_ok s (SubTracks a _) \<longleftrightarrow> a \<in> fst ` set (eg_pending s) \<and> a \<notin> snd ` set (eg_sessions s)"
| "sub_phase_ok s (SubPeer a) \<longleftrightarrow> a \<in> fst ` set (eg_pending s) \<and> a \<notin> snd ` set (eg_sessions s)"

text \<open>Every request in progress has its own reservation, and every reservation a request that will release it.\<close>

definition sub_at :: "(nat \<Rightarrow> 't sub_phase option) \<Rightarrow> nat \<Rightarrow> nat option" where
  "sub_at neg t = Option.bind (neg t) sub_address"

definition requests_ok :: "egress_Server \<Rightarrow> (nat \<Rightarrow> 't sub_phase option) \<Rightarrow> bool" where
  "requests_ok s neg \<longleftrightarrow>
     (\<forall>t ph. neg t = Some ph \<longrightarrow> sub_phase_ok s ph) \<and>
     (\<forall>t t' a. sub_at neg t = Some a \<and> sub_at neg t' = Some a \<longrightarrow> t = t') \<and>
     (\<forall>a. a \<in> fst ` set (eg_pending s) \<longrightarrow> (\<exists>t. sub_at neg t = Some a))"

definition subscribing_inv :: "'t subscribing \<Rightarrow> bool" where
  "subscribing_inv S \<longleftrightarrow> seats_ok (esrv S) \<and> lists_ok (esrv S) \<and> requests_ok (esrv S) (ey_neg S)"


section \<open>Each operation keeps it\<close>

lemma finite_held [simp]: "finite (egress_held s)"
  by (simp add: egress_held_def)

lemma seats_mono:
  assumes "seats_ok s" "egress_held s' \<subseteq> egress_held s" "\<And>a. a \<in> egress_held s' \<Longrightarrow> egress_ingest_of s' a = egress_ingest_of s a"
  shows "seats_ok s'"
proof -
  have "card {a \<in> egress_held s'. egress_ingest_of s' a = i} \<le> card {a \<in> egress_held s. egress_ingest_of s a = i}" for i
    using assms(2,3) by (intro card_mono) auto
  moreover have "card (egress_held s') \<le> card (egress_held s)" using assms(2) by (intro card_mono) auto
  ultimately show ?thesis using assms(1) unfolding seats_ok_def by (meson le_trans)
qed

lemma update_fresh: "a \<notin> fst ` set al \<Longrightarrow> AList.update a v al = al @ [(a, v)]"
  by (induction al) auto

lemma card_keys: "card {a \<in> fst ` set xs. P a} \<le> length (filter (\<lambda>(a, _). P a) xs)"
  and card_values: "card {a \<in> snd ` set ys. P a} \<le> length (filter (\<lambda>(_, a). P a) ys)"
proof -
  have "{a \<in> fst ` set xs. P a} = set (map fst (filter (\<lambda>(a, _). P a) xs))" by force
  then show "card {a \<in> fst ` set xs. P a} \<le> length (filter (\<lambda>(a, _). P a) xs)" by (metis card_length length_map)
  have "{a \<in> snd ` set ys. P a} = set (map snd (filter (\<lambda>(_, a). P a) ys))" by force
  then show "card {a \<in> snd ` set ys. P a} \<le> length (filter (\<lambda>(_, a). P a) ys)" by (metis card_length length_map)
qed

lemma reserve_fields:
  assumes "egress_reserve s i a = (s', Some b)" "a \<notin> fst ` set (eg_pending s)"
  shows "b = a" "\<not> eg_closed s" "eg_closed s' = eg_closed s" "eg_sessions s' = eg_sessions s" "eg_pending s' = eg_pending s @ [(a, True)]"
    "eg_heap s' = (eg_heap s)(a \<mapsto> \<lparr>es_Resource = [], es_IngestID = i, es_peer = None\<rparr>)"
    "length (eg_sessions s) + length (eg_pending s) < maxSubscribers"
    "length (filter (\<lambda>(b, _). egress_ingest_of s b = i) (eg_pending s)) +
       length (filter (\<lambda>(_, b). egress_ingest_of s b = i) (eg_sessions s)) < maxSubscribersPerIngest"
  using assms by (auto simp: egress_reserve_def Let_def update_fresh split: if_splits)

text \<open>A place is given only while the sessions that hold one are fewer than both limits.\<close>

lemma reserve_seats:
  assumes "seats_ok s" "egress_reserve s i a = (s', Some b)" "eg_heap s a = None" "\<And>b. b \<in> egress_held s \<Longrightarrow> eg_heap s b \<noteq> None"
  shows "seats_ok s'"
proof -
  have new: "a \<notin> egress_held s" using assms(3,4) by blast
  then have fresh: "a \<notin> fst ` set (eg_pending s)" by (auto simp: egress_held_def)
  note f = reserve_fields [OF assms(2) fresh]
  have held: "egress_held s' = insert a (egress_held s)"
    and of: "egress_ingest_of s' a = i" "\<And>b. b \<in> egress_held s \<Longrightarrow> egress_ingest_of s' b = egress_ingest_of s b"
    using new unfolding egress_ingest_of_def f(6) by (auto simp: egress_held_def f)
  have "card (egress_held s) \<le> length (eg_pending s) + length (eg_sessions s)"
    unfolding egress_held_def
    by (rule order_trans [OF card_Un_le add_mono])
      (metis card_length length_map list.set_map)+
  then have "card (egress_held s') \<le> maxSubscribers" using f(7) new by (simp add: held)
  moreover have "card {b \<in> egress_held s'. egress_ingest_of s' b = j} \<le> maxSubscribersPerIngest" for j
  proof (cases "j = i")
    case False
    then have "{b \<in> egress_held s'. egress_ingest_of s' b = j} = {b \<in> egress_held s. egress_ingest_of s b = j}"
      using of by (auto simp: held)
    then show ?thesis using assms(1) by (simp add: seats_ok_def)
  next
    case True
    have "{b \<in> egress_held s. egress_ingest_of s b = i} =
        {b \<in> fst ` set (eg_pending s). egress_ingest_of s b = i} \<union> {b \<in> snd ` set (eg_sessions s). egress_ingest_of s b = i}"
      by (auto simp: egress_held_def)
    then have "card {b \<in> egress_held s. egress_ingest_of s b = i} < maxSubscribersPerIngest"
      using f(8) card_keys [of "eg_pending s" "\<lambda>b. egress_ingest_of s b = i"]
        card_values [of "eg_sessions s" "\<lambda>b. egress_ingest_of s b = i"]
        card_Un_le [of "{b \<in> fst ` set (eg_pending s). egress_ingest_of s b = i}" "{b \<in> snd ` set (eg_sessions s). egress_ingest_of s b = i}"]
      by simp
    moreover have "{b \<in> egress_held s'. egress_ingest_of s' b = j} = insert a {b \<in> egress_held s. egress_ingest_of s b = i}"
      using of True by (auto simp: held)
    ultimately show ?thesis using new by simp
  qed
  ultimately show ?thesis by (simp add: seats_ok_def)
qed

lemma reserve_lists:
  assumes "lists_ok s" "egress_reserve s i a = (s', Some b)" "eg_heap s a = None"
  shows "lists_ok s'"
proof -
  have new: "a \<notin> fst ` set (eg_pending s)" "a \<notin> snd ` set (eg_sessions s)"
    using assms(1,3) unfolding lists_ok_def egress_held_def by blast+
  note f = reserve_fields [OF assms(2) new(1)]
  show ?thesis
    using assms(1) new f(2) unfolding lists_ok_def egress_held_def egress_peer_of_def f(3-6)
    by auto
qed

text \<open>Cancelling and removing: the same reservations, some perhaps cancelled, and a part of the sessions.\<close>

definition shrinks :: "egress_Server \<Rightarrow> egress_Server \<Rightarrow> bool" where
  "shrinks s s' \<longleftrightarrow> eg_heap s' = eg_heap s \<and> map fst (eg_pending s') = map fst (eg_pending s) \<and>
     (\<forall>a. (a, True) \<in> set (eg_pending s') \<longrightarrow> (a, True) \<in> set (eg_pending s)) \<and>
     (\<exists>P. eg_sessions s' = filter P (eg_sessions s)) \<and>
     (eg_closed s' \<longrightarrow> eg_closed s \<or> eg_sessions s' = [] \<and> True \<notin> snd ` set (eg_pending s'))"

lemma shrinks_pending: "shrinks s s' \<Longrightarrow> fst ` set (eg_pending s') = fst ` set (eg_pending s)"
  unfolding shrinks_def by (metis list.set_map)

lemma shrinks_sessions: "shrinks s s' \<Longrightarrow> set (eg_sessions s') \<subseteq> set (eg_sessions s)"
  by (auto simp: shrinks_def)

lemma distinct_map_part: "distinct (map f xs) \<Longrightarrow> distinct (map f (filter P xs))"
  by (auto simp: distinct_map inj_on_def)

lemma shrinks_held: "shrinks s s' \<Longrightarrow> egress_held s' \<subseteq> egress_held s"
  using shrinks_pending [of s s'] shrinks_sessions [of s s'] by (auto simp: egress_held_def)

lemma shrinks_heap: "shrinks s s' \<Longrightarrow> egress_ingest_of s' = egress_ingest_of s \<and> egress_peer_of s' = egress_peer_of s"
  by (auto simp: shrinks_def egress_ingest_of_def egress_peer_of_def fun_eq_iff)

lemma shrinks_seats: "shrinks s s' \<Longrightarrow> seats_ok s \<Longrightarrow> seats_ok s'"
  using seats_mono [of s s'] shrinks_held [of s s'] shrinks_heap [of s s'] by simp

lemma shrinks_lists:
  assumes "shrinks s s'" "lists_ok s"
  shows "lists_ok s'"
proof -
  obtain P where P: "eg_sessions s' = filter P (eg_sessions s)" using assms(1) by (auto simp: shrinks_def)
  have "egress_held s' \<subseteq> egress_held s" using assms(1) by (rule shrinks_held)
  moreover have "eg_sessions s' = [] \<and> True \<notin> snd ` set (eg_pending s')" if "eg_closed s'"
    using assms that by (fastforce simp: lists_ok_def shrinks_def)
  moreover have "eg_heap s' = eg_heap s" "map fst (eg_pending s') = map fst (eg_pending s)" using assms(1) by (simp_all add: shrinks_def)
  ultimately show ?thesis
    using assms(2) distinct_map_part [of snd "eg_sessions s" P] distinct_map_part [of fst "eg_sessions s" P]
    unfolding lists_ok_def egress_peer_of_def P by auto
qed

lemma shrinks_phase: "shrinks s s' \<Longrightarrow> sub_phase_ok s ph \<Longrightarrow> sub_phase_ok s' ph"
  using shrinks_pending [of s s'] image_mono [OF shrinks_sessions [of s s'], of snd] shrinks_heap [of s s']
  by (cases ph) auto

lemma shrinks_inv:
  fixes S :: "'t subscribing"
  shows "shrinks (esrv S) (sb_srv w) \<Longrightarrow> subscribing_inv S \<Longrightarrow> subscribing_inv (S\<lparr>ey_w := w\<rparr>)"
  using shrinks_phase [of "esrv S" "sb_srv w" "ph :: 't sub_phase" for ph] shrinks_pending [of "esrv S" "sb_srv w"]
  by (simp add: subscribing_inv_def shrinks_seats shrinks_lists) (auto simp: requests_ok_def)

lemma close_peers_srv [simp]: "sb_srv (foldl (\<lambda>w (_, a). close_peer w (f a)) w xs) = sb_srv w"
  by (induction xs arbitrary: w) (auto simp: close_peer_def split: option.split)

lemma srv_ops [simp]: "sb_srv (close_peer w p) = sb_srv w" "sb_srv (open_peer w q ts) = sb_srv w" "sb_srv (set_server w s) = s"
  by (simp_all add: close_peer_def open_peer_def set_server_def split: option.split)

lemma CloseIngest_shrinks: "shrinks (sb_srv w) (sb_srv (egress_CloseIngest w i))"
  by (auto simp: shrinks_def egress_CloseIngest_def Let_def comp_def case_prod_beta split: if_splits)

lemma forget_shrinks: "shrinks s (egress_forget s r)"
  by (auto simp: shrinks_def egress_forget_def AList.delete_eq)

lemma Teardown_shrinks: "shrinks (sb_srv w) (sb_srv (fst (egress_Teardown w r ok)))"
  using forget_shrinks [of "sb_srv w" r] by (auto simp: egress_Teardown_def Let_def split: option.split)

lemma Close_shrinks: "shrinks (sb_srv w) (sb_srv (egress_Close w))"
  by (auto simp: shrinks_def egress_Close_def Let_def comp_def case_prod_beta intro: exI [of _ "\<lambda>_. False"])


text \<open>The requests.\<close>

lemma requests_okI:
  assumes "\<And>t ph. neg t = Some ph \<Longrightarrow> sub_phase_ok s ph" "\<And>t t' a. sub_at neg t = Some a \<Longrightarrow> sub_at neg t' = Some a \<Longrightarrow> t = t'"
    "\<And>a. a \<in> fst ` set (eg_pending s) \<Longrightarrow> \<exists>t. sub_at neg t = Some a"
  shows "requests_ok s neg"
  using assms unfolding requests_ok_def by blast

lemma sub_at_upd: "sub_at (neg(t := p)) = (sub_at neg)(t := Option.bind p sub_address)"
  by (auto simp: sub_at_def)

lemma requests_same:
  assumes "requests_ok s neg" "Option.bind p sub_address = sub_at neg t" "\<And>ph. p = Some ph \<Longrightarrow> sub_phase_ok s ph"
  shows "requests_ok s (neg(t := p))"
proof -
  have "sub_at (neg(t := p)) = sub_at neg" by (simp add: sub_at_upd assms(2))
  then show ?thesis using assms(1,3) by (simp add: requests_ok_def)
qed

lemma requests_phase: "requests_ok s neg \<Longrightarrow> neg t = Some ph \<Longrightarrow> sub_phase_ok s ph"
  by (simp add: requests_ok_def)

lemma sub_phase_pending: "sub_phase_ok s ph \<Longrightarrow> sub_address ph = Some a \<Longrightarrow> a \<in> fst ` set (eg_pending s)"
  by (cases ph) auto

lemma requests_other:
  assumes "requests_ok s neg" "sub_at neg t = Some a" "neg u = Some q" "u \<noteq> t"
  shows "sub_address q \<noteq> Some a"
  using assms unfolding requests_ok_def by (metis sub_at_def bind.bind_lunit)

text \<open>A change of the tables that concerns the session of one request only.\<close>

lemma requests_change:
  fixes neg :: "nat \<Rightarrow> 't sub_phase option"
  assumes "requests_ok s neg" "sub_at neg t = None \<or> sub_at neg t = Some a"
    and phases: "\<And>q :: 't sub_phase. sub_phase_ok s q \<Longrightarrow> sub_address q \<noteq> Some a \<Longrightarrow> sub_phase_ok s' q"
    and new: "sub_phase_ok s' ph" "sub_address ph = Some a"
    and keys: "fst ` set (eg_pending s') = insert a (fst ` set (eg_pending s))"
    and free: "sub_at neg t = None \<Longrightarrow> a \<notin> fst ` set (eg_pending s)"
  shows "requests_ok s' (neg(t \<mapsto> ph))"
proof -
  have other: "sub_at neg u \<noteq> Some a" if "u \<noteq> t" for u
  proof
    assume u: "sub_at neg u = Some a"
    then obtain q where q: "neg u = Some q" "sub_address q = Some a" by (auto simp: sub_at_def bind_eq_Some_conv)
    then have "a \<in> fst ` set (eg_pending s)" using assms(1) by (meson requests_phase sub_phase_pending)
    then have "sub_at neg t = Some a" using free assms(2) by auto
    with u that assms(1) show False unfolding requests_ok_def by blast
  qed
  have at: "sub_at (neg(t \<mapsto> ph)) = (sub_at neg)(t \<mapsto> a)" by (simp add: sub_at_upd new(2))
  show ?thesis
  proof (rule requests_okI, unfold at)
    fix u q assume u: "(neg(t \<mapsto> ph)) u = Some q"
    show "sub_phase_ok s' q"
    proof (cases "u = t")
      case False
      then have "neg u = Some q" using u by simp
      then show ?thesis using phases requests_phase [OF assms(1)] other [OF False] by (simp add: sub_at_def)
    qed (use u new(1) in simp)
  next
    fix u v b assume uv: "((sub_at neg)(t \<mapsto> a)) u = Some b" "((sub_at neg)(t \<mapsto> a)) v = Some b"
    show "u = v"
    proof (cases "u = t \<or> v = t")
      case True
      then show ?thesis using uv other by (metis fun_upd_apply option.inject)
    next
      case False
      then have "sub_at neg u = Some b" "sub_at neg v = Some b" using uv by simp_all
      then show ?thesis using assms(1) unfolding requests_ok_def by metis
    qed
  next
    fix b assume b: "b \<in> fst ` set (eg_pending s')"
    show "\<exists>u. ((sub_at neg)(t \<mapsto> a)) u = Some b"
    proof (cases "b = a")
      case False
      then have "b \<in> fst ` set (eg_pending s)" using b keys by simp
      then obtain u where "sub_at neg u = Some b" using assms(1) unfolding requests_ok_def by metis
      then show ?thesis using False assms(2) by (intro exI [of _ u]) auto
    qed (auto intro!: exI [of _ t])
  qed
qed

lemma requests_release:
  assumes "requests_ok s neg" "neg t = Some (SubDone a)"
  shows "requests_ok (releaseReservation s a) (neg(t := None))"
proof -
  have t: "sub_at neg t = Some a" by (simp add: sub_at_def assms(2))
  have keys: "b \<in> fst ` set (eg_pending (releaseReservation s a)) \<longleftrightarrow> b \<noteq> a \<and> b \<in> fst ` set (eg_pending s)" for b
    by (force simp: releaseReservation_def AList.delete_eq)
  have "sub_phase_ok (releaseReservation s a) q" if "neg u = Some q" "u \<noteq> t" for u q
    using requests_phase [OF assms(1) that(1)] requests_other [OF assms(1) t that]
    by (cases q) (simp_all add: keys, simp_all add: releaseReservation_def egress_peer_of_def)
  moreover have "\<exists>u. ((sub_at neg)(t := None)) u = Some b" if "b \<in> fst ` set (eg_pending (releaseReservation s a))" for b
  proof -
    have b: "b \<noteq> a" "b \<in> fst ` set (eg_pending s)" using that keys by auto
    then obtain u where "sub_at neg u = Some b" using assms(1) unfolding requests_ok_def by blast
    with b(1) t show ?thesis by (intro exI [of _ u]) auto
  qed
  ultimately show ?thesis using assms(1) unfolding requests_ok_def sub_at_upd by (auto split: if_splits)
qed


text \<open>The sections of a request.\<close>

lemma subscribing_invI:
  assumes "seats_ok (sb_srv w)" "lists_ok (sb_srv w)" "requests_ok (sb_srv w) ((ey_neg S)(t := ph))"
  shows "subscribing_inv (go_sub S t w ph)"
  using assms by (simp add: subscribing_inv_def go_sub_def)

lemma inv_same:
  assumes "subscribing_inv S" "sb_srv w = esrv S" "Option.bind ph sub_address = sub_at (ey_neg S) t"
    "\<And>p. ph = Some p \<Longrightarrow> sub_phase_ok (esrv S) p"
  shows "subscribing_inv (go_sub S t w ph)"
  using assms by (intro subscribing_invI) (simp_all add: subscribing_inv_def requests_same)

lemma inv_reserve:
  assumes "subscribing_inv S" "ey_neg S t = Some (SubResolved i)" "eg_heap (esrv S) a = None" "egress_reserve (esrv S) i a = (s, Some b)"
  shows "subscribing_inv (go_sub S t (set_server (ey_w S) s) (Some (SubReserved b)))"
proof -
  have inv: "seats_ok (esrv S)" "lists_ok (esrv S)" "requests_ok (esrv S) (ey_neg S)" using assms(1) by (simp_all add: subscribing_inv_def)
  have heap: "\<And>b. b \<in> egress_held (esrv S) \<Longrightarrow> eg_heap (esrv S) b \<noteq> None" using inv(2) by (simp add: lists_ok_def)
  then have new: "a \<notin> egress_held (esrv S)" using assms(3) by blast
  then have keys: "a \<notin> fst ` set (eg_pending (esrv S))" "a \<notin> snd ` set (eg_sessions (esrv S))" by (simp_all add: egress_held_def)
  note f = reserve_fields [OF assms(4) keys(1)]
  have peer: "egress_peer_of s c = egress_peer_of (esrv S) c" if "c \<noteq> a" for c
    using that unfolding egress_peer_of_def f(6) by simp
  have "requests_ok s ((ey_neg S)(t \<mapsto> SubReserved a))"
  proof (rule requests_change [OF inv(3), of t a])
    show "sub_phase_ok s q" if "sub_phase_ok (esrv S) q" "sub_address q \<noteq> Some a" for q :: "'a sub_phase"
      using that peer by (cases q) (auto simp: f(4,5))
  qed (use assms(2) keys in \<open>simp_all add: sub_at_def f(4,5)\<close>)
  then show ?thesis
    using reserve_seats [OF inv(1) assms(4,3) heap] reserve_lists [OF inv(2) assms(4,3)] f(1) by (intro subscribing_invI) simp_all
qed

lemma prepare_fields:
  assumes "eg_heap s a = Some x"
  shows "egress_ingest_of (egress_prepare s a r p) = egress_ingest_of s" "egress_peer_of (egress_prepare s a r p) a = Some p"
    "b \<noteq> a \<Longrightarrow> egress_peer_of (egress_prepare s a r p) b = egress_peer_of s b"
    "eg_pending (egress_prepare s a r p) = eg_pending s" "eg_sessions (egress_prepare s a r p) = eg_sessions s"
    "eg_closed (egress_prepare s a r p) = eg_closed s" "eg_heap (egress_prepare s a r p) b = None \<longleftrightarrow> eg_heap s b = None"
  using assms by (auto simp: egress_prepare_def egress_ingest_of_def egress_peer_of_def fun_eq_iff)

lemma inv_mint:
  assumes "subscribing_inv S" "ey_neg S t = Some (SubPeer a)"
  shows "subscribing_inv (go_sub S t (set_server (ey_w S) (egress_prepare (esrv S) a r a)) (Some (SubReady a r)))"
proof -
  have inv: "seats_ok (esrv S)" "lists_ok (esrv S)" "requests_ok (esrv S) (ey_neg S)" using assms(1) by (simp_all add: subscribing_inv_def)
  have a: "a \<in> fst ` set (eg_pending (esrv S))" "a \<notin> snd ` set (eg_sessions (esrv S))" using requests_phase [OF inv(3) assms(2)] by simp_all
  then obtain x where x: "eg_heap (esrv S) a = Some x" using inv(2) unfolding lists_ok_def egress_held_def by blast
  let ?s = "egress_prepare (esrv S) a r a"
  note f = prepare_fields [OF x, where r = r and p = a]
  have held: "egress_held ?s = egress_held (esrv S)" by (simp add: egress_held_def f)
  have "lists_ok ?s" using inv(2) a(2) unfolding lists_ok_def held f by (auto simp: f(7) intro!: trans [OF f(3)])
  moreover have "requests_ok ?s ((ey_neg S)(t \<mapsto> SubReady a r))"
  proof (rule requests_change [OF inv(3), of t a])
    show "sub_phase_ok ?s q" if "sub_phase_ok (esrv S) q" "sub_address q \<noteq> Some a" for q :: "'a sub_phase"
      using that by (cases q) (auto simp: f)
  qed (use assms(2) a in \<open>auto simp: sub_at_def f\<close>)
  ultimately show ?thesis using seats_mono [OF inv(1), of ?s] by (intro subscribing_invI) (simp_all add: held f)
qed

lemma update_values: "snd ` set (AList.update k v al) \<subseteq> insert v (snd ` set al)"
  by (induction al) auto

lemma update_distinct: "distinct (map snd al) \<Longrightarrow> v \<notin> snd ` set al \<Longrightarrow> distinct (map snd (AList.update k v al))"
proof (induction al)
  case (Cons x al)
  then show ?case using update_values [of k v al] by (cases x) auto
qed simp

lemma attach_lists:
  assumes "lists_ok s" "map_of (eg_pending s) a = Some True" "a \<notin> snd ` set (eg_sessions s)" "egress_peer_of s a = Some a"
    and s': "s' = s\<lparr>eg_sessions := AList.update r a (eg_sessions s)\<rparr>"
  shows "lists_ok s'"
proof -
  have pend: "(a, True) \<in> set (eg_pending s)" using assms(2) by (rule map_of_SomeD)
  then have "\<not> eg_closed s" using assms(1) by (force simp: lists_ok_def)
  moreover have "egress_held s' \<subseteq> egress_held s"
    using pend update_values [of r a "eg_sessions s"] by (force simp: egress_held_def s')
  moreover have "eg_heap s' = eg_heap s" "eg_closed s' = eg_closed s" "eg_pending s' = eg_pending s" "egress_peer_of s' = egress_peer_of s"
    by (simp_all add: s' egress_peer_of_def fun_eq_iff)
  moreover have "distinct (map fst (AList.update r a (eg_sessions s)))" using assms(1) by (simp add: lists_ok_def distinct_update)
  moreover have "egress_peer_of s b = Some b" if "b \<in> snd ` set (eg_sessions s')" for b
  proof (cases "b = a")
    case False
    have "b \<in> snd ` set (AList.update r a (eg_sessions s))" using that s' by simp
    then have "b \<in> snd ` set (eg_sessions s)" using False update_values [of r a "eg_sessions s"] by blast
    then show ?thesis using assms(1) unfolding lists_ok_def by blast
  qed (simp add: assms(4))
  moreover have "distinct (map snd (eg_sessions s'))"
    using update_distinct [OF _ assms(3), of r] assms(1) by (simp add: lists_ok_def s')
  ultimately show ?thesis
    using assms(1) unfolding lists_ok_def by (simp add: s' subset_iff)
qed

lemma inv_attach:
  assumes "subscribing_inv S" "ey_neg S t = Some (SubReady a r)" "egress_attach (esrv S) a r = Some s"
  shows "subscribing_inv (go_sub S t (set_server (ey_w S) s) (Some (SubDone a)))"
proof -
  have inv: "seats_ok (esrv S)" "lists_ok (esrv S)" "requests_ok (esrv S) (ey_neg S)" using assms(1) by (simp_all add: subscribing_inv_def)
  have a: "a \<in> fst ` set (eg_pending (esrv S))" "a \<notin> snd ` set (eg_sessions (esrv S))" "egress_peer_of (esrv S) a = Some a"
    using requests_phase [OF inv(3) assms(2)] by simp_all
  have s: "map_of (eg_pending (esrv S)) a = Some True" "s = (esrv S)\<lparr>eg_sessions := AList.update r a (eg_sessions (esrv S))\<rparr>"
    using assms(3) by (auto simp: egress_attach_def split: if_splits)
  have vals: "snd ` set (eg_sessions s) \<subseteq> insert a (snd ` set (eg_sessions (esrv S)))"
    using update_values [of r a] by (simp add: s(2))
  have peer: "egress_peer_of s = egress_peer_of (esrv S)" "egress_ingest_of s = egress_ingest_of (esrv S)" "eg_pending s = eg_pending (esrv S)"
    by (simp_all add: s(2) egress_peer_of_def egress_ingest_of_def fun_eq_iff)
  have "seats_ok s"
    by (rule seats_mono [OF inv(1)]) (use vals a(1) in \<open>auto simp: egress_held_def peer\<close>)
  moreover have "requests_ok s ((ey_neg S)(t \<mapsto> SubDone a))"
  proof (rule requests_change [OF inv(3), of t a])
    show "sub_phase_ok s q" if "sub_phase_ok (esrv S) q" "sub_address q \<noteq> Some a" for q :: "'a sub_phase"
      using that vals by (cases q) (auto simp: peer)
  qed (use assms(2) a in \<open>auto simp: sub_at_def peer\<close>)
  ultimately show ?thesis using attach_lists [OF inv(2) s(1) a(2,3) s(2)] by (intro subscribing_invI) simp_all
qed

lemma inv_release:
  assumes "subscribing_inv S" "ey_neg S t = Some (SubDone a)"
  shows "subscribing_inv (go_sub S t (set_server (ey_w S) (releaseReservation (esrv S) a)) None)"
proof -
  have inv: "seats_ok (esrv S)" "lists_ok (esrv S)" "requests_ok (esrv S) (ey_neg S)" using assms(1) by (simp_all add: subscribing_inv_def)
  let ?s = "releaseReservation (esrv S) a"
  have sub: "egress_held ?s \<subseteq> egress_held (esrv S)" by (auto simp: egress_held_def releaseReservation_def AList.delete_eq)
  have "seats_ok ?s" by (rule seats_mono [OF inv(1) sub]) (simp add: releaseReservation_def egress_ingest_of_def)
  moreover have "lists_ok ?s"
    using inv(2) sub unfolding lists_ok_def by (auto simp: releaseReservation_def AList.delete_eq distinct_map_part egress_peer_of_def)
  ultimately show ?thesis using requests_release [OF inv(3) assms(2)] by (intro subscribing_invI) simp_all
qed


lemma subscribe_step_inv:
  fixes S :: "'t subscribing"
  assumes inv: "subscribing_inv S"
  shows "subscribing_inv (subscribe_step cfg relay S e)"
proof (cases e)
  case (SResolve t key)
  show ?thesis
    using inv_same [OF inv, of "ey_w S" "Some (SubResolved i)" t for i] inv
    by (auto simp: SResolve sub_at_def split: option.split prod.split Role.split)
next
  case (SReserve t a)
  show ?thesis
  proof (cases "\<exists>i. ey_neg S t = Some (SubResolved i)")
    case False
    then show ?thesis using inv by (auto simp: SReserve split: option.split sub_phase.split)
  next
    case True
    then obtain i where i: "ey_neg S t = Some (SubResolved i)" by blast
    then show ?thesis
      using inv_reserve [OF inv i] inv_same [OF inv, of "ey_w S" None t] inv
      by (auto simp: SReserve sub_at_def split: prod.split option.split)
  qed
next
  case (SSubscribe t since stamp)
  show ?thesis
  proof (cases "\<exists>a. ey_neg S t = Some (SubReserved a)")
    case False
    then show ?thesis using inv by (auto simp: SSubscribe split: option.split sub_phase.split)
  next
    case True
    then obtain a where a: "ey_neg S t = Some (SubReserved a)" by blast
    then have ok: "sub_phase_ok (esrv S) (SubReserved a :: 't sub_phase)" using inv requests_phase unfolding subscribing_inv_def by blast
    have "subscribing_inv (go_sub S t (ey_w S) (Some ph))" if "sub_phase_ok (esrv S) ph" "sub_address ph = Some a" for ph
      using inv_same [OF inv, of "ey_w S" "Some ph" t] that a by (simp add: sub_at_def)
    then show ?thesis using ok by (simp add: SSubscribe a split: prod.split sum.split)
  qed
next
  case (SOpen t)
  show ?thesis
    using inv requests_phase [of "esrv S" "ey_neg S" t] inv_same [OF inv, of "open_peer (ey_w S) a ts" "Some (SubPeer a)" t for a ts]
    by (auto simp: SOpen sub_at_def subscribing_inv_def split: option.split sub_phase.split)
next
  case (SMint t r)
  show ?thesis using inv inv_mint [OF inv, of t _ r] by (auto simp: SMint split: option.split sub_phase.split)
next
  case (SAttach t)
  show ?thesis
    using inv requests_phase [of "esrv S" "ey_neg S" t] inv_attach [OF inv, of t] inv_same [OF inv, of "close_peer (ey_w S) (Some a)" "Some (SubDone a)" t for a]
    by (auto simp: SAttach sub_at_def subscribing_inv_def split: option.split sub_phase.split)
next
  case (SFail t)
  show ?thesis
    using inv requests_phase [of "esrv S" "ey_neg S" t] inv_same [OF inv, of "close_peer (ey_w S) (Some a)" "Some (SubDone a)" t for a]
      inv_same [OF inv, of "ey_w S" "Some (SubDone a)" t for a] inv_same [OF inv, of "ey_w S" None t]
    by (auto simp: SFail sub_at_def subscribing_inv_def split: option.split sub_phase.split)
next
  case (SRelease t)
  show ?thesis using inv inv_release [OF inv, of t] by (auto simp: SRelease split: option.split sub_phase.split)
next
  case (SForget r)
  show ?thesis using shrinks_inv [OF _ inv, of "set_server (ey_w S) (egress_forget (esrv S) r)"] forget_shrinks by (simp add: SForget)
qed (simp_all add: shrinks_inv [OF CloseIngest_shrinks inv] shrinks_inv [OF Teardown_shrinks inv] shrinks_inv [OF Close_shrinks inv])

lemma start_inv: "subscribing_inv subscribing_start"
  by (simp add: subscribing_inv_def subscribing_start_def egress_NewServer_def seats_ok_def lists_ok_def requests_ok_def
      egress_held_def sub_at_def)

interpretation subscribing: kept_invariant subscribing_step subscribing_inv
  by unfold_locales (simp add: subscribing_step_def subscribe_step_inv split: prod.split)


section \<open>Limits\<close>

lemma subscribing_run_inv: "subscribing_inv (subscribing_run es)"
  unfolding subscribing_run_def by (rule subscribing.run_keeps [OF start_inv])

text \<open>
  C30: However requests, disconnects and shutdown interleave, at most 64 subscribers
  hold a place, reserved or attached, and at most 8 of one camera; so the table of sessions never
  grows past that.  No two entries of the table share a session, and every reservation still
  counted belongs to a request in progress, which will release it.
\<close>

theorem subscribers_are_limited:
  "let S = subscribing_run es; s = sb_srv (ey_w S)
   in card (egress_held s) \<le> 64 \<and> length (eg_sessions s) \<le> 64 \<and>
      length (filter (\<lambda>(_, a). egress_ingest_of s a = i) (eg_sessions s)) \<le> 8 \<and>
      distinct (map snd (eg_sessions s)) \<and> fst ` set (eg_pending s) \<subseteq> ran (sub_at (ey_neg S))"
proof -
  let ?S = "subscribing_run es" and ?s = "esrv (subscribing_run es)"
  have inv: "seats_ok ?s" "lists_ok ?s" "requests_ok ?s (ey_neg ?S)"
    using subscribing_run_inv [of es] by (simp_all add: subscribing_inv_def)
  have distinct: "distinct (map snd (eg_sessions ?s))" using inv(2) by (simp add: lists_ok_def)
  have part: "length (filter P (eg_sessions ?s)) \<le> card {a \<in> egress_held ?s. Q a}"
    if "\<And>r a. P (r, a) \<Longrightarrow> Q a" for P Q
  proof -
    have "length (filter P (eg_sessions ?s)) = card (set (map snd (filter P (eg_sessions ?s))))"
      using distinct_card [OF distinct_map_part [OF distinct]] by (metis length_map)
    also have "\<dots> \<le> card {a \<in> egress_held ?s. Q a}" using that by (intro card_mono) (force simp: egress_held_def)+
    finally show ?thesis .
  qed
  have "length (filter (\<lambda>_. True) (eg_sessions ?s)) \<le> card {a \<in> egress_held ?s. True}" by (rule part)
  moreover have "length (filter (\<lambda>(_, a). egress_ingest_of ?s a = i) (eg_sessions ?s)) \<le> card {a \<in> egress_held ?s. egress_ingest_of ?s a = i}"
    by (rule part) simp
  moreover have "card (egress_held ?s) \<le> 64" "card {a \<in> egress_held ?s. egress_ingest_of ?s a = i} \<le> 8"
    using inv(1) by (simp_all add: seats_ok_def maxSubscribers_def maxSubscribersPerIngest_def)
  moreover have "fst ` set (eg_pending ?s) \<subseteq> ran (sub_at (ey_neg ?S))"
    using inv(3) unfolding requests_ok_def ran_def by blast
  ultimately show ?thesis using distinct by (simp add: Let_def)
qed

section \<open>Cancelled reservations\<close>

text \<open>A session that exists, has no live reservation and is not attached stays so.\<close>

definition barred :: "nat \<Rightarrow> 't subscribing \<Rightarrow> bool" where
  "barred a S \<longleftrightarrow> eg_heap (esrv S) a \<noteq> None \<and> (a, True) \<notin> set (eg_pending (esrv S)) \<and> a \<notin> snd ` set (eg_sessions (esrv S))"

definition camera_of :: "nat \<Rightarrow> string \<Rightarrow> 't subscribing \<Rightarrow> bool" where
  "camera_of a i S \<longleftrightarrow> (\<exists>x. eg_heap (esrv S) a = Some x \<and> es_IngestID x = i)"

lemma reserve_shape:
  assumes "egress_reserve s i b = (s', Some c)"
  shows "eg_heap s' = (eg_heap s)(b \<mapsto> \<lparr>es_Resource = [], es_IngestID = i, es_peer = None\<rparr>)"
    "eg_sessions s' = eg_sessions s" "eg_pending s' = AList.update b True (eg_pending s)"
  using assms by (auto simp: egress_reserve_def Let_def split: if_splits)

lemma update_other: "(a, v) \<in> set (AList.update b w al) \<Longrightarrow> a \<noteq> b \<Longrightarrow> (a, v) \<in> set al"
  by (induction al) (auto split: if_splits)

text \<open>What a step does to the server, whatever the request.\<close>

lemma step_server:
  fixes S :: "'t subscribing"
  obtains (same) "esrv (subscribe_step cfg relay S e) = esrv S"
  | (shrink) "shrinks (esrv S) (esrv (subscribe_step cfg relay S e))"
  | (reserve) i b c where "eg_heap (esrv S) b = None" "egress_reserve (esrv S) i b = (esrv (subscribe_step cfg relay S e), Some c)"
  | (prepare) b r where "esrv (subscribe_step cfg relay S e) = egress_prepare (esrv S) b r b"
  | (attach) b r where "egress_attach (esrv S) b r = Some (esrv (subscribe_step cfg relay S e))"
  | (release) b where "esrv (subscribe_step cfg relay S e) = releaseReservation (esrv S) b"
proof (cases e)
  case (SResolve t key)
  show thesis by (rule same) (simp add: SResolve go_sub_def split: option.split prod.split Role.split)
next
  case (SReserve t a)
  show thesis
  proof (cases "\<exists>i s b. ey_neg S t = Some (SubResolved i) \<and> eg_heap (esrv S) a = None \<and> egress_reserve (esrv S) i a = (s, Some b)")
    case True
    then show thesis using reserve by (auto simp: SReserve go_sub_def)
  next
    case False
    then have "esrv (subscribe_step cfg relay S e) = esrv S"
      by (auto simp: SReserve go_sub_def split: option.split sub_phase.split prod.split)
    then show thesis by (rule same)
  qed
next
  case (SSubscribe t since stamp)
  show thesis by (rule same) (simp add: SSubscribe go_sub_def split: option.split sub_phase.split prod.split sum.split)
next
  case (SOpen t)
  show thesis by (rule same) (simp add: SOpen go_sub_def split: option.split sub_phase.split)
next
  case (SMint t r)
  show thesis
  proof (cases "\<exists>a. ey_neg S t = Some (SubPeer a)")
    case True
    then show thesis using prepare by (auto simp: SMint go_sub_def)
  next
    case False
    then have "esrv (subscribe_step cfg relay S e) = esrv S" by (auto simp: SMint split: option.split sub_phase.split)
    then show thesis by (rule same)
  qed
next
  case (SAttach t)
  show thesis
  proof (cases "\<exists>a r s. ey_neg S t = Some (SubReady a r) \<and> egress_attach (esrv S) a r = Some s")
    case True
    then show thesis using attach by (auto simp: SAttach go_sub_def)
  next
    case False
    then have "esrv (subscribe_step cfg relay S e) = esrv S" by (auto simp: SAttach go_sub_def split: option.split sub_phase.split)
    then show thesis by (rule same)
  qed
next
  case (SFail t)
  show thesis by (rule same) (simp add: SFail go_sub_def split: option.split sub_phase.split)
next
  case (SRelease t)
  show thesis
  proof (cases "\<exists>a. ey_neg S t = Some (SubDone a)")
    case True
    then show thesis using release by (auto simp: SRelease go_sub_def)
  next
    case False
    then have "esrv (subscribe_step cfg relay S e) = esrv S" by (auto simp: SRelease split: option.split sub_phase.split)
    then show thesis by (rule same)
  qed
qed (rule shrink, simp add: CloseIngest_shrinks Teardown_shrinks forget_shrinks Close_shrinks)+

lemma barred_step:
  assumes "barred a S"
  shows "barred a (subscribe_step cfg relay S e)"
  using step_server [of cfg relay S e]
proof cases
  case shrink
  have "a \<notin> snd ` set (eg_sessions (esrv (subscribe_step cfg relay S e)))"
    using assms image_mono [OF shrinks_sessions [OF shrink], of snd] unfolding barred_def by blast
  then show ?thesis using assms shrink by (auto simp: barred_def shrinks_def)
next
  case (reserve i b c)
  then have "b \<noteq> a" using assms by (auto simp: barred_def)
  then show ?thesis
    using assms update_other [of a True b True] unfolding barred_def reserve_shape [OF reserve(2)] by auto
next
  case (prepare b r)
  then show ?thesis using assms by (auto simp: barred_def egress_prepare_def)
next
  case (attach b r)
  then have *: "(b, True) \<in> set (eg_pending (esrv S))"
    "esrv (subscribe_step cfg relay S e) = (esrv S)\<lparr>eg_sessions := AList.update r b (eg_sessions (esrv S))\<rparr>"
    by (auto simp: egress_attach_def split: if_splits dest: map_of_SomeD)
  then have "b \<noteq> a" using assms by (auto simp: barred_def)
  then have "a \<notin> snd ` set (AList.update r b (eg_sessions (esrv S)))"
    using assms update_values [of r b "eg_sessions (esrv S)"] unfolding barred_def by blast
  then show ?thesis using assms by (simp add: barred_def *(2))
next
  case (release b)
  then show ?thesis using assms by (auto simp: barred_def releaseReservation_def AList.delete_eq)
qed (use assms in \<open>simp add: barred_def\<close>)

lemma camera_step:
  assumes "camera_of a i S"
  shows "camera_of a i (subscribe_step cfg relay S e)"
  using step_server [of cfg relay S e]
proof cases
  case (reserve j b c)
  then show ?thesis using assms unfolding camera_of_def reserve_shape [OF reserve(2)] by auto
next
  case (prepare b r)
  then show ?thesis using assms by (auto simp: camera_of_def egress_prepare_def)
next
  case (attach b r)
  then have "eg_heap (esrv (subscribe_step cfg relay S e)) = eg_heap (esrv S)" by (auto simp: egress_attach_def split: if_splits dest!: arg_cong [of _ _ eg_heap])
  then show ?thesis using assms by (simp add: camera_of_def)
qed (use assms in \<open>auto simp: camera_of_def shrinks_def releaseReservation_def\<close>)

interpretation barred: kept_invariant subscribing_step "barred a" for a
  by unfold_locales (simp add: subscribing_step_def barred_step split: prod.split)

interpretation camera: kept_invariant subscribing_step "camera_of a i" for a i
  by unfold_locales (simp add: subscribing_step_def camera_step split: prod.split)

lemma CloseIngest_bars:
  assumes "eg_heap (sb_srv w) a = Some x" "ey_w S = egress_CloseIngest w (es_IngestID x)"
  shows "barred a S"
  using assms by (auto simp: barred_def egress_CloseIngest_def egress_ingest_of_def Let_def)

text \<open>
  C31: \<^verbatim>\<open>CloseIngest\<close> is final for the sessions it finds: however the requests go on and interleave, a
  session that was attached or only reserved when the camera was closed never watches it again.  Whoever
  watches the camera later does so with a session that did not exist yet, so its reservation was made afterwards.
  (\<open>resolved_request_can_watch\<close> shows that a request which had resolved its key, but not reserved, can still do that.)
\<close>

theorem closed_camera_stays_closed:
  assumes "S0 = subscribing_run es0"
    and "S = foldl subscribing_step (S0\<lparr>ey_w := egress_CloseIngest (ey_w S0) i\<rparr>) es"
    and "(resource, a) \<in> set (eg_sessions (sb_srv (ey_w S)))" "egress_ingest_of (sb_srv (ey_w S)) a = i"
  shows "eg_heap (sb_srv (ey_w S0)) a = None"
proof (rule ccontr)
  assume "eg_heap (esrv S0) a \<noteq> None"
  then obtain x where x: "eg_heap (esrv S0) a = Some x" by blast
  let ?S1 = "S0\<lparr>ey_w := egress_CloseIngest (ey_w S0) i\<rparr>"
  have "camera_of a (es_IngestID x) ?S1"
    using x CloseIngest_shrinks [of "ey_w S0" i] by (auto simp: camera_of_def shrinks_def)
  then have "camera_of a (es_IngestID x) S" unfolding assms(2) by (rule camera.run_keeps)
  then have "es_IngestID x = i" using assms(4) by (auto simp: camera_of_def egress_ingest_of_def)
  then have "barred a ?S1" using CloseIngest_bars [OF x, of ?S1] by simp
  then have "barred a S" unfolding assms(2) by (rule barred.run_keeps)
  then show False using assms(3) by (force simp: barred_def)
qed


text \<open>Two requests, one under way when the camera is closed, and the second attached after it.\<close>

definition example_relay :: "nat Relay" where
  "example_relay = [''a'' \<mapsto> Stream_new\<lparr>s_tracks := [KindVideo \<mapsto> 5]\<rparr>]"

definition viewer_events :: "nat \<Rightarrow> string \<Rightarrow> (Config \<times> nat Relay \<times> subscribe_event) list" where
  "viewer_events t resource = map (\<lambda>e. (one_camera, example_relay, e))
     [SResolve t viewer_key, SReserve t t, SSubscribe t 0 0, SOpen t, SMint t resource]"

definition late_events :: "(Config \<times> nat Relay \<times> subscribe_event) list" where
  "late_events = (one_camera, example_relay, SAttach 1) # viewer_events 2 ''s'' @ [(one_camera, example_relay, SAttach 2)]"

lemmas viewer_defs = viewer_events_def late_events_def subscribing_run_def subscribing_start_def egress_NewServer_def
  subscribing_step_def one_camera_resolves go_sub_def egress_reserve_def maxSubscribers_def maxSubscribersPerIngest_def set_server_def
  egress_ingest_of_def example_ingest_def Relay_Subscribe_def example_relay_def stream_tracks_def Stream_new_def
  Stream_askKeyframe_def List.map_filter_simps open_peer_def egress_prepare_def egress_attach_def
  egress_CloseIngest_def close_peer_def Let_def

theorem closed_camera_stays_closed_witness:
  "\<exists>S0 S. S0 = subscribing_run (viewer_events 1 ''r'') \<and>
     S = foldl subscribing_step (S0\<lparr>ey_w := egress_CloseIngest (ey_w S0) ''a''\<rparr>) late_events \<and>
     eg_sessions (sb_srv (ey_w S)) = [(''s'', 2)] \<and> eg_heap (sb_srv (ey_w S0)) 2 = None"
proof -
  define S0 where "S0 = subscribing_run (viewer_events 1 ''r'')"
  define S where "S = foldl subscribing_step (S0\<lparr>ey_w := egress_CloseIngest (ey_w S0) ''a''\<rparr>) late_events"
  have S: "eg_sessions (esrv S) = [(''s'', 2)]" "egress_ingest_of (esrv S) 2 = ''a''"
    unfolding S_def S0_def by (simp_all add: viewer_defs)
  have "eg_heap (esrv S0) 2 = None"
    using closed_camera_stays_closed [OF S0_def S_def, of "''s''" 2] S by simp
  then show ?thesis using S S0_def S_def by blast
qed


text \<open>
  A viewer's request that has resolved its key but not reserved a place is not stopped by \<^verbatim>\<open>CloseIngest\<close>: it reserves, negotiates
  and attaches afterwards, although the key it came with resolves to nothing any more.
\<close>

theorem resolved_request_can_watch:
  fixes S0 :: "nat subscribing"
  assumes "S0 = subscribing_run [(one_camera, example_relay, SResolve 1 viewer_key)]"
    and "S = foldl subscribing_step (S0\<lparr>ey_w := egress_CloseIngest (ey_w S0) ''a''\<rparr>)
      (map (\<lambda>e. (Config_default, example_relay, e)) [SReserve 1 1, SSubscribe 1 0 0, SOpen 1, SMint 1 ''r'', SAttach 1])"
  shows "Config_Resolve Config_default viewer_key = (None, RoleNone) \<and>
    eg_sessions (sb_srv (ey_w S)) = [(''r'', 1)] \<and> egress_ingest_of (sb_srv (ey_w S)) 1 = ''a''"
proof -
  have "Config_Resolve Config_default viewer_key = (None, RoleNone)" by (simp add: Config_Resolve_def Config_default_def)
  moreover have "eg_sessions (esrv S) = [(''r'', 1)]" "egress_ingest_of (esrv S) 1 = ''a''"
    unfolding assms by (simp_all add: viewer_defs)
  ultimately show ?thesis by blast
qed

section \<open>One request\<close>

lemma release_fresh: "a \<notin> fst ` set al \<Longrightarrow> AList.delete a (AList.update a v al) = al"
  by (simp add: update_fresh AList.delete_eq filter_id_conv) force

lemma reserve_release:
  assumes "egress_reserve s i a = (s', Some b)" "a \<notin> fst ` set (eg_pending s)"
    and "eg_pending s'' = eg_pending s'"
  shows "b = a" "eg_pending (releaseReservation s'' b) = eg_pending s"
  using reserve_fields [OF assms(1,2)] assms(2,3) by (force simp: releaseReservation_def AList.delete_eq filter_id_conv)+

text \<open>What a negotiation with a live reservation does, in both outcomes.\<close>

lemma negotiate_outcome:
  assumes "egress_negotiate w tracks a env = (w', res)" "map_of (eg_pending (sb_srv w)) a = Some True"
    and "\<And>p. se_newPeer env = Some p \<Longrightarrow> sb_peers w p = None"
  shows "eg_pending (sb_srv w') = eg_pending (sb_srv w) \<and>
    (case res of
       Inl err \<Rightarrow> eg_sessions (sb_srv w') = eg_sessions (sb_srv w) \<and> sb_peers w' = sb_peers w
     | Inr (answer, resource) \<Rightarrow>
         (\<exists>p. se_newPeer env = Some p \<and> se_answer env = Some answer \<and> newKey [] (se_random env) = Inr resource \<and>
            eg_sessions (sb_srv w') = AList.update resource a (eg_sessions (sb_srv w)) \<and> sb_peers w' = (sb_peers w)(p \<mapsto> tracks) \<and>
            eg_heap (sb_srv w') = eg_heap (egress_prepare (sb_srv w) a resource p)))"
proof (cases "se_newPeer env")
  case None
  then show ?thesis using assms(1) by (auto simp: egress_negotiate_def)
next
  case (Some p)
  have peers: "sb_peers (close_peer (open_peer w p ts) (Some p)) = sb_peers w" for ts
    using assms(3) [OF Some] by (simp add: open_peer_def close_peer_def fun_upd_idem)
  show ?thesis
  proof (cases "list_all (se_addTrack env) tracks")
    case False
    then show ?thesis using assms(1) peers by (auto simp: egress_negotiate_def Some Let_def)
  next
    case True
    then have all: "takeWhile (se_addTrack env) tracks = tracks" by (simp add: list_all_iff)
    show ?thesis
      using assms(1) peers assms(2)
      by (auto simp: egress_negotiate_def Some Let_def all True egress_attach_def egress_prepare_def set_server_def open_peer_def
          split: option.splits sum.splits if_splits)
  qed
qed

lemma subscribe_cases:
  assumes "egress_Subscribe parse cfg relay w key offer env = (relay', w', res)"
  obtains (refused) err where "w' = w" "res = Inl err"
  | (reserved) ing s a w1 where "Config_Resolve cfg key = (Some ing, RoleReceiver)" "Direction parse offer ''recvonly'' = Some True"
      "egress_reserve (sb_srv w) (i_ID ing) (se_address env) = (s, Some a)"
      "egress_reserved relay (set_server w s) ing a env = (relay', w1, res)"
      "w' = set_server w1 (releaseReservation (sb_srv w1) a)"
proof (cases "\<exists>ing s a. Config_Resolve cfg key = (Some ing, RoleReceiver) \<and> Direction parse offer ''recvonly'' = Some True \<and>
    egress_reserve (sb_srv w) (i_ID ing) (se_address env) = (s, Some a)")
  case True
  then obtain ing s a where *: "Config_Resolve cfg key = (Some ing, RoleReceiver)" "Direction parse offer ''recvonly'' = Some True"
    "egress_reserve (sb_srv w) (i_ID ing) (se_address env) = (s, Some a)" by blast
  then show thesis
    using assms reserved [OF *] by (cases "egress_reserved relay (set_server w s) ing a env") (simp add: egress_Subscribe_def)
next
  case False
  then have "w' = w \<and> (\<exists>err. res = Inl err)"
    using assms by (auto simp: egress_Subscribe_def split: prod.splits option.splits Role.splits if_splits)
  then show thesis using refused by blast
qed

text \<open>
  C32: One WHEP request, from the key to the answer.  If it is refused, for whatever
  reason, the tables and the open connections are what they were: no reservation and no peer
  connection is left behind.  If it is answered, the key is a receiver key of a camera that is
  publishing, and the new resource names a session of that camera whose connection carries exactly
  its tracks; the other sessions keep theirs.
\<close>

theorem subscribe_is_all_or_nothing:
  assumes "egress_Subscribe parse cfg relay w key offer env = (relay', w', res)"
    and "eg_heap (sb_srv w) (se_address env) = None" "se_address env \<notin> fst ` set (eg_pending (sb_srv w))"
    and "\<And>p. se_newPeer env = Some p \<Longrightarrow> sb_peers w p = None"
  shows "eg_pending (sb_srv w') = eg_pending (sb_srv w) \<and>
    (case res of
       Inl err \<Rightarrow> eg_sessions (sb_srv w') = eg_sessions (sb_srv w) \<and> sb_peers w' = sb_peers w
     | Inr (answer, resource) \<Rightarrow>
         (\<exists>ing stream p. Config_Resolve cfg key = (Some ing, RoleReceiver) \<and> relay (i_ID ing) = Some stream \<and> stream_tracks stream \<noteq> [] \<and>
            Direction parse offer ''recvonly'' = Some True \<and> se_newPeer env = Some p \<and> se_answer env = Some answer \<and>
            eg_sessions (sb_srv w') = AList.update resource (se_address env) (eg_sessions (sb_srv w)) \<and>
            eg_heap (sb_srv w') (se_address env) = Some \<lparr>es_Resource = resource, es_IngestID = i_ID ing, es_peer = Some p\<rparr> \<and>
            sb_peers w' = (sb_peers w)(p \<mapsto> stream_tracks stream)))"
  using assms(1)
proof (cases rule: subscribe_cases)
  case (refused err)
  then show ?thesis by simp
next
  case (reserved ing s a w1)
  note f = reserve_fields [OF reserved(3) assms(3)]
  have pend: "eg_pending (sb_srv w') = eg_pending (sb_srv w)" if "eg_pending (sb_srv w1) = eg_pending s"
    using reserve_release(2) [OF reserved(3) assms(3), of "sb_srv w1"] that reserved(5) by simp
  have same: "eg_sessions (sb_srv w') = eg_sessions (sb_srv w1)" "eg_heap (sb_srv w') = eg_heap (sb_srv w1)" "sb_peers w' = sb_peers w1"
    by (simp_all add: reserved(5) releaseReservation_def set_server_def)
  show ?thesis
  proof (cases "\<exists>stream. relay (i_ID ing) = Some stream \<and> stream_tracks stream \<noteq> []")
    case False
    then have "w1 = set_server w s" "\<exists>err. res = Inl err"
      using reserved(4) by (auto simp: egress_reserved_def Relay_Subscribe_def split: option.splits if_splits)
    then show ?thesis using pend same f by (auto simp: set_server_def)
  next
    case True
    then obtain stream where stream: "relay (i_ID ing) = Some stream" "stream_tracks stream \<noteq> []" by blast
    then have "egress_negotiate (set_server w s) (stream_tracks stream) a env = (w1, res)"
      using reserved(4) by (auto simp: egress_reserved_def Relay_Subscribe_def split: prod.splits)
    moreover have "map_of (eg_pending s) a = Some True" using assms(3) f(1,5) by (simp add: map_add_def map_of_eq_None_iff [THEN iffD2] split: option.split)
    ultimately have out: "eg_pending (sb_srv w1) = eg_pending s \<and>
      (case res of
         Inl err \<Rightarrow> eg_sessions (sb_srv w1) = eg_sessions s \<and> sb_peers w1 = sb_peers w
       | Inr (answer, resource) \<Rightarrow>
           (\<exists>p. se_newPeer env = Some p \<and> se_answer env = Some answer \<and> newKey [] (se_random env) = Inr resource \<and>
              eg_sessions (sb_srv w1) = AList.update resource a (eg_sessions s) \<and> sb_peers w1 = (sb_peers w)(p \<mapsto> stream_tracks stream) \<and>
              eg_heap (sb_srv w1) = eg_heap (egress_prepare s a resource p)))"
      using negotiate_outcome [of "set_server w s" "stream_tracks stream" a env w1 res] assms(4) by (cases res) (auto simp: set_server_def)
    then show ?thesis
      using pend same f reserved(1,2) stream
      by (cases res) (auto simp: egress_prepare_def)
  qed
qed


definition viewer_env :: "nat subscribe_env" where
  "viewer_env = \<lparr>se_address = 3, se_since = 0, se_stamp = 0, se_newPeer = Some 9, se_addTrack = (\<lambda>_. True), se_answer = Some ''v=0'',
     se_random = Some [255]\<rparr>"

theorem subscribe_is_all_or_nothing_witness:
  "\<exists>relay w. egress_Subscribe (\<lambda>_. Some [[''recvonly'']]) one_camera example_relay (ey_w subscribing_start) viewer_key ''o'' viewer_env =
     (relay, w, Inr (''v=0'', ''ff'')) \<and> eg_pending (sb_srv w) = [] \<and> eg_sessions (sb_srv w) = [(''ff'', 3)] \<and> sb_peers w 9 = Some [5]"
proof -
  have key: "newKey [] (Some [255]) = Inr ''ff''" by code_simp
  have dir: "Direction (\<lambda>_. Some [[''recvonly'']]) ''o'' ''recvonly'' = Some True"
    by (simp add: Direction_def facing_def directions_def)
  have tracks: "stream_tracks (Stream_new\<lparr>s_tracks := [KindVideo \<mapsto> 5]\<rparr>) = [5 :: nat]" by (simp add: stream_tracks_def List.map_filter_simps)
  obtain relay w where run: "egress_Subscribe (\<lambda>_. Some [[''recvonly'']]) one_camera example_relay (ey_w subscribing_start) viewer_key ''o'' viewer_env =
      (relay, w, Inr (''v=0'', ''ff''))"
    using key by (simp add: egress_Subscribe_def dir one_camera_resolves egress_reserved_def viewer_env_def egress_negotiate_def viewer_defs releaseReservation_def)
  have "eg_heap (sb_srv (ey_w (subscribing_start :: nat subscribing))) 3 = None" "eg_sessions (sb_srv (ey_w (subscribing_start :: nat subscribing))) = []"
    "eg_pending (sb_srv (ey_w (subscribing_start :: nat subscribing))) = []" "sb_peers (ey_w (subscribing_start :: nat subscribing)) = (\<lambda>_. None)"
    by (simp_all add: subscribing_start_def egress_NewServer_def)
  with subscribe_is_all_or_nothing [OF run] show ?thesis
    using run by (auto simp: viewer_env_def one_camera_resolves example_ingest_def example_relay_def tracks)
qed

section \<open>Failed connections\<close>

text \<open>A connection that is open while no session and no request refers to it.\<close>

definition stranded :: "nat \<Rightarrow> 't list \<Rightarrow> 't subscribing \<Rightarrow> bool" where
  "stranded a tracks S \<longleftrightarrow> subscribing_inv S \<and> barred a S \<and> sb_peers (ey_w S) a = Some tracks \<and> (\<forall>t. sub_at (ey_neg S) t \<noteq> Some a)"

lemma close_peers_other:
  "(\<And>r b. (r, b) \<in> set xs \<Longrightarrow> f b \<noteq> Some a) \<Longrightarrow> sb_peers (foldl (\<lambda>w (_, b). close_peer w (f b)) w xs) a = sb_peers w a"
proof (induction xs arbitrary: w)
  case (Cons x xs)
  then show ?case by (cases x) (force simp: close_peer_def split: option.split)
qed simp

lemma session_peer: "lists_ok s \<Longrightarrow> (r, b) \<in> set (eg_sessions s) \<Longrightarrow> egress_peer_of s b = Some b"
  unfolding lists_ok_def by force

lemma stranded_peers:
  assumes "stranded a tracks S"
  shows "sb_peers (ey_w (subscribe_step cfg relay S e)) a = Some tracks"
proof -
  have inv: "lists_ok (esrv S)" using assms by (simp add: stranded_def subscribing_inv_def)
  have peers: "sb_peers (ey_w S) a = Some tracks" using assms by (simp add: stranded_def)
  have not: "b \<noteq> a" if "(r, b) \<in> set (eg_sessions (esrv S))" for r b
    using assms that by (force simp: stranded_def barred_def)
  then have fst: "egress_peer_of (esrv S) b \<noteq> Some a" if "(r, b) \<in> set (eg_sessions (esrv S))" for r b
    using session_peer [OF inv that] that by auto
  have req: "ey_neg S t = Some ph \<Longrightarrow> sub_address ph \<noteq> Some a" for t ph
    using assms unfolding stranded_def by (metis sub_at_def bind.bind_lunit)
  show ?thesis
  proof (cases e)
    case (SCloseIngest i)
    have "sb_peers (egress_CloseIngest (ey_w S) i) a = sb_peers (ey_w S) a"
      unfolding egress_CloseIngest_def Let_def by (subst close_peers_other) (use fst in \<open>auto simp: set_server_def\<close>)
    then show ?thesis using peers by (simp add: SCloseIngest)
  next
    case SShutdown
    have "sb_peers (egress_Close (ey_w S)) a = sb_peers (ey_w S) a"
      unfolding egress_Close_def Let_def by (subst close_peers_other) (use fst in \<open>auto simp: set_server_def\<close>)
    then show ?thesis using peers by (simp add: SShutdown)
  next
    case (STeardown r ok)
    have "sb_peers (fst (egress_Teardown (ey_w S) r ok)) a = sb_peers (ey_w S) a"
      using fst by (auto simp: egress_Teardown_def Let_def set_server_def close_peer_def split: option.split dest!: map_of_SomeD)
    then show ?thesis using peers by (simp add: STeardown)
  next
    case (SReserve t b)
    then show ?thesis using peers by (auto simp: go_sub_def set_server_def split: option.split sub_phase.split prod.split)
  next
    case (SResolve t key)
    then show ?thesis using peers by (auto simp: go_sub_def split: option.split prod.split Role.split)
  next
    case (SSubscribe t since stamp)
    then show ?thesis using peers by (auto simp: go_sub_def split: option.split sub_phase.split prod.split sum.split)
  next
    case (SOpen t)
    then show ?thesis using peers req [of t] by (auto simp: go_sub_def open_peer_def split: option.split sub_phase.split)
  next
    case (SAttach t)
    then show ?thesis using peers req [of t] by (auto simp: go_sub_def close_peer_def set_server_def split: option.split sub_phase.split)
  next
    case (SFail t)
    then show ?thesis using peers req [of t] by (auto simp: go_sub_def close_peer_def split: option.split sub_phase.split)
  qed (use peers in \<open>auto simp: go_sub_def set_server_def split: option.split sub_phase.split\<close>)
qed

lemma stranded_requests:
  assumes "stranded a tracks S"
  shows "sub_at (ey_neg (subscribe_step cfg relay S e)) t \<noteq> Some a"
proof -
  have none: "\<forall>t. sub_at (ey_neg S) t \<noteq> Some a" and heap: "eg_heap (esrv S) a \<noteq> None"
    using assms by (simp_all add: stranded_def barred_def)
  then have req: "ey_neg S u = Some ph \<Longrightarrow> sub_address ph \<noteq> Some a" for u ph by (metis sub_at_def bind.bind_lunit)
  show ?thesis
  proof (cases e)
    case (SReserve u b)
    then show ?thesis using none heap
      by (auto simp: go_sub_def sub_at_upd egress_reserve_def Let_def split: option.splits sub_phase.splits prod.splits if_splits)
  next
    case (SResolve u key)
    then show ?thesis using none by (auto simp: go_sub_def sub_at_upd split: option.split prod.split Role.split)
  next
    case (SSubscribe u since stamp)
    then show ?thesis using none req [of u] by (auto simp: go_sub_def sub_at_upd split: option.split sub_phase.split prod.split sum.split)
  next
    case (SOpen u)
    then show ?thesis using none req [of u] by (auto simp: go_sub_def sub_at_upd split: option.split sub_phase.split)
  next
    case (SMint u r)
    then show ?thesis using none req [of u] by (auto simp: go_sub_def sub_at_upd split: option.split sub_phase.split)
  next
    case (SAttach u)
    then show ?thesis using none req [of u] by (auto simp: go_sub_def sub_at_upd split: option.split sub_phase.split)
  next
    case (SFail u)
    then show ?thesis using none req [of u] by (auto simp: go_sub_def sub_at_upd split: option.split sub_phase.split)
  next
    case (SRelease u)
    then show ?thesis using none by (auto simp: go_sub_def sub_at_upd split: option.split sub_phase.split)
  qed (use none in simp_all)
qed

lemma stranded_step: "stranded a tracks S \<Longrightarrow> stranded a tracks (subscribe_step cfg relay S e)"
  using stranded_peers [of a tracks S cfg relay e] stranded_requests [of a tracks S cfg relay e] subscribe_step_inv [of S cfg relay e]
    barred_step [of a S cfg relay e] by (simp add: stranded_def)

interpretation stranded: kept_invariant subscribing_step "stranded a tracks" for a tracks
  by unfold_locales (simp add: subscribing_step_def stranded_step split: prod.split)

text \<open>
  C33: When the connection of an attached subscriber fails, \<^verbatim>\<open>forget\<close> takes its session
  out of the table and nothing closes the connection: it stays open with its tracks whatever happens
  afterwards, \<^verbatim>\<open>CloseIngest\<close>, \<^verbatim>\<open>Teardown\<close> and the shutdown of the server included.
\<close>

theorem failed_connection_is_never_closed:
  assumes "S0 = subscribing_run es0" "(resource, a) \<in> set (eg_sessions (sb_srv (ey_w S0)))" "sb_peers (ey_w S0) a = Some tracks"
    and "a \<notin> ran (sub_at (ey_neg S0))"
    and "S = foldl subscribing_step (S0\<lparr>ey_w := set_server (ey_w S0) (egress_forget (sb_srv (ey_w S0)) resource)\<rparr>) es"
  shows "sb_peers (ey_w S) a = Some tracks"
proof -
  let ?S1 = "S0\<lparr>ey_w := set_server (ey_w S0) (egress_forget (sb_srv (ey_w S0)) resource)\<rparr>"
  have inv: "subscribing_inv S0" using subscribing_run_inv assms(1) by simp
  then have inv1: "subscribing_inv ?S1" by (intro shrinks_inv) (simp_all add: forget_shrinks)
  have lists: "lists_ok (esrv S0)" and reqs: "requests_ok (esrv S0) (ey_neg S0)" using inv by (simp_all add: subscribing_inv_def)
  have "eg_heap (esrv S0) a \<noteq> None" using lists assms(2) by (force simp: lists_ok_def egress_held_def)
  moreover have "a \<notin> fst ` set (eg_pending (esrv S0))" using reqs assms(4) by (auto simp: requests_ok_def ran_def)
  moreover have "a \<notin> snd ` set (AList.delete resource (eg_sessions (esrv S0)))"
    using lists assms(2) by (auto simp: lists_ok_def AList.delete_eq distinct_map inj_on_def) (metis fst_conv snd_conv)
  ultimately have "barred a ?S1" by (force simp: barred_def egress_forget_def set_server_def)
  then have "stranded a tracks ?S1" using inv1 assms(3,4) by (auto simp: stranded_def set_server_def ran_def)
  then have "stranded a tracks S" unfolding assms(5) by (rule stranded.run_keeps)
  then show ?thesis by (simp add: stranded_def)
qed

theorem failed_connection_is_never_closed_witness:
  "\<exists>S0 S. S0 = subscribing_run (viewer_events 2 ''s'' @ map (\<lambda>e. (one_camera, example_relay, e)) [SAttach 2, SRelease 2]) \<and>
     S = foldl subscribing_step (S0\<lparr>ey_w := set_server (ey_w S0) (egress_forget (sb_srv (ey_w S0)) ''s'')\<rparr>)
       [(one_camera, example_relay, SCloseIngest ''a''), (one_camera, example_relay, SShutdown)] \<and>
     sb_peers (ey_w S) 2 = Some [5]"
proof -
  define S0 where "S0 = subscribing_run (viewer_events 2 ''s'' @ map (\<lambda>e. (one_camera, example_relay, e)) [SAttach 2, SRelease 2])"
  define S where "S = foldl subscribing_step (S0\<lparr>ey_w := set_server (ey_w S0) (egress_forget (sb_srv (ey_w S0)) ''s'')\<rparr>)
       [(one_camera, example_relay, SCloseIngest ''a''), (one_camera, example_relay, SShutdown)]"
  have "eg_sessions (esrv S0) = [(''s'', 2)]" "sb_peers (ey_w S0) 2 = Some [5]" "ey_neg S0 = (\<lambda>_. None)"
    unfolding S0_def by (simp_all add: viewer_defs releaseReservation_def fun_eq_iff)
  then have "sb_peers (ey_w S) 2 = Some [5]"
    using failed_connection_is_never_closed [OF S0_def _ _ _ S_def, of 2 "[5]"] by (simp add: sub_at_def ran_def)
  then show ?thesis using S0_def S_def by blast
qed

end
