(* ===== verification/Live_Media.thy ===== *)
theory Live_Media
  imports Ingest_Interleaving Egress_Interleaving
begin

text \<open>
  Publishers and subscribers together, as \<^verbatim>\<open>cmd/wagastrim/main.go\<close> connects them: both servers share one
  relay, and \<^verbatim>\<open>stopSession\<close> of the ingest side tells the egress side to disconnect the camera's
  subscribers after it has dropped the camera's media.  The two interleaved systems are composed:
  every step is a step of one of them, or the disconnect that a stopped publisher asked for, which
  may come arbitrarily late.  \<open>lv_done\<close> is the number of disconnects carried out.
\<close>

section \<open>Steps\<close>

record live =
  lv_in :: system
  lv_out :: "track subscribing"
  lv_done :: nat

datatype live_event = Publishing event | Subscribing subscribe_event | Disconnect

abbreviation lv_relay :: "live \<Rightarrow> track Relay" where
  "lv_relay L \<equiv> w_relay (sys_w (lv_in L))"

abbreviation lv_stopped :: "live \<Rightarrow> string list" where
  "lv_stopped L \<equiv> w_stopped (sys_w (lv_in L))"

text \<open>The relay's side of \<^verbatim>\<open>relay.Subscribe\<close>: the throttle of keyframe requests.\<close>

definition subscribe_relay :: "track Relay \<Rightarrow> track subscribing \<Rightarrow> subscribe_event \<Rightarrow> track Relay" where
  "subscribe_relay relay S e =
     (case e of
        SSubscribe t since stamp \<Rightarrow>
          (case ey_neg S t of
             Some (SubReserved a) \<Rightarrow>
               fst (Relay_Subscribe relay (egress_ingest_of (sb_srv (ey_w S)) a) since stamp
                    :: track Relay \<times> (unit relay_error + track list) \<times> nat option)
           | _ \<Rightarrow> relay)
      | _ \<Rightarrow> relay)"

fun live_step :: "live \<Rightarrow> live_event \<Rightarrow> live" where
  "live_step L (Publishing e) = (case ingest_step (lv_in L) e of None \<Rightarrow> L | Some S \<Rightarrow> L\<lparr>lv_in := S\<rparr>)"
| "live_step L (Subscribing e) =
     L\<lparr>lv_in := (lv_in L)\<lparr>sys_w := (sys_w (lv_in L))\<lparr>w_relay := subscribe_relay (lv_relay L) (lv_out L) e\<rparr>\<rparr>,
       lv_out := subscribe_step (sys_cfg (lv_in L)) (lv_relay L) (lv_out L) e\<rparr>"
| "live_step L Disconnect =
     (if lv_done L < length (lv_stopped L)
      then L\<lparr>lv_out := (lv_out L)\<lparr>ey_w := egress_CloseIngest (ey_w (lv_out L)) (lv_stopped L ! lv_done L)\<rparr>,
             lv_done := Suc (lv_done L)\<rparr>
      else L)"

definition live_start :: "Config \<Rightarrow> live" where
  "live_start cfg = \<lparr>lv_in = ingest_start cfg, lv_out = subscribing_start, lv_done = 0\<rparr>"

section \<open>What subscribers hold\<close>

definition tracks_of :: "'t Relay \<Rightarrow> string \<Rightarrow> RTPCodecType \<Rightarrow> 't option" where
  "tracks_of relay i = (case relay i of None \<Rightarrow> (\<lambda>_. None) | Some stream \<Rightarrow> s_tracks stream)"

text \<open>A session watches tracks when it is attached with them, or can still attach with them.\<close>

definition watches :: "'t subscribing \<Rightarrow> nat \<Rightarrow> 't list \<Rightarrow> bool" where
  "watches S a tracks \<longleftrightarrow>
     a \<in> snd ` set (eg_sessions (esrv S)) \<and> sb_peers (ey_w S) a = Some tracks \<or>
     (a, True) \<in> set (eg_pending (esrv S)) \<and>
       (\<exists>t. ey_neg S t = Some (SubTracks a tracks) \<or>
          sb_peers (ey_w S) a = Some tracks \<and> (ey_neg S t = Some (SubPeer a) \<or> (\<exists>r. ey_neg S t = Some (SubReady a r))))"

definition follow_inv :: "live \<Rightarrow> bool" where
  "follow_inv L \<longleftrightarrow> system_inv (lv_in L) \<and> subscribing_inv (lv_out L) \<and> lv_done L \<le> length (lv_stopped L) \<and>
     (\<forall>i k track. tracks_of (lv_relay L) i k = Some track \<longrightarrow> snd track = k) \<and>
     (\<forall>a tracks track. watches (lv_out L) a tracks \<and> track \<in> set tracks \<longrightarrow>
        track \<in> ran (tracks_of (lv_relay L) (egress_ingest_of (esrv (lv_out L)) a)) \<or>
        egress_ingest_of (esrv (lv_out L)) a \<in> set (drop (lv_done L) (lv_stopped L)))"

section \<open>Publishers\<close>

text \<open>A track leaves the relay only with a request to disconnect its camera.\<close>

lemma drain_tracks_of:
  "tracks_of (w_relay (fst (drain_start (\<lambda>_ _ _. Inr (b, kind)) cfg w b i kind c mime rate addr now))) =
     (if currentLocked (w_srv w) b then (tracks_of (w_relay w))(i := (tracks_of (w_relay w) i)(kind \<mapsto> (b, kind))) else tracks_of (w_relay w))"
  by (rule ext) (auto simp: tracks_of_def drain_start_def Relay_Publish_def Relay_ConfigureDelay_def Relay_Track_def map_buffers_def
      Stream_new_def Let_def split: option.split)

lemma drain_stopped: "w_stopped (fst (drain_start newTrack cfg w b i kind c mime rate addr now)) = w_stopped w"
  by (simp add: drain_start_def Let_def split: prod.split sum.split)

lemma relay_ok_tracks:
  "relay_ok s r \<longleftrightarrow> (\<forall>i k a k'. tracks_of r i k = Some (a, k') \<longrightarrow>
     (\<exists>x. sv_heap s a = Some x \<and> ss_IngestID x = i \<and> ss_once x \<in> {NotRun, Began True}))"
proof -
  have "tracks_of r i k = Some tr \<longleftrightarrow> (\<exists>st. r i = Some st \<and> s_tracks st k = Some tr)" for i k tr
    by (simp add: tracks_of_def split: option.split)
  then show ?thesis unfolding relay_ok_def by (simp only:) blast
qed

text \<open>A camera has one session that is not stopped, so a new track replaces a track of its own session.\<close>

lemma same_session:
  assumes "tables_ok s" "currentLocked s b" "sv_heap s b = Some x" "sv_heap s a = Some y" "ss_IngestID y = ss_IngestID x" "ss_once y \<noteq> Ran"
  shows "a = b"
proof -
  have b: "sv_sessions s (ss_Resource x) = Some b" using assms(2,3) by (simp add: currentLocked_def)
  have a: "sv_sessions s (ss_Resource y) = Some a" using tables_heap [OF assms(1,4,6)] .
  from tables_sessions [OF assms(1) b] have "sv_byIngest s (ss_IngestID x) = Some (ss_Resource x)" using assms(3) by auto
  moreover from tables_sessions [OF assms(1) a] have "sv_byIngest s (ss_IngestID y) = Some (ss_Resource y)" using assms(4) by auto
  ultimately show ?thesis using a b assms(5) by simp
qed

lemma drain_keeps:
  assumes "system_inv S" "sv_heap (srv S) b = Some x" "track \<in> ran (tracks_of (w_relay (sys_w S)) i)"
    and slots: "\<And>i k track. tracks_of (w_relay (sys_w S)) i k = Some track \<Longrightarrow> snd track = k"
  shows "track \<in> ran (tracks_of (w_relay (fst (drain_start (\<lambda>_ _ _. Inr (b, kind)) cfg (sys_w S) b (ss_IngestID x) kind c mime rate addr now))) i)"
proof -
  note inv = system_invD [OF assms(1)]
  obtain k where k: "tracks_of (w_relay (sys_w S)) i k = Some track" using assms(3) by (auto simp: ran_def)
  obtain a where track: "track = (a, k)" using slots [OF k] by (cases track) auto
  show ?thesis
  proof (cases "currentLocked (srv S) b \<and> i = ss_IngestID x \<and> k = kind")
    case True
    obtain y where "sv_heap (srv S) a = Some y" "ss_IngestID y = i" "ss_once y \<in> {NotRun, Began True}"
      using inv(4) k track unfolding relay_ok_tracks by blast
    then have "a = b" using True same_session [OF inv(1) _ assms(2), of a y] by auto
    then show ?thesis using True track by (auto simp: drain_tracks_of srv_def ran_def)
  next
    case False
    then show ?thesis using k by (auto simp: drain_tracks_of srv_def ran_def)
  qed
qed

lemma cleanup_effect:
  assumes "stops_ok (w_srv w)"
  shows "w_relay (stop_cleanup w a clk) = w_relay w \<and> w_stopped (stop_cleanup w a clk) = w_stopped w \<or>
    (\<exists>i. w_relay (stop_cleanup w a clk) = Relay_Drop (w_relay w) i \<and> w_stopped (stop_cleanup w a clk) = w_stopped w @ [i])"
  using assms by (auto simp: stop_cleanup_def stops_ok_def Let_def split: option.split once.split)

text \<open>What a publishing step does to the media: nothing, a new track, or the end of a camera.\<close>

lemma publishing_effect:
  assumes "ingest_step S e = Some S'" "system_inv S"
    and "\<And>i k track. tracks_of (w_relay (sys_w S)) i k = Some track \<Longrightarrow> snd track = k"
  shows "\<exists>new. w_stopped (sys_w S') = w_stopped (sys_w S) @ new \<and>
    (\<forall>i track. track \<in> ran (tracks_of (w_relay (sys_w S)) i) \<longrightarrow> track \<in> ran (tracks_of (w_relay (sys_w S')) i) \<or> i \<in> set new) \<and>
    (\<forall>i k track. tracks_of (w_relay (sys_w S')) i k = Some track \<longrightarrow> snd track = k)"
proof (cases "w_relay (sys_w S') = w_relay (sys_w S) \<and> w_stopped (sys_w S') = w_stopped (sys_w S)")
  case True
  then show ?thesis using assms(3) by auto
next
  case False
  show ?thesis
  proof (cases e)
    case (EStopCleanup a clk)
    have ok: "stops_ok (w_srv (sys_w S))" using system_invD [OF assms(2)] by (simp add: srv_def)
    obtain i where "w_relay (sys_w S') = Relay_Drop (w_relay (sys_w S)) i" "w_stopped (sys_w S') = w_stopped (sys_w S) @ [i]"
      using cleanup_effect [OF ok, of a clk] False assms(1) EStopCleanup by auto
    then show ?thesis using assms(3) by (intro exI [of _ "[i]"]) (auto simp: tracks_of_def Relay_Drop_def)
  next
    case (EDrain a kind mime rate addr now)
    then obtain x where x: "sv_heap (srv S) a = Some x" using assms(1) by (auto split: option.splits)
    with EDrain assms(1) have S': "S' = S\<lparr>sys_w := fst (drain_start (\<lambda>(_::unit) _ _. Inr (a, kind) :: unit + track) (sys_cfg S) (sys_w S) a
        (ss_IngestID x) kind () mime rate addr now)\<rparr>" by simp
    show ?thesis
      unfolding S' using drain_keeps [OF assms(2) x _ assms(3)] assms(3)
      by (intro exI [of _ "[]"]) (auto simp: drain_stopped drain_tracks_of split: if_splits)
  qed (use False assms(1) in \<open>auto simp: set_srv_def set_neg_def end_neg_def split: option.splits prod.splits phase.splits if_splits Role.splits\<close>)
qed


section \<open>Subscribers\<close>

lemma subscribe_relay_tracks: "tracks_of (subscribe_relay relay S e) = tracks_of relay"
proof
  fix i
  show "tracks_of (subscribe_relay relay S e) i = tracks_of relay i"
    by (auto simp: subscribe_relay_def tracks_of_def Relay_Subscribe_def Stream_askKeyframe_def Let_def
        split: subscribe_event.split option.split sub_phase.split if_split)
qed

lemma close_peers_sub:
  "sb_peers (foldl (\<lambda>w (_, b). close_peer w (f b)) w xs) a = Some ts \<Longrightarrow> sb_peers w a = Some ts"
proof (induction xs arbitrary: w)
  case (Cons x xs)
  from Cons.IH [of "close_peer w (f (snd x))"] Cons.prems show ?case
    by (cases x) (auto simp: close_peer_def split: option.splits if_splits)
qed simp

text \<open>Cancelling and disconnecting give nobody anything to watch.\<close>

lemma watches_shrinks:
  assumes "shrinks (esrv S) (sb_srv w)" "\<And>a ts. sb_peers w a = Some ts \<Longrightarrow> sb_peers (ey_w S) a = Some ts"
    and "watches (S\<lparr>ey_w := w\<rparr>) a ts"
  shows "watches S a ts"
proof -
  have "snd ` set (eg_sessions (sb_srv w)) \<subseteq> snd ` set (eg_sessions (esrv S))" by (rule image_mono [OF shrinks_sessions [OF assms(1)]])
  moreover have "(a, True) \<in> set (eg_pending (sb_srv w)) \<Longrightarrow> (a, True) \<in> set (eg_pending (esrv S))" using assms(1) by (simp add: shrinks_def)
  ultimately show ?thesis using assms(2,3) unfolding watches_def by (simp add: subset_iff) metis
qed

lemma shrinking_peers:
  "sb_peers (egress_CloseIngest w i) a = Some ts \<Longrightarrow> sb_peers w a = Some ts"
  "sb_peers (egress_Close w) a = Some ts \<Longrightarrow> sb_peers w a = Some ts"
  "sb_peers (fst (egress_Teardown w r ok)) a = Some ts \<Longrightarrow> sb_peers w a = Some ts"
proof -
  show "sb_peers (egress_CloseIngest w i) a = Some ts \<Longrightarrow> sb_peers w a = Some ts"
    unfolding egress_CloseIngest_def Let_def by (drule close_peers_sub) (simp add: set_server_def)
  show "sb_peers (egress_Close w) a = Some ts \<Longrightarrow> sb_peers w a = Some ts"
    unfolding egress_Close_def Let_def by (drule close_peers_sub) (simp add: set_server_def)
  show "sb_peers (fst (egress_Teardown w r ok)) a = Some ts \<Longrightarrow> sb_peers w a = Some ts"
    by (auto simp: egress_Teardown_def Let_def set_server_def close_peer_def split: option.splits if_splits)
qed

text \<open>A step of the request \<open>t\<close> from one phase to the next.\<close>

lemma watches_go:
  assumes "watches (go_sub S t w ph) a ts"
    and "snd ` set (eg_sessions (sb_srv w)) \<subseteq> snd ` set (eg_sessions (esrv S))" "set (eg_pending (sb_srv w)) \<subseteq> set (eg_pending (esrv S))"
    and "\<And>ts. sb_peers w a = Some ts \<Longrightarrow> sb_peers (ey_w S) a = Some ts"
  shows "watches S a ts \<or> (a, True) \<in> set (eg_pending (esrv S)) \<and> (ph = Some (SubTracks a ts) \<or>
    sb_peers (ey_w S) a = Some ts \<and> (ph = Some (SubPeer a) \<or> (\<exists>r. ph = Some (SubReady a r))))"
proof -
  from assms(1) consider "a \<in> snd ` set (eg_sessions (sb_srv w))" "sb_peers w a = Some ts"
    | u where "(a, True) \<in> set (eg_pending (sb_srv w))" "((ey_neg S)(t := ph)) u = Some (SubTracks a ts)"
    | u where "(a, True) \<in> set (eg_pending (sb_srv w))" "sb_peers w a = Some ts"
        "((ey_neg S)(t := ph)) u = Some (SubPeer a) \<or> (\<exists>r. ((ey_neg S)(t := ph)) u = Some (SubReady a r))"
    unfolding watches_def go_sub_def by auto
  then show ?thesis
  proof cases
    case 1
    then show ?thesis using assms(2,4) unfolding watches_def by blast
  next
    case 2
    then show ?thesis using assms(3) unfolding watches_def by (cases "u = t") auto
  next
    case 3
    then show ?thesis using assms(3,4) unfolding watches_def by (cases "u = t") auto
  qed
qed

lemma watches_close:
  assumes "watches (go_sub S t (close_peer (ey_w S) (Some b)) (Some (SubDone b))) a ts"
  shows "watches S a ts"
proof -
  have "sb_peers (close_peer (ey_w S) (Some b)) a = Some x \<Longrightarrow> sb_peers (ey_w S) a = Some x" for x
    by (auto simp: close_peer_def split: if_splits)
  then show ?thesis using watches_go [OF assms] by auto
qed

lemma watches_step:
  fixes S :: "'t subscribing"
  assumes inv: "subscribing_inv S" and "watches (subscribe_step cfg relay S e) a ts"
  shows "watches S a ts \<or> (\<exists>stream. relay (egress_ingest_of (esrv S) a) = Some stream \<and> ts = stream_tracks stream \<and>
    esrv (subscribe_step cfg relay S e) = esrv S)"
proof (cases e)
  case (SCloseIngest i)
  then show ?thesis using assms(2) watches_shrinks [OF CloseIngest_shrinks, of S i] shrinking_peers(1) by simp blast
next
  case SShutdown
  then show ?thesis using assms(2) watches_shrinks [OF Close_shrinks, of S] shrinking_peers(2) by simp blast
next
  case (STeardown r ok)
  then show ?thesis using assms(2) watches_shrinks [OF Teardown_shrinks, of S r ok] shrinking_peers(3) by simp blast
next
  case (SForget r)
  then show ?thesis
    using assms(2) watches_shrinks [of S "set_server (ey_w S) (egress_forget (esrv S) r)" a ts] forget_shrinks
    by (simp add: set_server_def)
next
  case (SResolve t key)
  then show ?thesis using assms(2) by (auto simp: watches_def go_sub_def split: option.splits prod.splits Role.splits if_splits)
next
  case (SReserve t b)
  show ?thesis
  proof (cases "\<exists>i s c. ey_neg S t = Some (SubResolved i) \<and> eg_heap (esrv S) b = None \<and> egress_reserve (esrv S) i b = (s, Some c)")
    case True
    then obtain i s c where b: "ey_neg S t = Some (SubResolved i)" "eg_heap (esrv S) b = None" "egress_reserve (esrv S) i b = (s, Some c)" by blast
    have w: "watches (go_sub S t (set_server (ey_w S) s) (Some (SubReserved c))) a ts" using assms(2) b by (simp add: SReserve)
    have "a \<noteq> b"
    proof
      assume "a = b"
      then have "a \<notin> egress_held (esrv S)" using b(2) inv unfolding subscribing_inv_def lists_ok_def by blast
      moreover have "a \<notin> fst ` set (eg_pending (esrv S))" using calculation by (simp add: egress_held_def)
      then have "ey_neg S u = Some ph \<Longrightarrow> sub_address ph \<noteq> Some a" for u ph
        using inv requests_phase sub_phase_pending unfolding subscribing_inv_def by metis
      then have no: "ey_neg S u \<noteq> Some (SubTracks a x)" "ey_neg S u \<noteq> Some (SubPeer a)" "ey_neg S u \<noteq> Some (SubReady a r)" for u x r
        by (metis sub_address.simps)+
      ultimately show False
        using w reserve_shape [OF b(3)] by (auto simp: no watches_def go_sub_def set_server_def egress_held_def split: if_splits)
    qed
    then show ?thesis
      using w reserve_shape [OF b(3)] update_other [of a True b True "eg_pending (esrv S)"]
      by (auto simp: watches_def go_sub_def set_server_def split: if_splits)
  next
    case False
    then have "watches S a ts \<or> watches (go_sub S t (ey_w S) None) a ts"
      using assms(2) by (auto simp: SReserve split: option.splits sub_phase.splits prod.splits if_splits)
    then show ?thesis using watches_go [of S t "ey_w S" None a ts] by auto
  qed
next
  case (SSubscribe t since stamp)
  show ?thesis
  proof (cases "\<exists>b. ey_neg S t = Some (SubReserved b)")
    case True
    then obtain b where b: "ey_neg S t = Some (SubReserved b)" by blast
    then show ?thesis
      using assms(2) watches_go [of S t "ey_w S" _ a ts]
      by (auto simp: go_sub_def [of S t "ey_w S"] SSubscribe Relay_Subscribe_def split: option.splits if_splits prod.splits)
  next
    case False
    then show ?thesis using assms(2) by (auto simp: SSubscribe split: option.splits sub_phase.splits)
  qed
next
  case (SOpen t)
  show ?thesis
  proof (cases "\<exists>b ts'. ey_neg S t = Some (SubTracks b ts')")
    case True
    then obtain b ts' where b: "ey_neg S t = Some (SubTracks b ts')" by blast
    have "sub_phase_ok (esrv S) (SubTracks b ts')" using inv b requests_phase unfolding subscribing_inv_def by blast
    then have w: "watches (go_sub S t (open_peer (ey_w S) b ts') (Some (SubPeer b))) a ts" "b \<notin> snd ` set (eg_sessions (esrv S))"
      using assms(2) b SOpen by simp_all
    then show ?thesis
    proof (cases "a = b")
      case True
      then have "(a, True) \<in> set (eg_pending (esrv S))"  using w by (auto simp: watches_def go_sub_def)
      moreover have "ts = ts' \<or> (\<exists>u. ey_neg S u = Some (SubTracks a ts))"
        using w True by (auto simp: watches_def go_sub_def open_peer_def split: if_splits)
      ultimately show ?thesis using b True unfolding watches_def by auto
    next
      case False
      then show ?thesis using watches_go [OF w(1)] by (simp add: open_peer_def)
    qed
  next
    case False
    then show ?thesis using assms(2) by (auto simp: SOpen split: option.splits sub_phase.splits)
  qed
next
  case (SMint t r)
  show ?thesis
  proof (cases "\<exists>b. ey_neg S t = Some (SubPeer b)")
    case True
    then obtain b where b: "ey_neg S t = Some (SubPeer b)" by blast
    have "watches S a ts" if "(a, True) \<in> set (eg_pending (esrv S))" "sb_peers (ey_w S) a = Some ts" "a = b"
      using that b unfolding watches_def by blast
    then show ?thesis
      using assms(2) watches_go [of S t "set_server (ey_w S) (egress_prepare (esrv S) b r b)" "Some (SubReady b r)" a ts] b
      by (auto simp: SMint egress_prepare_def set_server_def)
  next
    case False
    then show ?thesis using assms(2) by (auto simp: SMint split: option.splits sub_phase.splits)
  qed
next
  case (SAttach t)
  show ?thesis
  proof (cases "\<exists>b r s. ey_neg S t = Some (SubReady b r) \<and> egress_attach (esrv S) b r = Some s")
    case True
    then obtain b r s where b: "ey_neg S t = Some (SubReady b r)" "egress_attach (esrv S) b r = Some s" by blast
    then have s: "(b, True) \<in> set (eg_pending (esrv S))" "s = (esrv S)\<lparr>eg_sessions := AList.update r b (eg_sessions (esrv S))\<rparr>"
      by (auto simp: egress_attach_def split: if_splits dest: map_of_SomeD)
    have w: "watches (go_sub S t (set_server (ey_w S) s) (Some (SubDone b))) a ts" using assms(2) b by (simp add: SAttach)
    show ?thesis
    proof (cases "a = b \<and> sb_peers (ey_w S) a = Some ts")
      case True
      then show ?thesis using b(1) s(1) unfolding watches_def by blast
    next
      case False
      then show ?thesis
        using w update_values [of r b "eg_sessions (esrv S)"]
        by (auto simp: watches_def go_sub_def set_server_def s(2) split: if_splits)
    qed
  next
    case False
    then have "watches S a ts \<or> (\<exists>b. watches (go_sub S t (close_peer (ey_w S) (Some b)) (Some (SubDone b))) a ts)"
      using assms(2) by (auto simp: SAttach split: option.splits sub_phase.splits)
    then show ?thesis using watches_close by blast
  qed
next
  case (SFail t)
  show ?thesis
    using assms(2) watches_go [of S t "ey_w S" "Some (SubDone b)" a ts for b] watches_go [of S t "ey_w S" None a ts]
      watches_close [of S t _ a ts]
    by (auto simp: SFail split: option.splits sub_phase.splits)
next
  case (SRelease t)
  show ?thesis
    using assms(2) watches_go [of S t "set_server (ey_w S) (releaseReservation (esrv S) b)" None a ts for b]
    by (auto simp: SRelease set_server_def releaseReservation_def AList.delete_eq split: option.splits sub_phase.splits)
qed


section \<open>Every step keeps subscribers on live media\<close>

lemma camera_kept:
  assumes "eg_heap (esrv S) a \<noteq> None"
  shows "egress_ingest_of (esrv (subscribe_step cfg relay S e)) a = egress_ingest_of (esrv S) a"
proof -
  from assms obtain i where i: "camera_of a i S" by (auto simp: camera_of_def)
  from camera_step [OF this, of cfg relay e] show ?thesis using i by (auto simp: camera_of_def egress_ingest_of_def)
qed

lemma watches_heap: "subscribing_inv S \<Longrightarrow> watches S a ts \<Longrightarrow> eg_heap (esrv S) a \<noteq> None"
proof -
  assume "subscribing_inv S" "watches S a ts"
  then have "a \<in> egress_held (esrv S)" by (force simp: watches_def egress_held_def)
  then show ?thesis using \<open>subscribing_inv S\<close> unfolding subscribing_inv_def lists_ok_def by blast
qed

lemma stream_tracks_in: "track \<in> set (stream_tracks stream) \<Longrightarrow> track \<in> ran (s_tracks stream)"
  by (auto simp: stream_tracks_def List.map_filter_def ran_def split: if_splits)

lemma watches_closed:
  assumes "watches (S\<lparr>ey_w := egress_CloseIngest (ey_w S) i\<rparr>) a ts"
  shows "egress_ingest_of (esrv S) a \<noteq> i"
  using assms by (auto simp: watches_def egress_CloseIngest_def Let_def split: if_splits)

lemma follow_watch:
  assumes "follow_inv L" "watches (lv_out L) a ts" "track \<in> set ts"
  shows "track \<in> ran (tracks_of (lv_relay L) (egress_ingest_of (esrv (lv_out L)) a)) \<or>
    egress_ingest_of (esrv (lv_out L)) a \<in> set (drop (lv_done L) (lv_stopped L))"
  using assms unfolding follow_inv_def by blast

lemma follow_invI:
  assumes "system_inv (lv_in L)" "subscribing_inv (lv_out L)" "lv_done L \<le> length (lv_stopped L)"
    and "\<And>i k track. tracks_of (lv_relay L) i k = Some track \<Longrightarrow> snd track = k"
    and "\<And>a tracks track. watches (lv_out L) a tracks \<Longrightarrow> track \<in> set tracks \<Longrightarrow>
        track \<in> ran (tracks_of (lv_relay L) (egress_ingest_of (esrv (lv_out L)) a)) \<or>
        egress_ingest_of (esrv (lv_out L)) a \<in> set (drop (lv_done L) (lv_stopped L))"
  shows "follow_inv L"
  using assms unfolding follow_inv_def by blast

lemma live_step_inv:
  assumes inv: "follow_inv L"
  shows "follow_inv (live_step L e)"
proof (cases e)
  case (Publishing ev)
  show ?thesis
  proof (cases "ingest_step (lv_in L) ev")
    case None
    then show ?thesis using inv by (simp add: Publishing)
  next
    case (Some S')
    have sys: "system_inv (lv_in L)" and slots: "\<And>i k track. tracks_of (lv_relay L) i k = Some track \<Longrightarrow> snd track = k"
      using inv unfolding follow_inv_def by blast+
    obtain new where new: "w_stopped (sys_w S') = lv_stopped L @ new"
      "\<And>i track. track \<in> ran (tracks_of (lv_relay L) i) \<Longrightarrow> track \<in> ran (tracks_of (w_relay (sys_w S')) i) \<or> i \<in> set new"
      "\<And>i k track. tracks_of (w_relay (sys_w S')) i k = Some track \<Longrightarrow> snd track = k"
      using publishing_effect [OF Some sys] slots by blast
    have "track \<in> ran (tracks_of (w_relay (sys_w S')) (egress_ingest_of (esrv (lv_out L)) a)) \<or>
        egress_ingest_of (esrv (lv_out L)) a \<in> set (drop (lv_done L) (lv_stopped L @ new))"
      if "watches (lv_out L) a ts" "track \<in> set ts" for a ts track
      using follow_watch [OF inv that] new(2) [of track "egress_ingest_of (esrv (lv_out L)) a"] inv [unfolded follow_inv_def, THEN conjunct2, THEN conjunct2, THEN conjunct1]
      by auto
    moreover have "lv_done L \<le> length (lv_stopped L)" "subscribing_inv (lv_out L)" using inv by (simp_all add: follow_inv_def)
    ultimately have "follow_inv (L\<lparr>lv_in := S'\<rparr>)"
      using step_system_inv [OF sys Some] new(1,3) by (intro follow_invI) simp_all
    then show ?thesis by (simp add: Publishing Some)
  qed
next
  case (Subscribing ev)
  let ?S = "subscribe_step (sys_cfg (lv_in L)) (lv_relay L) (lv_out L) ev"
  let ?i = "egress_ingest_of (esrv (lv_out L))"
  have sub: "subscribing_inv (lv_out L)" and sys: "system_inv (lv_in L)" using inv by (simp_all add: follow_inv_def)
  have "track \<in> ran (tracks_of (lv_relay L) (egress_ingest_of (esrv ?S) a)) \<or>
      egress_ingest_of (esrv ?S) a \<in> set (drop (lv_done L) (lv_stopped L))" if w: "watches ?S a ts" "track \<in> set ts" for a ts track
  proof (cases "watches (lv_out L) a ts")
    case True
    then show ?thesis using follow_watch [OF inv True w(2)] camera_kept [OF watches_heap [OF sub True]] by simp
  next
    case False
    then obtain stream where s: "lv_relay L (?i a) = Some stream" "ts = stream_tracks stream" "esrv ?S = esrv (lv_out L)"
      using watches_step [OF sub w(1)] by blast
    then show ?thesis using w(2) stream_tracks_in [of track stream] by (simp add: tracks_of_def)
  qed
  moreover have "system_inv ((lv_in L)\<lparr>sys_w := (sys_w (lv_in L))\<lparr>w_relay := subscribe_relay (lv_relay L) (lv_out L) ev\<rparr>\<rparr>)"
    using sys by (simp add: system_inv_def srv_def relay_ok_tracks subscribe_relay_tracks)
  moreover have "lv_done L \<le> length (lv_stopped L)" "\<And>i k track. tracks_of (lv_relay L) i k = Some track \<Longrightarrow> snd track = k"
    using inv unfolding follow_inv_def by blast+
  ultimately show ?thesis
    unfolding Subscribing using subscribe_step_inv [OF sub] by (intro follow_invI) (simp_all add: subscribe_relay_tracks)
next
  case Disconnect
  show ?thesis
  proof (cases "lv_done L < length (lv_stopped L)")
    case True
    let ?i = "lv_stopped L ! lv_done L"
    let ?S = "(lv_out L)\<lparr>ey_w := egress_CloseIngest (ey_w (lv_out L)) ?i\<rparr>"
    have shr: "shrinks (esrv (lv_out L)) (esrv ?S)" using CloseIngest_shrinks by simp
    have "subscribing_inv (lv_out L)" using inv by (simp add: follow_inv_def)
    then have sub: "subscribing_inv ?S" by (rule shrinks_inv [OF CloseIngest_shrinks])
    have drop: "drop (lv_done L) (lv_stopped L) = ?i # drop (Suc (lv_done L)) (lv_stopped L)" using True by (simp add: Cons_nth_drop_Suc)
    have "track \<in> ran (tracks_of (lv_relay L) (egress_ingest_of (esrv ?S) a)) \<or>
        egress_ingest_of (esrv ?S) a \<in> set (drop (Suc (lv_done L)) (lv_stopped L))" if w: "watches ?S a ts" "track \<in> set ts" for a ts track
    proof -
      have "watches (lv_out L) a ts" using watches_shrinks [OF CloseIngest_shrinks _ w(1)] shrinking_peers(1) by blast
      then show ?thesis
        using follow_watch [OF inv _ w(2)] watches_closed [OF w(1)] shrinks_heap [OF shr] unfolding drop by auto
    qed
    moreover have "system_inv (lv_in L)" "\<And>i k track. tracks_of (lv_relay L) i k = Some track \<Longrightarrow> snd track = k"
      using inv unfolding follow_inv_def by blast+
    ultimately show ?thesis unfolding Disconnect using sub True by (intro follow_invI) simp_all
  qed (use inv in \<open>simp add: Disconnect\<close>)
qed


interpretation live: kept_invariant live_step follow_inv
  by unfold_locales (rule live_step_inv)

lemma live_start_inv: "follow_inv (live_start cfg)"
  using reachable_system_inv [OF reachable.start [of cfg]] start_inv
  by (simp add: follow_inv_def live_start_def)
    (simp add: watches_def subscribing_start_def egress_NewServer_def ingest_start_def tracks_of_def Relay_New_def)

text \<open>
  C29: A subscriber never stays on the media of a publisher that is gone.  However
  publishers, subscribers and the disconnects between them interleave, once every disconnect that
  a stopped publisher asked for has been carried out, each track an attached subscriber's connection carries
  is a track the relay publishes for that subscriber's camera, and it comes from the session that has
  the camera and has not been stopped and cleaned up.
\<close>

theorem subscribers_follow_publisher:
  assumes "L = foldl live_step (live_start cfg) es" "lv_done L = length (w_stopped (sys_w (lv_in L)))"
    and "(resource, a) \<in> set (eg_sessions (sb_srv (ey_w (lv_out L))))" "sb_peers (ey_w (lv_out L)) a = Some tracks" "(b, kind) \<in> set tracks"
  shows "\<exists>stream x. w_relay (sys_w (lv_in L)) (egress_ingest_of (sb_srv (ey_w (lv_out L))) a) = Some stream \<and>
    s_tracks stream kind = Some (b, kind) \<and> sv_heap (srv (lv_in L)) b = Some x \<and>
    ss_IngestID x = egress_ingest_of (sb_srv (ey_w (lv_out L))) a \<and>
    sv_byIngest (srv (lv_in L)) (ss_IngestID x) = Some (ss_Resource x) \<and> ss_once x \<in> {NotRun, Began True}"
proof -
  have inv: "follow_inv L" unfolding assms(1) by (rule live.run_keeps [OF live_start_inv])
  let ?i = "egress_ingest_of (esrv (lv_out L)) a"
  have "watches (lv_out L) a tracks" using assms(3,4) by (force simp: watches_def)
  then have "(b, kind) \<in> ran (tracks_of (lv_relay L) ?i)" using follow_watch [OF inv _ assms(5)] assms(2) by auto
  then obtain k where k: "tracks_of (lv_relay L) ?i k = Some (b, kind)" by (auto simp: ran_def)
  have "snd (b, kind) = k" using inv k unfolding follow_inv_def by blast
  then have k: "tracks_of (lv_relay L) ?i kind = Some (b, kind)" using k by simp
  have sys: "system_inv (lv_in L)" using inv by (simp add: follow_inv_def)
  note sinv = system_invD [OF sys]
  obtain x where x: "sv_heap (srv (lv_in L)) b = Some x" "ss_IngestID x = ?i" "ss_once x \<in> {NotRun, Began True}"
    using sinv(4) k unfolding relay_ok_tracks by blast
  then have r: "sv_sessions (srv (lv_in L)) (ss_Resource x) = Some b" using tables_heap [OF sinv(1) x(1)] by auto
  from tables_sessions [OF sinv(1) r] have "sv_byIngest (srv (lv_in L)) (ss_IngestID x) = Some (ss_Resource x)" using x(1) by auto
  with x k show ?thesis by (auto simp: tracks_of_def split: option.splits)
qed

text \<open>A publisher of sound and a viewer.\<close>

definition publish_events :: "live_event list" where
  "publish_events =
     map Publishing [EResolve 0 camera_key, EClaim 0, ELook 0 False, ERegister 0 7 ''p'', EDrain 7 KindAudio ''audio/opus'' 48000 1 0]"

definition watch_events :: "live_event list" where
  "watch_events = map Subscribing [SResolve 0 viewer_key, SReserve 0 3, SSubscribe 0 0 0, SOpen 0, SMint 0 ''r'', SAttach 0, SRelease 0]"

lemma publish_run:
  "\<exists>S st. foldl live_step (live_start one_camera) publish_events = \<lparr>lv_in = S, lv_out = subscribing_start, lv_done = 0\<rparr> \<and>
     sys_cfg S = one_camera \<and> w_stopped (sys_w S) = [] \<and> w_relay (sys_w S) ''a'' = Some st \<and> stream_tracks st = [(7, KindAudio)] \<and> s_keyframe st = None"
  by (simp add: publish_events_def live_start_def run_defs drain_start_def currentLocked_def Relay_Publish_def Relay_New_def
        Relay_ConfigureDelay_def Relay_Track_def map_buffers_def Stream_new_def Let_def stream_tracks_def List.map_filter_simps)

lemma watch_run:
  assumes "sys_cfg S = one_camera" "w_stopped (sys_w S) = []" "w_relay (sys_w S) ''a'' = Some st" "stream_tracks st = [(7, KindAudio)]" "s_keyframe st = None"
  shows "\<exists>L. foldl live_step \<lparr>lv_in = S, lv_out = subscribing_start, lv_done = 0\<rparr> watch_events = L \<and> w_stopped (sys_w (lv_in L)) = [] \<and>
    lv_done L = 0 \<and> eg_sessions (esrv (lv_out L)) = [(''r'', 3)] \<and> egress_ingest_of (esrv (lv_out L)) 3 = ''a'' \<and>
    sb_peers (ey_w (lv_out L)) 3 = Some [(7, KindAudio)]"
  using assms unfolding watch_events_def
  by (simp add: subscribing_start_def egress_NewServer_def one_camera_resolves go_sub_def egress_reserve_def maxSubscribers_def
      maxSubscribersPerIngest_def set_server_def egress_ingest_of_def example_ingest_def Relay_Subscribe_def Stream_askKeyframe_def
      open_peer_def egress_prepare_def egress_attach_def Let_def subscribe_relay_def releaseReservation_def)

theorem subscribers_follow_publisher_witness:
  "\<exists>L x. L = foldl live_step (live_start one_camera) (publish_events @ watch_events) \<and>
     eg_sessions (sb_srv (ey_w (lv_out L))) = [(''r'', 3)] \<and> sb_peers (ey_w (lv_out L)) 3 = Some [(7, KindAudio)] \<and>
     sv_heap (srv (lv_in L)) 7 = Some x \<and> ss_IngestID x = ''a''"
proof -
  define L where "L = foldl live_step (live_start one_camera) (publish_events @ watch_events)"
  obtain S st where S: "foldl live_step (live_start one_camera) publish_events = \<lparr>lv_in = S, lv_out = subscribing_start, lv_done = 0\<rparr>"
    "sys_cfg S = one_camera" "w_stopped (sys_w S) = []" "w_relay (sys_w S) ''a'' = Some st" "stream_tracks st = [(7, KindAudio)]" "s_keyframe st = None"
    using publish_run by blast
  have L: "w_stopped (sys_w (lv_in L)) = []" "lv_done L = 0" "eg_sessions (esrv (lv_out L)) = [(''r'', 3)]"
    "egress_ingest_of (esrv (lv_out L)) 3 = ''a''" "sb_peers (ey_w (lv_out L)) 3 = Some [(7, KindAudio)]"
    using watch_run [OF S(2-6)] by (simp_all add: L_def S(1))
  then show ?thesis using subscribers_follow_publisher [OF L_def, of "''r''" 3 "[(7, KindAudio)]" 7 KindAudio] L_def by auto
qed

end
