(* ===== verification/Net_Addr.thy ===== *)
theory Net_Addr
  imports Prelude
begin

text \<open>
  IP addresses, as \<^verbatim>\<open>net/netip\<close> and \<^verbatim>\<open>net\<close> classify them: shared by the control listener, the statistics of the
  media path and the reachability report.
\<close>

text \<open>\<^verbatim>\<open>netip.Addr\<close> without zones.\<close>

datatype Addr = V4 "32 word" | V6 "128 word"

definition Addr_Unmap :: "Addr \<Rightarrow> Addr" where
  "Addr_Unmap a = (case a of V4 w \<Rightarrow> V4 w | V6 w \<Rightarrow> if drop_bit 32 w = 0xffff then V4 (ucast w) else V6 w)"

definition Addr_IsLoopback :: "Addr \<Rightarrow> bool" where
  "Addr_IsLoopback a = (case a of V4 w \<Rightarrow> drop_bit 24 w = 127 | V6 w \<Rightarrow> w = 1)"

definition Addr_IsPrivate :: "Addr \<Rightarrow> bool" where
  "Addr_IsPrivate a = (case a of V4 w \<Rightarrow> drop_bit 24 w = 10 \<or> drop_bit 20 w = 0xac1 \<or> drop_bit 16 w = 0xc0a8 | V6 w \<Rightarrow> drop_bit 121 w = 0x7e)"

definition Addr_IsLinkLocalUnicast :: "Addr \<Rightarrow> bool" where
  "Addr_IsLinkLocalUnicast a = (case a of V4 w \<Rightarrow> drop_bit 16 w = 0xa9fe | V6 w \<Rightarrow> drop_bit 118 w = 0x3fa)"

definition Addr_IsMulticast :: "Addr \<Rightarrow> bool" where
  "Addr_IsMulticast a = (case a of V4 w \<Rightarrow> drop_bit 28 w = 0xe | V6 w \<Rightarrow> drop_bit 120 w = 0xff)"

definition Addr_IsGlobalUnicast :: "Addr \<Rightarrow> bool" where
  "Addr_IsGlobalUnicast a \<longleftrightarrow>
     (case a of V4 w \<Rightarrow> w \<noteq> 0 \<and> w \<noteq> - 1 | V6 w \<Rightarrow> w \<noteq> 0) \<and> \<not> Addr_IsLoopback a \<and> \<not> Addr_IsMulticast a \<and> \<not> Addr_IsLinkLocalUnicast a"

text \<open>The classes the program tells apart do not overlap.\<close>

lemma drop_bit_more:
  assumes "drop_bit m w = (k :: 'a::len word)" "m \<le> n"
  shows "drop_bit n w = drop_bit (n - m) k"
  using assms by (auto simp: drop_bit_drop_bit)

lemma loopback_not_private: "Addr_IsLoopback a \<Longrightarrow> \<not> Addr_IsPrivate a \<and> \<not> Addr_IsLinkLocalUnicast a"
  by (cases a) (auto simp: Addr_IsLoopback_def Addr_IsPrivate_def Addr_IsLinkLocalUnicast_def dest: drop_bit_more [where n = 24])

lemma private_not_link_local: "Addr_IsPrivate a \<Longrightarrow> \<not> Addr_IsLinkLocalUnicast a"
  by (cases a) (auto simp: Addr_IsPrivate_def Addr_IsLinkLocalUnicast_def dest: drop_bit_more [where n = 24] drop_bit_more [where n = 20]
      drop_bit_more [where n = 121])

lemma Unmap_idem: "Addr_Unmap (Addr_Unmap a) = Addr_Unmap a"
  by (cases a) (simp_all add: Addr_Unmap_def)

end
