(* ===== verification/Control.thy ===== *)
theory Control
  imports Signal Live_Media Net_Addr
begin

text \<open>
  \<^verbatim>\<open>internal/control\<close>: the listener for a deployment that owns the camera list, with the closures that
  \<^verbatim>\<open>cmd/wagastrim/main.go\<close> hands to it and to the settings page.  \<open>daemon\<close> is the state they share: the settings
  and their file, the publishers with relay and statistics, and the subscribers.  Decoding JSON and
  parsing the socket address are done before the handler: a request carries their outcome.
\<close>

section \<open>Wiring\<close>

record 't daemon =
  dm_store :: store
  dm_world :: "'t world"
  dm_subs :: "'t subscribers"

abbreviation dm_cfg :: "'t daemon \<Rightarrow> Config" where
  "dm_cfg d \<equiv> fst (dm_store d)"

text \<open>What closing connections and reading clocks answers, for each camera.\<close>

record close_env =
  ce_closeOk :: "string \<Rightarrow> bool"
  ce_clk :: "string \<Rightarrow> nat \<Rightarrow> instant"
  ce_now :: "string \<Rightarrow> instant"

text \<open>\<^verbatim>\<open>whip.CloseIngest(id)\<close>, during which \<^verbatim>\<open>stopped\<close> disconnects subscribers, then \<^verbatim>\<open>whep.CloseIngest(id)\<close>.\<close>

definition main_revoke :: "close_env \<Rightarrow> 't daemon \<Rightarrow> string \<Rightarrow> 't daemon" where
  "main_revoke env d ident =
     (let w = ingest_CloseIngest (dm_world d) ident (ce_closeOk env ident) (ce_clk env ident);
          stopped = drop (length (w_stopped (dm_world d))) (w_stopped w);
          subs = foldl egress_CloseIngest (dm_subs d) stopped
      in d\<lparr>dm_world := w, dm_subs := egress_CloseIngest subs ident\<rparr>)"

text \<open>\<^verbatim>\<open>retarget\<close> is given the delay its caller has read; it reads the options and configures the relay.  The code takes the lock of
  the settings and the lock of the relay one after the other, here the two accesses are one step.  The delay is an argument, so a
  caller with a stale one is expressible.\<close>

definition main_retarget :: "close_env \<Rightarrow> 't daemon \<Rightarrow> string \<Rightarrow> int \<Rightarrow> 't daemon" where
  "main_retarget env d ident delayMS =
     d\<lparr>dm_world := (dm_world d)\<lparr>w_relay := Relay_ConfigureDelay (w_relay (dm_world d)) ident (i64 (delayMS * Millisecond))
         (Config_DelayOptions (dm_cfg d) ident) (ce_now env ident)\<rparr>\<rparr>"

section \<open>Handlers\<close>

definition allowedAddress :: "Config \<Rightarrow> Addr \<Rightarrow> bool" where
  "allowedAddress cfg address0 =
     (let address = Addr_Unmap address0
      in if Addr_IsLoopback address then True
         else if Addr_IsPrivate address \<or> Addr_IsLinkLocalUnicast address then Config_LANControlEnabled cfg
         else Addr_IsGlobalUnicast address \<and> Config_RemoteControlEnabled cfg)"

record cameraLinks =
  lk_Moblin :: string
  lk_WHIP :: string
  lk_WHEP :: string
  lk_Player :: string

record camera_response =
  cr_Ingest :: Ingest
  cr_Links :: cameraLinks

definition cameraResponse :: "Config \<Rightarrow> Ingest \<Rightarrow> camera_response" where
  "cameraResponse cfg camera =
     (let host = (if cfg_PublicHost cfg = [] then ''127.0.0.1'' else cfg_PublicHost cfg);
          (moblin, player) = Config_SignalLinks cfg host;
          base = TrimSuffix player ''/player/''
      in \<lparr>cr_Ingest = camera,
          cr_Links = \<lparr>lk_Moblin = moblin @ i_SenderKey camera, lk_WHIP = base @ ''/whip/'' @ i_SenderKey camera,
                      lk_WHEP = base @ ''/whep/'' @ i_ReceiverKey camera, lk_Player = player @ i_ReceiverKey camera\<rparr>\<rparr>)"

datatype control_value = Camera camera_response | Cameras "camera_response list" | Report "string \<Rightarrow> Snapshot option"

type_synonym control_response = "control_value http_response"

definition respond :: "nat \<Rightarrow> control_value \<Rightarrow> control_response" where
  "respond status v = \<lparr>hr_status = status, hr_headers = [(''Content-Type'', ''application/json'')], hr_body = JSON v\<rparr>"

definition control_authed ::
  "'t daemon \<Rightarrow> Addr option \<Rightarrow> string \<Rightarrow> ('t daemon \<Rightarrow> 't daemon \<times> control_response) \<Rightarrow> 't daemon \<times> control_response" where
  "control_authed d peer authorization next =
     (case peer of
        None \<Rightarrow> (d, not_found)
      | Some address \<Rightarrow>
          if \<not> allowedAddress (dm_cfg d) address then (d, not_found)
          else let (offered, bearer) = CutPrefix authorization ''Bearer ''; token = cfg_ControlToken (dm_cfg d)
               in if \<not> bearer \<or> token = [] \<or> offered \<noteq> token then (d, not_found) else next d)"

definition handleIngests :: "close_env \<Rightarrow> save_io \<Rightarrow> Ingest list option \<Rightarrow> 't daemon \<Rightarrow> 't daemon \<times> control_response" where
  "handleIngests env io body d =
     (case body of
        None \<Rightarrow> (d, http_Error [] ''cannot read ingest list'' StatusBadRequest)
      | Some ingests \<Rightarrow>
          (case Config_ReplaceIngests io (dm_store d) ingests of
             (s, Inl err) \<Rightarrow> (d\<lparr>dm_store := s\<rparr>, http_Error [] ''ingest list was refused'' StatusBadRequest)
           | (s, Inr stale) \<Rightarrow>
               let d1 = foldl (main_revoke env) (d\<lparr>dm_store := s\<rparr>) stale;
                   d2 = foldl (\<lambda>d camera. main_retarget env d (i_ID camera) (Config_EffectiveDelay (dm_cfg d) (i_ID camera)))
                          d1 (cfg_Ingests (dm_cfg d1))
               in (d2, \<lparr>hr_status = StatusNoContent, hr_headers = [], hr_body = NoBody\<rparr>)))"

text \<open>A decoded string is valid UTF-8, whose runes are its bytes other than continuation bytes.\<close>

definition RuneCount :: "string \<Rightarrow> nat" where
  "RuneCount s = length (filter (\<lambda>c. let n = of_char c :: nat in \<not> (128 \<le> n \<and> n < 192)) s)"

definition handleCreate ::
  "save_io \<Rightarrow> bytes option \<Rightarrow> bytes option \<Rightarrow> bytes option \<Rightarrow> string option \<Rightarrow> 't daemon \<Rightarrow> 't daemon \<times> control_response" where
  "handleCreate io r1 r2 r3 body d =
     (case body of
        None \<Rightarrow> (d, http_Error [] ''expected a camera label'' StatusBadRequest)
      | Some text \<Rightarrow>
          let label = TrimSpace text
          in if label = [] \<or> RuneCount label > 48 then (d, http_Error [] ''label must contain 1 to 48 characters'' StatusBadRequest)
             else case Config_AddIngest io (dm_store d) label r1 r2 r3 of
                    (s, Inl err) \<Rightarrow> (d\<lparr>dm_store := s\<rparr>, http_Error [] ''could not save camera'' StatusInternalServerError)
                  | (s, Inr camera) \<Rightarrow> (d\<lparr>dm_store := s\<rparr>, respond StatusCreated (Camera (cameraResponse (fst s) camera))))"

definition handleList :: "'t daemon \<Rightarrow> 't daemon \<times> control_response" where
  "handleList d = (d, respond StatusOK (Cameras (map (cameraResponse (dm_cfg d)) (cfg_Ingests (dm_cfg d)))))"

definition handleResetKey :: "close_env \<Rightarrow> save_io \<Rightarrow> bytes option \<Rightarrow> string \<Rightarrow> 't daemon \<Rightarrow> 't daemon \<times> control_response" where
  "handleResetKey env io random ident d =
     (case Config_ResetSenderKey io (dm_store d) ident random of
        (s, Inl err) \<Rightarrow>
          (d\<lparr>dm_store := s\<rparr>,
           http_Error [] ''could not reset stream key''
             (case err of ErrUnknownIngest _ \<Rightarrow> StatusNotFound | _ \<Rightarrow> StatusInternalServerError))
      | (s, Inr camera) \<Rightarrow>
          (main_revoke env (d\<lparr>dm_store := s\<rparr>) (i_ID camera), respond StatusOK (Camera (cameraResponse (fst s) camera))))"

definition handleStats :: "(nat \<Rightarrow> nat \<Rightarrow> instant) \<Rightarrow> 't daemon \<Rightarrow> 't daemon \<times> control_response" where
  "handleStats clks d =
     (case Registry_Report (w_relay (dm_world d)) (w_stats (dm_world d)) (Config_IngestIDs (dm_cfg d)) clks of
        (r, report) \<Rightarrow> (d\<lparr>dm_world := (dm_world d)\<lparr>w_stats := r\<rparr>\<rparr>, respond StatusOK (Report report)))"


section \<open>Who may call\<close>

text \<open>
  A control request reaches its handler exactly when its socket address is allowed, a token is configured, and the
  header is \<open>Bearer\<close> and exactly that token.  Anything else gets the 404 of an unknown route and
  changes nothing.  Loopback is always allowed; private and link-local addresses, also when
  mapped into IPv6, need LAN control, every other address needs remote control and must be a global unicast one.
\<close>

theorem control_requires_token:
  "control_authed d peer authorization next =
     (if (\<exists>address. peer = Some address \<and>
            (let a = Addr_Unmap address; lan = Addr_IsPrivate a \<or> Addr_IsLinkLocalUnicast a
             in Addr_IsLoopback a \<or> lan \<and> Config_LANControlEnabled (dm_cfg d) \<or>
                \<not> lan \<and> Addr_IsGlobalUnicast a \<and> Config_RemoteControlEnabled (dm_cfg d))) \<and>
         cfg_ControlToken (dm_cfg d) \<noteq> [] \<and> authorization = ''Bearer '' @ cfg_ControlToken (dm_cfg d)
      then next d else (d, not_found))"
  using CutPrefix_iff [of authorization "''Bearer ''" "cfg_ControlToken (dm_cfg d)"]
  by (auto simp: control_authed_def allowedAddress_def Let_def case_prod_beta split: option.split)

section \<open>Revoking a camera\<close>

definition world_ok :: "track world \<Rightarrow> bool" where
  "world_ok w \<longleftrightarrow> system_inv \<lparr>sys_cfg = Config_default, sys_w = w, sys_neg = (\<lambda>_. None)\<rparr>"

lemma world_okD: "world_ok w \<Longrightarrow> tables_ok (w_srv w)" "world_ok w \<Longrightarrow> stops_ok (w_srv w)" "world_ok w \<Longrightarrow> relay_ok (w_srv w) (w_relay w)"
  by (simp_all add: world_ok_def system_inv_def srv_def)

lemma reachable_world_ok: "reachable S \<Longrightarrow> world_ok (sys_w S)"
  using reachable_system_inv [of S] by (simp add: world_ok_def system_inv_def srv_def claims_ok_def)

lemma stopSession_world_ok: "world_ok w \<Longrightarrow> world_ok (stopSession w a clk)"
  unfolding world_ok_def stopSession_def Let_def
  using inv_stop_begin [of "\<lparr>sys_cfg = Config_default, sys_w = w, sys_neg = (\<lambda>_. None)\<rparr>" a]
    inv_stop_cleanup [of "\<lparr>sys_cfg = Config_default, sys_w = w\<lparr>w_srv := stop_begin (w_srv w) a\<rparr>, sys_neg = (\<lambda>_. None)\<rparr>" a clk]
    inv_stop_forget [of "\<lparr>sys_cfg = Config_default, sys_w = stop_cleanup (w\<lparr>w_srv := stop_begin (w_srv w) a\<rparr>) a clk, sys_neg = (\<lambda>_. None)\<rparr>" a]
  by (simp add: srv_def set_srv_def)

lemma stopSession_media:
  assumes "world_ok w" "sv_heap (w_srv w) a = Some x"
  shows "j \<noteq> ss_IngestID x \<Longrightarrow> w_relay (stopSession w a clk) j = w_relay w j"
    and "set (drop (length (w_stopped w)) (w_stopped (stopSession w a clk))) \<subseteq> {ss_IngestID x}"
proof -
  let ?w = "w\<lparr>w_srv := stop_begin (w_srv w) a\<rparr>"
  obtain y where y: "sv_heap (w_srv ?w) a = Some y" "ss_IngestID y = ss_IngestID x"
    using assms(2) by (cases "ss_once x = NotRun") (auto simp: stop_begin_def set_once_def)
  have "w_relay (stopSession w a clk) = w_relay (stop_cleanup ?w a clk)" "w_stopped (stopSession w a clk) = w_stopped (stop_cleanup ?w a clk)"
    by (simp_all add: stopSession_def Let_def)
  then show "j \<noteq> ss_IngestID x \<Longrightarrow> w_relay (stopSession w a clk) j = w_relay w j"
    "set (drop (length (w_stopped w)) (w_stopped (stopSession w a clk))) \<subseteq> {ss_IngestID x}"
    using y by (auto simp: stop_cleanup_def Let_def Relay_Drop_def split: once.split)
qed

lemma no_tracks:
  assumes "world_ok w" "sv_byIngest (w_srv w) i = None"
  shows "tracks_of (w_relay w) i = (\<lambda>_. None)"
proof (rule ext, rule ccontr)
  fix k assume "tracks_of (w_relay w) i k \<noteq> None"
  then obtain a k' where "tracks_of (w_relay w) i k = Some (a, k')" by auto
  then obtain x where x: "sv_heap (w_srv w) a = Some x" "ss_IngestID x = i" "ss_once x \<in> {NotRun, Began True}"
    using world_okD(3) [OF assms(1)] unfolding relay_ok_tracks by blast
  have r: "sv_sessions (w_srv w) (ss_Resource x) = Some a" using tables_heap [OF world_okD(1) [OF assms(1)] x(1)] x(3) by auto
  from tables_sessions [OF world_okD(1) [OF assms(1)] r] x show False using assms(2) by auto
qed

lemma ingest_CloseIngest_effect:
  assumes "world_ok w" and w'_def: "w' = ingest_CloseIngest w i closeOk clk"
  shows "world_ok w'" "sv_byIngest (w_srv w') = (sv_byIngest (w_srv w))(i := None)" "j \<noteq> i \<Longrightarrow> w_relay w' j = w_relay w j"
    "tracks_of (w_relay w') i = (\<lambda>_. None)" "set (drop (length (w_stopped w)) (w_stopped w')) \<subseteq> {i}"
proof -
  have all: "world_ok w' \<and> sv_byIngest (w_srv w') = (sv_byIngest (w_srv w))(i := None) \<and> (j \<noteq> i \<longrightarrow> w_relay w' j = w_relay w j) \<and>
    set (drop (length (w_stopped w)) (w_stopped w')) \<subseteq> {i}"
  proof (cases "sv_byIngest (w_srv w) i")
    case None
    then have "w' = w" by (simp add: w'_def ingest_CloseIngest_def)
    then show ?thesis using assms(1) None by (simp add: fun_upd_idem)
  next
    case (Some r)
    from tables_byIngest [OF world_okD(1) [OF assms(1)] Some] obtain a x
      where x: "sv_sessions (w_srv w) r = Some a" "sv_heap (w_srv w) a = Some x" "ss_IngestID x = i" .
    have "w' = stopSession w a clk" using Some x by (simp add: w'_def ingest_CloseIngest_def ingest_Teardown_def session_lookup_def)
    then show ?thesis
      using stopSession_world_ok [OF assms(1)] stopSession_done(5) [OF world_okD(1,2) [OF assms(1)] x(1,2)]
        stopSession_media [OF assms(1) x(2)] x(3) by simp
  qed
  then show "world_ok w'" "sv_byIngest (w_srv w') = (sv_byIngest (w_srv w))(i := None)" "j \<noteq> i \<Longrightarrow> w_relay w' j = w_relay w j"
    "set (drop (length (w_stopped w)) (w_stopped w')) \<subseteq> {i}" by blast+
  then show "tracks_of (w_relay w') i = (\<lambda>_. None)" using no_tracks [of w' i] all by simp
qed

lemma egress_CloseIngest_server:
  "eg_sessions (sb_srv (egress_CloseIngest w i)) = filter (\<lambda>(_, a). egress_ingest_of (sb_srv w) a \<noteq> i) (eg_sessions (sb_srv w))"
  "eg_pending (sb_srv (egress_CloseIngest w i)) = map (\<lambda>(a, ok). (a, if egress_ingest_of (sb_srv w) a = i then False else ok)) (eg_pending (sb_srv w))"
  "eg_heap (sb_srv (egress_CloseIngest w i)) = eg_heap (sb_srv w)"
  by (simp_all add: egress_CloseIngest_def Let_def)

lemma egress_CloseIngest_again:
  assumes "set is \<subseteq> {i}" and w'_def: "w' = egress_CloseIngest (foldl egress_CloseIngest w is) i"
  shows "eg_sessions (sb_srv w') = filter (\<lambda>(_, a). egress_ingest_of (sb_srv w) a \<noteq> i) (eg_sessions (sb_srv w))"
    "eg_pending (sb_srv w') = map (\<lambda>(a, ok). (a, if egress_ingest_of (sb_srv w) a = i then False else ok)) (eg_pending (sb_srv w))"
    "eg_heap (sb_srv w') = eg_heap (sb_srv w)"
proof -
  have heap: "egress_ingest_of (sb_srv (egress_CloseIngest w i)) = egress_ingest_of (sb_srv w)" for w :: "'a subscribers"
    by (simp add: fun_eq_iff egress_ingest_of_def egress_CloseIngest_server)
  have all: "eg_sessions (sb_srv w') = filter (\<lambda>(_, a). egress_ingest_of (sb_srv w) a \<noteq> i) (eg_sessions (sb_srv w)) \<and>
    eg_pending (sb_srv w') = map (\<lambda>(a, ok). (a, if egress_ingest_of (sb_srv w) a = i then False else ok)) (eg_pending (sb_srv w)) \<and>
    eg_heap (sb_srv w') = eg_heap (sb_srv w)"
    using assms(1) unfolding w'_def
  proof (induction "is" arbitrary: w)
    case (Cons j js)
    then show ?case using Cons.IH [of "egress_CloseIngest w i"] by (simp add: heap egress_CloseIngest_server filter_filter comp_def case_prod_beta conj_absorb cong: map_cong)
  qed (simp add: egress_CloseIngest_server)
  then show "eg_sessions (sb_srv w') = filter (\<lambda>(_, a). egress_ingest_of (sb_srv w) a \<noteq> i) (eg_sessions (sb_srv w))"
    "eg_pending (sb_srv w') = map (\<lambda>(a, ok). (a, if egress_ingest_of (sb_srv w) a = i then False else ok)) (eg_pending (sb_srv w))"
    "eg_heap (sb_srv w') = eg_heap (sb_srv w)" by blast+
qed


text \<open>A camera is cut off: no publisher, no media, no subscriber and no request that can still attach.\<close>

definition cut_off :: "track daemon \<Rightarrow> string \<Rightarrow> bool" where
  "cut_off d i \<longleftrightarrow> sv_byIngest (w_srv (dm_world d)) i = None \<and> tracks_of (w_relay (dm_world d)) i = (\<lambda>_. None) \<and>
     (\<forall>r a. (r, a) \<in> set (eg_sessions (sb_srv (dm_subs d))) \<longrightarrow> egress_ingest_of (sb_srv (dm_subs d)) a \<noteq> i) \<and>
     (\<forall>a. (a, True) \<in> set (eg_pending (sb_srv (dm_subs d))) \<longrightarrow> egress_ingest_of (sb_srv (dm_subs d)) a \<noteq> i)"

text \<open>A camera goes on as before.\<close>

definition undisturbed :: "track daemon \<Rightarrow> track daemon \<Rightarrow> string \<Rightarrow> bool" where
  "undisturbed d d' i \<longleftrightarrow> sv_byIngest (w_srv (dm_world d')) i = sv_byIngest (w_srv (dm_world d)) i \<and>
     tracks_of (w_relay (dm_world d')) i = tracks_of (w_relay (dm_world d)) i \<and>
     filter (\<lambda>(_, a). egress_ingest_of (sb_srv (dm_subs d')) a = i) (eg_sessions (sb_srv (dm_subs d'))) =
     filter (\<lambda>(_, a). egress_ingest_of (sb_srv (dm_subs d)) a = i) (eg_sessions (sb_srv (dm_subs d)))"

lemma revoke_effect:
  assumes "world_ok (dm_world d)"
  shows "world_ok (dm_world (main_revoke env d i))" "dm_store (main_revoke env d i) = dm_store d"
    "cut_off (main_revoke env d i) i" "j \<noteq> i \<Longrightarrow> undisturbed d (main_revoke env d i) j"
    "cut_off d j \<Longrightarrow> cut_off (main_revoke env d i) j"
proof -
  define w where "w = ingest_CloseIngest (dm_world d) i (ce_closeOk env i) (ce_clk env i)"
  define subs where "subs = egress_CloseIngest (foldl egress_CloseIngest (dm_subs d) (drop (length (w_stopped (dm_world d))) (w_stopped w))) i"
  have d': "main_revoke env d i = d\<lparr>dm_world := w, dm_subs := subs\<rparr>" by (simp add: main_revoke_def w_def subs_def Let_def)
  note W = ingest_CloseIngest_effect [OF assms w_def]
  note E = egress_CloseIngest_again [OF W(5) subs_def]
  have ing: "egress_ingest_of (sb_srv subs) = egress_ingest_of (sb_srv (dm_subs d))" by (simp add: fun_eq_iff egress_ingest_of_def E(3))
  have tracks: "tracks_of (w_relay w) j = tracks_of (w_relay (dm_world d)) j" if "j \<noteq> i" for j
    using W(3) [OF that] by (simp add: tracks_of_def)
  show "world_ok (dm_world (main_revoke env d i))" "dm_store (main_revoke env d i) = dm_store d" using W(1) by (simp_all add: d')
  show "cut_off (main_revoke env d i) i" using W(2,4) by (auto simp: d' cut_off_def ing E split: if_splits)
  show "undisturbed d (main_revoke env d i) j" if "j \<noteq> i"
    using that tracks [OF that] by (auto simp: d' undisturbed_def W(2) E ing filter_filter case_prod_beta intro!: filter_cong)
  show "cut_off (main_revoke env d i) j" if "cut_off d j"
    using that tracks [of j] W(4) by (cases "j = i") (auto simp: d' cut_off_def W(2) E ing split: if_splits)
qed

lemma undisturbed_trans: "undisturbed d d1 i \<Longrightarrow> undisturbed d1 d2 i \<Longrightarrow> undisturbed d d2 i"
  by (simp add: undisturbed_def)

lemma undisturbed_refl: "undisturbed d d i"
  by (simp add: undisturbed_def)

lemma revoke_all:
  assumes "world_ok (dm_world d)"
  shows "world_ok (dm_world (foldl (main_revoke env) d is))" "dm_store (foldl (main_revoke env) d is) = dm_store d"
    "i \<in> set is \<or> cut_off d i \<Longrightarrow> cut_off (foldl (main_revoke env) d is) i"
    "i \<notin> set is \<Longrightarrow> undisturbed d (foldl (main_revoke env) d is) i"
proof -
  have "world_ok (dm_world (foldl (main_revoke env) d is)) \<and> dm_store (foldl (main_revoke env) d is) = dm_store d \<and>
    (i \<in> set is \<or> cut_off d i \<longrightarrow> cut_off (foldl (main_revoke env) d is) i) \<and>
    (i \<notin> set is \<longrightarrow> undisturbed d (foldl (main_revoke env) d is) i)"
    using assms
  proof (induction "is" arbitrary: d)
    case (Cons j js)
    have "cut_off (main_revoke env d j) i" if "i = j \<or> cut_off d i" using that revoke_effect(3,5) [OF Cons.prems] by blast
    moreover have "undisturbed d (main_revoke env d j) i" if "i \<noteq> j" using that revoke_effect(4) [OF Cons.prems] by blast
    ultimately show ?case
      using Cons.IH [OF revoke_effect(1) [OF Cons.prems]] revoke_effect(2) [OF Cons.prems] undisturbed_trans by auto
  qed (simp add: undisturbed_refl)
  then show "world_ok (dm_world (foldl (main_revoke env) d is))" "dm_store (foldl (main_revoke env) d is) = dm_store d"
    "i \<in> set is \<or> cut_off d i \<Longrightarrow> cut_off (foldl (main_revoke env) d is) i"
    "i \<notin> set is \<Longrightarrow> undisturbed d (foldl (main_revoke env) d is) i" by blast+
qed

section \<open>Resetting a key\<close>

lemma reset_outcome:
  assumes "Config_ResetSenderKey io (c, dk) ident random = (s, Inr camera')"
  obtains idx key where "find_ingest ident (cfg_Ingests c) = Some idx" "newKey SenderPrefix random = Inr key"
    "fst s = c\<lparr>cfg_Ingests := (cfg_Ingests c)[idx := (cfg_Ingests c ! idx)\<lparr>i_SenderKey := key\<rparr>]\<rparr>"
    "camera' = (cfg_Ingests c)[idx := (cfg_Ingests c ! idx)\<lparr>i_SenderKey := key\<rparr>] ! idx"
  using assms by (auto simp: Config_ResetSenderKey_def saveLocked_outcome Let_def split: option.splits sum.splits if_splits)

lemma rekeyed_names:
  assumes "distinct (concat (map names xs))" "idx < length xs" "key \<notin> set (concat (map names xs))"
  defines "ys \<equiv> xs[idx := (xs ! idx)\<lparr>i_SenderKey := key\<rparr>]"
  shows "distinct (concat (map names ys))" "i_SenderKey (xs ! idx) \<notin> set (concat (map names ys))"
proof -
  have xs: "xs = take idx xs @ xs ! idx # drop (Suc idx) xs" using assms(2) by (rule id_take_nth_drop)
  have ys: "ys = take idx xs @ (xs ! idx)\<lparr>i_SenderKey := key\<rparr> # drop (Suc idx) xs"
    unfolding ys_def using assms(2) by (rule upd_conv_take_nth_drop)
  define before after cam where "before = concat (map names (take idx xs))" and "after = concat (map names (drop (Suc idx) xs))" and "cam = xs ! idx"
  have "concat (map names xs) = before @ names cam @ after" unfolding before_def after_def cam_def by (subst xs) simp
  moreover have "concat (map names ys) = before @ names (cam\<lparr>i_SenderKey := key\<rparr>) @ after" unfolding before_def after_def cam_def ys by simp
  ultimately show "distinct (concat (map names ys))" "i_SenderKey (xs ! idx) \<notin> set (concat (map names ys))"
    using assms(1,3) by (auto simp: names_def cam_def)
qed

text \<open>
  C36: Resetting a camera's key is complete once it is answered with 200: the old key names no camera any more, the new
  one opens the camera, and the camera is cut off, so whoever published or watched with the old settings is
  disconnected and no subscriber request under way can still attach.  Other cameras go on undisturbed.
\<close>

theorem reset_key_cuts_off_the_old_key:
  assumes "reachable S" "dm_world d = sys_w S" "validateIngests (cfg_Ingests (dm_cfg d)) = None" "camera \<in> set (cfg_Ingests (dm_cfg d))"
    and "handleResetKey env io random (i_ID camera) d = (d', resp)" "hr_status resp = 200"
    and "newKey SenderPrefix random = Inr key" "key \<notin> set (concat (map names (cfg_Ingests (dm_cfg d))))"
  shows "Config_Resolve (dm_cfg d') (i_SenderKey camera) = (None, RoleNone) \<and>
    Config_Resolve (dm_cfg d') key = (Some (camera\<lparr>i_SenderKey := key\<rparr>), RoleSender) \<and> cut_off d' (i_ID camera) \<and>
    (j = i_ID camera \<or> undisturbed d d' j)"
proof -
  obtain c dk where store: "dm_store d = (c, dk)" by fastforce
  obtain s res where run: "Config_ResetSenderKey io (c, dk) (i_ID camera) random = (s, res)" by fastforce
  have "res \<noteq> Inl err" for err
    using assms(5,6) run store by (auto simp: handleResetKey_def http_Error_def split: config_error.splits)
  then obtain camera' where res: "res = Inr camera'" by (cases res) auto
  from reset_outcome [OF run [unfolded res]] assms(7) obtain idx where idx: "find_ingest (i_ID camera) (cfg_Ingests c) = Some idx"
    "fst s = c\<lparr>cfg_Ingests := (cfg_Ingests c)[idx := (cfg_Ingests c ! idx)\<lparr>i_SenderKey := key\<rparr>]\<rparr>"
    "camera' = (cfg_Ingests c)[idx := (cfg_Ingests c ! idx)\<lparr>i_SenderKey := key\<rparr>] ! idx" by (metis sum.inject(2))
  have valid: "distinct (concat (map names (cfg_Ingests c)))" using assms(3) store by (simp add: validateIngests_None)
  have at: "idx < length (cfg_Ingests c)" "cfg_Ingests c ! idx = camera"
  proof -
    show lt: "idx < length (cfg_Ingests c)" using find_ingest_Some [OF idx(1)] by simp
    have "inj_on i_ID (set (cfg_Ingests c))" "camera \<in> set (cfg_Ingests c)" "i_ID (cfg_Ingests c ! idx) = i_ID camera"
      using distinct_ids [OF valid] assms(4) store find_ingest_Some [OF idx(1)] by (simp_all add: distinct_map)
    then show "cfg_Ingests c ! idx = camera" using nth_mem [OF lt] by (simp add: inj_on_def)
  qed
  let ?ys = "(cfg_Ingests c)[idx := (cfg_Ingests c ! idx)\<lparr>i_SenderKey := key\<rparr>]"
  have d': "d' = main_revoke env (d\<lparr>dm_store := s\<rparr>) (i_ID camera)"
    using assms(5) run res store idx(3) at by (auto simp: handleResetKey_def)
  have w: "world_ok (dm_world (d\<lparr>dm_store := s\<rparr>))" using reachable_world_ok [OF assms(1)] assms(2) by simp
  have cfg: "cfg_Ingests (dm_cfg d') = ?ys" using revoke_effect(2) [OF w] d' idx(2) by simp
  have names: "distinct (concat (map names ?ys))" "i_SenderKey camera \<notin> set (concat (map names ?ys))"
    using rekeyed_names [OF valid at(1)] assms(8) store at(2) by simp_all
  have "camera\<lparr>i_SenderKey := key\<rparr> \<in> set ?ys" using at by (metis length_list_update nth_list_update_eq nth_mem)
  from resolve_scan_found(1) [OF this names(1), of "(None, RoleNone)"]
  have new: "Config_Resolve (dm_cfg d') key = (Some (camera\<lparr>i_SenderKey := key\<rparr>), RoleSender)" by (simp add: Config_Resolve_scan cfg)
  have "i_SenderKey camera \<notin> i_SenderKey ` set ?ys" "i_SenderKey camera \<notin> i_ReceiverKey ` set ?ys"
    using names(2) by (auto simp: names_def)
  then have old: "Config_Resolve (dm_cfg d') (i_SenderKey camera) = (None, RoleNone)"
    by (simp add: Config_Resolve_scan cfg resolve_scan_none)
  have "undisturbed d d' j" if "j \<noteq> i_ID camera"
    using revoke_effect(4) [OF w that, of env] d' by (simp add: undisturbed_def)
  then show ?thesis using old new revoke_effect(3) [OF w, of env "i_ID camera"] d' by auto
qed


definition idle_daemon :: "track daemon" where
  "idle_daemon = \<lparr>dm_store = (example_group, None), dm_world = sys_w (ingest_start example_group), dm_subs = ey_w subscribing_start\<rparr>"

definition quiet_env :: close_env where
  "quiet_env = \<lparr>ce_closeOk = (\<lambda>_. True), ce_clk = (\<lambda>_ _. 0), ce_now = (\<lambda>_. 0)\<rparr>"

theorem reset_key_cuts_off_the_old_key_witness:
  "\<exists>d' resp. handleResetKey quiet_env all_ok (Some [255]) ''a'' idle_daemon = (d', resp) \<and> hr_status resp = 200 \<and>
     Config_Resolve (dm_cfg d') (i_SenderKey (example_ingest ''a'' 1 ''g'')) = (None, RoleNone) \<and>
     snd (Config_Resolve (dm_cfg d') ''s_ff'') = RoleSender"
proof -
  let ?cam = "example_ingest ''a'' 1 ''g''"
  have key: "newKey SenderPrefix (Some [255]) = Inr ''s_ff''" by code_simp
  have id: "i_ID ?cam = ''a''" by (simp add: example_ingest_def)
  have list: "validateIngests (cfg_Ingests (dm_cfg idle_daemon)) = None" "?cam \<in> set (cfg_Ingests (dm_cfg idle_daemon))"
    using example_list_valid by (simp_all add: idle_daemon_def example_group_def)
  have fresh: "''s_ff'' \<notin> set (concat (map names (cfg_Ingests (dm_cfg idle_daemon))))"
    by (simp add: idle_daemon_def example_group_def names_def example_ingest_def SenderPrefix_def ReceiverPrefix_def)
      (auto dest: arg_cong [of _ _ length])
  have ids: "i_ID (example_ingest x n g) = x" for x n g by (simp add: example_ingest_def)
  have "\<exists>s cam. Config_ResetSenderKey all_ok (example_group, None) ''a'' (Some [255]) = (s, Inr cam)"
    using key by (simp add: Config_ResetSenderKey_def example_group_def ids saveLocked_outcome io_ok_def all_ok_def Let_def)
  then obtain s cam where "Config_ResetSenderKey all_ok (example_group, None) ''a'' (Some [255]) = (s, Inr cam)" by blast
  then obtain d' resp where run: "handleResetKey quiet_env all_ok (Some [255]) ''a'' idle_daemon = (d', resp)" "hr_status resp = 200"
    by (simp add: handleResetKey_def idle_daemon_def respond_def)
  have "handleResetKey quiet_env all_ok (Some [255]) (i_ID ?cam) idle_daemon = (d', resp)" using run(1) by (simp only: id)
  from reset_key_cuts_off_the_old_key [OF reachable.start [of example_group] _ list this run(2) key fresh]
  show ?thesis using run by (auto simp: idle_daemon_def)
qed

section \<open>Replacing the list\<close>

lemma retarget_undisturbed: "undisturbed d (main_retarget env d i ms) j" "dm_store (main_retarget env d i ms) = dm_store d"
  "cut_off d j \<Longrightarrow> cut_off (main_retarget env d i ms) j"
proof -
  have "tracks_of (Relay_ConfigureDelay r i t opt now) j = tracks_of r j" for r :: "track Relay" and t opt now
    by (auto simp: tracks_of_def Relay_ConfigureDelay_def map_buffers_def Let_def split: option.split)
  then show "undisturbed d (main_retarget env d i ms) j" "dm_store (main_retarget env d i ms) = dm_store d"
    "cut_off d j \<Longrightarrow> cut_off (main_retarget env d i ms) j"
    by (simp_all add: undisturbed_def main_retarget_def cut_off_def)
qed

lemma retarget_all:
  fixes d :: "track daemon"
  shows "undisturbed d (foldl (\<lambda>d camera. main_retarget env d (i_ID camera) (f d camera)) d cams) j"
    and "dm_store (foldl (\<lambda>d camera. main_retarget env d (i_ID camera) (f d camera)) d cams) = dm_store d"
    and "cut_off d j \<Longrightarrow> cut_off (foldl (\<lambda>d camera. main_retarget env d (i_ID camera) (f d camera)) d cams) j"
proof (induction cams arbitrary: d)
  case (Cons camera cams)
  { case 1 show ?case by (simp, rule undisturbed_trans [OF retarget_undisturbed(1) Cons.IH(1)]) }
  { case 2 show ?case using Cons.IH(2) retarget_undisturbed(2) by simp }
  { case 3 then show ?case using Cons.IH(3) retarget_undisturbed(3) by simp }
qed (simp_all add: undisturbed_refl)

lemma replace_outcome:
  assumes "Config_ReplaceIngests io (c, dk) cams = (s, res)"
  shows "case res of
      Inl err \<Rightarrow> s = (c, dk)
    | Inr stale \<Rightarrow> stale = staleIngests (cfg_Ingests c) cams \<and> distinct (map i_ID cams) \<and> cfg_Ingests (fst s) = map (normalise_ingest c) cams"
proof -
  have "normalise_ingest c = (\<lambda>ing. let delay = Config_clampDelay c (i_DelayMS ing)
           in ing\<lparr>i_Codecs := keepCodecs (i_Codecs ing), i_DelayMS := delay,
                  i_Options := Options_Normalize (i_Options ing) delay\<rparr>)"
    by (simp add: fun_eq_iff normalise_ingest_def Let_def)
  then show ?thesis
    using assms by (auto simp: Config_ReplaceIngests_def saveLocked_outcome Let_def validateIngests_None distinct_ids
        split: option.splits if_splits)
qed

text \<open>
  C37: Replacing the camera list is all or nothing for every camera.  A refused list, and one that cannot be saved, changes nothing.
  After 204, a camera that the new list keeps with its keys and codecs goes on undisturbed, its publisher, its
  tracks and its subscribers; every other camera of the old list is cut off.
\<close>

theorem new_list_cuts_off_changed_cameras:
  assumes "reachable S" "dm_world d = sys_w S" "distinct (Config_IngestIDs (dm_cfg d))" "was \<in> set (cfg_Ingests (dm_cfg d))"
    and "handleIngests env io body d = (d', resp)"
  shows "if hr_status resp = 204
    then if \<exists>now \<in> set (cfg_Ingests (dm_cfg d')). same_session now was then undisturbed d d' (i_ID was) else cut_off d' (i_ID was)
    else d' = d"
proof (cases body)
  case None
  then show ?thesis using assms(5) by (auto simp: handleIngests_def http_Error_def)
next
  case (Some cams)
  obtain c dk where store: "dm_store d = (c, dk)" by fastforce
  obtain s res where run: "Config_ReplaceIngests io (c, dk) cams = (s, res)" by fastforce
  note out = replace_outcome [OF run]
  show ?thesis
  proof (cases res)
    case (Inl err)
    then have "d\<lparr>dm_store := s\<rparr> = d" using out store by simp
    then show ?thesis using assms(5) Inl run store Some by (auto simp: handleIngests_def http_Error_def)
  next
    case (Inr stale)
    let ?d0 = "d\<lparr>dm_store := s\<rparr>"
    let ?d1 = "foldl (main_revoke env) ?d0 stale"
    have w: "world_ok (dm_world ?d0)" using reachable_world_ok [OF assms(1)] assms(2) by simp
    have d': "d' = foldl (\<lambda>d camera. main_retarget env d (i_ID camera) (Config_EffectiveDelay (dm_cfg d) (i_ID camera))) ?d1 (cfg_Ingests (dm_cfg ?d1))"
      and "hr_status resp = 204" using assms(5) Inr run store Some by (auto simp: handleIngests_def Let_def)
    have cfg: "cfg_Ingests (dm_cfg d') = map (normalise_ingest c) cams"
      using out Inr unfolding d' by (simp add: retarget_all(2) revoke_all(2) [OF w])
    have stale: "i_ID was \<in> set stale \<longleftrightarrow> \<not> (\<exists>now \<in> set (cfg_Ingests (dm_cfg d')). same_session now was)"
      using stale_iff [of "cfg_Ingests c" cams was c] assms(3,4) out Inr store cfg by (simp add: Config_IngestIDs_def)
    have "undisturbed ?d0 d' (i_ID was)" if "i_ID was \<notin> set stale"
      using undisturbed_trans [OF revoke_all(4) [OF w that] retarget_all(1)] d' by simp
    moreover have "cut_off d' (i_ID was)" if "i_ID was \<in> set stale"
      unfolding d' by (rule retarget_all(3), rule revoke_all(3) [OF w]) (simp add: that)
    moreover have "undisturbed d d' i \<longleftrightarrow> undisturbed ?d0 d' i" for i by (simp add: undisturbed_def)
    ultimately show ?thesis using stale \<open>hr_status resp = 204\<close> by auto
  qed
qed


theorem new_list_cuts_off_changed_cameras_witness:
  "\<exists>d' resp. handleIngests quiet_env all_ok (Some [example_ingest ''b'' 2 ''h'']) idle_daemon = (d', resp) \<and> hr_status resp = 204 \<and> cut_off d' ''a''"
proof -
  let ?was = "example_ingest ''a'' 1 ''g''"
  have valid: "validateIngests [example_ingest ''b'' 2 ''h''] = None"
    using example_list_valid by (simp add: validateIngests_None keyed_def names_def) (simp add: example_ingest_def)
  obtain d' resp where run: "handleIngests quiet_env all_ok (Some [example_ingest ''b'' 2 ''h'']) idle_daemon = (d', resp)" by fastforce
  then have status: "hr_status resp = 204"
    using valid by (auto simp: handleIngests_def Config_ReplaceIngests_def idle_daemon_def saveLocked_outcome io_ok_def all_ok_def Let_def)
  obtain s stale where rep: "Config_ReplaceIngests all_ok (example_group, None) [example_ingest ''b'' 2 ''h''] = (s, Inr stale)"
    "cfg_Ingests (fst s) = [normalise_ingest example_group (example_ingest ''b'' 2 ''h'')]"
    using valid by (simp add: Config_ReplaceIngests_def saveLocked_outcome io_ok_def all_ok_def Let_def normalise_ingest_def)
  have w: "world_ok (dm_world (idle_daemon\<lparr>dm_store := s\<rparr>))"
    using reachable_world_ok [OF reachable.start [of example_group]] by (simp add: idle_daemon_def)
  have "dm_store d' = s"
    using run rep(1) by (simp add: handleIngests_def idle_daemon_def Let_def) (auto simp: retarget_all(2) revoke_all(2) [OF w [unfolded idle_daemon_def], simplified])
  then have "\<not> (\<exists>now \<in> set (cfg_Ingests (dm_cfg d')). same_session now ?was)"
    using rep(2) by (simp add: same_session_def normalise_ingest_def example_ingest_def Let_def)
  moreover have "distinct (Config_IngestIDs (dm_cfg idle_daemon))" "?was \<in> set (cfg_Ingests (dm_cfg idle_daemon))" "i_ID ?was = ''a''"
    by (simp_all add: idle_daemon_def example_group_def Config_IngestIDs_def example_ingest_def)
  ultimately show ?thesis
    using new_list_cuts_off_changed_cameras [OF reachable.start [of example_group] _ _ _ run, of ?was] run status
    by (auto simp: idle_daemon_def)
qed

end
