(* ===== verification/Autostart.thy ===== *)
theory Autostart
  imports Http
begin

text \<open>
  \<^verbatim>\<open>internal/autostart\<close>: the entry that starts the program at login.  Each platform keeps it in a place of its
  own: a systemd unit, a launchd agent, or a value of the registry's Run key.  \<open>login_os\<close> and \<open>login_registry\<close> are what
  the system calls answer; the commands given to the service manager are recorded in order.  A write
  that fails may leave anything in the file.

  The contract the three share is the locale \<open>login_entry\<close>; the settings page relies on it.
\<close>

section \<open>Common\<close>

datatype autostart_error = ErrRegister | ErrUnregister | ErrLocateBinary

record autostart_State =
  as_On :: bool
  as_Stale :: bool
  as_Note :: string

definition State_off :: autostart_State where
  "State_off = \<lparr>as_On = False, as_Stale = False, as_Note = []\<rparr>"

fun strings_Contains :: "string \<Rightarrow> string \<Rightarrow> bool" where
  "strings_Contains [] sub \<longleftrightarrow> sub = []"
| "strings_Contains (ch # s) sub \<longleftrightarrow> HasPrefix (ch # s) sub \<or> strings_Contains s sub"

datatype write_outcome = Written | WriteFailed "string option"

record login_os =
  lo_dir :: "string option"
  lo_executable :: "string option"
  lo_resolved :: "string \<Rightarrow> string option"
  lo_readable :: bool
  lo_mkdir :: bool
  lo_write :: write_outcome
  lo_removable :: bool
  lo_manager :: "string list \<Rightarrow> bool"
  lo_uid :: nat

definition binaryPath :: "string option \<Rightarrow> (string \<Rightarrow> string option) \<Rightarrow> autostart_error + string" where
  "binaryPath executable evalSymlinks =
     (case executable of
        None \<Rightarrow> Inl ErrLocateBinary
      | Some path \<Rightarrow> (case evalSymlinks path of None \<Rightarrow> Inr path | Some resolved \<Rightarrow> Inr resolved))"

abbreviation os_binary :: "login_os \<Rightarrow> autostart_error + string" where
  "os_binary os \<equiv> binaryPath (lo_executable os) (lo_resolved os)"

text \<open>The files of the user and the commands run so far.\<close>

record login_files =
  lf_files :: "string \<Rightarrow> string option"
  lf_commands :: "string list list"

definition os_ReadFile :: "login_os \<Rightarrow> login_files \<Rightarrow> string \<Rightarrow> string option" where
  "os_ReadFile os st path = (if lo_readable os then lf_files st path else None)"

definition os_WriteFile :: "login_os \<Rightarrow> login_files \<Rightarrow> string \<Rightarrow> string \<Rightarrow> login_files \<times> bool" where
  "os_WriteFile os st path body =
     (case lo_write os of
        Written \<Rightarrow> (st\<lparr>lf_files := (lf_files st)(path \<mapsto> body)\<rparr>, True)
      | WriteFailed left \<Rightarrow> (st\<lparr>lf_files := (lf_files st)(path := left)\<rparr>, False))"

text \<open>Removing a file that is not there fails with an error that the callers ignore.\<close>

definition os_Remove :: "login_os \<Rightarrow> login_files \<Rightarrow> string \<Rightarrow> login_files \<times> bool" where
  "os_Remove os st path =
     (if lf_files st path = None then (st, True)
      else if lo_removable os then (st\<lparr>lf_files := (lf_files st)(path := None)\<rparr>, True) else (st, False))"

definition autostart_run :: "login_os \<Rightarrow> login_files \<Rightarrow> string list \<Rightarrow> login_files \<times> autostart_error option" where
  "autostart_run os st args =
     (st\<lparr>lf_commands := lf_commands st @ [args]\<rparr>, if lo_manager os args then None else Some ErrRegister)"

definition text_lines :: "string list \<Rightarrow> string" where
  "text_lines ls = concat (map (\<lambda>l. l @ [newline]) ls)"

section \<open>Linux\<close>

definition unitName :: string where "unitName = ''wagastrim.service''"

definition lingerNote :: string where
  "lingerNote = ''On a headless machine also run: loginctl enable-linger $USER. '' @
     ''Without it a user service only starts when someone logs in.''"

definition unitPath :: "login_os \<Rightarrow> autostart_error + string" where
  "unitPath os = (case lo_dir os of None \<Rightarrow> Inl ErrRegister | Some dir \<Rightarrow> Inr (dir @ ''/systemd/user/'' @ unitName))"

definition unit_file :: "string \<Rightarrow> string" where
  "unit_file binary =
     text_lines [''[Unit]'', ''Description=wagaStrim ingest'', ''After=network-online.target'', [], ''[Service]'',
       ''ExecStart='' @ binary @ '' -headless'', ''Restart=on-failure'', ''RestartSec=5'', [], ''[Install]'',
       ''WantedBy=default.target'']"

definition linux_Status :: "login_os \<Rightarrow> login_files \<Rightarrow> autostart_State" where
  "linux_Status os st =
     (case unitPath os of
        Inl _ \<Rightarrow> State_off
      | Inr path \<Rightarrow>
          (case os_ReadFile os st path of
             None \<Rightarrow> State_off
           | Some body \<Rightarrow>
               (case os_binary os of
                  Inl _ \<Rightarrow> \<lparr>as_On = True, as_Stale = True, as_Note = lingerNote\<rparr>
                | Inr want \<Rightarrow> \<lparr>as_On = True, as_Stale = (\<not> strings_Contains body want), as_Note = lingerNote\<rparr>)))"

definition linux_Enable :: "login_os \<Rightarrow> login_files \<Rightarrow> login_files \<times> autostart_error option" where
  "linux_Enable os st =
     (case unitPath os of
        Inl err \<Rightarrow> (st, Some err)
      | Inr path \<Rightarrow>
          (case os_binary os of
             Inl err \<Rightarrow> (st, Some err)
           | Inr binary \<Rightarrow>
               if \<not> lo_mkdir os then (st, Some ErrRegister)
               else (case os_WriteFile os st path (unit_file binary) of
                       (st1, False) \<Rightarrow> (st1, Some ErrRegister)
                     | (st1, True) \<Rightarrow>
                         let (st2, _) = autostart_run os st1 [''--user'', ''daemon-reload''];
                             (st3, err) = autostart_run os st2 [''--user'', ''enable'', ''--now'', unitName]
                         in if err \<noteq> None then (st3, Some ErrRegister) else (st3, None))))"

definition linux_Disable :: "login_os \<Rightarrow> login_files \<Rightarrow> login_files \<times> autostart_error option" where
  "linux_Disable os st =
     (case unitPath os of
        Inl err \<Rightarrow> (st, Some err)
      | Inr path \<Rightarrow>
          let (st1, _) = autostart_run os st [''--user'', ''disable'', ''--now'', unitName];
              (st2, removed) = os_Remove os st1 path
          in if \<not> removed then (st2, Some ErrUnregister)
             else let (st3, _) = autostart_run os st2 [''--user'', ''daemon-reload''] in (st3, None))"

section \<open>macOS\<close>

definition agentLabel :: string where "agentLabel = ''tv.anyways.wagastrim''"

definition plistPath :: "login_os \<Rightarrow> autostart_error + string" where
  "plistPath os =
     (case lo_dir os of None \<Rightarrow> Inl ErrRegister | Some home \<Rightarrow> Inr (home @ ''/Library/LaunchAgents/'' @ agentLabel @ ''.plist''))"

definition launch_domain :: "login_os \<Rightarrow> string" where
  "launch_domain os = ''gui/'' @ decimal (int (lo_uid os))"

definition quotation :: char where "quotation = CHR 0x22"

definition quoted :: "string \<Rightarrow> string" where "quoted s = [quotation] @ s @ [quotation]"

definition plist :: "string \<Rightarrow> string" where
  "plist binary =
     text_lines
       [''<?xml version='' @ quoted ''1.0'' @ '' encoding='' @ quoted ''UTF-8'' @ ''?>'',
        ''<!DOCTYPE plist PUBLIC '' @ quoted ''-//Apple//DTD PLIST 1.0//EN'' @ '' '' @
          quoted ''http://www.apple.com/DTDs/PropertyList-1.0.dtd'' @ ''>'',
        ''<plist version='' @ quoted ''1.0'' @ ''>'',
        ''<dict>'',
        ''  <key>Label</key><string>'' @ agentLabel @ ''</string>'',
        ''  <key>ProgramArguments</key>'',
        ''  <array><string>'' @ binary @ ''</string></array>'',
        ''  <key>RunAtLoad</key><true/>'',
        ''  <key>KeepAlive</key><true/>'',
        ''</dict>'',
        ''</plist>'']"

definition darwin_Status :: "login_os \<Rightarrow> login_files \<Rightarrow> autostart_State" where
  "darwin_Status os st =
     (case plistPath os of
        Inl _ \<Rightarrow> State_off
      | Inr path \<Rightarrow>
          (case os_ReadFile os st path of
             None \<Rightarrow> State_off
           | Some body \<Rightarrow>
               (case os_binary os of
                  Inl _ \<Rightarrow> \<lparr>as_On = True, as_Stale = True, as_Note = []\<rparr>
                | Inr want \<Rightarrow> \<lparr>as_On = True, as_Stale = (\<not> strings_Contains body want), as_Note = []\<rparr>)))"

definition darwin_Enable :: "login_os \<Rightarrow> login_files \<Rightarrow> login_files \<times> autostart_error option" where
  "darwin_Enable os st =
     (case plistPath os of
        Inl err \<Rightarrow> (st, Some err)
      | Inr path \<Rightarrow>
          (case os_binary os of
             Inl err \<Rightarrow> (st, Some err)
           | Inr binary \<Rightarrow>
               if \<not> lo_mkdir os then (st, Some ErrRegister)
               else (case os_WriteFile os st path (plist binary) of
                       (st1, False) \<Rightarrow> (st1, Some ErrRegister)
                     | (st1, True) \<Rightarrow>
                         let (st2, _) = autostart_run os st1 [''bootout'', launch_domain os @ ''/'' @ agentLabel];
                             (st3, err) = autostart_run os st2 [''bootstrap'', launch_domain os, path]
                         in if err \<noteq> None then (st3, Some ErrRegister) else (st3, None))))"

definition darwin_Disable :: "login_os \<Rightarrow> login_files \<Rightarrow> login_files \<times> autostart_error option" where
  "darwin_Disable os st =
     (case plistPath os of
        Inl err \<Rightarrow> (st, Some err)
      | Inr path \<Rightarrow>
          let (st1, _) = autostart_run os st [''bootout'', launch_domain os @ ''/'' @ agentLabel];
              (st2, removed) = os_Remove os st1 path
          in if \<not> removed then (st2, Some ErrUnregister) else (st2, None))"

section \<open>Windows\<close>

text \<open>The Run key and the value \<^verbatim>\<open>wagaStrim\<close> in it.  \<open>lr_delete\<close> is the text of the error when an existing value cannot
  be deleted, \<open>lr_missing\<close> the text for a value that does not exist.\<close>

record run_key =
  rk_exists :: bool
  rk_value :: "string option"

record login_registry =
  lr_executable :: "string option"
  lr_resolved :: "string \<Rightarrow> string option"
  lr_query :: bool
  lr_create :: bool
  lr_set :: bool
  lr_open :: bool
  lr_delete :: "string option"
  lr_missing :: string

abbreviation registry_binary :: "login_registry \<Rightarrow> autostart_error + string" where
  "registry_binary os \<equiv> binaryPath (lr_executable os) (lr_resolved os)"

definition windows_Status :: "login_registry \<Rightarrow> run_key \<Rightarrow> autostart_State" where
  "windows_Status os k =
     (if \<not> (rk_exists k \<and> lr_query os) then State_off
      else case rk_value k of
             None \<Rightarrow> State_off
           | Some existing \<Rightarrow>
               (case registry_binary os of
                  Inl _ \<Rightarrow> \<lparr>as_On = True, as_Stale = True, as_Note = []\<rparr>
                | Inr want \<Rightarrow> \<lparr>as_On = True, as_Stale = (\<not> strings_Contains existing want), as_Note = []\<rparr>))"

definition windows_Enable :: "login_registry \<Rightarrow> run_key \<Rightarrow> run_key \<times> autostart_error option" where
  "windows_Enable os k =
     (case registry_binary os of
        Inl err \<Rightarrow> (k, Some err)
      | Inr binary \<Rightarrow>
          if \<not> lr_create os then (k, Some ErrRegister)
          else let k1 = k\<lparr>rk_exists := True\<rparr>
               in if \<not> lr_set os then (k1, Some ErrRegister) else (k1\<lparr>rk_value := Some (quoted binary)\<rparr>, None))"

definition registry_DeleteValue :: "login_registry \<Rightarrow> run_key \<Rightarrow> run_key \<times> string option" where
  "registry_DeleteValue os k =
     (if rk_value k = None then (k, Some (lr_missing os))
      else case lr_delete os of None \<Rightarrow> (k\<lparr>rk_value := None\<rparr>, None) | Some err \<Rightarrow> (k, Some err))"

definition windows_Disable :: "login_registry \<Rightarrow> run_key \<Rightarrow> run_key \<times> autostart_error option" where
  "windows_Disable os k =
     (if \<not> (rk_exists k \<and> lr_open os) then (k, None)
      else case registry_DeleteValue os k of
             (k1, None) \<Rightarrow> (k1, None)
           | (k1, Some err) \<Rightarrow> if strings_Contains err ''cannot find'' then (k1, None) else (k1, Some ErrUnregister))"


section \<open>The contract\<close>

text \<open>
  What the settings page relies on: a successful \<open>Enable\<close> leaves an entry that names this program, a successful
  \<open>Disable\<close> leaves none.  \<open>sound\<close> says that the system answers the questions of \<open>Status\<close> truthfully.
\<close>

locale login_entry =
  fixes Enable Disable :: "'env \<Rightarrow> 's \<Rightarrow> 's \<times> autostart_error option"
    and Status :: "'env \<Rightarrow> 's \<Rightarrow> autostart_State"
    and sound :: "'env \<Rightarrow> bool"
  assumes enabled: "sound env \<Longrightarrow> Enable env s = (s', None) \<Longrightarrow> as_On (Status env s') \<and> \<not> as_Stale (Status env s')"
    and disabled: "sound env \<Longrightarrow> Disable env s = (s', None) \<Longrightarrow> Status env s' = State_off"
    and unlocated: "\<not> as_On (Status env s) \<Longrightarrow> Status env s = State_off"
begin

definition toggle :: "'env \<Rightarrow> 's \<Rightarrow> bool \<Rightarrow> 's \<times> autostart_error option" where
  "toggle env s on = (if on then Enable env s else Disable env s)"

lemma toggle_reported:
  assumes "sound env" "toggle env s on = (s', None)"
  shows "as_On (Status env s') = on \<and> \<not> as_Stale (Status env s')"
  using assms enabled disabled by (cases on) (auto simp: toggle_def State_off_def)

lemma toggled_twice:
  assumes "sound env" "toggle env s on = (s1, None)" "toggle env s1 (\<not> on) = (s2, None)"
  shows "as_On (Status env s2) \<noteq> as_On (Status env s1)"
  using toggle_reported [OF assms(1,2)] toggle_reported [OF assms(1,3)] by simp

lemma off_is_bare: "\<not> as_On (Status env s) \<Longrightarrow> \<not> as_Stale (Status env s) \<and> as_Note (Status env s) = []"
  by (drule unlocated) (simp add: State_off_def)

end

lemma Contains_infix: "strings_Contains (a @ s @ b) s"
proof (induction a)
  case Nil
  show ?case by (cases "s @ b") (auto simp: HasPrefix_def dest: arg_cong [of _ _ "take (length s)"])
qed simp

lemma Contains_iff: "strings_Contains t s \<longleftrightarrow> (\<exists>a b. t = a @ s @ b)"
proof (induction t)
  case (Cons ch t)
  have "HasPrefix (ch # t) s \<longleftrightarrow> (\<exists>b. ch # t = s @ b)"
    unfolding HasPrefix_def by (metis append_eq_conv_conj append_take_drop_id)
  moreover have "(\<exists>a b. ch # t = a @ s @ b) \<longleftrightarrow> (\<exists>b. ch # t = s @ b) \<or> (\<exists>a b. t = a @ s @ b)"
    by (metis append_Cons append_Nil list.inject neq_Nil_conv)
  ultimately show ?case using Cons by simp
qed simp

lemma text_lines_contains:
  assumes "a @ s @ b \<in> set ls"
  shows "strings_Contains (text_lines ls) s"
proof -
  obtain xs ys where "ls = xs @ (a @ s @ b) # ys" using assms by (meson split_list)
  then have "text_lines ls = (text_lines xs @ a) @ s @ b @ newline # text_lines ys" by (simp add: text_lines_def)
  then show ?thesis unfolding Contains_iff by blast
qed

lemma entry_names_binary: "strings_Contains (unit_file binary) binary" "strings_Contains (plist binary) binary"
  unfolding unit_file_def plist_def by (rule text_lines_contains [where a = "''ExecStart=''" and b = "'' -headless''"], simp)
    (rule text_lines_contains [where a = "''  <array><string>''" and b = "''</string></array>''"], simp)

lemmas login_defs = os_ReadFile_def os_WriteFile_def os_Remove_def autostart_run_def Let_def State_off_def

text \<open>On Windows a value that is still there is not reported missing, and an existing key can be opened.\<close>

definition registry_sound :: "login_registry \<Rightarrow> bool" where
  "registry_sound os \<longleftrightarrow> lr_query os \<and> lr_open os \<and>
     (case lr_delete os of None \<Rightarrow> True | Some err \<Rightarrow> \<not> strings_Contains err ''cannot find'')"

interpretation linux: login_entry linux_Enable linux_Disable linux_Status lo_readable
proof
  show "lo_readable os \<Longrightarrow> linux_Enable os s = (s', None) \<Longrightarrow> as_On (linux_Status os s') \<and> \<not> as_Stale (linux_Status os s')" for os s s'
    by (auto simp: linux_Enable_def linux_Status_def login_defs entry_names_binary split: sum.splits if_splits write_outcome.splits)
qed (auto simp: linux_Disable_def linux_Status_def login_defs split: sum.splits if_splits option.splits)

interpretation darwin: login_entry darwin_Enable darwin_Disable darwin_Status lo_readable
proof
  show "lo_readable os \<Longrightarrow> darwin_Enable os s = (s', None) \<Longrightarrow> as_On (darwin_Status os s') \<and> \<not> as_Stale (darwin_Status os s')" for os s s'
    by (auto simp: darwin_Enable_def darwin_Status_def login_defs entry_names_binary split: sum.splits if_splits write_outcome.splits)
qed (auto simp: darwin_Disable_def darwin_Status_def login_defs split: sum.splits if_splits option.splits)

interpretation windows: login_entry windows_Enable windows_Disable windows_Status registry_sound
proof
  show "registry_sound os \<Longrightarrow> windows_Enable os s = (s', None) \<Longrightarrow> as_On (windows_Status os s') \<and> \<not> as_Stale (windows_Status os s')" for os s s'
    by (auto simp: windows_Enable_def windows_Status_def registry_sound_def Let_def quoted_def Contains_infix [of "[quotation]", simplified]
        split: sum.splits if_splits)
qed (auto simp: windows_Disable_def windows_Status_def registry_DeleteValue_def registry_sound_def State_off_def
    split: sum.splits if_splits option.splits)

text \<open>
  Switching the login entry on or off is visible and complete on every platform: once the switch succeeded,
  \<^verbatim>\<open>Status\<close> reports exactly what was asked for and the entry names this program; after switching off nothing
  is left.
\<close>

theorem autostart_switch_is_reported:
  shows "lo_readable os \<Longrightarrow> linux.toggle os f on = (f', None) \<Longrightarrow> as_On (linux_Status os f') = on \<and> \<not> as_Stale (linux_Status os f')"
    and "lo_readable os \<Longrightarrow> darwin.toggle os f on = (f', None) \<Longrightarrow> as_On (darwin_Status os f') = on \<and> \<not> as_Stale (darwin_Status os f')"
    and "registry_sound reg \<Longrightarrow> windows.toggle reg k on = (k', None) \<Longrightarrow> as_On (windows_Status reg k') = on \<and> \<not> as_Stale (windows_Status reg k')"
  by (rule linux.toggle_reported, assumption+) (rule darwin.toggle_reported, assumption+, rule windows.toggle_reported)

text \<open>
  An entry for another program can read as healthy: \<^verbatim>\<open>Status\<close> looks for this program's path anywhere in the
  entry, so an entry that starts \<open>p @ q\<close> is not stale for the program at \<open>p\<close>, whatever \<open>q\<close> is.
\<close>

theorem stale_entry_goes_unnoticed:
  assumes "linux_Enable old f = (f', None)" "os_binary old = Inr (p @ q)"
    and "unitPath os = unitPath old" "lo_readable os" "os_binary os = Inr p"
  shows "linux_Status os f' = \<lparr>as_On = True, as_Stale = False, as_Note = lingerNote\<rparr>"
proof -
  have "strings_Contains (unit_file (p @ q)) p"
    unfolding unit_file_def by (rule text_lines_contains [where a = "''ExecStart=''" and b = "q @ '' -headless''"]) simp
  then show ?thesis
    using assms by (auto simp: linux_Enable_def linux_Status_def login_defs split: sum.splits if_splits write_outcome.splits)
qed

definition example_os :: "string \<Rightarrow> login_os" where
  "example_os binary = \<lparr>lo_dir = Some ''/home/u/.config'', lo_executable = Some binary, lo_resolved = Some, lo_readable = True,
     lo_mkdir = True, lo_write = Written, lo_removable = True, lo_manager = (\<lambda>_. True), lo_uid = 1000\<rparr>"

theorem stale_entry_goes_unnoticed_witness:
  "\<exists>f'. linux_Enable (example_os ''/opt/wagastrim-old'') \<lparr>lf_files = (\<lambda>_. None), lf_commands = []\<rparr> = (f', None) \<and>
     as_Stale (linux_Status (example_os ''/opt/wagastrim'') f') = False"
proof -
  let ?old = "example_os (''/opt/wagastrim'' @ ''-old'')"
  obtain f' where run: "linux_Enable ?old \<lparr>lf_files = (\<lambda>_. None), lf_commands = []\<rparr> = (f', None)"
    by (simp add: linux_Enable_def example_os_def unitPath_def binaryPath_def login_defs)
  have "linux_Status (example_os ''/opt/wagastrim'') f' = \<lparr>as_On = True, as_Stale = False, as_Note = lingerNote\<rparr>"
    by (rule stale_entry_goes_unnoticed [OF run]) (simp_all add: example_os_def unitPath_def binaryPath_def)
  then show ?thesis using run by simp
qed

end
