(* ===== verification/Reach.thy ===== *)
theory Reach
  imports Http Net_Addr
begin

text \<open>
  \<^verbatim>\<open>internal/reach\<close>: the address a phone on cellular would use.  What the network answers is a parameter: for each
  server, how far the STUN exchange got.  An error is the list of the sentinel errors it wraps.
  \<open>showIP\<close> is \<^verbatim>\<open>net.IP.String\<close>.
\<close>

section \<open>Asking the servers\<close>

definition reach_servers :: "string list" where
  "reach_servers = [''stun.l.google.com:19302'', ''stun.cloudflare.com:3478'']"

definition probeTimeout :: duration where "probeTimeout = 3 * Second"

datatype reach_error = ErrNoSTUN | ErrNoAddress

text \<open>What the callback of the transaction saw: an error, or a message from which an address can be read or not.\<close>

datatype stun_event = StunError | StunMessage "Addr option"

record stun_probe =
  sp_dial :: bool
  sp_client :: bool
  sp_do :: bool
  sp_event :: stun_event

definition reach_ask :: "(Addr \<Rightarrow> string) \<Rightarrow> (string \<Rightarrow> stun_probe) \<Rightarrow> string \<Rightarrow> reach_error list + string" where
  "reach_ask showIP net server =
     (let probe = net server
      in if \<not> sp_dial probe then Inl [ErrNoSTUN]
         else if \<not> sp_client probe then Inl [ErrNoSTUN]
         else if \<not> sp_do probe then Inl [ErrNoSTUN]
         else case sp_event probe of
                StunError \<Rightarrow> Inl [ErrNoAddress]
              | StunMessage None \<Rightarrow> Inl [ErrNoAddress]
              | StunMessage (Some mapped) \<Rightarrow> Inr (showIP mapped))"

text \<open>The loop; \<open>last\<close> is the error of the server asked before.\<close>

fun discover_loop :: "(string \<Rightarrow> reach_error list + string) \<Rightarrow> reach_error list option \<Rightarrow> string list \<Rightarrow> reach_error list + string" where
  "discover_loop ask last_err [] =
     Inl (ErrNoSTUN # (case last_err of None \<Rightarrow> [ErrNoSTUN] | Some err \<Rightarrow> err))"
| "discover_loop ask last_err (server # rest) =
     (case ask server of Inl err \<Rightarrow> discover_loop ask (Some err) rest | Inr host \<Rightarrow> Inr host)"

definition discover :: "(string \<Rightarrow> reach_error list + string) \<Rightarrow> reach_error list + string" where
  "discover ask = discover_loop ask None reach_servers"

section \<open>The report\<close>

text \<open>An interface address: a network with its IP, or something else.\<close>

datatype iface_addr = IPNet Addr | OtherAddr

text \<open>The body of the loop: the hosts that one address adds.\<close>

definition lan_host :: "(Addr \<Rightarrow> string) \<Rightarrow> iface_addr \<Rightarrow> string list" where
  "lan_host showIP addr =
     (case addr of
        OtherAddr \<Rightarrow> []
      | IPNet ip0 \<Rightarrow>
          let ip = Addr_Unmap ip0
          in if Addr_IsLoopback ip \<or> Addr_IsLinkLocalUnicast ip then []
             else case ip of V4 _ \<Rightarrow> [showIP ip] | V6 _ \<Rightarrow> [])"

definition lanAddresses :: "(Addr \<Rightarrow> string) \<Rightarrow> iface_addr list option \<Rightarrow> string list" where
  "lanAddresses showIP addrs = (case addrs of None \<Rightarrow> [] | Some as \<Rightarrow> concat (map (lan_host showIP) as))"

record reach_Report =
  rp_PublicHost :: string
  rp_LANHosts :: "string list"
  rp_MediaPort :: int
  rp_SignalPort :: int
  rp_SocketNote :: string
  rp_Note :: string
  rp_Err :: "reach_error list"

definition note_found :: string where
  "note_found = ''Public address found. Whether the two ports are forwarded cannot be '' @
     ''checked from inside your own network, because a router can answer its own '' @
     ''probe. The real test is your phone on cellular with Wi-Fi turned off.''"

definition note_missing :: string where
  "note_missing = ''No public address yet. Streaming over the internet needs one; '' @
     ''a phone on the same Wi-Fi can use a LAN address below.''"

definition reach_Look ::
  "(Addr \<Rightarrow> string) \<Rightarrow> (string \<Rightarrow> stun_probe) \<Rightarrow> iface_addr list option \<Rightarrow> int \<Rightarrow> int \<Rightarrow> reach_Report" where
  "reach_Look showIP net addrs mediaPort signalPort =
     (let report = \<lparr>rp_PublicHost = [], rp_LANHosts = lanAddresses showIP addrs, rp_MediaPort = mediaPort,
                    rp_SignalPort = signalPort, rp_SocketNote = [], rp_Note = note_found, rp_Err = []\<rparr>
      in case discover (reach_ask showIP net) of
           Inl err \<Rightarrow> report\<lparr>rp_Err := err, rp_Note := note_missing\<rparr>
         | Inr host \<Rightarrow> report\<lparr>rp_PublicHost := host\<rparr>)"

section \<open>What the report says\<close>

lemma discover_first:
  "discover_loop ask err servers =
     (case find (\<lambda>s. \<exists>host. ask s = Inr host) servers of
        Some s \<Rightarrow> ask s
      | None \<Rightarrow> Inl (ErrNoSTUN # (case map (\<lambda>s. projl (ask s)) servers of
                                    [] \<Rightarrow> (case err of None \<Rightarrow> [ErrNoSTUN] | Some e \<Rightarrow> e) | es \<Rightarrow> last es)))"
proof (induction servers arbitrary: err)
  case (Cons s rest)
  then show ?case by (cases "ask s") (auto split: option.split list.split)
qed simp

lemma lan_host_iff:
  "h \<in> set (lan_host showIP addr) \<longleftrightarrow>
     (\<exists>w ip. h = showIP (V4 w) \<and> addr = IPNet ip \<and> Addr_Unmap ip = V4 w \<and> \<not> Addr_IsLoopback (V4 w) \<and> \<not> Addr_IsLinkLocalUnicast (V4 w))"
proof (cases addr)
  case (IPNet ip)
  then show ?thesis by (cases "Addr_Unmap ip") (auto simp: lan_host_def Let_def)
qed (simp add: lan_host_def)

text \<open>
  The report is honest: it names a public host exactly when some server answered with an address, then the one of the first such
  server, and an error exactly when none did; the local hosts it lists are
  the IPv4 addresses of the machine's interfaces that are neither loopback nor link-local.
\<close>

theorem report_is_honest:
  assumes "\<And>a. showIP a \<noteq> []"
  shows "let r = reach_Look showIP net addrs media signal;
             answered = filter (\<lambda>s. \<exists>h. reach_ask showIP net s = Inr h) reach_servers
         in (rp_PublicHost r = (case answered of [] \<Rightarrow> [] | s # _ \<Rightarrow> projr (reach_ask showIP net s))) \<and>
            (rp_Err r \<noteq> [] \<longleftrightarrow> answered = []) \<and> (rp_PublicHost r = [] \<longleftrightarrow> answered = []) \<and>
            set (rp_LANHosts r) = {showIP (V4 w) |w ip. addrs \<noteq> None \<and> IPNet ip \<in> set (the addrs) \<and> Addr_Unmap ip = V4 w \<and>
              \<not> Addr_IsLoopback (V4 w) \<and> \<not> Addr_IsLinkLocalUnicast (V4 w)}"
proof -
  let ?ask = "reach_ask showIP net"
  have named: "h \<noteq> []" if "?ask s = Inr h" for s h
    using that assms by (auto simp: reach_ask_def Let_def split: if_splits stun_event.splits option.splits)
  have lan: "set (lanAddresses showIP addrs) = {showIP (V4 w) |w ip. addrs \<noteq> None \<and> IPNet ip \<in> set (the addrs) \<and> Addr_Unmap ip = V4 w \<and>
      \<not> Addr_IsLoopback (V4 w) \<and> \<not> Addr_IsLinkLocalUnicast (V4 w)}"
    by (cases addrs) (auto simp: lanAddresses_def lan_host_iff, blast)
  have found: "find P xs = (case filter P xs of [] \<Rightarrow> None | x # _ \<Rightarrow> Some x)" for P and xs :: "string list" by (induction xs) auto
  show ?thesis
  proof (cases "filter (\<lambda>s. \<exists>h. ?ask s = Inr h) reach_servers")
    case Nil
    then show ?thesis by (simp add: reach_Look_def discover_def discover_first found lan)
  next
    case (Cons s rest)
    then have "s \<in> set (filter (\<lambda>s. \<exists>h. ?ask s = Inr h) reach_servers)" by simp
    then obtain h where "?ask s = Inr h" by auto
    with Cons named show ?thesis by (simp add: reach_Look_def discover_def discover_first found lan)
  qed
qed

end
