(* ===== verification/Settings_Page.thy ===== *)
theory Settings_Page
  imports Control Autostart Reach
begin

text \<open>
  \<^verbatim>\<open>internal/ui\<close>: the settings page on loopback.  Every handler takes the decoded body of the request, \<open>None\<close> when it is not
  the JSON the handler expects, and the state it may change.  The page itself, rendered by
  \<^verbatim>\<open>html/template\<close>, is represented by the data the template sees.  The login entry is a state of its
  own, reached through the functions of the platform.
\<close>

section \<open>Responses\<close>

record codecChoice =
  cc_Name :: string
  cc_Label :: string
  cc_On :: bool
  cc_Caveat :: string

record cameraView =
  cv_Ingest :: Ingest
  cv_Effective :: int
  cv_Codecs :: "codecChoice list"

record pageData =
  pd_Ingests :: "cameraView list"
  pd_SenderBase :: string
  pd_ReceiverBase :: string
  pd_SecureSignal :: bool
  pd_LANControl :: bool
  pd_RemoteControl :: bool
  pd_ControlAvailable :: bool
  pd_ControlConfigured :: bool
  pd_Floor :: int

datatype ui_value =
    UIStats "string \<Rightarrow> Snapshot option" | Reachability reach_Report | Autostart autostart_State | Page pageData
  | NewToken string bool

type_synonym ui_response = "ui_value http_response"

definition StatusText :: "nat \<Rightarrow> string" where
  "StatusText status =
     (if status = StatusBadRequest then ''Bad Request'' else if status = StatusNotFound then ''Not Found''
      else if status = StatusInternalServerError then ''Internal Server Error'' else [])"

definition ui_fail :: "nat \<Rightarrow> ui_response" where
  "ui_fail status = http_Error [] (StatusText status) status"

definition no_content :: ui_response where
  "no_content = \<lparr>hr_status = StatusNoContent, hr_headers = [], hr_body = NoBody\<rparr>"

definition ui_writeJSON :: "ui_value \<Rightarrow> ui_response" where
  "ui_writeJSON body = \<lparr>hr_status = StatusOK, hr_headers = [(''Content-Type'', ''application/json'')], hr_body = JSON body\<rparr>"

section \<open>Who may call\<close>

definition loopback_hosts :: "int \<Rightarrow> string list" where
  "loopback_hosts port = [''127.0.0.1:'' @ decimal port, ''localhost:'' @ decimal port, ''[::1]:'' @ decimal port]"

definition loopbackOnly :: "('s \<Rightarrow> 's \<times> ui_response) \<Rightarrow> int \<Rightarrow> string \<Rightarrow> string \<Rightarrow> 's \<Rightarrow> 's \<times> ui_response" where
  "loopbackOnly next port host site s =
     (if host \<notin> set (loopback_hosts port) \<or> (site \<noteq> [] \<and> site \<noteq> ''same-origin'' \<and> site \<noteq> ''none'')
      then (s, http_Error [] ''not found'' StatusNotFound)
      else next s)"

section \<open>Reading\<close>

definition codecCaveat :: "string \<Rightarrow> string" where
  "codecCaveat name =
     (if name = CodecH265 then ''Needs OBS started with --enable-features=WebRtcAllowH265Receive. '' @
        ''Its bundled Chromium is 133, which has the flag but not the default.''
      else if name = CodecAV1 then ''No iPhone can encode AV1, so Moblin will never pick it. '' @
        ''For a desktop or OBS publisher only.''
      else [])"

definition codecChoices :: "string list \<Rightarrow> codecChoice list" where
  "codecChoices on =
     map (\<lambda>name. \<lparr>cc_Name = name, cc_Label = CodecLabel name, cc_On = (name \<in> set on), cc_Caveat = codecCaveat name\<rparr>) AllCodecs"

definition ui_handlePage :: "bool \<Rightarrow> Config \<Rightarrow> ui_response" where
  "ui_handlePage controlAtStart cfg =
     (let host = (if cfg_PublicHost cfg = [] then ''your-public-address'' else cfg_PublicHost cfg);
          views = map (\<lambda>cam. \<lparr>cv_Ingest = cam, cv_Effective = Config_EffectiveDelay cfg (i_ID cam),
                              cv_Codecs = codecChoices (i_Codecs cam)\<rparr>) (cfg_Ingests cfg);
          (senderBase, receiverBase) = Config_SignalLinks cfg host
      in \<lparr>hr_status = StatusOK, hr_headers = [(''Content-Type'', ''text/html; charset=utf-8'')],
          hr_body = JSON (Page
            \<lparr>pd_Ingests = views, pd_SenderBase = senderBase, pd_ReceiverBase = receiverBase,
             pd_SecureSignal = HasPrefix receiverBase ''https://'', pd_LANControl = Config_LANControlEnabled cfg,
             pd_RemoteControl = Config_RemoteControlEnabled cfg, pd_ControlAvailable = controlAtStart,
             pd_ControlConfigured = (cfg_ControlToken cfg \<noteq> []), pd_Floor = Config_Floor cfg\<rparr>)\<rparr>)"

definition ui_handleHealth :: ui_response where
  "ui_handleHealth = \<lparr>hr_status = StatusOK, hr_headers = [(''Content-Type'', ''text/plain'')], hr_body = Text (''ok'' @ [newline])\<rparr>"

definition ui_handleStats :: "(nat \<Rightarrow> nat \<Rightarrow> instant) \<Rightarrow> 't daemon \<Rightarrow> 't daemon \<times> ui_response" where
  "ui_handleStats clks d =
     (case Registry_Report (w_relay (dm_world d)) (w_stats (dm_world d)) (Config_IngestIDs (dm_cfg d)) clks of
        (r, report) \<Rightarrow> (d\<lparr>dm_world := (dm_world d)\<lparr>w_stats := r\<rparr>\<rparr>, ui_writeJSON (UIStats report)))"

text \<open>\<open>granted\<close> is the receive buffer the kernel granted to a probe, \<open>None\<close> if it cannot be told.\<close>

definition socketNote :: "int option \<Rightarrow> string" where
  "socketNote granted =
     (let want = push_bit 23 1 :: int
      in case granted of
           None \<Rightarrow> []
         | Some g \<Rightarrow>
             if g = 0 then []
             else if g \<ge> want then ''Socket receive buffer '' @ decimal (drop_bit 20 g) @ '' MB, as requested.''
             else ''Socket receive buffer is '' @ decimal (drop_bit 10 g) @ '' KB, but '' @ decimal (drop_bit 20 want) @
               '' MB was requested. The kernel capped it, '' @
               ''which drops packets under burst before this app sees them. Raise net.core.rmem_max '' @
               ''on Linux or kern.ipc.maxsockbuf on macOS.'')"

section \<open>Changing\<close>

text \<open>\<open>report\<close> is what \<^verbatim>\<open>reach.Look\<close> found; a failure to save the address is only logged.\<close>

definition ui_handleReachability :: "save_io \<Rightarrow> int option \<Rightarrow> reach_Report \<Rightarrow> 't daemon \<Rightarrow> 't daemon \<times> ui_response" where
  "ui_handleReachability io granted found d =
     (let report = found\<lparr>rp_SocketNote := socketNote granted\<rparr>;
          d1 = (if rp_PublicHost report \<noteq> [] \<and> cfg_TLSCert (dm_cfg d) = [] \<and> cfg_PublicURL (dm_cfg d) = []
                then d\<lparr>dm_store := fst (Config_SetPublicHost io (dm_store d) (rp_PublicHost report))\<rparr> else d)
      in (d1, ui_writeJSON (Reachability report)))"

definition ui_handleAutostart :: "('p \<Rightarrow> autostart_State) \<Rightarrow> 'p \<Rightarrow> ui_response" where
  "ui_handleAutostart status p = ui_writeJSON (Autostart (status p))"

definition ui_handleSetAutostart ::
  "('p \<Rightarrow> 'p \<times> autostart_error option) \<Rightarrow> ('p \<Rightarrow> 'p \<times> autostart_error option) \<Rightarrow> ('p \<Rightarrow> autostart_State) \<Rightarrow>
     save_io \<Rightarrow> bool option \<Rightarrow> 'p \<times> 't daemon \<Rightarrow> ('p \<times> 't daemon) \<times> ui_response" where
  "ui_handleSetAutostart enable disable status io body s =
     (case s of (p, d) \<Rightarrow>
        case body of
          None \<Rightarrow> (s, ui_fail StatusBadRequest)
        | Some on \<Rightarrow>
            (case (if on then enable else disable) p of
               (p1, Some err) \<Rightarrow> ((p1, d), ui_fail StatusInternalServerError)
             | (p1, None) \<Rightarrow>
                 ((p1, d\<lparr>dm_store := fst (Config_SetAutostart io (dm_store d) on)\<rparr>), ui_writeJSON (Autostart (status p1)))))"

definition ui_handleCreateToken :: "save_io \<Rightarrow> bytes option \<Rightarrow> 't daemon \<Rightarrow> 't daemon \<times> ui_response" where
  "ui_handleCreateToken io random d =
     (let no_store = [(''Cache-Control'', ''no-store'')]
      in case Config_CreateControlToken io (dm_store d) random of
           (s, Inl ErrTokenExists) \<Rightarrow>
             (d\<lparr>dm_store := s\<rparr>, http_Error no_store ''a control token already exists; see config.json'' StatusConflict)
         | (s, Inl err) \<Rightarrow>
             (d\<lparr>dm_store := s\<rparr>, http_Error no_store (StatusText StatusInternalServerError) StatusInternalServerError)
         | (s, Inr token) \<Rightarrow>
             (d\<lparr>dm_store := s\<rparr>, \<lparr>hr_status = StatusCreated, hr_headers = no_store @ [(''Content-Type'', ''application/json'')],
                hr_body = JSON (NewToken token True)\<rparr>))"

text \<open>The body's only field is a pointer, nil when the field is absent.\<close>

definition ui_handleControlAccess :: "save_io \<Rightarrow> string \<Rightarrow> bool option option \<Rightarrow> 't daemon \<Rightarrow> 't daemon \<times> ui_response" where
  "ui_handleControlAccess io scope body d =
     (if scope \<noteq> ''lan'' \<and> scope \<noteq> ''remote'' then (d, http_Error [] ''not found'' StatusNotFound)
      else case body of
             Some (Some on) \<Rightarrow>
               (case Config_SetControlAccess io (dm_store d) scope on of
                  (s, Some err) \<Rightarrow> (d\<lparr>dm_store := s\<rparr>, http_Error [] ''could not save control access'' StatusInternalServerError)
                | (s, None) \<Rightarrow> (d\<lparr>dm_store := s\<rparr>, no_content))
           | _ \<Rightarrow> (d, http_Error [] ''on must be true or false'' StatusBadRequest))"

definition ui_mutate ::
  "('b \<Rightarrow> 't daemon \<Rightarrow> 't daemon \<times> config_error option) \<Rightarrow> 'b option \<Rightarrow> 't daemon \<Rightarrow> 't daemon \<times> ui_response" where
  "ui_mutate run body d =
     (case body of
        None \<Rightarrow> (d, ui_fail StatusBadRequest)
      | Some b \<Rightarrow> (case run b d of (d1, Some err) \<Rightarrow> (d1, ui_fail StatusNotFound) | (d1, None) \<Rightarrow> (d1, no_content)))"

text \<open>A change of the settings, then what has to follow it when it was saved.\<close>

definition after_change ::
  "store \<times> config_error option \<Rightarrow> ('t daemon \<Rightarrow> 't daemon) \<Rightarrow> 't daemon \<Rightarrow> 't daemon \<times> config_error option" where
  "after_change result follow d =
     (case result of
        (s, Some err) \<Rightarrow> (d\<lparr>dm_store := s\<rparr>, Some err)
      | (s, None) \<Rightarrow> (follow (d\<lparr>dm_store := s\<rparr>), None))"

definition retarget_peers :: "close_env \<Rightarrow> string list \<Rightarrow> 't daemon \<Rightarrow> 't daemon" where
  "retarget_peers env peers d = foldl (\<lambda>d peer. main_retarget env d peer (Config_EffectiveDelay (dm_cfg d) peer)) d peers"

definition applyDelay :: "close_env \<Rightarrow> string \<Rightarrow> 't daemon \<Rightarrow> 't daemon" where
  "applyDelay env ident d = retarget_peers env (Config_GroupPeers (dm_cfg d) ident) d"

definition ui_handleAdd ::
  "save_io \<Rightarrow> bytes option \<Rightarrow> bytes option \<Rightarrow> bytes option \<Rightarrow> string option \<Rightarrow> 't daemon \<Rightarrow> 't daemon \<times> ui_response" where
  "ui_handleAdd io r1 r2 r3 =
     ui_mutate (\<lambda>label d. after_change (apsnd error_of (Config_AddIngest io (dm_store d) label r1 r2 r3)) (\<lambda>d. d) d)"

definition ui_handleRemove :: "close_env \<Rightarrow> save_io \<Rightarrow> string option \<Rightarrow> 't daemon \<Rightarrow> 't daemon \<times> ui_response" where
  "ui_handleRemove env io =
     ui_mutate (\<lambda>ident d. after_change (Config_RemoveIngest io (dm_store d) ident) (\<lambda>d. main_revoke env d ident) d)"

definition ui_handleResetKey :: "close_env \<Rightarrow> save_io \<Rightarrow> bytes option \<Rightarrow> string option \<Rightarrow> 't daemon \<Rightarrow> 't daemon \<times> ui_response" where
  "ui_handleResetKey env io random body d =
     (if body = None \<or> body = Some [] then (d, http_Error [] ''camera id is required'' StatusBadRequest)
      else case Config_ResetSenderKey io (dm_store d) (the body) random of
             (s, Inl err) \<Rightarrow>
               (d\<lparr>dm_store := s\<rparr>, ui_fail (case err of ErrUnknownIngest _ \<Rightarrow> StatusNotFound | _ \<Rightarrow> StatusInternalServerError))
           | (s, Inr camera) \<Rightarrow> (main_revoke env (d\<lparr>dm_store := s\<rparr>) (i_ID camera), no_content))"

definition ui_handleDelay :: "close_env \<Rightarrow> save_io \<Rightarrow> (string \<times> int) option \<Rightarrow> 't daemon \<Rightarrow> 't daemon \<times> ui_response" where
  "ui_handleDelay env io =
     ui_mutate (\<lambda>(ident, delayMS) d. after_change (Config_SetDelay io (dm_store d) ident delayMS) (applyDelay env ident) d)"

definition ui_handleDynamicDelay :: "close_env \<Rightarrow> save_io \<Rightarrow> (string \<times> Options) option \<Rightarrow> 't daemon \<Rightarrow> 't daemon \<times> ui_response" where
  "ui_handleDynamicDelay env io =
     ui_mutate (\<lambda>(ident, options) d. after_change (Config_SetDynamicDelay io (dm_store d) ident options) (applyDelay env ident) d)"

definition ui_handleGroup :: "close_env \<Rightarrow> save_io \<Rightarrow> (string \<times> string) option \<Rightarrow> 't daemon \<Rightarrow> 't daemon \<times> ui_response" where
  "ui_handleGroup env io =
     ui_mutate (\<lambda>(ident, grp) d.
       let former = Config_GroupPeers (dm_cfg d) ident
       in after_change (Config_SetSyncGroup io (dm_store d) ident grp) (\<lambda>d. applyDelay env ident (retarget_peers env former d)) d)"

definition ui_handleLabel :: "save_io \<Rightarrow> (string \<times> string) option \<Rightarrow> 't daemon \<Rightarrow> 't daemon \<times> ui_response" where
  "ui_handleLabel io =
     ui_mutate (\<lambda>(ident, label) d. after_change (Config_SetLabel io (dm_store d) ident label) (\<lambda>d. d) d)"

definition ui_handleCodecs :: "close_env \<Rightarrow> save_io \<Rightarrow> (string \<times> string list) option \<Rightarrow> 't daemon \<Rightarrow> 't daemon \<times> ui_response" where
  "ui_handleCodecs env io =
     ui_mutate (\<lambda>(ident, codecs) d. after_change (Config_SetCodecs io (dm_store d) ident codecs) (\<lambda>d. main_revoke env d ident) d)"

section \<open>What the handlers promise\<close>

text \<open>Only a page this listener served, or a program on this machine, reaches a handler.\<close>

lemma loopback_refused:
  assumes "host \<notin> set (loopback_hosts port) \<or> site \<notin> {[], ''same-origin'', ''none''}"
  shows "fst (loopbackOnly next port host site s) = s" "hr_status (snd (loopbackOnly next port host site s)) = 404"
  using assms by (auto simp: loopbackOnly_def http_Error_def)

text \<open>The switch for the login entry answers with the state it asked for, on every platform.\<close>

context login_entry
begin

lemma switch_answer:
  assumes "sound env" "ui_handleSetAutostart (Enable env) (Disable env) (Status env) io (Some on) (p, d) = ((p', d'), resp)" "hr_status resp = 200"
  shows "\<exists>state. hr_body resp = JSON (Autostart state) \<and> as_On state = on \<and> \<not> as_Stale state \<and> state = Status env p'"
proof -
  obtain p1 err where run: "toggle env p on = (p1, err)" by fastforce
  have "err = None" using assms(2,3) run by (cases err) (auto simp: ui_handleSetAutostart_def toggle_def ui_fail_def http_Error_def split: if_splits)
  then have "p' = p1" "hr_body resp = JSON (Autostart (Status env p1))"
    using assms(2) run by (auto simp: ui_handleSetAutostart_def toggle_def ui_writeJSON_def split: if_splits)
  then show ?thesis using toggle_reported [OF assms(1)] run \<open>err = None\<close> by auto
qed

lemma switch_failed:
  assumes "ui_handleSetAutostart (Enable env) (Disable env) (Status env) io body (p, d) = ((p', d'), resp)" "hr_status resp \<noteq> 200"
  shows "d' = d"
  using assms by (auto simp: ui_handleSetAutostart_def ui_fail_def ui_writeJSON_def split: option.splits prod.splits)

end

text \<open>
  The answer to switching the login entry is the truth: on Linux, macOS and Windows, a 200 reports exactly the state that was asked for, and never a
  stale entry.
\<close>

theorem autostart_answer_is_true:
  assumes "lo_readable os" "registry_sound reg" "hr_status resp = 200"
    and "ui_handleSetAutostart (linux_Enable os) (linux_Disable os) (linux_Status os) io (Some on) (f, d) = ((f', d'), resp) \<or>
      ui_handleSetAutostart (darwin_Enable os) (darwin_Disable os) (darwin_Status os) io (Some on) (f, d) = ((f', d'), resp) \<or>
      ui_handleSetAutostart (windows_Enable reg) (windows_Disable reg) (windows_Status reg) io (Some on) (k, d) = ((k', d'), resp)"
  shows "\<exists>state. hr_body resp = JSON (Autostart state) \<and> as_On state = on \<and> \<not> as_Stale state"
  using assms linux.switch_answer [OF assms(1) _ assms(3)] darwin.switch_answer [OF assms(1) _ assms(3)] windows.switch_answer [OF assms(2) _ assms(3)] by blast

text \<open>Looking up the public address changes no more than the stored host, and nothing at all where links are made from a certificate or a public URL.\<close>

lemma reachability_effect:
  assumes "ui_handleReachability io granted found d = (d', resp)"
  shows "dm_cfg d' = dm_cfg d \<or>
    cfg_TLSCert (dm_cfg d) = [] \<and> cfg_PublicURL (dm_cfg d) = [] \<and> dm_cfg d' = (dm_cfg d)\<lparr>cfg_PublicHost := rp_PublicHost found\<rparr>"
proof (cases "dm_store d")
  case (Pair c dk)
  have "fst (fst (Config_SetPublicHost io (c, dk) (rp_PublicHost found))) \<in> {c, c\<lparr>cfg_PublicHost := rp_PublicHost found\<rparr>}"
    by (auto simp: Config_SetPublicHost_def saveLocked_outcome Let_def)
  then show ?thesis using assms Pair by (auto simp: ui_handleReachability_def Let_def split: if_splits)
qed

end
