(* ===== verification/Delay_Policy.thy ===== *)
theory Delay_Policy
  imports Settings_Page Stream_Laws
begin

text \<open>
  The delay a camera plays out at, across the components: the settings say it, the handlers of the settings page and of the
  control listener change it, the relay's buffers apply it.  The theory shows that what the running buffers apply
  is what the settings say, after any sequence of requests and media events that happen one after the other, and two ways in which it
  is not: a member of a sync group is removed, or two requests overlap between reading the settings and telling the relay, which the code
  does under separate locks.  The events of a run here are whole requests and whole starts of tracks.
\<close>

section \<open>What the settings ask for\<close>

lemma delay_options_of:
  assumes "distinct (map i_ID (cfg_Ingests c))" "cam \<in> set (cfg_Ingests c)"
  shows "Config_DelayOptions c (i_ID cam) =
    (let options = Options_Normalize (i_Options cam) (i_DelayMS cam) in options\<lparr>Enabled := Enabled options \<and> i_SyncGroup cam = []\<rparr>)"
proof -
  obtain i where "find_ingest (i_ID cam) (cfg_Ingests c) = Some i" "cfg_Ingests c ! i = cam"
    using find_ingest_member [OF assms] by metis
  then show ?thesis by (simp add: Config_DelayOptions_def)
qed

text \<open>The cameras of a group, or the camera alone.\<close>

definition same_policy :: "Config \<Rightarrow> Config \<Rightarrow> string \<Rightarrow> bool" where
  "same_policy c c' j \<longleftrightarrow> Config_EffectiveDelay c' j = Config_EffectiveDelay c j \<and> Config_DelayOptions c' j = Config_DelayOptions c j"

lemma same_policyI:
  assumes "distinct (map i_ID (cfg_Ingests c))" "distinct (map i_ID (cfg_Ingests c'))"
    and "cam \<in> set (cfg_Ingests c)" "cam' \<in> set (cfg_Ingests c')" "i_ID cam' = i_ID cam"
    and "i_DelayMS cam' = i_DelayMS cam" "i_Options cam' = i_Options cam" "i_SyncGroup cam' = i_SyncGroup cam"
    and "i_SyncGroup cam \<noteq> [] \<Longrightarrow> i_DelayMS ` {x \<in> set (cfg_Ingests c'). i_SyncGroup x = i_SyncGroup cam} =
      i_DelayMS ` {x \<in> set (cfg_Ingests c). i_SyncGroup x = i_SyncGroup cam}"
  shows "same_policy c c' (i_ID cam)"
  using effective_delay_of(1) [OF assms(1,3)] effective_delay_of(1) [OF assms(2,4)]
    delay_options_of [OF assms(1,3)] delay_options_of [OF assms(2,4)] assms(5-9)
  by (auto simp: same_policy_def)

lemma peers_iff:
  assumes "distinct (map i_ID (cfg_Ingests c))" "cam \<in> set (cfg_Ingests c)" "x \<in> set (cfg_Ingests c)"
  shows "i_ID x \<in> set (Config_GroupPeers c (i_ID cam)) \<longleftrightarrow> x = cam \<or> i_SyncGroup cam \<noteq> [] \<and> i_SyncGroup x = i_SyncGroup cam"
  using group_members [OF assms(1,2)] assms(2,3) by (auto simp: set_eq_iff split: if_splits)

lemma update_ids:
  assumes "\<And>x. i_ID (change x) = i_ID x" "idx < length xs"
  shows "map i_ID (xs[idx := change (xs ! idx)]) = map i_ID xs"
  using assms by (simp add: map_update list_update_same_conv)

text \<open>Changing one camera changes what is asked for its peers, before and after, and for nobody else.\<close>

lemma change_keeps_policy:
  assumes ids: "distinct (map i_ID (cfg_Ingests c))" and keep: "\<And>x. i_ID (change x) = i_ID x"
    and run: "change_ingest c ident change = Inr c'" and j: "j \<in> set (Config_IngestIDs c)"
    and out: "j \<notin> set (Config_GroupPeers c ident)" "j \<notin> set (Config_GroupPeers c' ident)"
  shows "same_policy c c' j"
proof -
  obtain idx where idx: "find_ingest ident (cfg_Ingests c) = Some idx"
    and c': "c' = c\<lparr>cfg_Ingests := (cfg_Ingests c)[idx := change (cfg_Ingests c ! idx)]\<rparr>"
    using run by (auto simp: change_ingest_def split: option.splits)
  let ?xs = "cfg_Ingests c" and ?old = "cfg_Ingests c ! idx" and ?new = "change (cfg_Ingests c ! idx)"
  note at = find_ingest_Some [OF idx]
  have ids': "distinct (map i_ID (cfg_Ingests c'))" using update_ids [of change idx ?xs, OF keep] at ids by (simp add: c')
  have old: "?old \<in> set ?xs" "i_ID ?old = ident" and new: "?new \<in> set (cfg_Ingests c')" "i_ID ?new = ident"
    using at keep by (auto simp: c' set_update_memI)
  obtain cam where cam: "cam \<in> set ?xs" "i_ID cam = j" using j by (auto simp: Config_IngestIDs_def)
  have "cam \<noteq> ?old" using out(1) peers_iff [OF ids old(1) cam(1)] old cam by auto
  then have kept: "x \<in> set (cfg_Ingests c') \<and> x \<noteq> ?new \<longleftrightarrow> x \<in> set ?xs \<and> x \<noteq> ?old \<and> x \<noteq> ?new" for x
    using at ids by (auto simp: c' set_update_distinct distinct_map set_update_memI)
  have cam': "cam \<in> set (cfg_Ingests c')" using cam \<open>cam \<noteq> ?old\<close> at ids by (auto simp: c' set_update_distinct distinct_map)
  have "{x \<in> set (cfg_Ingests c'). i_SyncGroup x = g} = {x \<in> set ?xs. i_SyncGroup x = g}" if "i_SyncGroup ?old \<noteq> g" "i_SyncGroup ?new \<noteq> g" for g
    using kept that by blast
  moreover have "i_SyncGroup ?old \<noteq> i_SyncGroup cam" if "i_SyncGroup cam \<noteq> []"
    using out(1) peers_iff [OF ids old(1) cam(1)] old(2) cam(2) that by auto
  moreover have "i_SyncGroup ?new \<noteq> i_SyncGroup cam" if "i_SyncGroup cam \<noteq> []"
    using out(2) peers_iff [OF ids' new(1) cam'] new(2) cam(2) that by auto
  ultimately show ?thesis using same_policyI [OF ids ids' cam(1) cam'] cam(2) by simp
qed

lemma image_of_image:
  assumes "f ` A = f ` B" "\<And>x. D x = D' (f x)" "\<And>x. P x = P' (f x)"
  shows "D ` {x \<in> A. P x} = D ` {x \<in> B. P x}"
proof -
  have "D ` {x \<in> X. P x} = D' ` {y \<in> f ` X. P' y}" for X using assms(2,3) by auto
  then show ?thesis using assms(1) by simp
qed

text \<open>A change that leaves delay, options and group alone changes nobody's policy.\<close>

lemma neutral_change_keeps_policy:
  assumes ids: "distinct (map i_ID (cfg_Ingests c))"
    and keep: "\<And>x. i_ID (change x) = i_ID x \<and> i_DelayMS (change x) = i_DelayMS x \<and> i_Options (change x) = i_Options x \<and>
      i_SyncGroup (change x) = i_SyncGroup x"
    and run: "change_ingest c ident change = Inr c'" and j: "j \<in> set (Config_IngestIDs c)"
  shows "same_policy c c' j"
proof -
  obtain idx where idx: "find_ingest ident (cfg_Ingests c) = Some idx"
    and c': "c' = c\<lparr>cfg_Ingests := (cfg_Ingests c)[idx := change (cfg_Ingests c ! idx)]\<rparr>"
    using run by (auto simp: change_ingest_def split: option.splits)
  let ?xs = "cfg_Ingests c" and ?new = "change (cfg_Ingests c ! idx)"
  note at = find_ingest_Some [OF idx]
  let ?f = "\<lambda>x. (i_ID x, i_DelayMS x, i_Options x, i_SyncGroup x)"
  have same: "map ?f (cfg_Ingests c') = map ?f ?xs"
    using at keep by (simp add: c' map_update list_update_same_conv)
  have ids': "distinct (map i_ID (cfg_Ingests c'))" using update_ids [of change idx ?xs] keep at ids by (simp add: c')
  obtain cam where cam: "cam \<in> set ?xs" "i_ID cam = j" using j by (auto simp: Config_IngestIDs_def)
  have img: "?f ` set (cfg_Ingests c') = ?f ` set ?xs" using arg_cong [OF same, of set] by simp
  have "?f cam \<in> ?f ` set (cfg_Ingests c')" unfolding img using cam(1) by (rule imageI)
  then obtain cam' where cam': "cam' \<in> set (cfg_Ingests c')" "?f cam = ?f cam'" by (rule imageE)
  have "i_DelayMS ` {x \<in> set (cfg_Ingests c'). i_SyncGroup x = g} = i_DelayMS ` {x \<in> set ?xs. i_SyncGroup x = g}" for g
    by (rule image_of_image [OF img, of _ "\<lambda>(_, d, _, _). d" _ "\<lambda>(_, _, _, h). h = g"]) simp_all
  with same_policyI [OF ids ids' cam(1) cam'(1)] cam'(2) cam(2) show ?thesis by simp
qed

section \<open>What the buffers apply\<close>

text \<open>What can happen to the buffers of a stream while it runs: packets and sender reports arrive for the track at a position, the track's
  reader takes packets, the correction timer ticks, the track ends.\<close>

datatype media_event =
    MPush nat packet instant instant instant
  | MPop nat instant
  | MReport nat u32 u64
  | MTick nat instant instant "nat \<Rightarrow> instant" "nat \<Rightarrow> instant" "instant \<times> instant" "instant \<times> instant"
  | MClose nat instant

definition at_buffer :: "'t Stream \<Rightarrow> nat \<Rightarrow> (Controller \<Rightarrow> Buffer \<Rightarrow> Controller \<times> Buffer) \<Rightarrow> 't Stream" where
  "at_buffer s i f =
     (if i < length (s_buffers s)
      then let (a, b) = s_buffers s ! i; (c, b') = f (s_delay s) b in s\<lparr>s_delay := c, s_buffers := (s_buffers s)[i := (a, b')]\<rparr>
      else s)"

fun stream_event :: "'t Stream \<Rightarrow> media_event \<Rightarrow> 't Stream" where
  "stream_event s (MPush i p t1 t2 now) = at_buffer s i (\<lambda>c b. case Buffer_Push c b p t1 t2 now of (c', b', _) \<Rightarrow> (c', b'))"
| "stream_event s (MPop i now) = at_buffer s i (\<lambda>c b. (c, fst (Buffer_Pop c b now)))"
| "stream_event s (MReport i t ntp) = at_buffer s i (\<lambda>c b. (c, Buffer_SenderReport b t ntp))"
| "stream_event s (MTick i now1 now2 until1 until2 ask1 ask2) =
     (if i < length (s_buffers s) then fst (Buffer_Correct s (snd (s_buffers s ! i)) now1 now2 until1 until2 ask1 ask2) else s)"
| "stream_event s (MClose i now) = at_buffer s i (\<lambda>c b. (c, Buffer_Close b now))"

text \<open>What media events leave alone: the target of every buffer, and the settings of the controller.\<close>

definition target_kept :: "Buffer \<Rightarrow> Buffer \<Rightarrow> bool" where
  "target_kept b b' \<longleftrightarrow> b_target b' = b_target b \<and> b_dynamic b' = b_dynamic b"

definition settings_kept :: "Controller \<Rightarrow> Controller \<Rightarrow> bool" where
  "settings_kept c c' \<longleftrightarrow> c_base c' = c_base c \<and> c_options c' = c_options c \<and> (c_state c = None \<longrightarrow> c_state c' = None)"

named_theorems kept_rules

lemma target_kept_refl [kept_rules]: "target_kept b b"
  by (simp add: target_kept_def)

lemma settings_kept_refl [kept_rules]: "settings_kept c c"
  by (simp add: settings_kept_def)

lemma target_kept_trans: "target_kept b b1 \<Longrightarrow> target_kept b1 b2 \<Longrightarrow> target_kept b b2"
  by (simp add: target_kept_def)

lemma settings_kept_trans: "settings_kept c c1 \<Longrightarrow> settings_kept c1 c2 \<Longrightarrow> settings_kept c c2"
  by (simp add: settings_kept_def)

lemma kept_simple [kept_rules]:
  "target_kept b (fst (Buffer_dynamicOffset c b now))" "target_kept b (Buffer_moveClock b d reset)" "target_kept b (Buffer_dropAll b)"
  "target_kept b (fst (Buffer_senderCorrection b))" "target_kept b (Buffer_SenderReport b t ntp)" "target_kept b (Buffer_Close b now)"
  "target_kept b (Push_late b play now)" "target_kept b (fst (Buffer_staleResetPacket b sq play now d))" "target_kept b (source_correction d b)"
  "target_kept b (Buffer_chargePace b now)"
  by (auto simp: target_kept_def Buffer_dynamicOffset_def Buffer_moveClock_def Buffer_dropAll_def Buffer_senderCorrection_def
      Buffer_SenderReport_def Buffer_Close_def Push_late_def Buffer_staleResetPacket_def source_correction_def Buffer_chargePace_def Let_def
      split: option.split)

lemma kept_align [kept_rules]: "target_kept b (Buffer_alignSenderClock b base est)"
  by (simp add: Buffer_alignSenderClock_def Let_def target_kept_def kept_simple(2) [unfolded target_kept_def])

lemma kept_marks [kept_rules]: "target_kept b (b\<lparr>b_peakLate := t\<rparr>)" "target_kept b (b\<lparr>b_recoveryAt := t\<rparr>)"
  by (simp_all add: target_kept_def)

lemma kept_goal: "settings_kept c (fst (Controller_updateGoal c now current late))"
  by (simp add: settings_kept_def Controller_updateGoal_def Let_def)

lemma kept_controller [kept_rules]: "settings_kept c (Controller_Jump c now t)" "settings_kept c (fst (Controller_Step c now late))"
proof -
  show "settings_kept c (Controller_Jump c now t)" by (simp add: settings_kept_def Controller_Jump_def Let_def split: option.split)
  show "settings_kept c (fst (Controller_Step c now late))"
  proof (cases "c_state c")
    case (Some state)
    obtain c2 ex where g: "Controller_updateGoal (c\<lparr>c_lastStep := now\<rparr>) now (State_Delay state now) late = (c2, ex)" by fastforce
    have "settings_kept (c\<lparr>c_lastStep := now\<rparr>) c2"
      using kept_goal [of "c\<lparr>c_lastStep := now\<rparr>" now "State_Delay state now" late] by (simp only: g fst_conv)
    then show ?thesis by (simp add: settings_kept_def Controller_Step_def Some Let_def g)
  qed (simp add: settings_kept_def Controller_Step_def)
qed

lemma kept_arrival:
  assumes "Buffer_dynamicArrival c b p now = (c', b', play, off, stale)"
  shows "settings_kept c c'" "target_kept b b'"
proof -
  obtain b1 off1 where b1: "Buffer_dynamicOffset c b now = (b1, off1)" by fastforce
  have k1: "target_kept b b1" using kept_simple(1) [of b c now] b1 by simp
  define pl where "pl = Buffer_playoutOf b1 (Timestamp p)"
  obtain b2 st where b2: "(if pl - b_target b1 < b_cutoff b1 then (b1, True)
      else Buffer_staleResetPacket b1 (SequenceNumber p) pl now off1) = (b2, st)" by fastforce
  have "target_kept b1 b2" using b2 kept_simple(8) [of b1 "SequenceNumber p" pl now off1] target_kept_refl by (auto split: if_splits)
  then have k2: "target_kept b b2" using k1 target_kept_trans by blast
  have "target_kept b (fst (Buffer_dynamicOffset c'' b2 now))" for c'' using k2 kept_simple(1) target_kept_trans by blast
  then show "settings_kept c c'" "target_kept b b'"
    using assms k2 b2 kept_controller(1) settings_kept_refl
    by (auto simp: Buffer_dynamicArrival_def b1 pl_def Let_def case_prod_beta split: if_splits option.splits)
qed

lemma kept_push:
  assumes "Buffer_Push c b p t1 t2 now = (c', b', front)"
  shows "settings_kept c c'" "target_kept b b'"
proof -
  let ?b0 = "Push_anchor c b p t1 t2"
  have b0: "target_kept b ?b0" using kept_simple(1) [of b c t1] by (auto simp: Push_anchor_def target_kept_def)
  obtain c1 b1 play off stale where arr: "Buffer_dynamicArrival c ?b0 p now = (c1, b1, play, off, stale)" by (metis prod_cases5)
  note k = kept_arrival [OF arr]
  have k1: "target_kept b b1" using b0 k(2) target_kept_trans by blast
  have late: "target_kept b (Push_late b1 (play + off) now)" using k1 kept_simple(7) target_kept_trans by blast
  have "target_kept x (fst (Push_enqueue x p play))" for x
    by (simp add: Push_enqueue_def target_kept_def Let_def case_prod_beta)
  then have enq: "target_kept x y" if "Push_enqueue x p play = (y, fr)" for x y fr using that by (metis fst_conv)
  have drop: "target_kept x (Buffer_dropAll (x\<lparr>b_catchUp := False\<rparr>))" for x by (simp add: target_kept_def Buffer_dropAll_def)
  have all: "settings_kept c c' \<and> target_kept b b'"
  proof (cases "b_closed b")
    case False
    let ?b2 = "Push_late b1 (play + off) now"
    have "target_kept b y" if "Push_enqueue (if b_catchUp ?b2 then Buffer_dropAll (?b2\<lparr>b_catchUp := False\<rparr>) else ?b2) p play = (y, fr)" for y fr
      using enq [OF that] late drop target_kept_trans by (simp split: if_splits) blast+
    moreover have "target_kept b (x\<lparr>b_dropped := n\<rparr>)" if "target_kept b x" for x n using that by (simp add: target_kept_def)
    ultimately show ?thesis
      using assms k(1) k1 late False by (auto simp: Buffer_Push_def arr Let_def split: if_splits prod.splits)
  qed (use assms settings_kept_refl target_kept_refl in \<open>simp add: Buffer_Push_def\<close>)
  then show "settings_kept c c'" "target_kept b b'" by blast+
qed

lemma kept_hold: "target_kept b (fst (Buffer_paceHold b now late))"
  by (simp add: target_kept_def Buffer_paceHold_def Buffer_startGroup_def Let_def)

lemma kept_pop: "target_kept b (fst (Buffer_Pop c b now))"
proof -
  obtain b1 off where b1: "Buffer_dynamicOffset c b now = (b1, off)" by fastforce
  have k1: "target_kept b b1" using kept_simple(1) [of b c now] b1 by simp
  define w where "w = time_Sub (playAt (b_queue b1 ! 0) + off) now"
  obtain b2 hold where b2: "Buffer_paceHold b1 now (- w) = (b2, hold)" by fastforce
  have k2: "target_kept b b2" using kept_hold [of b1 now "- w"] b2 k1 target_kept_trans by (metis fst_conv)
  have k3: "target_kept b (Buffer_chargePace (b2\<lparr>b_queue := q\<rparr>) now)" for q
    using kept_simple(10) [of "b2\<lparr>b_queue := q\<rparr>" now] k2 by (simp add: target_kept_def)
  show ?thesis
    using k1 k2 k3 target_kept_refl by (auto simp: Buffer_Pop_def b1 b2 w_def [symmetric] Let_def split: option.split prod.split)
qed

text \<open>The same for a stream.\<close>

definition stream_kept :: "'t Stream \<Rightarrow> 't Stream \<Rightarrow> bool" where
  "stream_kept s s' \<longleftrightarrow> settings_kept (s_delay s) (s_delay s') \<and>
     (\<forall>a' b'. (a', b') \<in> set (s_buffers s') \<longrightarrow> (\<exists>a b. (a, b) \<in> set (s_buffers s) \<and> target_kept b b'))"

lemma stream_keptI:
  assumes "settings_kept (s_delay s) (s_delay s')"
    and "\<And>a' b'. (a', b') \<in> set (s_buffers s') \<Longrightarrow> \<exists>a b. (a, b) \<in> set (s_buffers s) \<and> target_kept b b'"
  shows "stream_kept s s'"
  using assms by (simp add: stream_kept_def)

lemma stream_kept_refl: "stream_kept s s"
  by (rule stream_keptI) (auto intro: kept_rules)

lemma stream_kept_at:
  assumes "\<And>c b. settings_kept c (fst (f c b)) \<and> target_kept b (snd (f c b))"
  shows "stream_kept s (at_buffer s i f)"
proof (cases "i < length (s_buffers s)")
  case True
  obtain a b where ab: "s_buffers s ! i = (a, b)" by fastforce
  then have mem: "(a, b) \<in> set (s_buffers s)" using True by (metis nth_mem)
  obtain c' b' where f: "f (s_delay s) b = (c', b')" by fastforce
  have kept: "settings_kept (s_delay s) c'" "target_kept b b'" using assms [of "s_delay s" b] f by simp_all
  have s': "at_buffer s i f = s\<lparr>s_delay := c', s_buffers := (s_buffers s)[i := (a, b')]\<rparr>" using True ab f by (simp add: at_buffer_def)
  show ?thesis
  proof (rule stream_keptI)
    fix x y assume "(x, y) \<in> set (s_buffers (at_buffer s i f))"
    then have "(x, y) = (a, b') \<or> (x, y) \<in> set (s_buffers s)" using set_update_subset_insert by (fastforce simp: s')
    then show "\<exists>a b. (a, b) \<in> set (s_buffers s) \<and> target_kept b y" using mem kept(2) target_kept_refl by auto
  qed (simp add: s' kept)
qed (simp add: at_buffer_def stream_kept_refl)

text \<open>A tick of the correction timer respects both, by the contract of \<open>Stream_Laws\<close>.\<close>

interpretation targets: buffer_law target_kept
  by unfold_locales (fact target_kept_refl target_kept_trans kept_simple kept_align kept_marks)+

lemma stream_kept_tick: "stream_kept s (fst (Buffer_Correct s buf now1 now2 until1 until2 ask1 ask2))"
proof (rule stream_keptI)
  let ?s = "fst (Buffer_Correct s buf now1 now2 until1 until2 ask1 ask2)"
  show "settings_kept (s_delay s) (s_delay ?s)"
    using tick_delay [of s buf now1 now2 until1 until2 ask1 ask2] kept_controller(2) settings_kept_refl by metis
  fix a' b' assume "(a', b') \<in> set (s_buffers ?s)"
  then show "\<exists>a b. (a, b) \<in> set (s_buffers s) \<and> target_kept b b'"
    using targets.tick [of s buf now1 now2 until1 until2 ask1 ask2] unfolding stream_rel_nth in_set_conv_nth
    by (metis nth_mem prod.collapse snd_conv)
qed

lemma stream_kept_event: "stream_kept s (stream_event s e)"
proof (cases e)
  case (MPush i p t1 t2 now)
  have "settings_kept c (fst (case Buffer_Push c b p t1 t2 now of (c', b', _) \<Rightarrow> (c', b'))) \<and>
      target_kept b (snd (case Buffer_Push c b p t1 t2 now of (c', b', _) \<Rightarrow> (c', b')))" for c b
    using kept_push by (auto split: prod.split)
  then show ?thesis unfolding MPush stream_event.simps by (rule stream_kept_at)
next
  case (MTick i now1 now2 until1 until2 ask1 ask2)
  then show ?thesis by (simp add: stream_kept_tick stream_kept_refl)
qed (simp_all add: stream_kept_at settings_kept_refl kept_pop kept_simple)

section \<open>The policy in force\<close>

text \<open>
  A stream applies a policy: its controller was configured with it, every buffer has its target, and every buffer follows the
  controller if that has a curve.
\<close>

definition stream_policy :: "duration \<Rightarrow> Options \<Rightarrow> 't Stream \<Rightarrow> bool" where
  "stream_policy target options s \<longleftrightarrow>
     c_base (s_delay s) = target \<and> c_options (s_delay s) = Options_Normalize options (target sdiv Millisecond) \<and>
     (\<forall>a b. (a, b) \<in> set (s_buffers s) \<longrightarrow> b_target b = target \<and> (c_state (s_delay s) \<noteq> None \<longrightarrow> b_dynamic b))"

definition asked_target :: "Config \<Rightarrow> string \<Rightarrow> duration" where
  "asked_target c j = i64 (Config_EffectiveDelay c j * Millisecond)"

definition in_force :: "Config \<Rightarrow> 't Relay \<Rightarrow> string \<Rightarrow> bool" where
  "in_force c r j \<longleftrightarrow> (case r j of None \<Rightarrow> True | Some s \<Rightarrow> stream_policy (asked_target c j) (Config_DelayOptions c j) s)"

lemma stream_policy_kept: "stream_policy t opt s \<Longrightarrow> stream_kept s s' \<Longrightarrow> stream_policy t opt s'"
  unfolding stream_policy_def stream_kept_def settings_kept_def target_kept_def by metis

lemma in_force_none [simp]: "r j = None \<Longrightarrow> in_force c r j"
  by (simp add: in_force_def)

lemma in_force_same: "in_force c r j \<Longrightarrow> r' j = r j \<Longrightarrow> same_policy c c' j \<Longrightarrow> in_force c' r' j"
  by (simp add: in_force_def same_policy_def asked_target_def split: option.splits)

lemma in_force_policy: "in_force c r j \<Longrightarrow> same_policy c c' j \<Longrightarrow> in_force c' r j"
  by (erule in_force_same) simp_all

lemma Configure_settings:
  "c_base (Controller_Configure c base opts now) = base"
  "c_options (Controller_Configure c base opts now) = Options_Normalize opts (base sdiv Millisecond)"
  by (simp_all add: Controller_Configure_def Let_def)

lemma configured_policy:
  "Relay_ConfigureDelay r j target options now j = Some s \<Longrightarrow> stream_policy target options s"
  by (auto simp: Relay_ConfigureDelay_def Let_def stream_policy_def map_buffers_def Configure_settings configure_buffer_def Buffer_SetTarget_def
      split: option.splits)

lemma retarget_relay:
  "i \<noteq> j \<Longrightarrow> w_relay (dm_world (main_retarget env d i ms)) j = w_relay (dm_world d) j"
  by (auto simp: main_retarget_def Relay_ConfigureDelay_def Let_def split: option.split)

lemma retarget_in_force:
  "in_force (dm_cfg d) (w_relay (dm_world (main_retarget env d j (Config_EffectiveDelay (dm_cfg d) j)))) j"
  using configured_policy [of "w_relay (dm_world d)" j "asked_target (dm_cfg d) j" "Config_DelayOptions (dm_cfg d) j" "ce_now env j"]
  by (auto simp: in_force_def main_retarget_def asked_target_def split: option.split)

text \<open>Telling some cameras their delay puts it in force for them and disturbs no other.\<close>

lemma retarget_peers_in_force:
  assumes "j \<in> set peers \<or> in_force (dm_cfg d) (w_relay (dm_world d)) j"
  shows "in_force (dm_cfg d) (w_relay (dm_world (retarget_peers env peers d))) j \<and> dm_store (retarget_peers env peers d) = dm_store d"
  using assms
proof (induction peers arbitrary: d)
  case (Cons i peers)
  let ?d = "main_retarget env d i (Config_EffectiveDelay (dm_cfg d) i)"
  have store: "dm_store ?d = dm_store d" by (simp add: main_retarget_def)
  have "in_force (dm_cfg d) (w_relay (dm_world ?d)) j" if "j \<notin> set peers"
    using that Cons.prems retarget_in_force [of d env j] retarget_relay [of i j env d "Config_EffectiveDelay (dm_cfg d) i"]
    by (cases "i = j") (auto simp: in_force_def)
  then have "j \<in> set peers \<or> in_force (dm_cfg ?d) (w_relay (dm_world ?d)) j" by (auto simp: store)
  from Cons.IH [OF this] show ?case by (simp add: retarget_peers_def store)
qed (simp add: retarget_peers_def)

text \<open>Revoking a camera leaves every stream as it is, or drops it.\<close>

lemma stopSession_relay: "w_relay (stopSession w a clk) j = w_relay w j \<or> w_relay (stopSession w a clk) j = None"
  by (auto simp: stopSession_def Let_def stop_cleanup_def Relay_Drop_def split: option.split once.split)

lemma revoke_relay: "w_relay (dm_world (main_revoke env d i)) j = w_relay (dm_world d) j \<or> w_relay (dm_world (main_revoke env d i)) j = None"
  by (auto simp: main_revoke_def ingest_CloseIngest_def ingest_Teardown_def Let_def split: option.split prod.split)
    (metis option.distinct(1) stopSession_relay)

lemma revoke_in_force: "in_force c (w_relay (dm_world d)) j \<Longrightarrow> in_force c (w_relay (dm_world (main_revoke env d i))) j"
  using revoke_relay [of env d i j] by (auto simp: in_force_def)

lemma revoke_store: "dm_store (main_revoke env d i) = dm_store d"
  by (simp add: main_revoke_def Let_def)

section \<open>Requests and media events\<close>

text \<open>Everything that can change a camera's delay or the streams that apply it: the settings page, the control listener, a track that
  starts, media, and the end of a session.\<close>

datatype 'codec daemon_event =
    DAdd save_io "string option" "bytes option" "bytes option" "bytes option"
  | DRemove save_io "string option"
  | DResetKey save_io "bytes option" "string option"
  | DDelay save_io "(string \<times> int) option"
  | DDynamicDelay save_io "(string \<times> Options) option"
  | DGroup save_io "(string \<times> string) option"
  | DLabel save_io "(string \<times> string) option"
  | DCodecs save_io "(string \<times> string list) option"
  | DReplace save_io "Ingest list option"
  | DPublish nat string RTPCodecType 'codec string u32 nat instant
  | DStop nat "nat \<Rightarrow> instant"
  | DMedia string media_event

fun daemon_step ::
  "('codec \<Rightarrow> RTPCodecType \<Rightarrow> string \<Rightarrow> 'e + 't) \<Rightarrow> close_env \<Rightarrow> 't daemon \<Rightarrow> 'codec daemon_event \<Rightarrow> 't daemon" where
  "daemon_step newTrack env d (DAdd io body r1 r2 r3) = fst (ui_handleAdd io r1 r2 r3 body d)"
| "daemon_step newTrack env d (DRemove io body) = fst (ui_handleRemove env io body d)"
| "daemon_step newTrack env d (DResetKey io random body) = fst (ui_handleResetKey env io random body d)"
| "daemon_step newTrack env d (DDelay io body) = fst (ui_handleDelay env io body d)"
| "daemon_step newTrack env d (DDynamicDelay io body) = fst (ui_handleDynamicDelay env io body d)"
| "daemon_step newTrack env d (DGroup io body) = fst (ui_handleGroup env io body d)"
| "daemon_step newTrack env d (DLabel io body) = fst (ui_handleLabel io body d)"
| "daemon_step newTrack env d (DCodecs io body) = fst (ui_handleCodecs env io body d)"
| "daemon_step newTrack env d (DReplace io body) = fst (handleIngests env io body d)"
| "daemon_step newTrack env d (DPublish a ident kind codec mime rate addr now) =
     d\<lparr>dm_world := fst (drain_start newTrack (dm_cfg d) (dm_world d) a ident kind codec mime rate addr now)\<rparr>"
| "daemon_step newTrack env d (DStop a clk) = d\<lparr>dm_world := stopSession (dm_world d) a clk\<rparr>"
| "daemon_step newTrack env d (DMedia ident e) =
     d\<lparr>dm_world := (dm_world d)\<lparr>w_relay := (w_relay (dm_world d))(ident := map_option (\<lambda>s. stream_event s e) (w_relay (dm_world d) ident))\<rparr>\<rparr>"

definition settled :: "'t daemon \<Rightarrow> bool" where
  "settled d \<longleftrightarrow> distinct (map i_ID (cfg_Ingests (dm_cfg d))) \<and>
     (\<forall>j \<in> set (Config_IngestIDs (dm_cfg d)). in_force (dm_cfg d) (w_relay (dm_world d)) j)"

lemma settledD: "settled d \<Longrightarrow> distinct (map i_ID (cfg_Ingests (dm_cfg d)))"
  "settled d \<Longrightarrow> j \<in> set (Config_IngestIDs (dm_cfg d)) \<Longrightarrow> in_force (dm_cfg d) (w_relay (dm_world d)) j"
  by (simp_all add: settled_def)

lemma settled_revoke: "settled d \<Longrightarrow> settled (main_revoke env d i)"
  by (auto simp: settled_def revoke_store intro: revoke_in_force)

lemma settled_relay:
  assumes "settled d" "dm_store d' = dm_store d"
    and "\<And>j. in_force (dm_cfg d) (w_relay (dm_world d)) j \<Longrightarrow> in_force (dm_cfg d) (w_relay (dm_world d')) j"
  shows "settled d'"
  using assms by (simp add: settled_def)

text \<open>A change of one camera, and what \<open>Config_update\<close> makes of it.\<close>

lemma change_ids:
  assumes "change_ingest c ident change = Inr c'" "\<And>x. i_ID (change x) = i_ID x"
  shows "map i_ID (cfg_Ingests c') = map i_ID (cfg_Ingests c)"
  using assms find_ingest_Some [of ident "cfg_Ingests c"] update_ids [of change _ "cfg_Ingests c"]
  by (auto simp: change_ingest_def split: option.splits)

lemma update_outcome:
  assumes "Config_update io st ident change = (s, err)"
  shows "if err = None then change_ingest (fst st) ident change = Inr (fst s) else s = st"
  using assms by (cases st) (auto simp: update_transact transact_def split: sum.splits if_splits)

lemma settled_neutral:
  assumes "settled d" "change_ingest (dm_cfg d) ident change = Inr (fst s)"
    and "\<And>x. i_ID (change x) = i_ID x \<and> i_DelayMS (change x) = i_DelayMS x \<and> i_Options (change x) = i_Options x \<and> i_SyncGroup (change x) = i_SyncGroup x"
  shows "settled (d\<lparr>dm_store := s\<rparr>)"
proof -
  have ids: "map i_ID (cfg_Ingests (fst s)) = map i_ID (cfg_Ingests (dm_cfg d))" using change_ids [OF assms(2)] assms(3) by blast
  have "in_force (fst s) (w_relay (dm_world d)) j" if "j \<in> set (Config_IngestIDs (dm_cfg d))" for j
    by (rule in_force_policy [OF settledD(2) [OF assms(1) that] neutral_change_keeps_policy [OF settledD(1) [OF assms(1)] assms(3,2) that]])
  then show ?thesis using settledD(1) [OF assms(1)] by (simp add: settled_def Config_IngestIDs_def ids)
qed

lemma settled_retargeted:
  assumes "settled d" "change_ingest (dm_cfg d) ident change = Inr (fst s)" "\<And>x. i_ID (change x) = i_ID x"
    and "set (Config_GroupPeers (dm_cfg d) ident) \<union> set (Config_GroupPeers (fst s) ident) \<subseteq> set peers"
  shows "settled (retarget_peers env peers (d\<lparr>dm_store := s\<rparr>))"
proof -
  let ?d = "d\<lparr>dm_store := s\<rparr>"
  have ids: "map i_ID (cfg_Ingests (fst s)) = map i_ID (cfg_Ingests (dm_cfg d))" by (rule change_ids [OF assms(2,3)])
  have "j \<in> set peers \<or> in_force (dm_cfg ?d) (w_relay (dm_world ?d)) j" if j: "j \<in> set (Config_IngestIDs (dm_cfg d))" for j
    using in_force_policy [OF settledD(2) [OF assms(1) j] change_keeps_policy [OF settledD(1) [OF assms(1)] assms(3,2) j]] assms(4) by auto
  then have "in_force (fst s) (w_relay (dm_world (retarget_peers env peers ?d))) j" if "j \<in> set (Config_IngestIDs (dm_cfg d))" for j
    using retarget_peers_in_force [of j peers ?d env] that by simp
  moreover have "dm_store (retarget_peers env peers ?d) = s" using retarget_peers_in_force [of "hd peers" peers ?d env] by (cases peers) (auto simp: retarget_peers_def)
  ultimately show ?thesis using settledD(1) [OF assms(1)] by (simp add: settled_def Config_IngestIDs_def ids)
qed

lemma same_group_peers:
  assumes "distinct (map i_ID (cfg_Ingests c))" "change_ingest c ident change = Inr c'"
    and "\<And>x. i_ID (change x) = i_ID x \<and> i_SyncGroup (change x) = i_SyncGroup x"
  shows "Config_GroupPeers c' ident = Config_GroupPeers c ident"
proof -
  obtain idx where idx: "find_ingest ident (cfg_Ingests c) = Some idx"
    and c': "c' = c\<lparr>cfg_Ingests := (cfg_Ingests c)[idx := change (cfg_Ingests c ! idx)]\<rparr>"
    using assms(2) by (auto simp: change_ingest_def split: option.splits)
  let ?xs = "cfg_Ingests c" and ?f = "\<lambda>x. (i_ID x, i_SyncGroup x)"
  note at = find_ingest_Some [OF idx]
  have same: "map ?f (cfg_Ingests c') = map ?f ?xs" using at assms(3) by (simp add: c' map_update list_update_same_conv)
  have "map i_ID (cfg_Ingests c') = map i_ID ?xs" using update_ids [of change idx ?xs] at assms(3) by (simp add: c')
  then have ids': "distinct (map i_ID (cfg_Ingests c'))" using assms(1) by simp
  have old: "?xs ! idx \<in> set ?xs" and new: "change (?xs ! idx) \<in> set (cfg_Ingests c')" using at by (simp_all add: c' set_update_memI)
  have names: "i_ID (?xs ! idx) = ident" "i_ID (change (?xs ! idx)) = ident" "i_SyncGroup (change (?xs ! idx)) = i_SyncGroup (?xs ! idx)"
    using at assms(3) by simp_all
  have "map i_ID (filter (\<lambda>x. i_SyncGroup x = g) ys) = map fst (filter (\<lambda>y. snd y = g) (map ?f ys))" for g and ys :: "Ingest list"
    by (simp add: filter_map comp_def)
  then show ?thesis
    using effective_delay_of(2) [OF assms(1) old] effective_delay_of(2) [OF ids' new] same unfolding names by simp
qed

text \<open>The handlers of the settings page, by the change they make.\<close>

lemma settled_mutate:
  assumes "settled d" "\<And>b. body = Some b \<Longrightarrow> settled (fst (run b d))"
  shows "settled (fst (ui_mutate run body d))"
  using assms by (auto simp: ui_mutate_def split: option.splits prod.splits)

lemma settled_after_update:
  assumes "settled d" "\<And>s. change_ingest (dm_cfg d) ident change = Inr (fst s) \<Longrightarrow> settled (follow (d\<lparr>dm_store := s\<rparr>))"
  shows "settled (fst (after_change (Config_update io (dm_store d) ident change) follow d))"
proof -
  obtain s err where run: "Config_update io (dm_store d) ident change = (s, err)" by fastforce
  show ?thesis
  proof (cases err)
    case None
    then show ?thesis using update_outcome [OF run] assms(2) [of s] by (simp add: after_change_def run)
  next
    case (Some e)
    then have "d\<lparr>dm_store := s\<rparr> = d" using update_outcome [OF run] by simp
    then show ?thesis using assms(1) Some by (simp add: after_change_def run)
  qed
qed

lemma settled_apply:
  assumes "settled d" "change_ingest (dm_cfg d) ident change = Inr (fst s)"
    and "\<And>x. i_ID (change x) = i_ID x \<and> i_SyncGroup (change x) = i_SyncGroup x"
  shows "settled (applyDelay env ident (d\<lparr>dm_store := s\<rparr>))"
  unfolding applyDelay_def
  by (rule settled_retargeted [OF assms(1,2)]) (simp_all add: assms(3) same_group_peers [OF settledD(1) [OF assms(1)] assms(2,3)])

lemma retarget_peers_store: "dm_store (retarget_peers env peers d) = dm_store d"
  by (induction peers arbitrary: d) (simp_all add: retarget_peers_def main_retarget_def)

lemma settled_regroup:
  assumes "settled d" "change_ingest (dm_cfg d) ident change = Inr (fst s)" "\<And>x. i_ID (change x) = i_ID x"
  shows "settled (applyDelay env ident (retarget_peers env (Config_GroupPeers (dm_cfg d) ident) (d\<lparr>dm_store := s\<rparr>)))"
proof -
  let ?peers = "Config_GroupPeers (dm_cfg d) ident @ Config_GroupPeers (fst s) ident"
  have "applyDelay env ident (retarget_peers env (Config_GroupPeers (dm_cfg d) ident) (d\<lparr>dm_store := s\<rparr>)) = retarget_peers env ?peers (d\<lparr>dm_store := s\<rparr>)"
    using retarget_peers_store [of env "Config_GroupPeers (dm_cfg d) ident" "d\<lparr>dm_store := s\<rparr>"]
    by (simp add: applyDelay_def retarget_peers_def)
  then show ?thesis using settled_retargeted [OF assms, of ?peers env] by simp
qed

lemma settled_page:
  assumes "settled d"
  shows "settled (fst (ui_handleDelay env io body1 d))" "settled (fst (ui_handleDynamicDelay env io body2 d))"
    "settled (fst (ui_handleGroup env io body3 d))" "settled (fst (ui_handleLabel io body3 d))" "settled (fst (ui_handleCodecs env io body4 d))"
proof -
  show "settled (fst (ui_handleDelay env io body1 d))" unfolding ui_handleDelay_def
    by (rule settled_mutate [OF assms]) (auto simp: Config_SetDelay_def Let_def intro!: settled_after_update assms settled_apply [OF assms])
  show "settled (fst (ui_handleDynamicDelay env io body2 d))" unfolding ui_handleDynamicDelay_def
    by (rule settled_mutate [OF assms]) (auto simp: Config_SetDynamicDelay_def intro!: settled_after_update assms settled_apply [OF assms])
  show "settled (fst (ui_handleGroup env io body3 d))" unfolding ui_handleGroup_def
    by (rule settled_mutate [OF assms]) (auto simp: Config_SetSyncGroup_def Let_def intro!: settled_after_update assms settled_regroup [OF assms])
  show "settled (fst (ui_handleLabel io body3 d))" unfolding ui_handleLabel_def
    by (rule settled_mutate [OF assms]) (auto simp: Config_SetLabel_def intro!: settled_after_update assms settled_neutral [OF assms])
  show "settled (fst (ui_handleCodecs env io body4 d))" unfolding ui_handleCodecs_def
    by (rule settled_mutate [OF assms])
      (auto simp: Config_SetCodecs_def Let_def intro!: settled_after_update assms settled_revoke settled_neutral [OF assms])
qed

lemma settled_reset:
  assumes "settled d"
  shows "settled (fst (ui_handleResetKey env io random body d))"
proof (cases "body = None \<or> body = Some []")
  case False
  then obtain ident where body: "body = Some ident" by auto
  obtain c dk where store: "dm_store d = (c, dk)" by fastforce
  obtain s res where run: "Config_ResetSenderKey io (c, dk) ident random = (s, res)" by fastforce
  have goal: "(s, error_of res) = transact io (c, dk) (config_goal c (OpResetKey ident random))"
    using reset_transact [of io c dk ident random] run by simp
  show ?thesis
  proof (cases res)
    case (Inl err)
    then have "s = dm_store d" using goal store by (auto simp: transact_def error_of_def split: sum.splits if_splits)
    then have "d\<lparr>dm_store := s\<rparr> = d" by simp
    then show ?thesis using assms False body Inl run store by (auto simp: ui_handleResetKey_def)
  next
    case (Inr camera)
    then obtain change where "change_ingest (dm_cfg d) ident change = Inr (fst s)" "change = (\<lambda>ing. ing\<lparr>i_SenderKey := SenderPrefix @ hex_EncodeToString (the random)\<rparr>)"
      using goal store by (auto simp: transact_def error_of_def split: sum.splits if_splits option.splits)
    then have "settled (d\<lparr>dm_store := s\<rparr>)" using settled_neutral [OF assms, of ident change s] by simp
    then show ?thesis using settled_revoke False body Inr run store by (auto simp: ui_handleResetKey_def)
  qed
qed (use assms in \<open>auto simp: ui_handleResetKey_def\<close>)

text \<open>A new camera gets an identifier that no camera and no stream has.\<close>

lemma settled_add:
  assumes "settled d" "\<And>b. r3 = Some b \<Longrightarrow> hex_EncodeToString b \<notin> set (Config_IngestIDs (dm_cfg d)) \<and> w_relay (dm_world d) (hex_EncodeToString b) = None"
  shows "settled (fst (ui_handleAdd io r1 r2 r3 body d))"
  unfolding ui_handleAdd_def
proof (rule settled_mutate [OF assms(1)])
  fix label
  obtain c dk where store: "dm_store d = (c, dk)" by fastforce
  obtain s err where run: "apsnd error_of (Config_AddIngest io (c, dk) label r1 r2 r3) = (s, err)" by fastforce
  note goal = add_transact [of io c dk label r1 r2 r3, unfolded run]
  show "settled (fst (after_change (apsnd error_of (Config_AddIngest io (dm_store d) label r1 r2 r3)) (\<lambda>d. d) d))"
  proof (cases err)
    case (Some e)
    then have "s = dm_store d" using goal store by (auto simp: transact_def split: sum.splits if_splits)
    then have "d\<lparr>dm_store := s\<rparr> = d" by simp
    then show ?thesis using assms(1) by (simp add: after_change_def store run Some)
  next
    case None
    then obtain b1 b2 b3 where b: "r3 = Some b3" "fst s = c\<lparr>cfg_Ingests := cfg_Ingests c @ [new_ingest c label b1 b2 b3]\<rparr>"
      using goal by (auto simp: transact_def split: sum.splits if_splits option.splits)
    let ?new = "new_ingest c label b1 b2 b3"
    have new: "i_ID ?new = hex_EncodeToString b3" "i_SyncGroup ?new = []" by (simp_all add: new_ingest_def)
    have fresh: "i_ID ?new \<notin> set (Config_IngestIDs c)" "w_relay (dm_world d) (i_ID ?new) = None" using assms(2) [OF b(1)] store new by simp_all
    have ids: "distinct (map i_ID (cfg_Ingests c))" using settledD(1) [OF assms(1)] store by simp
    then have ids': "distinct (map i_ID (cfg_Ingests (fst s)))" using fresh(1) by (simp add: b(2) Config_IngestIDs_def)
    have "in_force (fst s) (w_relay (dm_world d)) (i_ID cam)" if cam: "cam \<in> set (cfg_Ingests c)" for cam
    proof (rule in_force_policy)
      show "in_force c (w_relay (dm_world d)) (i_ID cam)" using settledD(2) [OF assms(1)] cam store by (simp add: Config_IngestIDs_def)
      show "same_policy c (fst s) (i_ID cam)"
        by (rule same_policyI [OF ids ids' cam]) (use cam new in \<open>auto simp: b(2) intro!: arg_cong [of _ _ "image i_DelayMS"]\<close>)
    qed
    then have "settled (d\<lparr>dm_store := s\<rparr>)" using ids' fresh(2) by (auto simp: settled_def b(2) Config_IngestIDs_def)
    then show ?thesis by (simp add: after_change_def store run None)
  qed
qed

text \<open>A camera that shares its group with nobody can be removed without consequences for the others.\<close>

lemma settled_remove:
  assumes "settled d" "\<And>cam. body = Some (i_ID cam) \<Longrightarrow> cam \<in> set (cfg_Ingests (dm_cfg d)) \<Longrightarrow> Config_GroupPeers (dm_cfg d) (i_ID cam) = [i_ID cam]"
  shows "settled (fst (ui_handleRemove env io body d))"
  unfolding ui_handleRemove_def
proof (rule settled_mutate [OF assms(1)])
  fix ident assume body: "body = Some ident"
  obtain c dk where store: "dm_store d = (c, dk)" by fastforce
  obtain s err where run: "Config_RemoveIngest io (c, dk) ident = (s, err)" by fastforce
  have "(s, err) = transact io (c, dk) (config_goal c (OpRemove ident))" using apply_transact [of io c dk "OpRemove ident"] run by simp
  note goal = this
  show "settled (fst (after_change (Config_RemoveIngest io (dm_store d) ident) (\<lambda>d. main_revoke env d ident) d))"
  proof (cases err)
    case (Some e)
    then have "s = dm_store d" using goal store by (auto simp: transact_def split: sum.splits if_splits)
    then have "d\<lparr>dm_store := s\<rparr> = d" by simp
    then show ?thesis using assms(1) by (simp add: after_change_def store run Some)
  next
    case None
    then obtain idx where idx: "find_ingest ident (cfg_Ingests c) = Some idx"
      "fst s = c\<lparr>cfg_Ingests := take idx (cfg_Ingests c) @ drop (idx + 1) (cfg_Ingests c)\<rparr>"
      using goal by (auto simp: transact_def split: sum.splits if_splits option.splits)
    let ?xs = "cfg_Ingests c" and ?old = "cfg_Ingests c ! idx"
    note at = find_ingest_Some [OF idx(1)]
    obtain before after where parts: "?xs = before @ ?old # after" "cfg_Ingests (fst s) = before @ after"
      using id_take_nth_drop [of idx ?xs] at idx(2) by auto
    have ids: "distinct (map i_ID ?xs)" using settledD(1) [OF assms(1)] store by simp
    have "distinct (map i_ID (before @ ?old # after))" using ids parts(1) by metis
    then have ids': "distinct (map i_ID (cfg_Ingests (fst s)))" and notin: "?old \<notin> set (cfg_Ingests (fst s))"
      unfolding parts(2) by auto
    have mem: "set ?xs = insert ?old (set (cfg_Ingests (fst s)))" using arg_cong [OF parts(1), of set] parts(2) by simp
    have old: "?old \<in> set ?xs" "i_ID ?old = ident" using at by simp_all
    have alone: "Config_GroupPeers c (i_ID ?old) = [i_ID ?old]" using assms(2) [of ?old] body old store by simp
    have "in_force (fst s) (w_relay (dm_world d)) (i_ID cam)" if cam: "cam \<in> set (cfg_Ingests (fst s))" for cam
    proof (rule in_force_policy)
      have cam': "cam \<in> set ?xs" using cam mem by auto
      show "in_force c (w_relay (dm_world d)) (i_ID cam)" using settledD(2) [OF assms(1)] cam' store by (simp add: Config_IngestIDs_def)
      have "i_ID cam \<noteq> i_ID ?old" using cam notin cam' old(1) ids by (auto simp: distinct_map inj_on_def)
      then have "i_SyncGroup cam \<noteq> [] \<Longrightarrow> i_SyncGroup ?old \<noteq> i_SyncGroup cam" using peers_iff [OF ids old(1) cam'] alone by auto
      then show "same_policy c (fst s) (i_ID cam)"
        by (intro same_policyI [OF ids ids' cam' cam]) (auto simp: mem intro!: arg_cong [of _ _ "image i_DelayMS"])
    qed
    then have "settled (d\<lparr>dm_store := s\<rparr>)" using ids' by (auto simp: settled_def Config_IngestIDs_def)
    then show ?thesis by (simp add: after_change_def store run None settled_revoke)
  qed
qed

lemma settled_replace:
  fixes d :: "'t daemon"
  assumes "settled d"
  shows "settled (fst (handleIngests env io body d))"
proof (cases body)
  case (Some cams)
  obtain c dk where store: "dm_store d = (c, dk)" by fastforce
  obtain s res where run: "Config_ReplaceIngests io (c, dk) cams = (s, res)" by fastforce
  note out = replace_outcome [OF run]
  show ?thesis
  proof (cases res)
    case (Inl err)
    then have "d\<lparr>dm_store := s\<rparr> = d" using out store by simp
    then show ?thesis using assms Inl run store Some by (simp add: handleIngests_def)
  next
    case (Inr stale)
    let ?d1 = "foldl (main_revoke env) (d\<lparr>dm_store := s\<rparr>) stale"
    have "dm_store (foldl (main_revoke env) x is) = dm_store x" for x :: "'t daemon" and "is"
      by (induction "is" arbitrary: x) (simp_all add: revoke_store)
    then have st: "dm_store ?d1 = s" by simp
    let ?ids = "map i_ID (cfg_Ingests (fst s))"
    have d': "fst (handleIngests env io body d) = retarget_peers env ?ids ?d1"
      using Inr run store Some st by (simp add: handleIngests_def Let_def retarget_peers_def foldl_map)
    have "distinct ?ids" using out Inr by (simp add: comp_def normalise_ingest_def Let_def)
    moreover have "in_force (fst s) (w_relay (dm_world (retarget_peers env ?ids ?d1))) j" if "j \<in> set ?ids" for j
      using retarget_peers_in_force [of j ?ids ?d1 env] that st by simp
    ultimately show ?thesis unfolding d' settled_def by (simp add: retarget_peers_store st Config_IngestIDs_def)
  qed
qed (use assms in \<open>simp add: handleIngests_def\<close>)

lemma policy_tracked:
  assumes "stream_policy t opt s" "r ident = Some s" "Relay_Track r ident (addr, NewBuffer t rate mime k) ident = Some s'"
  shows "stream_policy t opt s'"
proof -
  let ?b = "(NewBuffer t rate mime k)\<lparr>b_stream := True, b_recoveryAt := s_recoveryAt s\<rparr>"
  let ?b2 = "case c_state (s_delay s) of None \<Rightarrow> ?b | Some state \<Rightarrow> ?b\<lparr>b_dynamic := True, b_shift := Shift state, b_cutoff := Cutoff state\<rparr>"
  have "s' = s\<lparr>s_buffers := s_buffers s @ [(addr, ?b2)]\<rparr>" using assms(2,3) by (simp add: Relay_Track_def Let_def)
  moreover have "b_target ?b2 = t" "c_state (s_delay s) \<noteq> None \<Longrightarrow> b_dynamic ?b2" by (auto simp: NewBuffer_def split: option.split)
  ultimately show ?thesis using assms(1) unfolding stream_policy_def by auto
qed

text \<open>A track that starts finds the policy of the settings, and so do the tracks its camera already has.\<close>

lemma settled_publish:
  assumes "settled d"
  shows "settled (d\<lparr>dm_world := fst (drain_start newTrack (dm_cfg d) (dm_world d) a ident kind codec mime rate addr now)\<rparr>)"
proof (rule settled_relay [OF assms])
  fix j assume j: "in_force (dm_cfg d) (w_relay (dm_world d)) j"
  let ?w = "fst (drain_start newTrack (dm_cfg d) (dm_world d) a ident kind codec mime rate addr now)"
  show "in_force (dm_cfg d) (w_relay (dm_world (d\<lparr>dm_world := ?w\<rparr>))) j"
  proof (cases "w_relay ?w = w_relay (dm_world d)")
    case False
    define T opt where "T = asked_target (dm_cfg d) ident" and "opt = Config_DelayOptions (dm_cfg d) ident"
    define ask where "ask = (if kind = KindVideo then Some addr else None)"
    obtain relay res where pub: "Relay_Publish newTrack (w_relay (dm_world d)) ident kind codec ask = (relay, res)" by fastforce
    have "relay = w_relay (dm_world d)" if "res = Inl err" for err using pub that by (auto simp: Relay_Publish_def Let_def split: sum.splits)
    then have w: "w_relay ?w = Relay_Track (Relay_ConfigureDelay relay ident T opt now) ident (addr, NewBuffer T rate mime (ask \<noteq> None))"
      using False pub by (auto simp: drain_start_def Let_def T_def opt_def asked_target_def ask_def [symmetric] split: if_splits sum.splits)
    show ?thesis
    proof (cases "j = ident")
      case True
      show ?thesis
      proof (cases "Relay_ConfigureDelay relay ident T opt now ident")
        case (Some s)
        then obtain s' where "w_relay ?w ident = Some s'" by (simp add: w Relay_Track_def Let_def)
        then have "stream_policy T opt s'" using policy_tracked [of T opt s "Relay_ConfigureDelay relay ident T opt now" ident addr rate mime "ask \<noteq> None" s'] configured_policy [OF Some] Some w by simp
        then show ?thesis using \<open>w_relay ?w ident = Some s'\<close> True by (simp add: in_force_def T_def opt_def)
      qed (simp add: w True Relay_Track_def)
    next
      case False
      have "w_relay ?w j = w_relay (dm_world d) j"
        using False pub by (auto simp: w Relay_Track_def Relay_ConfigureDelay_def Relay_Publish_def Let_def split: option.split sum.splits)
      then show ?thesis using j by (simp add: in_force_def)
    qed
  qed (use j in simp)
qed simp

lemma settled_stop: "settled d \<Longrightarrow> settled (d\<lparr>dm_world := stopSession (dm_world d) a clk\<rparr>)"
proof (erule settled_relay)
  fix j assume "in_force (dm_cfg d) (w_relay (dm_world d)) j"
  then show "in_force (dm_cfg d) (w_relay (dm_world (d\<lparr>dm_world := stopSession (dm_world d) a clk\<rparr>))) j"
    using stopSession_relay [of "dm_world d" a clk j] by (auto simp: in_force_def)
qed simp

lemma settled_media: "settled d \<Longrightarrow> settled (daemon_step newTrack env d (DMedia ident e))"
proof (erule settled_relay)
  fix j assume "in_force (dm_cfg d) (w_relay (dm_world d)) j"
  then show "in_force (dm_cfg d) (w_relay (dm_world (daemon_step newTrack env d (DMedia ident e)))) j"
    using stream_policy_kept [OF _ stream_kept_event [of _ e]] by (auto simp: in_force_def split: option.splits)
qed simp

section \<open>Runs\<close>

text \<open>What the invariant needs of an event: a new identifier is new, and the camera that is removed shares its group with nobody.\<close>

fun orderly :: "'t daemon \<Rightarrow> 'codec daemon_event \<Rightarrow> bool" where
  "orderly d (DAdd io body r1 r2 (Some b)) \<longleftrightarrow>
     hex_EncodeToString b \<notin> set (Config_IngestIDs (dm_cfg d)) \<and> w_relay (dm_world d) (hex_EncodeToString b) = None"
| "orderly d (DRemove io (Some ident)) \<longleftrightarrow> Config_GroupPeers (dm_cfg d) ident = [ident]"
| "orderly d _ \<longleftrightarrow> True"

inductive runs_to :: "('codec \<Rightarrow> RTPCodecType \<Rightarrow> string \<Rightarrow> 'e + 't) \<Rightarrow> 't daemon \<Rightarrow> 't daemon \<Rightarrow> bool" for newTrack where
  start: "runs_to newTrack d d"
| event: "runs_to newTrack d d1 \<Longrightarrow> orderly d1 e \<Longrightarrow> runs_to newTrack d (daemon_step newTrack env d1 e)"

lemma settled_step: "settled d \<Longrightarrow> orderly d e \<Longrightarrow> settled (daemon_step newTrack env d e)"
proof (cases e)
  case (DAdd io body r1 r2 r3)
  then show "settled d \<Longrightarrow> orderly d e \<Longrightarrow> ?thesis" by (auto intro: settled_add)
next
  case (DRemove io body)
  then show "settled d \<Longrightarrow> orderly d e \<Longrightarrow> ?thesis" by (auto intro: settled_remove)
qed (simp_all add: settled_page settled_reset settled_replace settled_publish settled_stop settled_media del: daemon_step.simps(12))

lemma runs_settled: "runs_to newTrack d d' \<Longrightarrow> settled d \<Longrightarrow> settled d'"
  by (induction rule: runs_to.induct) (simp_all add: settled_step)

text \<open>
  C15: With requests served one at a time, what plays out is what the settings say.  Start with no stream, and let requests on
  the settings page and the control listener, tracks, media and the ends of sessions happen in any order, each of them
  whole before the next, so long as no camera that shares its sync group with others is removed and a new camera gets an identifier
  that is not in use.  Then the controller of every running stream has the base delay and the options the settings give
  its camera, the base delay being in a sync group the largest of the group.  While no adaptive curve is set up, every packet of the camera is held for
  exactly that delay; while one is, every track of the camera follows this one curve.
\<close>

theorem playout_delay_follows_settings:
  assumes "runs_to newTrack d d'" "w_relay (dm_world d) = Relay_New" "distinct (Config_IngestIDs (dm_cfg d))"
    and "ident \<in> set (Config_IngestIDs (dm_cfg d'))" "w_relay (dm_world d') ident = Some s" "(a, b) \<in> set (s_buffers s)"
  shows "c_base (s_delay s) = asked_target (dm_cfg d') ident \<and>
    c_options (s_delay s) = Options_Normalize (Config_DelayOptions (dm_cfg d') ident) (asked_target (dm_cfg d') ident sdiv Millisecond) \<and>
    effective_delay (s_delay s) b now =
      (case c_state (s_delay s) of
         None \<Rightarrow> i64 (Config_EffectiveDelay (dm_cfg d') ident * Millisecond) | Some curve \<Rightarrow> State_Delay curve now)"
proof -
  have "settled d" using assms(2,3) by (simp add: settled_def Relay_New_def Config_IngestIDs_def)
  then have "settled d'" using runs_settled assms(1) by blast
  then have policy: "stream_policy (asked_target (dm_cfg d') ident) (Config_DelayOptions (dm_cfg d') ident) s"
    using settledD(2) assms(4,5) by (fastforce simp: in_force_def)
  then have "b_target b = asked_target (dm_cfg d') ident" "c_state (s_delay s) \<noteq> None \<Longrightarrow> b_dynamic b"
    using assms(6) unfolding stream_policy_def by blast+
  then have "effective_delay (s_delay s) b now =
      (case c_state (s_delay s) of
         None \<Rightarrow> i64 (Config_EffectiveDelay (dm_cfg d') ident * Millisecond) | Some curve \<Rightarrow> State_Delay curve now)"
    by (auto simp: effective_delay_def Buffer_dynamicOffset_def Buffer_dropAll_def asked_target_def Let_def split: option.split)
  with policy show ?thesis by (simp add: stream_policy_def)
qed

section \<open>Removing a member of a group\<close>

lemma removed_outcome:
  assumes "ui_handleRemove env io (Some ident) d = (d', resp)" "hr_status resp = 204"
  obtains s idx where "d' = main_revoke env (d\<lparr>dm_store := s\<rparr>) ident" "find_ingest ident (cfg_Ingests (dm_cfg d)) = Some idx"
    "fst s = (dm_cfg d)\<lparr>cfg_Ingests := take idx (cfg_Ingests (dm_cfg d)) @ drop (idx + 1) (cfg_Ingests (dm_cfg d))\<rparr>"
proof -
  obtain c dk where store: "dm_store d = (c, dk)" by fastforce
  obtain s err where run: "Config_RemoveIngest io (c, dk) ident = (s, err)" by fastforce
  have goal: "(s, err) = transact io (c, dk) (config_goal c (OpRemove ident))" using apply_transact [of io c dk "OpRemove ident"] run by simp
  have "err = None" "d' = main_revoke env (d\<lparr>dm_store := s\<rparr>) ident"
    using assms by (auto simp: ui_handleRemove_def ui_mutate_def after_change_def store run ui_fail_def http_Error_def split: option.splits)
  then show ?thesis
    using goal that [of s] store by (auto simp: transact_def split: sum.splits if_splits option.splits)
qed

lemma revoke_keeps_others:
  "world_ok (dm_world d) \<Longrightarrow> j \<noteq> i \<Longrightarrow> w_relay (dm_world (main_revoke env d i)) j = w_relay (dm_world d) j"
  using ingest_CloseIngest_effect(3) [of "dm_world d"] by (simp add: main_revoke_def Let_def)

text \<open>
  C16: Removing the slowest camera of a sync group leaves the others slow.  The settings page retargets the peers of a
  camera that leaves its group, but not those of a camera that is deleted: their running streams keep the delay of
  the camera that is gone, although the settings ask for less.
\<close>

theorem removed_member_still_delays_its_group:
  assumes "settled d" "world_ok (dm_world d)"
    and "cam \<in> set (cfg_Ingests (dm_cfg d))" "peer \<in> set (cfg_Ingests (dm_cfg d))" "i_SyncGroup peer = i_SyncGroup cam" "i_SyncGroup cam \<noteq> []"
    and "\<And>x. x \<in> set (cfg_Ingests (dm_cfg d)) \<Longrightarrow> x \<noteq> cam \<Longrightarrow> i_SyncGroup x = i_SyncGroup cam \<Longrightarrow> i_DelayMS x < i_DelayMS cam"
    and "peer \<noteq> cam" "w_relay (dm_world d) (i_ID peer) = Some s" "ui_handleRemove env io (Some (i_ID cam)) d = (d', resp)" "hr_status resp = 204"
  shows "w_relay (dm_world d') (i_ID peer) = Some s \<and> c_base (s_delay s) = i64 (i_DelayMS cam * Millisecond) \<and>
    Config_EffectiveDelay (dm_cfg d') (i_ID peer) < i_DelayMS cam"
proof -
  let ?c = "dm_cfg d" and ?xs = "cfg_Ingests (dm_cfg d)"
  have ids: "distinct (map i_ID ?xs)" by (rule settledD(1) [OF assms(1)])
  obtain st idx where out: "d' = main_revoke env (d\<lparr>dm_store := st\<rparr>) (i_ID cam)" "find_ingest (i_ID cam) ?xs = Some idx"
    "fst st = ?c\<lparr>cfg_Ingests := take idx ?xs @ drop (idx + 1) ?xs\<rparr>"
    using removed_outcome [OF assms(10,11)] by metis
  note at = find_ingest_Some [OF out(2)]
  have cam: "?xs ! idx = cam" using at assms(3) ids by (auto simp: distinct_map inj_on_def)
  obtain before after where parts: "?xs = before @ cam # after" "cfg_Ingests (fst st) = before @ after"
    using id_take_nth_drop [of idx ?xs] at cam out(3) by auto
  have dist: "distinct (map i_ID (before @ cam # after))" using ids parts(1) by metis
  then have ids': "distinct (map i_ID (cfg_Ingests (fst st)))" and notin: "cam \<notin> set (cfg_Ingests (fst st))" unfolding parts(2) by auto
  have mem: "set ?xs = insert cam (set (cfg_Ingests (fst st)))" using arg_cong [OF parts(1), of set] parts(2) by simp
  have peer': "peer \<in> set (cfg_Ingests (fst st))" using assms(4,8) mem by auto
  have names: "i_ID peer \<noteq> i_ID cam" using assms(3,4,8) ids by (auto simp: distinct_map inj_on_def)
  let ?G = "i_DelayMS ` {x \<in> set (cfg_Ingests (fst st)). i_SyncGroup x = i_SyncGroup cam}"
  have less: "x < i_DelayMS cam" if "x \<in> ?G" for x using that assms(7) notin mem by auto
  have fin: "finite ?G" "?G \<noteq> {}" using peer' assms(5) by auto
  have "dm_cfg d' = fst st" by (simp add: out(1) revoke_store)
  then have small: "Config_EffectiveDelay (dm_cfg d') (i_ID peer) < i_DelayMS cam"
    using effective_delay_of(1) [OF ids' peer'] assms(5,6) less Max_in [OF fin] by simp
  have "{x \<in> set ?xs. i_SyncGroup x = i_SyncGroup cam} = insert cam {x \<in> set (cfg_Ingests (fst st)). i_SyncGroup x = i_SyncGroup cam}" using mem by auto
  then have "Max (i_DelayMS ` {x \<in> set ?xs. i_SyncGroup x = i_SyncGroup cam}) = max (i_DelayMS cam) (Max ?G)" using Max_insert [OF fin] by simp
  then have "Config_EffectiveDelay ?c (i_ID peer) = i_DelayMS cam"
    using effective_delay_of(1) [OF ids assms(4)] assms(5,6) less [OF Max_in [OF fin]] by simp
  moreover have "stream_policy (asked_target ?c (i_ID peer)) (Config_DelayOptions ?c (i_ID peer)) s"
    using settledD(2) [OF assms(1), of "i_ID peer"] assms(4,9) by (simp add: in_force_def Config_IngestIDs_def)
  ultimately have "c_base (s_delay s) = i64 (i_DelayMS cam * Millisecond)" by (simp add: stream_policy_def asked_target_def)
  moreover have "w_relay (dm_world d') (i_ID peer) = Some s"
    using revoke_keeps_others [of "d\<lparr>dm_store := st\<rparr>" "i_ID peer" "i_ID cam" env] assms(2,9) names by (simp add: out(1))
  ultimately show ?thesis using small by blast
qed

section \<open>An example\<close>

text \<open>Two cameras in a group, with 1 s and 2 s; the first has a publisher.\<close>

definition group_world :: "track world" where
  "group_world = \<lparr>w_srv = ingest_NewServer\<lparr>sv_sessions := [''r'' \<mapsto> 7], sv_byIngest := [''a'' \<mapsto> ''r''],
       sv_heap := [7 \<mapsto> \<lparr>ss_Resource = ''r'', ss_IngestID = ''a'', ss_ended = False, ss_once = NotRun\<rparr>]\<rparr>,
     w_relay = Relay_New, w_stats = Registry_New, w_stopped = []\<rparr>"

definition group_daemon :: "track daemon" where
  "group_daemon = \<lparr>dm_store = (example_group, None), dm_world = group_world, dm_subs = ey_w subscribing_start\<rparr>"

definition example_track :: "unit \<Rightarrow> RTPCodecType \<Rightarrow> string \<Rightarrow> unit + track" where
  "example_track = (\<lambda>_ _ _. Inr (7, KindVideo))"

definition live_daemon :: "track daemon" where
  "live_daemon = daemon_step example_track quiet_env group_daemon (DPublish 7 ''a'' KindVideo () ''video/H264'' 90000 9 5)"

lemma example_group_list:
  "cfg_Ingests example_group = [example_ingest ''a'' 1 ''g'', example_ingest ''b'' 2 ''g'']" "i_ID (example_ingest x n g) = x"
  "i_SyncGroup (example_ingest x n g) = g"
  by (simp_all add: example_group_def example_ingest_def)

lemma group_settled: "settled group_daemon"
  by (simp add: settled_def group_daemon_def group_world_def Relay_New_def example_group_list)

lemma live_settled: "settled live_daemon"
  unfolding live_daemon_def by (simp add: settled_publish [OF group_settled])

lemma live_fields:
  "dm_store live_daemon = (example_group, None)" "w_srv (dm_world live_daemon) = w_srv group_world"
  "\<exists>s b. w_relay (dm_world live_daemon) ''a'' = Some s \<and> s_buffers s = [(9, b)] \<and> c_state (s_delay s) = None"
proof -
  have cur: "currentLocked (w_srv group_world) 7" by (simp add: currentLocked_def group_world_def)
  show "dm_store live_daemon = (example_group, None)" "w_srv (dm_world live_daemon) = w_srv group_world"
    by (simp_all add: live_daemon_def group_daemon_def drain_start_def Relay_Publish_def example_track_def Let_def)
  have "\<not> Enabled (Config_DelayOptions example_group ''a'')"
    using effective_delay_of(3) [of example_group "example_ingest ''a'' 1 ''g''"] by (simp add: example_group_list)
  then have off: "c_state (Controller_Configure Controller_zero t (Config_DelayOptions example_group ''a'') now) = None" for t now
    by (simp add: Controller_Configure_def Controller_zero_def Let_def)
  show "\<exists>s b. w_relay (dm_world live_daemon) ''a'' = Some s \<and> s_buffers s = [(9, b)] \<and> c_state (s_delay s) = None"
    using cur off by (simp add: live_daemon_def group_daemon_def drain_start_def Relay_Publish_def example_track_def Let_def Relay_Track_def
        Relay_ConfigureDelay_def map_buffers_def) (simp add: group_world_def Relay_New_def Stream_new_def)
qed

theorem playout_delay_follows_settings_witness:
  "\<exists>s b. w_relay (dm_world live_daemon) ''a'' = Some s \<and> (9, b) \<in> set (s_buffers s) \<and> effective_delay (s_delay s) b 0 = 2 * Second"
proof -
  obtain s b where live: "w_relay (dm_world live_daemon) ''a'' = Some s" "s_buffers s = [(9, b)]" "c_state (s_delay s) = None"
    using live_fields(3) by blast
  have run: "runs_to example_track group_daemon live_daemon"
    unfolding live_daemon_def by (rule runs_to.event [OF runs_to.start]) simp
  have ids: "Config_IngestIDs (dm_cfg group_daemon) = [''a'', ''b'']" "Config_IngestIDs (dm_cfg live_daemon) = [''a'', ''b'']"
    by (simp_all add: live_fields group_daemon_def Config_IngestIDs_def example_group_list)
  have none: "w_relay (dm_world group_daemon) = Relay_New" by (simp add: group_daemon_def group_world_def)
  have "Config_EffectiveDelay example_group ''a'' = 2000" by code_simp
  moreover have "effective_delay (s_delay s) b 0 = i64 (Config_EffectiveDelay (dm_cfg live_daemon) ''a'' * Millisecond)"
    using playout_delay_follows_settings [OF run none _ _ live(1), of 9 b 0] ids live by simp
  ultimately show ?thesis using live by (simp add: live_fields i64_def)
qed

lemma live_world_ok: "world_ok (dm_world live_daemon)"
proof -
  have w: "tables_ok (w_srv group_world)" "stops_ok (w_srv group_world)" "relay_ok (w_srv group_world) (w_relay group_world)"
    by (auto simp: tables_ok_def stops_ok_def relay_ok_def group_world_def ingest_NewServer_def Relay_New_def)
  have "sv_heap (w_srv group_world) 7 = Some \<lparr>ss_Resource = ''r'', ss_IngestID = ''a'', ss_ended = False, ss_once = NotRun\<rparr>"
    by (simp add: group_world_def)
  from relay_ok_drain [OF w(3) this w(2), of KindVideo example_group "()" "''video/H264''" 90000 9 5]
  have "relay_ok (w_srv group_world) (w_relay (dm_world live_daemon))"
    by (simp add: live_daemon_def group_daemon_def example_track_def)
  then show ?thesis using w by (simp add: world_ok_def system_inv_def srv_def live_fields claims_ok_def)
qed

theorem removed_member_still_delays_its_group_witness:
  "\<exists>d' resp s. ui_handleRemove quiet_env all_ok (Some ''b'') live_daemon = (d', resp) \<and> hr_status resp = 204 \<and>
     w_relay (dm_world d') ''a'' = Some s \<and> c_base (s_delay s) = 2 * Second \<and> Config_EffectiveDelay (dm_cfg d') ''a'' < 2000"
proof -
  let ?cam = "example_ingest ''b'' 2 ''g''" and ?peer = "example_ingest ''a'' 1 ''g''"
  obtain s where live: "w_relay (dm_world live_daemon) ''a'' = Some s" using live_fields(3) by blast
  obtain d' resp where run: "ui_handleRemove quiet_env all_ok (Some (i_ID ?cam)) live_daemon = (d', resp)" by fastforce
  then have status: "hr_status resp = 204"
    by (auto simp: ui_handleRemove_def ui_mutate_def after_change_def live_fields Config_RemoveIngest_def example_group_list
        saveLocked_outcome io_ok_def all_ok_def no_content_def Let_def)
  have delays: "i_DelayMS ?cam = 2000" "i_DelayMS ?peer = 1000" by (simp_all add: example_ingest_def)
  have "?peer \<noteq> ?cam" using delays by auto
  from removed_member_still_delays_its_group [OF live_settled live_world_ok _ _ _ _ _ this _ run status, of s]
  show ?thesis using live run status delays by (auto simp: live_fields example_group_list i64_def)
qed

section \<open>Two requests at once\<close>

text \<open>The tracks a camera has in the relay; telling cameras a delay changes none.\<close>

definition track_ids :: "'t daemon \<Rightarrow> string \<Rightarrow> nat list option" where
  "track_ids d ident = map_option (\<lambda>s. map fst (s_buffers s)) (w_relay (dm_world d) ident)"

lemma retarget_tracks: "track_ids (main_retarget env d i ms) j = track_ids d j"
  by (auto simp: track_ids_def main_retarget_def Relay_ConfigureDelay_def Let_def map_buffers_def comp_def case_prod_beta split: option.split)

lemma retarget_peers_tracks: "track_ids (retarget_peers env peers d) j = track_ids d j"
  by (induction peers arbitrary: d) (simp_all add: retarget_peers_def retarget_tracks)

lemma retarget_target:
  assumes "w_relay (dm_world (main_retarget env d ident ms)) ident = Some s" "(a, b) \<in> set (s_buffers s)"
  shows "b_target b = i64 (ms * Millisecond)"
  using configured_policy [of "w_relay (dm_world d)" ident "i64 (ms * Millisecond)" "Config_DelayOptions (dm_cfg d) ident" "ce_now env ident" s] assms
  by (auto simp: main_retarget_def stream_policy_def)

text \<open>
  Requests that overlap can leave a stale delay behind.  \<^verbatim>\<open>applyDelay\<close> reads a camera's delay under the lock of the settings and gives it to
  the relay under the relay's own lock.  A request that has read 2 s for camera a, and gives it to the relay only after another request has set
  1.5 s for the group and was answered, leaves the running stream at 2 s although the settings, and the page, say 1.5 s.
\<close>

theorem stale_delay_can_win:
  "\<exists>d1 d2 resp s b. ui_handleDelay quiet_env all_ok (Some (''b'', 1500)) live_daemon = (d1, resp) \<and> hr_status resp = 204 \<and>
     d2 = main_retarget quiet_env d1 ''a'' (Config_EffectiveDelay (dm_cfg live_daemon) ''a'') \<and>
     w_relay (dm_world d2) ''a'' = Some s \<and> s_buffers s = [(9, b)] \<and> b_target b = 2 * Second \<and>
     Config_EffectiveDelay (dm_cfg d2) ''a'' = 1500"
proof -
  obtain d1 resp where run: "ui_handleDelay quiet_env all_ok (Some (''b'', 1500)) live_daemon = (d1, resp)" by fastforce
  let ?st = "Config_SetDelay all_ok (example_group, None) ''b'' 1500"
  have st: "snd ?st = None" "Config_EffectiveDelay (fst (fst ?st)) ''a'' = 1500" "Config_EffectiveDelay example_group ''a'' = 2000" by code_simp+
  then have out: "hr_status resp = 204" "d1 = applyDelay quiet_env ''b'' (live_daemon\<lparr>dm_store := fst ?st\<rparr>)"
    using run by (auto simp: ui_handleDelay_def ui_mutate_def after_change_def live_fields no_content_def split: prod.splits)
  let ?d2 = "main_retarget quiet_env d1 ''a'' (Config_EffectiveDelay (dm_cfg live_daemon) ''a'')"
  have "dm_store ?d2 = fst ?st" unfolding out(2) by (simp add: applyDelay_def retarget_peers_store main_retarget_def)
  moreover have "track_ids ?d2 ''a'' = Some [9]"
    using live_fields(3) unfolding out(2) applyDelay_def by (auto simp: retarget_tracks retarget_peers_tracks) (auto simp: track_ids_def)
  then obtain s b where "w_relay (dm_world ?d2) ''a'' = Some s" "s_buffers s = [(9, b)]"
    by (auto simp: track_ids_def)
  moreover from this have "b_target b = 2 * Second" using retarget_target [of quiet_env d1 "''a''" _ s 9 b] st(3) by (simp add: live_fields i64_def)
  ultimately show ?thesis using run out(1) st(2) by auto
qed
end
