(* ===== verification/Path_Failover.thy ===== *)
theory Path_Failover
  imports Http Net_Addr
begin

text \<open>
  \<^verbatim>\<open>internal/ingest/path_failover.go\<close> and \<^verbatim>\<open>describePair\<close> of \<^verbatim>\<open>whip.go\<close>: when a publisher's return path moves to another address,
  and how the dashboard names the path.

  A candidate pair of the ICE library is a pointer to an object that changes while the connection runs.  \<open>pairs\<close> is what the
  objects hold when a handler runs; \<open>None\<close> is the nil pointer.
\<close>

section \<open>Handlers\<close>

definition pathSilence :: duration where "pathSilence = 2 * Second"

record ice_pair =
  ip_localAddress :: string
  ip_localPort :: int
  ip_remoteAddress :: string
  ip_remotePort :: int
  ip_roundTrip :: duration
  ip_lastReceived :: instant

record ICECandidate =
  ic_Typ :: string
  ic_Protocol :: string
  ic_Address :: string
  ic_Port :: u16

record ICECandidatePair =
  cpair_Local :: "ICECandidate option"
  cpair_Remote :: "ICECandidate option"

record pathFailover =
  pf_selected :: "ICECandidatePair option"
  pf_observed :: "nat option"

definition pathFailover_new :: pathFailover where
  "pathFailover_new = \<lparr>pf_selected = None, pf_observed = None\<rparr>"

definition matchesSelection :: "ice_pair option \<Rightarrow> ICECandidatePair option \<Rightarrow> bool" where
  "matchesSelection pair selected =
     (case (pair, selected) of
        (Some p, Some s) \<Rightarrow>
          (case (cpair_Local s, cpair_Remote s) of
             (Some l, Some r) \<Rightarrow>
               ip_localAddress p = ic_Address l \<and> ip_localPort p = uint (ic_Port l) \<and>
               ip_remoteAddress p = ic_Address r \<and> ip_remotePort p = uint (ic_Port r)
           | _ \<Rightarrow> False)
      | _ \<Rightarrow> False)"

definition pathFailover_binding ::
  "(nat \<Rightarrow> ice_pair) \<Rightarrow> instant \<Rightarrow> pathFailover \<Rightarrow> nat option \<Rightarrow> pathFailover \<times> bool" where
  "pathFailover_binding pairs now f pair =
     (let selected = pf_selected f
      in if matchesSelection (map_option pairs pair) selected then (f\<lparr>pf_observed := pair\<rparr>, False)
         else case (pf_observed f, pair) of
                (Some observed, Some p) \<Rightarrow>
                  if \<not> matchesSelection (Some (pairs observed)) selected \<or> ip_roundTrip (pairs p) \<le> 0 then (f, False)
                  else let last = ip_lastReceived (pairs observed)
                       in if last = 0 \<or> time_Sub now last < pathSilence then (f, False) else (f, True)
              | _ \<Rightarrow> (f, False))"

text \<open>The callback of \<^verbatim>\<open>watchPath\<close> stores every new selection.\<close>

definition pathFailover_select :: "pathFailover \<Rightarrow> ICECandidatePair option \<Rightarrow> pathFailover" where
  "pathFailover_select f pair = f\<lparr>pf_selected := pair\<rparr>"

section \<open>The name of a path\<close>

text \<open>\<open>parseAddr\<close> is \<^verbatim>\<open>netip.ParseAddr\<close>.\<close>

definition isPrivate :: "(string \<Rightarrow> Addr option) \<Rightarrow> string \<Rightarrow> bool" where
  "isPrivate parseAddr address =
     (case parseAddr address of
        None \<Rightarrow> False
      | Some addr \<Rightarrow> Addr_IsPrivate addr \<or> Addr_IsLoopback addr \<or> Addr_IsLinkLocalUnicast addr)"

definition describePair :: "(string \<Rightarrow> Addr option) \<Rightarrow> ICECandidate \<Rightarrow> ICECandidate \<Rightarrow> string" where
  "describePair parseAddr local remote =
     (let kind = (if ic_Typ remote = ''relay'' then ''relayed''
                  else if ic_Typ remote = ''srflx'' \<or> ic_Typ remote = ''prflx'' then ''through NAT''
                  else if ic_Typ remote = ''host'' \<and> isPrivate parseAddr (ic_Address remote) then ''local network''
                  else ''direct'')
      in kind @ '' over '' @ ic_Protocol remote @ '' via '' @ ic_Address local)"

section \<open>Runs\<close>

text \<open>What the ICE agent reports: a new selection, or an authenticated binding request on a pair.\<close>

datatype ice_event = Selected "ICECandidatePair option" | Binding "nat \<Rightarrow> ice_pair" instant "nat option"

fun failover_step :: "pathFailover \<Rightarrow> ice_event \<Rightarrow> pathFailover" where
  "failover_step f (Selected pair) = pathFailover_select f pair"
| "failover_step f (Binding pairs now pair) = fst (pathFailover_binding pairs now f pair)"

text \<open>A pair was confirmed: in some request it was the pair of the selection of that moment.\<close>

fun confirmed :: "pathFailover \<Rightarrow> ice_event list \<Rightarrow> nat \<Rightarrow> bool" where
  "confirmed f [] p \<longleftrightarrow> False"
| "confirmed f (e # es) p \<longleftrightarrow>
     (case e of Selected _ \<Rightarrow> False | Binding pairs now pair \<Rightarrow> pair = Some p \<and> matchesSelection (Some (pairs p)) (pf_selected f)) \<or>
     confirmed (failover_step f e) es p"

lemma binding_selected [simp]: "pf_selected (fst (pathFailover_binding pairs now f pair)) = pf_selected f"
  by (auto simp: pathFailover_binding_def Let_def split: option.split)

lemma binding_observed:
  "pf_observed (fst (pathFailover_binding pairs now f pair)) =
     (if matchesSelection (map_option pairs pair) (pf_selected f) then pair else pf_observed f)"
  by (auto simp: pathFailover_binding_def Let_def split: option.split)

lemma observed_confirmed:
  "pf_observed (foldl failover_step f es) = Some p \<Longrightarrow> pf_observed f = Some p \<or> confirmed f es p"
proof (induction es arbitrary: f)
  case (Cons e es)
  then have "pf_observed (failover_step f e) = Some p \<or> confirmed (failover_step f e) es p" by simp
  then show ?case
    by (cases e) (auto simp: pathFailover_select_def binding_observed split: if_splits)
qed simp

text \<open>
  C20: The return path moves only when it has to and only to a path that works: a request is answered with a switch only when its own pair has completed a
  round trip and is not the selected path, and the selected path was itself seen carrying requests, in this connection, and
  has then been silent for two seconds.
\<close>

theorem failover_is_justified:
  assumes "f = foldl failover_step pathFailover_new es" "snd (pathFailover_binding pairs now f pair)"
  shows "\<exists>p observed. pair = Some p \<and> 0 < ip_roundTrip (pairs p) \<and> \<not> matchesSelection (Some (pairs p)) (pf_selected f) \<and>
    confirmed pathFailover_new es observed \<and> matchesSelection (Some (pairs observed)) (pf_selected f) \<and>
    ip_lastReceived (pairs observed) \<noteq> 0 \<and> ip_lastReceived (pairs observed) + 2 * Second \<le> now"
proof -
  obtain p observed where *: "pair = Some p" "pf_observed f = Some observed" "\<not> matchesSelection (Some (pairs p)) (pf_selected f)"
    "0 < ip_roundTrip (pairs p)" "matchesSelection (Some (pairs observed)) (pf_selected f)" "ip_lastReceived (pairs observed) \<noteq> 0"
    "\<not> time_Sub now (ip_lastReceived (pairs observed)) < pathSilence"
    using assms(2) by (auto simp: pathFailover_binding_def Let_def not_le split: if_splits option.splits)
  have "confirmed pathFailover_new es observed"
    using observed_confirmed [of pathFailover_new es observed] *(2) assms(1) by (simp add: pathFailover_new_def)
  then show ?thesis using * time_Sub_less_iff [of "pathSilence" now "ip_lastReceived (pairs observed)"] by (auto simp: pathSilence_def)
qed

text \<open>A silent path is left as soon as another one is confirmed by a request.\<close>

lemma failover_happens:
  assumes "pf_observed f = Some observed" "matchesSelection (Some (pairs observed)) (pf_selected f)"
    and "\<not> matchesSelection (Some (pairs p)) (pf_selected f)" "0 < ip_roundTrip (pairs p)"
    and "ip_lastReceived (pairs observed) \<noteq> 0" "ip_lastReceived (pairs observed) + 2 * Second \<le> now"
  shows "snd (pathFailover_binding pairs now f (Some p))"
  using assms time_Sub_less_iff [of pathSilence now "ip_lastReceived (pairs observed)"] by (auto simp: pathFailover_binding_def pathSilence_def Let_def)

definition example_candidate :: "string \<Rightarrow> u16 \<Rightarrow> ICECandidate" where
  "example_candidate address port = \<lparr>ic_Typ = ''host'', ic_Protocol = ''udp'', ic_Address = address, ic_Port = port\<rparr>"

definition example_pairs :: "nat \<Rightarrow> ice_pair" where
  "example_pairs p = \<lparr>ip_localAddress = ''l'', ip_localPort = 7332, ip_remoteAddress = (if p = 0 then ''wifi'' else ''cell''), ip_remotePort = 5000,
     ip_roundTrip = 40 * Millisecond, ip_lastReceived = Second\<rparr>"

definition example_selection :: "ICECandidatePair option" where
  "example_selection = Some \<lparr>cpair_Local = Some (example_candidate ''l'' 7332), cpair_Remote = Some (example_candidate ''wifi'' 5000)\<rparr>"

theorem failover_is_justified_witness:
  "\<exists>f. f = foldl failover_step pathFailover_new [Selected example_selection, Binding example_pairs Second (Some 0)] \<and>
     snd (pathFailover_binding example_pairs (3 * Second) f (Some 1)) \<and>
     (\<exists>observed. confirmed pathFailover_new [Selected example_selection, Binding example_pairs Second (Some 0)] observed \<and>
        ip_lastReceived (example_pairs observed) + 2 * Second \<le> 3 * Second)"
proof -
  let ?es = "[Selected example_selection, Binding example_pairs Second (Some 0)]"
  let ?f = "foldl failover_step pathFailover_new ?es"
  have fields: "matchesSelection (Some (example_pairs 0)) example_selection" "\<not> matchesSelection (Some (example_pairs 1)) example_selection"
    by (simp_all add: matchesSelection_def example_pairs_def example_selection_def example_candidate_def)
  then have f: "?f = \<lparr>pf_selected = example_selection, pf_observed = Some 0\<rparr>"
    by (simp add: pathFailover_select_def pathFailover_new_def pathFailover_binding_def)
  have switch: "snd (pathFailover_binding example_pairs (3 * Second) ?f (Some 1))"
    unfolding f by (rule failover_happens [of _ 0]) (use fields in \<open>simp_all add: example_pairs_def\<close>)
  from failover_is_justified [OF refl switch] switch show ?thesis by blast
qed

end
