(* ===== verification/Packet_Buffer.thy ===== *)
theory Packet_Buffer
  imports Prelude
begin

text \<open>
  \<^verbatim>\<open>packetBuffer\<close> of \<^verbatim>\<open>internal/ingest/packet_buffer.go\<close>: the receive queue of one RTP
  stream, a ring of bytes that grows on demand and holds datagrams prefixed by
  their length.

  The mutex makes each method atomic.  The buffered channel \<^verbatim>\<open>wake\<close> is a flag, the
  channel \<^verbatim>\<open>done\<close> is closed exactly when \<^verbatim>\<open>closed\<close> is set.  The deadline is a
  third-party timer: the model keeps the instant it was last set to, and a read
  takes as an argument whether it has expired.  \<^verbatim>\<open>Write\<close> reports the call of
  \<^verbatim>\<open>onPacket\<close>, one round of \<^verbatim>\<open>Read\<close>'s loop whether it blocks.

  The abstract view is a list of datagrams (\<open>represents\<close>).
\<close>

section \<open>The model\<close>

datatype io_error = ErrClosedPipe | ErrShortBuffer | ErrFull | ErrDeadlineExceeded | EOF

definition receiveBufferBytes :: nat where "receiveBufferBytes = 1000000"

record packetBuffer =
  p_data :: bytes
  p_head :: nat
  p_used :: nat
  p_closed :: bool
  p_wake :: bool
  p_deadline :: instant
  p_onPacket :: bool

definition newPacketBuffer :: packetBuffer where
  "newPacketBuffer = \<lparr>p_data = [], p_head = 0, p_used = 0, p_closed = False, p_wake = False,
     p_deadline = 0, p_onPacket = False\<rparr>"

text \<open>\<^verbatim>\<open>copy(dst[i:], src)\<close>: as many bytes as fit.\<close>

definition go_copy :: "bytes \<Rightarrow> nat \<Rightarrow> bytes \<Rightarrow> bytes" where
  "go_copy dst i src = take i dst @ take (length dst - i) src @ drop (i + length src) dst"

definition packetBuffer_grow :: "packetBuffer \<Rightarrow> nat \<Rightarrow> packetBuffer" where
  "packetBuffer_grow b need =
     (let fresh = replicate (min receiveBufferBytes (max 2048 (max (2 * length (p_data b)) need))) 0;
          first = min (p_used b) (length (p_data b) - p_head b);
          data1 = go_copy fresh 0 (take first (drop (p_head b) (p_data b)));
          data2 = go_copy data1 first (take (p_used b - first) (p_data b))
      in b\<lparr>p_data := data2, p_head := 0\<rparr>)"

definition packetBuffer_append :: "packetBuffer \<Rightarrow> bytes \<Rightarrow> packetBuffer" where
  "packetBuffer_append b packet =
     (let len = length (p_data b);
          tail = (p_head b + p_used b) mod len;
          data1 = (p_data b)[tail := of_nat (and (drop_bit 8 (length packet)) 0xff)];
          data2 = data1[(tail + 1) mod len := of_nat (and (length packet) 0xff)];
          tail2 = (tail + 2) mod len;
          n = min (len - tail2) (length packet);
          data3 = go_copy data2 tail2 packet;
          data4 = go_copy data3 0 (drop n packet)
      in b\<lparr>p_data := data4, p_used := p_used b + (length packet + 2), p_wake := True\<rparr>)"

text \<open>\<^verbatim>\<open>Write\<close> returns the count, the error, and what \<^verbatim>\<open>onPacket\<close> was called with.\<close>

definition packetBuffer_Write ::
  "packetBuffer \<Rightarrow> bytes \<Rightarrow> instant \<Rightarrow> packetBuffer \<times> nat \<times> io_error option \<times> (bytes \<times> instant) option" where
  "packetBuffer_Write b packet now =
     (let called = (if p_onPacket b then Some (packet, now) else None)
      in if p_closed b then (b, 0, Some ErrClosedPipe, None)
         else if length packet = 0 then (b, 0, None, None)
         else if length packet > 65535 then (b, 0, Some ErrShortBuffer, None)
         else if p_used b + length packet + 2 > receiveBufferBytes then (b, 0, Some ErrFull, called)
         else let b1 = (if p_used b + length packet + 2 > length (p_data b)
                        then packetBuffer_grow b (p_used b + length packet + 2) else b)
              in (packetBuffer_append b1 packet, length packet, None, called))"

text \<open>\<open>cap\<close> is the length of the caller's slice; the bytes copied into it are returned.\<close>

definition packetBuffer_readPacket ::
  "packetBuffer \<Rightarrow> nat \<Rightarrow> packetBuffer \<times> bytes \<times> io_error option" where
  "packetBuffer_readPacket b cap =
     (let len = length (p_data b);
          size = be16 (p_data b ! p_head b) (p_data b ! ((p_head b + 1) mod len));
          start = (p_head b + 2) mod len;
          n = min size cap;
          chunk = take (min (start + n) len - start) (drop start (p_data b));
          out = chunk @ take (n - length chunk) (p_data b);
          used = p_used b - (size + 2);
          b' = b\<lparr>p_head := (if used = 0 then 0 else (start + size) mod len), p_used := used,
                 p_wake := (if used = 0 then p_wake b else True)\<rparr>
      in (b', out, if n < size then Some ErrShortBuffer else None))"

datatype read_outcome = ReadBlocks | ReadDone bytes "io_error option"

definition packetBuffer_Read :: "packetBuffer \<Rightarrow> nat \<Rightarrow> bool \<Rightarrow> packetBuffer \<times> read_outcome" where
  "packetBuffer_Read b cap expired =
     (if expired then (b, ReadDone [] (Some ErrDeadlineExceeded))
      else if p_used b > 0
      then let (b', out, err) = packetBuffer_readPacket b cap in (b', ReadDone out err)
      else if p_closed b then (b, ReadDone [] (Some EOF))
      else (b, ReadBlocks))"

definition packetBuffer_Close :: "packetBuffer \<Rightarrow> packetBuffer" where
  "packetBuffer_Close b = (if p_closed b then b else b\<lparr>p_closed := True, p_deadline := 0\<rparr>)"

definition packetBuffer_SetReadDeadline :: "packetBuffer \<Rightarrow> instant \<Rightarrow> packetBuffer \<times> io_error option" where
  "packetBuffer_SetReadDeadline b t =
     (if p_closed b then (b, Some ErrClosedPipe) else (b\<lparr>p_deadline := t\<rparr>, None))"

section \<open>Rings\<close>

definition ring :: "'a list \<Rightarrow> nat \<Rightarrow> nat \<Rightarrow> 'a list" where
  "ring d h n = map (\<lambda>k. d ! ((h + k) mod length d)) [0..<n]"

lemma ring_length [simp]: "length (ring d h n) = n"
  by (simp add: ring_def)

lemma ring_nth: "k < n \<Longrightarrow> ring d h n ! k = d ! ((h + k) mod length d)"
  by (simp add: ring_def)

lemma ring_add: "ring d h (n + m) = ring d h n @ ring d ((h + n) mod length d) m"
proof (rule nth_equalityI)
  fix i assume i: "i < length (ring d h (n + m))"
  show "ring d h (n + m) ! i = (ring d h n @ ring d ((h + n) mod length d) m) ! i"
  proof (cases "i < n")
    case False
    then obtain k where k: "i = n + k" "k < m" using i by (metis add_less_cancel_left le_Suc_ex not_less ring_length)
    then show ?thesis by (simp add: ring_nth nth_append mod_add_left_eq add.assoc)
  qed (use i in \<open>simp add: ring_nth nth_append\<close>)
qed simp

lemma ring_take: "m \<le> n \<Longrightarrow> take m (ring d h n) = ring d h m"
  by (rule nth_equalityI) (auto simp: ring_nth)

lemma mod_offset:
  assumes "t < (N::nat)" "k < N"
  shows "(t + k) mod N = (if t + k < N then t + k else t + k - N)"
  using assms by (simp add: mod_if)

lemma mod_offset_inj:
  assumes "h mod N + k = h mod N + k" "k < N" "k' < (N::nat)" "(h + k) mod N = (h + k') mod N"
  shows "k = k'"
proof -
  let ?t = "h mod N"
  have t: "?t < N" using assms(2) by simp
  have "(?t + k) mod N = (?t + k') mod N" using assms(4) by (simp add: mod_add_left_eq)
  then show ?thesis using mod_offset [OF t assms(2)] mod_offset [OF t assms(3)] assms(2,3)
    by (auto split: if_splits)
qed

lemma ring_update:
  assumes "n < length d"
  shows "ring (d[(h + n) mod length d := x]) h (Suc n) = ring d h n @ [x]"
proof (rule nth_equalityI)
  fix k assume k: "k < length (ring (d[(h + n) mod length d := x]) h (Suc n))"
  have N: "(h + n) mod length d < length d" using assms by (intro mod_less_divisor) linarith
  show "ring (d[(h + n) mod length d := x]) h (Suc n) ! k = (ring d h n @ [x]) ! k"
  proof (cases "k = n")
    case True
    then show ?thesis using N by (simp add: ring_nth nth_append)
  next
    case False
    with k have kn: "k < n" by simp
    then have "(h + k) mod length d \<noteq> (h + n) mod length d"
      using mod_offset_inj [OF refl, of k "length d" n h] assms by auto
    with kn show ?thesis by (simp add: ring_nth nth_append)
  qed
qed simp

section \<open>Copying\<close>

lemma length_go_copy [simp]: "i \<le> length d \<Longrightarrow> length (go_copy d i xs) = length d"
  by (simp add: go_copy_def)

lemma nth_go_copy:
  assumes "i \<le> length d" "j < length d"
  shows "go_copy d i xs ! j = (if i \<le> j \<and> j < i + length xs then xs ! (j - i) else d ! j)"
proof -
  consider "j < i" | "i \<le> j" "j < i + length xs" | "i + length xs \<le> j" by linarith
  then show ?thesis
  proof cases
    case 1
    then show ?thesis using assms by (simp add: go_copy_def nth_append)
  next
    case 2
    then have "go_copy d i xs ! j = take (length d - i) xs ! (j - i)"
      using assms by (simp add: go_copy_def nth_append less_diff_conv2)
    then show ?thesis using 2 assms by simp
  next
    case 3
    then have "length xs \<le> length d - i" "\<not> j - i < length xs" using assms by simp_all
    then have "go_copy d i xs ! j = drop (i + length xs) d ! (j - (i + length xs))"
      using 3 assms by (simp add: go_copy_def nth_append min_def)
    then show ?thesis using 3 assms by simp
  qed
qed

lemma ring_put:
  assumes "n + length xs \<le> length d" "0 < length d" "t = (h + n) mod length d"
  shows "ring (go_copy (go_copy d t xs) 0 (drop (min (length d - t) (length xs)) xs)) h (n + length xs) =
     ring d h n @ xs"
proof (rule nth_equalityI)
  let ?N = "length d"
  let ?d = "go_copy (go_copy d t xs) 0 (drop (min (?N - t) (length xs)) xs)"
  have t: "t < ?N" using assms by simp
  have at_t: "?d ! ((t + k) mod ?N) = (if k < length xs then xs ! k else d ! ((t + k) mod ?N))" if k: "k < ?N" for k
  proof (cases "t + k < ?N")
    case True
    have "\<not> t + k < length xs - min (?N - t) (length xs)" using True assms(1) by linarith
    with True t show ?thesis by (simp add: nth_go_copy)
  next
    case False
    define j where "j = t + k - ?N"
    have j: "(t + k) mod ?N = j" "j < t" "j < ?N" using mod_offset [OF t k] False k t by (auto simp: j_def)
    have "?N - t + j = k" "j < length xs - (?N - t) \<longleftrightarrow> k < length xs" using False t by (auto simp: j_def)
    with j t show ?thesis by (cases "k < length xs") (auto simp: nth_go_copy min_def)
  qed
  fix k assume k: "k < length (ring ?d h (n + length xs))"
  show "ring ?d h (n + length xs) ! k = (ring d h n @ xs) ! k"
  proof (cases "k < n")
    case True
    have "(t + (?N - n + k)) mod ?N = (h + k) mod ?N"
    proof -
      have "(t + (?N - n + k)) mod ?N = (h + n + (?N - n + k)) mod ?N"
        unfolding assms(3) by (simp add: mod_add_left_eq)
      also have "\<dots> = (h + k + ?N) mod ?N" using assms(1) by (intro arg_cong2 [of _ _ _ _ "(mod)"]) auto
      finally show ?thesis by simp
    qed
    moreover have "\<not> ?N - n + k < length xs" "?N - n + k < ?N" using True assms(1) by linarith+
    ultimately show ?thesis using at_t [of "?N - n + k"] True t by (simp add: ring_nth nth_append)
  next
    case False
    then have "(t + (k - n)) mod ?N = (h + k) mod ?N"
      unfolding assms(3) using mod_add_left_eq [of "h + n" ?N "k - n"] by simp
    moreover have "k - n < length xs" "k - n < ?N" using False k assms(1) by auto
    ultimately show ?thesis using at_t [of "k - n"] False k t by (simp add: ring_nth nth_append)
  qed
qed simp

lemma ring_linear:
  assumes "start < length d" "n \<le> length d"
  shows "take (min (start + n) (length d) - start) (drop start d) @
     take (n - length (take (min (start + n) (length d) - start) (drop start d))) d = ring d start n"
proof (rule nth_equalityI)
  let ?c = "take (min (start + n) (length d) - start) (drop start d)"
  have c: "length ?c = min n (length d - start)" using assms by (auto simp: min_def)
  then show "length (?c @ take (n - length ?c) d) = length (ring d start n)" using assms by auto
  fix k assume "k < length (?c @ take (n - length ?c) d)"
  then have k: "k < n" using c assms by auto
  show "(?c @ take (n - length ?c) d) ! k = ring d start n ! k"
  proof (cases "k < length d - start")
    case True
    then have "k < length ?c" "start + k < length d" using c k by auto
    then show ?thesis using k True by (simp add: nth_append ring_nth)
  next
    case False
    then have len: "length ?c = length d - start" using c k by simp
    have "(start + k) mod length d = start + k - length d"
      using mod_offset [OF assms(1), of k] k assms False by auto
    moreover have "k - (length d - start) = start + k - length d" using assms False by linarith
    ultimately show ?thesis using k False assms len by (simp add: nth_append ring_nth)
  qed
qed

section \<open>The datagrams in the ring\<close>

definition frame :: "bytes \<Rightarrow> bytes" where
  "frame p = hi8 (length p) # lo8 (length p) # p"

definition datagram_ok :: "bytes \<Rightarrow> bool" where
  "datagram_ok p \<longleftrightarrow> 0 < length p \<and> length p \<le> 65535"

definition represents :: "packetBuffer \<Rightarrow> bytes list \<Rightarrow> bool" where
  "represents b q \<longleftrightarrow> p_used b \<le> length (p_data b) \<and> length (p_data b) \<le> receiveBufferBytes \<and>
     (p_data b \<noteq> [] \<longrightarrow> p_head b < length (p_data b)) \<and>
     ring (p_data b) (p_head b) (p_used b) = concat (map frame q) \<and> list_all datagram_ok q"

definition queued_bytes :: "bytes list \<Rightarrow> nat" where
  "queued_bytes q = sum_list (map (\<lambda>p. length p + 2) q)"

lemma length_frames: "length (concat (map frame q)) = queued_bytes q"
  by (induction q) (simp_all add: frame_def queued_bytes_def)

lemma represents_used: "represents b q \<Longrightarrow> p_used b = queued_bytes q"
  by (metis length_frames represents_def ring_length)

lemma length_bytes:
  assumes "n \<le> 65535"
  shows "(of_nat (and (drop_bit 8 n) 0xff) :: u8) = hi8 n" "(of_nat (and n 0xff) :: u8) = lo8 n"
proof -
  have "and m 0xff = m mod 256" for m :: nat
    using take_bit_eq_mask [of 8 m] by (simp add: take_bit_eq_mod mask_eq_exp_minus_1)
  moreover have "(of_nat (m mod 256) :: u8) = of_nat m" for m
    by (rule word_unat_eq_iff [THEN iffD2]) (simp add: unat_of_nat take_bit_eq_mod)
  ultimately show "(of_nat (and (drop_bit 8 n) 0xff) :: u8) = hi8 n" "(of_nat (and n 0xff) :: u8) = lo8 n"
    by (simp_all add: hi8_def lo8_def drop_bit_eq_div)
qed

lemma append_represents:
  assumes "represents b q" "datagram_ok p" "p_used b + length p + 2 \<le> length (p_data b)"
  shows "represents (packetBuffer_append b p) (q @ [p])"
proof -
  let ?d = "p_data b" and ?h = "p_head b" and ?n = "p_used b"
  let ?N = "length ?d" and ?t = "(p_head b + p_used b) mod length (p_data b)"
  define d1 where "d1 = ?d[?t := hi8 (length p)]"
  define d2 where "d2 = d1[(?t + 1) mod ?N := lo8 (length p)]"
  define t2 where "t2 = (?t + 2) mod ?N"
  define d4 where "d4 = go_copy (go_copy d2 t2 p) 0 (drop (min (?N - t2) (length p)) p)"
  have N: "0 < ?N" "length d1 = ?N" "length d2 = ?N" using assms(3) by (auto simp: d1_def d2_def)
  have t: "(?t + 1) mod ?N = (?h + Suc ?n) mod ?N" "t2 = (?h + Suc (Suc ?n)) mod ?N"
    using mod_add_left_eq [of "?h + ?n" ?N 1] mod_add_left_eq [of "?h + ?n" ?N 2] by (simp_all add: t2_def)
  have len: "length d4 = ?N" using N by (simp add: d4_def t2_def less_imp_le)
  have "ring d1 ?h (Suc ?n) = ring ?d ?h ?n @ [hi8 (length p)]"
    unfolding d1_def using assms(3) by (intro ring_update) simp
  moreover have "ring d2 ?h (Suc (Suc ?n)) = ring d1 ?h (Suc ?n) @ [lo8 (length p)]"
    unfolding d2_def t using ring_update [of "Suc ?n" d1 ?h "lo8 (length p)"] N assms(3) by simp
  moreover have "ring d4 ?h (Suc (Suc ?n) + length p) = ring d2 ?h (Suc (Suc ?n)) @ p"
    unfolding d4_def using ring_put [of "Suc (Suc ?n)" p d2 t2 ?h] N t assms(3) by simp
  ultimately have "ring d4 ?h (?n + (length p + 2)) = ring ?d ?h ?n @ frame p"
    by (simp add: frame_def)
  moreover have "packetBuffer_append b p = b\<lparr>p_data := d4, p_used := ?n + (length p + 2), p_wake := True\<rparr>"
    using assms(2) by (simp add: packetBuffer_append_def Let_def d4_def d2_def d1_def t2_def length_bytes datagram_ok_def)
  ultimately show ?thesis
    using assms len by (auto simp: represents_def simp flip: length_0_conv)
qed

lemma grow_represents:
  assumes "represents b q" "need \<le> receiveBufferBytes" "p_used b \<le> need"
  shows "represents (packetBuffer_grow b need) q" "need \<le> length (p_data (packetBuffer_grow b need))"
    "p_used (packetBuffer_grow b need) = p_used b"
proof -
  let ?d = "p_data b" and ?h = "p_head b" and ?n = "p_used b"
  define size where "size = min receiveBufferBytes (max 2048 (max (2 * length ?d) need))"
  define first where "first = min ?n (length ?d - ?h)"
  define d1 where "d1 = go_copy (replicate size 0) 0 (take first (drop ?h ?d))"
  define d2 where "d2 = go_copy d1 first (take (?n - first) ?d)"
  have size: "need \<le> size" "?n \<le> size" "size \<le> receiveBufferBytes" "0 < size"
    using assms(2,3) by (auto simp: size_def receiveBufferBytes_def)
  have r: "?n \<le> length ?d" "?d \<noteq> [] \<longrightarrow> ?h < length ?d" using assms(1) by (simp_all add: represents_def)
  have l1: "length d1 = size" by (simp add: d1_def)
  have f: "first \<le> ?n" by (simp add: first_def)
  then have l2: "length d2 = size" using size l1 by (simp add: d2_def)
  have lf: "length (take first (drop ?h ?d)) = first" by (simp add: first_def)
  have "ring d2 0 ?n = ring ?d ?h ?n"
  proof (rule nth_equalityI)
    fix k assume "k < length (ring d2 0 ?n)"
    then have k: "k < ?n" by simp
    then have ne: "?h < length ?d" using r by auto
    have kd: "ring d2 0 ?n ! k = d2 ! k" using k size l2 by (simp add: ring_nth)
    show "ring d2 0 ?n ! k = ring ?d ?h ?n ! k"
    proof (cases "k < first")
      case True
      then have "d2 ! k = d1 ! k" using l1 f size k by (simp add: d2_def nth_go_copy)
      also have "\<dots> = ?d ! (?h + k)" using True lf k size by (simp add: d1_def nth_go_copy)
      finally show ?thesis using kd k True by (simp add: ring_nth first_def)
    next
      case False
      then have fd: "first = length ?d - ?h" using k by (auto simp: first_def)
      then have "d2 ! k = ?d ! (k - first)" using False l1 f size k r by (simp add: d2_def nth_go_copy)
      moreover have "(?h + k) mod length ?d = k - first"
        using mod_offset [OF ne, of k] False fd k r ne by auto
      ultimately show ?thesis using kd k by (simp add: ring_nth)
    qed
  qed simp
  moreover have b': "packetBuffer_grow b need = b\<lparr>p_data := d2, p_head := 0\<rparr>"
    by (simp add: packetBuffer_grow_def Let_def d2_def d1_def first_def size_def)
  ultimately show "represents (packetBuffer_grow b need) q"
    using assms(1) size l2 by (auto simp: represents_def)
  show "need \<le> length (p_data (packetBuffer_grow b need))" "p_used (packetBuffer_grow b need) = p_used b"
    using b' l2 size by simp_all
qed

lemma append_closed: "p_closed (packetBuffer_append b p) = p_closed b"
  unfolding packetBuffer_append_def Let_def by simp

lemma grow_closed: "p_closed (packetBuffer_grow b need) = p_closed b"
  unfolding packetBuffer_grow_def Let_def by simp

lemma write_represents:
  assumes "represents b q" "\<not> p_closed b" "datagram_ok p" "queued_bytes q + length p + 2 \<le> receiveBufferBytes"
  shows "\<exists>b' called. packetBuffer_Write b p now = (b', length p, None, called) \<and> represents b' (q @ [p]) \<and> \<not> p_closed b'"
proof -
  let ?need = "p_used b + length p + 2"
  let ?b = "if ?need > length (p_data b) then packetBuffer_grow b ?need else b"
  have need: "?need \<le> receiveBufferBytes" using assms(4) represents_used [OF assms(1)] by simp
  have "represents ?b q" "p_used ?b + length p + 2 \<le> length (p_data ?b)"
    using grow_represents [OF assms(1) need] assms(1) by auto
  then have "represents (packetBuffer_append ?b p) (q @ [p])"
    using assms(3) by (intro append_represents) auto
  moreover have "\<not> p_closed (packetBuffer_append ?b p)"
    using assms(2) by (simp only: append_closed) (simp add: grow_closed)
  ultimately show ?thesis
    using assms(2,3) need unfolding packetBuffer_Write_def Let_def datagram_ok_def by (intro exI conjI) auto
qed

lemma ring_frame:
  assumes "ring d h n = frame p @ rest" "length p \<le> 65535" "0 < length d"
  shows "be16 (d ! (h mod length d)) (d ! ((h + 1) mod length d)) = length p" "n = length p + 2 + length rest"
    "ring d ((h + 2) mod length d) (length p) = p"
    "ring d ((h + 2 + length p) mod length d) (length rest) = rest"
proof -
  show n: "n = length p + 2 + length rest" using arg_cong [OF assms(1), of length] by (simp add: frame_def)
  have "ring d h n ! 0 = hi8 (length p)" "ring d h n ! 1 = lo8 (length p)" by (simp_all add: assms(1) frame_def)
  then have "d ! (h mod length d) = hi8 (length p)" "d ! ((h + 1) mod length d) = lo8 (length p)"
    using n ring_nth [of 0 n d h] ring_nth [of 1 n d h] by simp_all
  then show "be16 (d ! (h mod length d)) (d ! ((h + 1) mod length d)) = length p"
    using assms(2) by simp
  have "ring d h n = ring d h 2 @ ring d ((h + 2) mod length d) (length p) @
      ring d ((h + 2 + length p) mod length d) (length rest)"
    using ring_add [of d h 2 "length p + length rest"]
      ring_add [of d "(h + 2) mod length d" "length p" "length rest"] n by (simp add: mod_add_left_eq)
  with assms(1) have "ring d h 2 @ ring d ((h + 2) mod length d) (length p) @
      ring d ((h + 2 + length p) mod length d) (length rest) = [hi8 (length p), lo8 (length p)] @ p @ rest"
    by (simp add: frame_def)
  then have "ring d ((h + 2) mod length d) (length p) @ ring d ((h + 2 + length p) mod length d) (length rest) = p @ rest"
    by (subst (asm) append_eq_append_conv) simp_all
  then show "ring d ((h + 2) mod length d) (length p) = p"
    "ring d ((h + 2 + length p) mod length d) (length rest) = rest"
    by (subst (asm) append_eq_append_conv; simp)+
qed

lemma read_represents:
  assumes "represents b (p # q)"
  shows "\<exists>b'. packetBuffer_Read b cap False =
      (b', ReadDone (take cap p) (if cap < length p then Some ErrShortBuffer else None)) \<and>
     represents b' q \<and> p_closed b' = p_closed b"
proof -
  let ?d = "p_data b" and ?h = "p_head b"
  let ?rest = "concat (map frame q)" and ?start = "(p_head b + 2) mod length (p_data b)"
  have r: "ring ?d ?h (p_used b) = frame p @ ?rest" "datagram_ok p" "list_all datagram_ok q"
    "p_used b \<le> length ?d" "length ?d \<le> receiveBufferBytes" "?d \<noteq> [] \<longrightarrow> ?h < length ?d"
    using assms by (simp_all add: represents_def)
  have used: "p_used b = length p + 2 + length ?rest"
    using arg_cong [OF r(1), of length] by (simp add: frame_def)
  then have N: "0 < length ?d" "?h < length ?d" "?h mod length ?d = ?h" "?start < length ?d"
    using r(4,6) by (auto intro: mod_less_divisor)
  have p: "length p \<le> 65535" using r(2) by (simp add: datagram_ok_def)
  note f = ring_frame [OF r(1) p N(1)]
  have tk: "take (min (length p) cap) p = take cap p" by (cases "cap \<le> length p") auto
  have out: "take (min (?start + min (length p) cap) (length ?d) - ?start) (drop ?start ?d) @
      take (min (length p) cap - length (take (min (?start + min (length p) cap) (length ?d) - ?start) (drop ?start ?d))) ?d
      = take cap p"
    using ring_linear [OF N(4), of "min (length p) cap"] ring_take [of "min (length p) cap" "length p" ?d ?start]
      f(3) used r(4) tk by simp
  let ?u = "p_used b - (length p + 2)"
  define b' where "b' = b\<lparr>p_head := (if ?u = 0 then 0 else (?start + length p) mod length ?d), p_used := ?u,
      p_wake := (if ?u = 0 then p_wake b else True)\<rparr>"
  have "packetBuffer_readPacket b cap = (b', take cap p, if min (length p) cap < length p then Some ErrShortBuffer else None)"
    using f(1) N(3) out by (simp add: packetBuffer_readPacket_def Let_def b'_def)
  moreover have "min (length p) cap < length p \<longleftrightarrow> cap < length p" by auto
  moreover have "represents b' q"
  proof -
    have "?u = length ?rest" using used by simp
    moreover have "(?start + length p) mod length ?d = (?h + 2 + length p) mod length ?d"
      by (simp add: mod_add_left_eq)
    ultimately have "ring ?d (p_head b') (p_used b') = ?rest"
      using f(4) by (cases "?rest = []") (auto simp: b'_def ring_def)
    then show ?thesis using r used N by (simp add: represents_def b'_def)
  qed
  ultimately show ?thesis using used by (simp add: packetBuffer_Read_def b'_def)
qed

section \<open>What each operation does\<close>

definition open_with :: "packetBuffer \<Rightarrow> bytes list \<Rightarrow> bool" where
  "open_with b q \<longleftrightarrow> represents b q \<and> \<not> p_closed b"

definition datagram_fits :: "bytes list \<Rightarrow> bytes \<Rightarrow> bool" where
  "datagram_fits q p \<longleftrightarrow> datagram_ok p \<and> queued_bytes q + length p + 2 \<le> receiveBufferBytes"

lemma write_refused:
  assumes "open_with b q" "\<not> datagram_fits q p"
  shows "\<exists>err called. packetBuffer_Write b p now = (b, 0, err, called) \<and>
     err = (if p = [] then None else if length p > 65535 then Some ErrShortBuffer else Some ErrFull)"
  using assms represents_used [of b q]
  by (auto simp: packetBuffer_Write_def open_with_def datagram_fits_def datagram_ok_def Let_def)

lemma new_represents: "open_with newPacketBuffer []"
  by (simp add: open_with_def represents_def newPacketBuffer_def ring_def)

text \<open>
  What a write does, on every branch.  On a buffer that holds the datagrams \<open>q\<close>:
  after \<^verbatim>\<open>Close\<close> it fails with \<open>ErrClosedPipe\<close>; an empty packet is ignored; one longer than
  65535 bytes fails with \<open>ErrShortBuffer\<close>; one that would take the buffer past a million
  bytes fails with \<open>ErrFull\<close>; each leaves the buffer as it was.  Every other write
  stores the packet behind the others, also when the ring has to grow or wraps around.
\<close>

theorem packet_write_outcomes:
  assumes "represents b q" "packetBuffer_Write b p now = (b', n, err, called)"
  shows "if p_closed b then b' = b \<and> n = 0 \<and> err = Some ErrClosedPipe
     else if p = [] then b' = b \<and> n = 0 \<and> err = None
     else if length p > 65535 then b' = b \<and> n = 0 \<and> err = Some ErrShortBuffer
     else if queued_bytes q + length p + 2 > receiveBufferBytes then b' = b \<and> n = 0 \<and> err = Some ErrFull
     else represents b' (q @ [p]) \<and> n = length p \<and> err = None"
proof (cases "p_closed b")
  case True
  then show ?thesis using assms(2) by (auto simp: packetBuffer_Write_def Let_def)
next
  case False
  then have o: "open_with b q" using assms(1) by (simp add: open_with_def)
  show ?thesis
  proof (cases "datagram_fits q p")
    case True
    then show ?thesis
      using write_represents [OF assms(1) False, of p now] assms(2) False
      by (auto simp: datagram_fits_def datagram_ok_def)
  next
    case f: False
    then show ?thesis
      using write_refused [OF o f, of now] assms(2) False by (auto simp: datagram_fits_def datagram_ok_def)
  qed
qed

theorem packet_write_outcomes_witness:
  "\<exists>b' called. packetBuffer_Write newPacketBuffer [7, 8] 0 = (b', 2, None, called) \<and> represents b' [[7, 8]]"
proof -
  obtain b' n err called where w: "packetBuffer_Write newPacketBuffer [7, 8] 0 = (b', n, err, called)"
    by (cases "packetBuffer_Write newPacketBuffer [7, 8] 0") auto
  have r: "represents newPacketBuffer []" "\<not> p_closed newPacketBuffer"
    using new_represents by (simp_all add: open_with_def)
  from packet_write_outcomes [OF r(1) w] r(2) w show ?thesis
    by (simp add: queued_bytes_def receiveBufferBytes_def numeral_2_eq_2)
qed

text \<open>
  What a read does, on every branch.  An expired deadline wins over queued
  data; otherwise the oldest datagram is returned, cut to the slice with
  \<open>ErrShortBuffer\<close> and its rest discarded, also after \<^verbatim>\<open>Close\<close>; an empty buffer gives \<open>EOF\<close>
  when closed and blocks when open.
\<close>

theorem packet_read_outcomes:
  assumes "represents b q" "packetBuffer_Read b cap expired = (b', out)"
  shows "if expired then b' = b \<and> out = ReadDone [] (Some ErrDeadlineExceeded)
     else case q of
       p # rest \<Rightarrow> represents b' rest \<and>
          out = ReadDone (take cap p) (if cap < length p then Some ErrShortBuffer else None)
     | [] \<Rightarrow> b' = b \<and> out = (if p_closed b then ReadDone [] (Some EOF) else ReadBlocks)"
proof (cases "expired \<or> q = []")
  case True
  then show ?thesis
    using assms represents_used [OF assms(1)] by (auto simp: packetBuffer_Read_def queued_bytes_def split: if_splits list.splits)
next
  case False
  then obtain p rest where "q = p # rest" "\<not> expired" by (cases q) auto
  with read_represents [of b p rest cap] assms show ?thesis by auto
qed

theorem packet_read_outcomes_witness:
  "packetBuffer_Read (packetBuffer_Close newPacketBuffer) 100 False =
     (packetBuffer_Close newPacketBuffer, ReadDone [] (Some EOF))"
proof -
  let ?b = "packetBuffer_Close newPacketBuffer"
  obtain b' out where r: "packetBuffer_Read ?b 100 False = (b', out)" by fastforce
  have "represents ?b []" "p_closed ?b"
    by (simp_all add: represents_def packetBuffer_Close_def newPacketBuffer_def ring_def)
  with packet_read_outcomes [OF _ r, of "[]"] r show ?thesis by simp
qed

section \<open>Any sequence of operations\<close>

text \<open>
  The calls of the session's reader, the SRTP stack and \<^verbatim>\<open>Close\<close>, in the order in which they take the mutex, and what each returns.
\<close>

datatype buffer_op = OpWrite bytes instant | OpRead nat bool | OpClose | OpSetReadDeadline instant

datatype buffer_result =
    Wrote nat "io_error option" "(bytes \<times> instant) option"
  | Got read_outcome
  | Done "io_error option"

fun buffer_step :: "packetBuffer \<Rightarrow> buffer_op \<Rightarrow> packetBuffer \<times> buffer_result" where
  "buffer_step b (OpWrite p now) = (case packetBuffer_Write b p now of (b', n, err, called) \<Rightarrow> (b', Wrote n err called))"
| "buffer_step b (OpRead cap expired) = (case packetBuffer_Read b cap expired of (b', out) \<Rightarrow> (b', Got out))"
| "buffer_step b OpClose = (packetBuffer_Close b, Done None)"
| "buffer_step b (OpSetReadDeadline t) = (case packetBuffer_SetReadDeadline b t of (b', err) \<Rightarrow> (b', Done err))"

text \<open>
  The specification has no ring, no length prefixes and no growth: a list of datagrams and whether the queue is
  closed.  \<open>notify\<close> says whether \<^verbatim>\<open>onPacket\<close> is set; it is called for every packet of a legal length, also for
  one that is then refused because the queue is full.
\<close>

fun queue_step :: "bool \<Rightarrow> bytes list \<times> bool \<Rightarrow> buffer_op \<Rightarrow> (bytes list \<times> bool) \<times> buffer_result" where
  "queue_step notify (q, closed) (OpWrite p now) =
     (if closed then ((q, closed), Wrote 0 (Some ErrClosedPipe) None)
      else if p = [] then ((q, closed), Wrote 0 None None)
      else if length p > 65535 then ((q, closed), Wrote 0 (Some ErrShortBuffer) None)
      else let called = (if notify then Some (p, now) else None)
           in if queued_bytes q + length p + 2 > receiveBufferBytes then ((q, closed), Wrote 0 (Some ErrFull) called)
              else ((q @ [p], closed), Wrote (length p) None called))"
| "queue_step notify (q, closed) (OpRead cap expired) =
     (if expired then ((q, closed), Got (ReadDone [] (Some ErrDeadlineExceeded)))
      else case q of
             p # rest \<Rightarrow> ((rest, closed), Got (ReadDone (take cap p) (if cap < length p then Some ErrShortBuffer else None)))
           | [] \<Rightarrow> ((q, closed), Got (if closed then ReadDone [] (Some EOF) else ReadBlocks)))"
| "queue_step notify (q, closed) OpClose = ((q, True), Done None)"
| "queue_step notify (q, closed) (OpSetReadDeadline t) = ((q, closed), Done (if closed then Some ErrClosedPipe else None))"

text \<open>What a sequence of operations returns, for any implementation of one operation.\<close>

fun results :: "('s \<Rightarrow> 'op \<Rightarrow> 's \<times> 'r) \<Rightarrow> 's \<Rightarrow> 'op list \<Rightarrow> 'r list" where
  "results step s [] = []"
| "results step s (op # ops) = snd (step s op) # results step (fst (step s op)) ops"

text \<open>A functional simulation: one step on related states returns the same and leaves related states.\<close>

locale step_simulation =
  fixes step :: "'s \<Rightarrow> 'op \<Rightarrow> 's \<times> 'r" and spec :: "'a \<Rightarrow> 'op \<Rightarrow> 'a \<times> 'r" and rel :: "'s \<Rightarrow> 'a \<Rightarrow> bool"
  assumes same_result: "rel s a \<Longrightarrow> snd (step s op) = snd (spec a op)"
    and related: "rel s a \<Longrightarrow> rel (fst (step s op)) (fst (spec a op))"
begin

lemma same_results: "rel s a \<Longrightarrow> results step s ops = results spec a ops"
  by (induction ops arbitrary: s a) (simp_all add: same_result related)

end

definition implements :: "bool \<Rightarrow> packetBuffer \<Rightarrow> bytes list \<times> bool \<Rightarrow> bool" where
  "implements notify b a \<longleftrightarrow> represents b (fst a) \<and> p_closed b = snd a \<and> p_onPacket b = notify"

lemma append_onPacket: "p_onPacket (packetBuffer_append b p) = p_onPacket b"
  unfolding packetBuffer_append_def Let_def by simp

lemma grow_onPacket: "p_onPacket (packetBuffer_grow b need) = p_onPacket b"
  unfolding packetBuffer_grow_def Let_def by simp

lemma write_frame:
  "packetBuffer_Write b p now = (b', n, err, called) \<Longrightarrow> p_closed b' = p_closed b \<and> p_onPacket b' = p_onPacket b \<and>
     called = (if p_closed b \<or> p = [] \<or> length p > 65535 \<or> \<not> p_onPacket b then None else Some (p, now))"
  unfolding packetBuffer_Write_def Let_def by (auto simp: append_closed grow_closed append_onPacket grow_onPacket split: if_splits)

lemma readPacket_frame:
  "p_closed (fst (packetBuffer_readPacket b cap)) = p_closed b" "p_onPacket (fst (packetBuffer_readPacket b cap)) = p_onPacket b"
  unfolding packetBuffer_readPacket_def Let_def fst_conv by simp_all

lemma read_frame: "packetBuffer_Read b cap expired = (b', out) \<Longrightarrow> p_closed b' = p_closed b \<and> p_onPacket b' = p_onPacket b"
  unfolding packetBuffer_Read_def using readPacket_frame [of b cap] by (auto split: if_splits prod.splits)

lemma write_simulates:
  assumes "implements notify b (q, closed)"
  shows "snd (buffer_step b (OpWrite p now)) = snd (queue_step notify (q, closed) (OpWrite p now)) \<and>
    implements notify (fst (buffer_step b (OpWrite p now))) (fst (queue_step notify (q, closed) (OpWrite p now)))"
proof -
  obtain b' n err called where w: "packetBuffer_Write b p now = (b', n, err, called)" by (metis prod_cases4)
  have r: "represents b q" "p_closed b = closed" "p_onPacket b = notify" using assms by (simp_all add: implements_def)
  from packet_write_outcomes [OF r(1) w] write_frame [OF w] r w show ?thesis
    by (auto simp: implements_def Let_def split: if_splits)
qed

lemma read_simulates:
  assumes "implements notify b (q, closed)"
  shows "snd (buffer_step b (OpRead cap expired)) = snd (queue_step notify (q, closed) (OpRead cap expired)) \<and>
    implements notify (fst (buffer_step b (OpRead cap expired))) (fst (queue_step notify (q, closed) (OpRead cap expired)))"
proof -
  obtain b' out where w: "packetBuffer_Read b cap expired = (b', out)" by fastforce
  have r: "represents b q" "p_closed b = closed" "p_onPacket b = notify" using assms by (simp_all add: implements_def)
  from packet_read_outcomes [OF r(1) w] read_frame [OF w] r w show ?thesis
    by (cases q) (auto simp: implements_def split: if_splits)
qed

lemma buffer_simulates:
  assumes "implements notify b a"
  shows "snd (buffer_step b op) = snd (queue_step notify a op) \<and> implements notify (fst (buffer_step b op)) (fst (queue_step notify a op))"
proof -
  obtain q closed where a: "a = (q, closed)" by fastforce
  show ?thesis
  proof (cases op)
    case OpClose
    then show ?thesis using assms a by (auto simp: implements_def packetBuffer_Close_def represents_def)
  next
    case (OpSetReadDeadline t)
    then show ?thesis using assms a by (auto simp: implements_def packetBuffer_SetReadDeadline_def represents_def)
  qed (use assms a write_simulates read_simulates in \<open>simp_all only:\<close>)
qed

interpretation ring_queue: step_simulation buffer_step "queue_step notify" "implements notify" for notify
  by unfold_locales (simp_all add: buffer_simulates)

text \<open>
  C7: The receive buffer is a queue of datagrams.  Whatever sequence of writes, reads, deadlines and \<^verbatim>\<open>Close\<close> a new buffer goes
  through, every call returns exactly what it returns on a plain list of datagrams: reads give the accepted packets
  whole and in order, each cut to the slice it is read into, however often the ring grew or wrapped around in between;
  a write is refused exactly when the queue is closed, the packet too long or the queue full; an expired deadline wins over data, and a
  closed queue is drained before it reports the end.
\<close>

theorem packet_buffer_is_fifo:
  "results buffer_step (newPacketBuffer\<lparr>p_onPacket := notify\<rparr>) ops = results (queue_step notify) ([], False) ops"
proof (rule ring_queue.same_results)
  show "implements notify (newPacketBuffer\<lparr>p_onPacket := notify\<rparr>) ([], False)"
    using new_represents by (simp add: implements_def open_with_def represents_def newPacketBuffer_def)
qed

end
