(* ===== verification/Media_Engine.thy ===== *)
theory Media_Engine
  imports Http Net_Addr
begin

text \<open>
  How the media stack is configured: the codecs and interceptors of a WebRTC API (\<^verbatim>\<open>buildAPI\<close> and \<^verbatim>\<open>registerCodecs\<close> in
  \<^verbatim>\<open>internal/ingest/whip.go\<close>, \<^verbatim>\<open>configureArrivalFeedback\<close>), the ICE and DTLS settings (\<^verbatim>\<open>engine.go\<close>) and the playout delay extension
  (\<^verbatim>\<open>playout.go\<close>).

  The media engine, the interceptor registry and the setting engine are code of the WebRTC library: the model is the sequence of calls
  made on them, and \<open>answers\<close> says, given the calls made so far, whether a call succeeds.  A sequence stops at
  the first call that fails.  MIME types, extension URIs and feedback names are the published constants of that library.
\<close>

section \<open>Calls\<close>

datatype media_kind = Video | Audio

record RTPCodecParameters =
  cp_MimeType :: string
  cp_ClockRate :: nat
  cp_Channels :: nat
  cp_SDPFmtpLine :: string
  cp_RTCPFeedback :: "(string \<times> string) list"
  cp_PayloadType :: u8

datatype api_call =
    RegisterCodec RTPCodecParameters media_kind
  | RegisterFeedback string media_kind
  | RegisterHeaderExtension string media_kind bool
  | ConfigureRTCPReports
  | ConfigureStatsInterceptor
  | ConfigureTWCCSender
  | AddArrivalFeedback
  | NackGenerator nat
  | NackResponder nat
  | AddPlayoutDelay

text \<open>\<^verbatim>\<open>RegisterFeedback\<close> and \<^verbatim>\<open>Registry.Add\<close> return nothing.\<close>

fun fallible :: "api_call \<Rightarrow> bool" where
  "fallible (RegisterFeedback _ _) = False"
| "fallible AddArrivalFeedback = False"
| "fallible AddPlayoutDelay = False"
| "fallible _ = True"

fun run_calls :: "('c \<Rightarrow> bool) \<Rightarrow> ('c list \<Rightarrow> 'c \<Rightarrow> bool) \<Rightarrow> 'c list \<Rightarrow> 'c list \<Rightarrow> 'c list \<times> bool" where
  "run_calls can_fail answers made [] = (made, True)"
| "run_calls can_fail answers made (call # rest) =
     (if can_fail call \<and> \<not> answers made call then (made @ [call], False)
      else run_calls can_fail answers (made @ [call]) rest)"

section \<open>Codecs\<close>

definition videoFeedback :: "(string \<times> string) list" where
  "videoFeedback = [(''nack'', []), (''nack'', ''pli''), (''ccm'', ''fir''), (''transport-cc'', [])]"

definition videoCodecs :: "(string \<times> RTPCodecParameters) list" where
  "videoCodecs =
     [(CodecH264, \<lparr>cp_MimeType = ''video/H264'', cp_ClockRate = 90000, cp_Channels = 0,
         cp_SDPFmtpLine = ''level-asymmetry-allowed=1;packetization-mode=1;profile-level-id=42e01f'',
         cp_RTCPFeedback = videoFeedback, cp_PayloadType = 96\<rparr>),
      (CodecH265, \<lparr>cp_MimeType = ''video/H265'', cp_ClockRate = 90000, cp_Channels = 0, cp_SDPFmtpLine = [],
         cp_RTCPFeedback = videoFeedback, cp_PayloadType = 116\<rparr>),
      (CodecAV1, \<lparr>cp_MimeType = ''video/AV1'', cp_ClockRate = 90000, cp_Channels = 0, cp_SDPFmtpLine = [],
         cp_RTCPFeedback = videoFeedback, cp_PayloadType = 45\<rparr>)]"

definition rtx_for :: "RTPCodecParameters \<Rightarrow> RTPCodecParameters" where
  "rtx_for p = \<lparr>cp_MimeType = ''video/rtx'', cp_ClockRate = 90000, cp_Channels = 0,
     cp_SDPFmtpLine = ''apt='' @ decimal (uint (cp_PayloadType p)), cp_RTCPFeedback = [], cp_PayloadType = cp_PayloadType p + 1\<rparr>"

definition opus :: RTPCodecParameters where
  "opus = \<lparr>cp_MimeType = ''audio/opus'', cp_ClockRate = 48000, cp_Channels = 2, cp_SDPFmtpLine = [], cp_RTCPFeedback = [],
     cp_PayloadType = 111\<rparr>"

definition aac :: RTPCodecParameters where
  "aac = \<lparr>cp_MimeType = ''audio/MPEG4-GENERIC'', cp_ClockRate = 48000, cp_Channels = 2,
     cp_SDPFmtpLine = ''streamtype=5;profile-level-id=1;mode=AAC-hbr;config=1190;'' @ ''sizelength=13;indexlength=3;indexdeltalength=3'',
     cp_RTCPFeedback = [], cp_PayloadType = 112\<rparr>"

definition registerCodecs :: "string list \<Rightarrow> api_call list" where
  "registerCodecs codecs =
     concat (map (\<lambda>(name, params).
       if name \<notin> set codecs then [] else [RegisterCodec params Video, RegisterCodec (rtx_for params) Video]) videoCodecs) @
     [RegisterCodec opus Audio, RegisterCodec aac Audio]"

section \<open>The API\<close>

definition nackHistory :: nat where "nackHistory = 4096"

definition TransportCCURI :: string where
  "TransportCCURI = ''http://www.ietf.org/id/draft-holmer-rmcat-transport-wide-cc-extensions-01''"

definition playoutDelayURI :: string where
  "playoutDelayURI = ''http://www.webrtc.org/experiments/rtp-hdrext/playout-delay''"

definition configureArrivalFeedback :: "bool \<Rightarrow> api_call list" where
  "configureArrivalFeedback arrival =
     (if \<not> arrival then [ConfigureTWCCSender]
      else concat (map (\<lambda>kind. [RegisterFeedback ''transport-cc'' kind, RegisterHeaderExtension TransportCCURI kind False]) [Video, Audio]) @
        [AddArrivalFeedback])"

definition buildAPI_calls :: "string list \<Rightarrow> bool \<Rightarrow> api_call list" where
  "buildAPI_calls codecs arrival =
     registerCodecs codecs @ [ConfigureRTCPReports, ConfigureStatsInterceptor] @ configureArrivalFeedback arrival @
     [NackGenerator nackHistory, NackResponder nackHistory, RegisterHeaderExtension playoutDelayURI Video True, AddPlayoutDelay]"

text \<open>\<^verbatim>\<open>arrival\<close> says whether a collector was given; the API is what was configured, \<open>None\<close> is \<^verbatim>\<open>ErrBuildAPI\<close>.\<close>

definition buildAPI :: "(api_call list \<Rightarrow> api_call \<Rightarrow> bool) \<Rightarrow> string list \<Rightarrow> bool \<Rightarrow> api_call list option" where
  "buildAPI answers codecs arrival =
     (case run_calls fallible answers [] (buildAPI_calls codecs arrival) of (made, ok) \<Rightarrow> if ok then Some made else None)"

section \<open>ICE and DTLS settings\<close>

definition socketBuffer :: int where "socketBuffer = push_bit 23 1"
definition replayWindow :: nat where "replayWindow = 4096"

text \<open>\<^verbatim>\<open>strings.Split\<close>, \<^verbatim>\<open>Join\<close> and \<^verbatim>\<open>Cut\<close> at a slash.\<close>

definition slash :: char where "slash = CHR ''/''"

fun split_slash :: "string \<Rightarrow> string list" where
  "split_slash [] = [[]]"
| "split_slash (ch # s) =
     (if ch = slash then [] # split_slash s else case split_slash s of [] \<Rightarrow> [[ch]] | part # parts \<Rightarrow> (ch # part) # parts)"

fun join_slash :: "string list \<Rightarrow> string" where
  "join_slash [] = []"
| "join_slash [part] = part"
| "join_slash (part # parts) = part @ [slash] @ join_slash parts"

definition cut_slash :: "string \<Rightarrow> string \<times> string" where
  "cut_slash s = (takeWhile (\<lambda>ch. ch \<noteq> slash) s, drop 1 (dropWhile (\<lambda>ch. ch \<noteq> slash) s))"

text \<open>\<open>parseIP\<close> says whether \<^verbatim>\<open>net.ParseIP\<close> accepts a text.\<close>

definition valid_mapping :: "(string \<Rightarrow> bool) \<Rightarrow> string \<Rightarrow> bool" where
  "valid_mapping parseIP mapping =
     (let parts = split_slash mapping
      in 1 \<le> length parts \<and> length parts \<le> 2 \<and> list_all (\<lambda>part. parseIP (TrimSpace part)) parts)"

fun publicICEAddresses :: "(string \<Rightarrow> bool) \<Rightarrow> string list \<Rightarrow> string + string list" where
  "publicICEAddresses parseIP [] = Inr []"
| "publicICEAddresses parseIP (mapping # rest) =
     (if \<not> valid_mapping parseIP mapping then Inl mapping
      else case publicICEAddresses parseIP rest of
             Inl bad \<Rightarrow> Inl bad
           | Inr externalIPs \<Rightarrow> Inr (join_slash (map TrimSpace (split_slash mapping)) # externalIPs))"

datatype engine_call =
    NewRecoveryNet
  | NewMultiUDPMux int int
  | SetICEAddressRewriteRules "(string \<times> string) list"
  | SetICEUDPMux
  | SetICERenomination
  | SetSRTPReplayProtectionWindow nat
  | DisableMulticastDNS
  | SetNetworkTypes "string list"
  | SetSRTPProtectionProfiles "string list"

fun engine_fallible :: "engine_call \<Rightarrow> bool" where
  "engine_fallible NewRecoveryNet = True"
| "engine_fallible (NewMultiUDPMux _ _) = True"
| "engine_fallible (SetICEAddressRewriteRules _) = True"
| "engine_fallible SetICERenomination = True"
| "engine_fallible _ = False"

definition NewSettingEngine ::
  "(string \<Rightarrow> bool) \<Rightarrow> (engine_call list \<Rightarrow> engine_call \<Rightarrow> bool) \<Rightarrow> int \<Rightarrow> string list \<Rightarrow> engine_call list option" where
  "NewSettingEngine parseIP answers mediaPort publicIPs =
     (case publicICEAddresses parseIP publicIPs of
        Inl _ \<Rightarrow> None
      | Inr externalIPs \<Rightarrow>
          let rewrite = (if length externalIPs > 0 then [SetICEAddressRewriteRules (map cut_slash externalIPs)] else []);
              calls = [NewRecoveryNet, NewMultiUDPMux mediaPort socketBuffer] @ rewrite @
                [SetICEUDPMux, SetICERenomination, SetSRTPReplayProtectionWindow replayWindow, DisableMulticastDNS,
                 SetNetworkTypes [''udp4'', ''udp6''],
                 SetSRTPProtectionProfiles [''SRTP_AEAD_AES_128_GCM'', ''SRTP_AES128_CM_HMAC_SHA1_80'']]
          in case run_calls engine_fallible answers [] calls of (made, ok) \<Rightarrow> if ok then Some made else None)"

text \<open>The addresses the media socket is bound to.\<close>

definition mux_ip_filter :: "Addr \<Rightarrow> bool" where
  "mux_ip_filter ip \<longleftrightarrow> \<not> Addr_IsLinkLocalUnicast (Addr_Unmap ip)"

section \<open>Playout delay\<close>

definition playoutFloor :: nat where "playoutFloor = 30"
definition playoutCeiling :: nat where "playoutCeiling = 100"

text \<open>\<open>marshal\<close> is \<^verbatim>\<open>rtp.PlayoutDelayExtension.Marshal\<close>.\<close>

definition playoutDelay_NewInterceptor :: "(nat \<Rightarrow> nat \<Rightarrow> bytes option) \<Rightarrow> bytes option" where
  "playoutDelay_NewInterceptor marshal = marshal playoutFloor playoutCeiling"

text \<open>The negotiated extensions are pairs of a URI and an identifier.\<close>

fun playout_extension :: "(string \<times> int) list \<Rightarrow> u8" where
  "playout_extension [] = 0"
| "playout_extension ((uri, ident) # rest) = (if uri = playoutDelayURI then of_int ident else playout_extension rest)"

definition BindLocalStream ::
  "('h \<Rightarrow> u8 \<Rightarrow> bytes \<Rightarrow> 'h option) \<Rightarrow> bytes \<Rightarrow> (string \<times> int) list \<Rightarrow> ('h \<Rightarrow> bytes \<Rightarrow> 'r) \<Rightarrow> 'h \<Rightarrow> bytes \<Rightarrow> 'r option" where
  "BindLocalStream setExtension payload extensions writer =
     (let ident = playout_extension extensions
      in if ident = 0 then (\<lambda>header body. Some (writer header body))
         else (\<lambda>header body. case setExtension header ident payload of
                               None \<Rightarrow> None | Some header1 \<Rightarrow> Some (writer header1 body)))"

section \<open>The codec table\<close>

lemma run_calls_all:
  assumes "\<And>i. i < length calls \<Longrightarrow> can_fail (calls ! i) \<Longrightarrow> answers (made @ take i calls) (calls ! i)"
  shows "run_calls can_fail answers made calls = (made @ calls, True)"
  using assms
proof (induction calls arbitrary: made)
  case (Cons call rest)
  have "\<not> (can_fail call \<and> \<not> answers made call)" using Cons.prems [of 0] by auto
  moreover have "run_calls can_fail answers (made @ [call]) rest = ((made @ [call]) @ rest, True)"
  proof (rule Cons.IH)
    fix i assume "i < length rest" "can_fail (rest ! i)"
    then show "answers ((made @ [call]) @ take i rest) (rest ! i)" using Cons.prems [of "Suc i"] by simp
  qed
  ultimately show ?case by simp
qed simp

fun registered :: "api_call \<Rightarrow> RTPCodecParameters list" where
  "registered (RegisterCodec p _) = [p]"
| "registered _ = []"

definition payload_types :: "api_call list \<Rightarrow> u8 list" where
  "payload_types calls = map cp_PayloadType (concat (map registered calls))"

lemma payload_types_append [simp]: "payload_types (xs @ ys) = payload_types xs @ payload_types ys"
  by (simp add: payload_types_def)

lemma codec_names: "map fst videoCodecs = AllCodecs"
  by (simp add: videoCodecs_def AllCodecs_def)

lemma codec_name_distinct: "CodecH264 \<noteq> CodecH265" "CodecH264 \<noteq> CodecAV1" "CodecH265 \<noteq> CodecAV1"
  by (simp_all add: CodecH264_def CodecH265_def CodecAV1_def)

lemma registerCodecs_eq:
  "registerCodecs codecs =
     (if CodecH264 \<in> set codecs then [RegisterCodec (snd (videoCodecs ! 0)) Video, RegisterCodec (rtx_for (snd (videoCodecs ! 0))) Video] else []) @
     (if CodecH265 \<in> set codecs then [RegisterCodec (snd (videoCodecs ! 1)) Video, RegisterCodec (rtx_for (snd (videoCodecs ! 1))) Video] else []) @
     (if CodecAV1 \<in> set codecs then [RegisterCodec (snd (videoCodecs ! 2)) Video, RegisterCodec (rtx_for (snd (videoCodecs ! 2))) Video] else []) @
     [RegisterCodec opus Audio, RegisterCodec aac Audio]"
  by (simp add: registerCodecs_def videoCodecs_def)

lemma register_payloads: "distinct (payload_types (registerCodecs codecs))"
proof -
  have "payload_types (registerCodecs codecs) =
      (if CodecH264 \<in> set codecs then [96, 97] else []) @ (if CodecH265 \<in> set codecs then [116, 117] else []) @
      (if CodecAV1 \<in> set codecs then [45, 46] else []) @ [111, 112]"
    unfolding registerCodecs_eq by (simp add: payload_types_def videoCodecs_def rtx_for_def opus_def aac_def)
  then show ?thesis by (cases "CodecH264 \<in> set codecs"; cases "CodecH265 \<in> set codecs"; cases "CodecAV1 \<in> set codecs") simp_all
qed

lemma api_payloads: "payload_types (buildAPI_calls codecs arrival) = payload_types (registerCodecs codecs)"
  unfolding buildAPI_calls_def configureArrivalFeedback_def by (simp add: payload_types_def)

text \<open>What the statistics call a codec is what the settings call it.\<close>

lemma table_labels:
  assumes "(name, p) \<in> set videoCodecs"
  shows "CodecLabelOf (cp_MimeType p) = CodecLabel name"
proof -
  have "CodecLabelOf ''video/H264'' = CodecLabel CodecH264" "CodecLabelOf ''video/H265'' = CodecLabel CodecH265"
    "CodecLabelOf ''video/AV1'' = CodecLabel CodecAV1" by code_simp+
  then show ?thesis using assms by (auto simp: videoCodecs_def)
qed

lemma codec_registered:
  assumes "(name, p) \<in> set videoCodecs" "name \<in> set codecs"
  shows "\<exists>xs ys. registerCodecs codecs = xs @ [RegisterCodec p Video, RegisterCodec (rtx_for p) Video] @ ys"
proof -
  let ?f = "\<lambda>(name, params). if name \<notin> set codecs then [] else [RegisterCodec params Video, RegisterCodec (rtx_for params) Video]"
  obtain before after where parts: "videoCodecs = before @ (name, p) # after" using assms(1) by (meson split_list)
  have "registerCodecs codecs = concat (map ?f before) @ [RegisterCodec p Video, RegisterCodec (rtx_for p) Video] @
      (concat (map ?f after) @ [RegisterCodec opus Audio, RegisterCodec aac Audio])" unfolding registerCodecs_def parts using assms(2) by simp
  then show ?thesis by blast
qed

text \<open>
  Whatever codecs a camera's settings keep, its API can be built: if the library accepts a codec whose payload type is not taken yet and
  nothing else fails, every call succeeds.  Each codec of the settings is then registered, immediately followed by its
  retransmission codec, and it is shown under the label the settings give it.
\<close>

theorem api_can_be_built:
  assumes "\<And>made p kind. cp_PayloadType p \<notin> set (payload_types made) \<Longrightarrow> answers made (RegisterCodec p kind)"
    and "\<And>made call. registered call = [] \<Longrightarrow> answers made call"
    and "name \<in> set (keepCodecs codecs)"
  shows "\<exists>p xs ys. buildAPI answers (keepCodecs codecs) arrival = Some (xs @ [RegisterCodec p Video, RegisterCodec (rtx_for p) Video] @ ys) \<and>
    CodecLabelOf (cp_MimeType p) = CodecLabel name"
proof -
  let ?calls = "buildAPI_calls (keepCodecs codecs) arrival"
  have dist: "distinct (payload_types ?calls)" unfolding api_payloads by (rule register_payloads)
  have "run_calls fallible answers [] ?calls = ([] @ ?calls, True)"
  proof (rule run_calls_all)
    fix i assume i: "i < length ?calls"
    have parts: "?calls = take i ?calls @ ?calls ! i # drop (Suc i) ?calls" by (rule id_take_nth_drop [OF i])
    have "payload_types ?calls = payload_types (take i ?calls) @ map cp_PayloadType (registered (?calls ! i)) @ payload_types (drop (Suc i) ?calls)"
      by (subst parts) (simp add: payload_types_def)
    then have "set (map cp_PayloadType (registered (?calls ! i))) \<inter> set (payload_types (take i ?calls)) = {}"
      using dist by (metis Int_Un_distrib2 Int_commute Un_empty distinct_append set_append)
    then show "answers ([] @ take i ?calls) (?calls ! i)" using assms(1,2) by (cases "?calls ! i") auto
  qed
  then have build: "buildAPI answers (keepCodecs codecs) arrival = Some ?calls" by (simp add: buildAPI_def)
  have "name \<in> set (map fst videoCodecs)" using assms(3) keepCodecs_props(2) unfolding codec_names by blast
  then obtain p where p: "(name, p) \<in> set videoCodecs" by auto
  from codec_registered [OF p assms(3)] obtain xs ys
    where "registerCodecs (keepCodecs codecs) = xs @ [RegisterCodec p Video, RegisterCodec (rtx_for p) Video] @ ys" by blast
  then show ?thesis unfolding build buildAPI_calls_def using table_labels [OF p] by auto
qed

definition library_answers :: "api_call list \<Rightarrow> api_call \<Rightarrow> bool" where
  "library_answers made call \<longleftrightarrow> (\<forall>p \<in> set (registered call). cp_PayloadType p \<notin> set (payload_types made))"

theorem api_can_be_built_witness:
  "\<exists>p xs ys. buildAPI library_answers (keepCodecs [''av1'']) True = Some (xs @ [RegisterCodec p Video, RegisterCodec (rtx_for p) Video] @ ys) \<and>
    CodecLabelOf (cp_MimeType p) = ''AV1''"
proof -
  have kept: "CodecAV1 \<in> set (keepCodecs [''av1''])" and label: "CodecLabel CodecAV1 = ''AV1''" by code_simp+
  have "\<exists>p xs ys. buildAPI library_answers (keepCodecs [''av1'']) True = Some (xs @ [RegisterCodec p Video, RegisterCodec (rtx_for p) Video] @ ys) \<and>
      CodecLabelOf (cp_MimeType p) = CodecLabel CodecAV1"
    by (rule api_can_be_built [OF _ _ kept]) (simp_all add: library_answers_def)
  then show ?thesis unfolding label .
qed

section \<open>Public addresses\<close>

lemma split_slash_not_Nil [simp]: "split_slash s \<noteq> []"
  by (induction s) (auto split: list.split)

lemma split_slash_clean: "part \<in> set (split_slash s) \<Longrightarrow> slash \<notin> set part"
  by (induction s arbitrary: part) (auto split: if_splits list.splits)

lemma join_split: "join_slash (split_slash s) = s"
proof (induction s)
  case (Cons ch s)
  obtain part parts where s: "split_slash s = part # parts" by (cases "split_slash s") auto
  with Cons show ?case by (cases parts) auto
qed simp

lemma TrimSpace_set: "set (TrimSpace s) \<subseteq> set s"
  by (auto simp: TrimSpace_def dest!: set_dropWhileD)

text \<open>
  The address mappings are understood as they are written: the list is accepted exactly when every entry is an address or
  two addresses around a slash, and each entry then becomes the rule from the first address, on the
  socket of the second if there is one.
\<close>

theorem address_mappings_are_exact:
  "publicICEAddresses parseIP mappings =
     (case find (\<lambda>m. \<not> valid_mapping parseIP m) mappings of
        Some bad \<Rightarrow> Inl bad
      | None \<Rightarrow> Inr (map (\<lambda>m. join_slash (map TrimSpace (split_slash m))) mappings))"
  by (induction mappings) (auto split: option.split)

lemma rule_of_mapping:
  assumes "valid_mapping parseIP m"
  shows "cut_slash (join_slash (map TrimSpace (split_slash m))) =
    (TrimSpace (hd (split_slash m)), case tl (split_slash m) of [] \<Rightarrow> [] | part # _ \<Rightarrow> TrimSpace part)"
proof -
  obtain part parts where m: "split_slash m = part # parts" by (cases "split_slash m") auto
  have clean: "slash \<notin> set (TrimSpace part)" using split_slash_clean [of part m] TrimSpace_set [of part] m by auto
  have keep: "takeWhile (\<lambda>ch. ch \<noteq> slash) (TrimSpace part) = TrimSpace part" "dropWhile (\<lambda>ch. ch \<noteq> slash) (TrimSpace part) = []"
    using clean by (auto simp: takeWhile_eq_all_conv dropWhile_eq_Nil_conv)
  have "length parts \<le> 1" using assms m by (simp add: valid_mapping_def)
  then consider "parts = []" | second where "parts = [second]" by (cases parts) auto
  then show ?thesis
  proof cases
    case 2
    then show ?thesis using keep clean by (simp add: m cut_slash_def takeWhile_append dropWhile_append)
  qed (simp add: m cut_slash_def keep)
qed

section \<open>Stamped packets\<close>

text \<open>A stream that did not negotiate the extension is written as it is; on any other, what is written carries the floor and ceiling.\<close>

lemma unstamped:
  assumes "playoutDelayURI \<notin> fst ` set extensions"
  shows "BindLocalStream setExtension payload extensions writer header body = Some (writer header body)"
proof -
  have "playout_extension extensions = 0" using assms by (induction extensions) auto
  then show ?thesis by (simp add: BindLocalStream_def)
qed

lemma stamped:
  assumes "map_of extensions playoutDelayURI = Some ident" "1 \<le> ident" "ident \<le> 14"
  shows "BindLocalStream setExtension payload extensions writer header body =
    map_option (\<lambda>header1. writer header1 body) (setExtension header (of_int ident) payload)"
proof -
  have ext: "playout_extension extensions = of_int ident" using assms(1) by (induction extensions) (auto split: if_splits)
  have "uint (of_int ident :: u8) = ident" using assms(2,3) by (simp add: take_bit_int_eq_self unsigned_of_int)
  then have "(of_int ident :: u8) \<noteq> 0" using assms(2) by auto
  then show ?thesis unfolding BindLocalStream_def ext by (simp add: Let_def split: option.split)
qed

end
