(* ===== verification/Arrival_Feedback.thy ===== *)
theory Arrival_Feedback
  imports Packet_Buffer Media_Engine
begin

text \<open>
  \<^verbatim>\<open>internal/ingest/arrival_feedback.go\<close>: the collector that tells a publisher when its packets arrived.  One collector belongs to one peer
  connection, and is called from its receive buffers, its interceptor chain and its own ticker.

  The TWCC recorder and the RTP parsers are code of the WebRTC library: \<open>twcc\<close> holds the functions the collector calls.  Closing a channel
  that is closed already panics, which is \<open>None\<close>.
\<close>

section \<open>Operations\<close>

record ('r, 'h, 'p) twcc =
  tw_Record :: "'r \<Rightarrow> u32 \<Rightarrow> u16 \<Rightarrow> int \<Rightarrow> 'r"
  tw_Build :: "'r \<Rightarrow> 'r \<times> 'p list"
  tw_Header :: "bytes \<Rightarrow> 'h option"
  tw_SSRC :: "'h \<Rightarrow> u32"
  tw_Extension :: "'h \<Rightarrow> u8 \<Rightarrow> bytes"
  tw_Sequence :: "bytes \<Rightarrow> u16 option"

record 'r arrivalFeedback =
  af_closed :: bool
  af_claimed :: bool
  af_started :: bool
  af_done :: bool
  af_start :: instant
  af_streams :: "u32 \<Rightarrow> u8 option"
  af_recorder :: 'r

definition newArrivalFeedback :: "'r \<Rightarrow> instant \<Rightarrow> 'r arrivalFeedback" where
  "newArrivalFeedback recorder now =
     \<lparr>af_closed = False, af_claimed = False, af_started = False, af_done = False, af_start = now, af_streams = (\<lambda>_. None),
      af_recorder = recorder\<rparr>"

text \<open>\<open>False\<close> is the error: a collector cannot be used for a second peer.\<close>

definition arrival_NewInterceptor :: "'r arrivalFeedback \<Rightarrow> 'r arrivalFeedback \<times> bool" where
  "arrival_NewInterceptor f = (if af_claimed f \<or> af_closed f then (f, False) else (f\<lparr>af_claimed := True\<rparr>, True))"

text \<open>A buffer for RTP reports every packet to the collector, any other is an ordinary receive buffer.\<close>

definition arrival_buffer :: "bool \<Rightarrow> packetBuffer" where
  "arrival_buffer is_rtp = (if \<not> is_rtp then newPacketBuffer else newPacketBuffer\<lparr>p_onPacket := True\<rparr>)"

fun transport_extension :: "(string \<times> int) list \<Rightarrow> u8 option" where
  "transport_extension [] = None"
| "transport_extension ((uri, ident) # rest) =
     (if uri = TransportCCURI \<and> ident > 0 \<and> ident \<le> 255 then Some (of_int ident) else transport_extension rest)"

definition arrival_BindRemoteStream :: "'r arrivalFeedback \<Rightarrow> u32 \<Rightarrow> (string \<times> int) list \<Rightarrow> 'r arrivalFeedback" where
  "arrival_BindRemoteStream f ssrc extensions =
     (if af_closed f then f
      else case transport_extension extensions of
             None \<Rightarrow> f | Some ident \<Rightarrow> f\<lparr>af_streams := (af_streams f)(ssrc \<mapsto> ident)\<rparr>)"

definition arrival_UnbindRemoteStream :: "'r arrivalFeedback \<Rightarrow> u32 \<Rightarrow> 'r arrivalFeedback" where
  "arrival_UnbindRemoteStream f ssrc = f\<lparr>af_streams := (af_streams f)(ssrc := None)\<rparr>"

text \<open>\<^verbatim>\<open>Duration.Microseconds\<close> truncates.\<close>

definition arrival_record :: "('r, 'h, 'p) twcc \<Rightarrow> 'r arrivalFeedback \<Rightarrow> bytes \<Rightarrow> instant \<Rightarrow> 'r arrivalFeedback" where
  "arrival_record tw f packet arrival =
     (if af_closed f then f
      else case tw_Header tw packet of
             None \<Rightarrow> f
           | Some header \<Rightarrow>
               let ident = (case af_streams f (tw_SSRC tw header) of None \<Rightarrow> 0 | Some i \<Rightarrow> i)
               in if ident = 0 then f
                  else case tw_Sequence tw (tw_Extension tw header ident) of
                         None \<Rightarrow> f
                       | Some seqno \<Rightarrow>
                           f\<lparr>af_recorder := tw_Record tw (af_recorder f) (tw_SSRC tw header) seqno
                               (time_Sub arrival (af_start f) sdiv Microsecond)\<rparr>)"

definition arrival_feedback :: "('r, 'h, 'p) twcc \<Rightarrow> 'r arrivalFeedback \<Rightarrow> 'r arrivalFeedback \<times> 'p list" where
  "arrival_feedback tw f =
     (if af_closed f then (f, [])
      else case tw_Build tw (af_recorder f) of (r, packets) \<Rightarrow> (f\<lparr>af_recorder := r\<rparr>, packets))"

text \<open>The second result says whether the ticker was started.\<close>

definition arrival_BindRTCPWriter :: "'r arrivalFeedback \<Rightarrow> 'r arrivalFeedback \<times> bool" where
  "arrival_BindRTCPWriter f = (if af_closed f \<or> af_started f then (f, False) else (f\<lparr>af_started := True\<rparr>, True))"

text \<open>One round of the ticker's loop: it ends when \<^verbatim>\<open>done\<close> is closed (\<open>None\<close>); otherwise it writes the packets of a tick.
  Building the packets, under the lock, and handing them to the writer are one step; \<^verbatim>\<open>Close\<close> also waits for the loop to end, which the model leaves out.\<close>

definition arrival_tick :: "('r, 'h, 'p) twcc \<Rightarrow> 'r arrivalFeedback \<Rightarrow> ('r arrivalFeedback \<times> 'p list) option" where
  "arrival_tick tw f = (if af_done f then None else Some (arrival_feedback tw f))"

definition arrival_Close :: "'r arrivalFeedback \<Rightarrow> 'r arrivalFeedback option" where
  "arrival_Close f =
     (if af_closed f then Some f
      else let f1 = f\<lparr>af_closed := True, af_streams := (\<lambda>_. None)\<rparr>
           in if af_done f1 then None else Some (f1\<lparr>af_done := True\<rparr>))"

section \<open>Runs\<close>

datatype arrival_event =
    AClaim | ABind u32 "(string \<times> int) list" | AUnbind u32 | APacket bytes instant | AWriter | ATick | AClose

text \<open>The state with what it did so far: the peers it served, the tickers it started, the packets it sent; \<open>None\<close> after a panic.\<close>

record ('r, 'p) arrival_run =
  ar_f :: "'r arrivalFeedback"
  ar_peers :: nat
  ar_tickers :: nat
  ar_sent :: "'p list"

fun arrival_step :: "('r, 'h, 'p) twcc \<Rightarrow> ('r, 'p) arrival_run \<Rightarrow> arrival_event \<Rightarrow> ('r, 'p) arrival_run option" where
  "arrival_step tw s AClaim = (case arrival_NewInterceptor (ar_f s) of (f, ok) \<Rightarrow> Some (s\<lparr>ar_f := f, ar_peers := ar_peers s + (if ok then 1 else 0)\<rparr>))"
| "arrival_step tw s (ABind ssrc exts) = Some (s\<lparr>ar_f := arrival_BindRemoteStream (ar_f s) ssrc exts\<rparr>)"
| "arrival_step tw s (AUnbind ssrc) = Some (s\<lparr>ar_f := arrival_UnbindRemoteStream (ar_f s) ssrc\<rparr>)"
| "arrival_step tw s (APacket packet now) = Some (s\<lparr>ar_f := arrival_record tw (ar_f s) packet now\<rparr>)"
| "arrival_step tw s AWriter = (case arrival_BindRTCPWriter (ar_f s) of (f, ok) \<Rightarrow> Some (s\<lparr>ar_f := f, ar_tickers := ar_tickers s + (if ok then 1 else 0)\<rparr>))"
| "arrival_step tw s ATick =
     (if ar_tickers s = 0 then Some s
      else case arrival_tick tw (ar_f s) of
             None \<Rightarrow> Some s | Some (f, packets) \<Rightarrow> Some (s\<lparr>ar_f := f, ar_sent := ar_sent s @ packets\<rparr>))"
| "arrival_step tw s AClose = map_option (\<lambda>f. s\<lparr>ar_f := f\<rparr>) (arrival_Close (ar_f s))"

fun arrival_steps :: "('r, 'h, 'p) twcc \<Rightarrow> ('r, 'p) arrival_run \<Rightarrow> arrival_event list \<Rightarrow> ('r, 'p) arrival_run option" where
  "arrival_steps tw s [] = Some s"
| "arrival_steps tw s (e # es) = (case arrival_step tw s e of None \<Rightarrow> None | Some s' \<Rightarrow> arrival_steps tw s' es)"

definition arrival_begin :: "'r \<Rightarrow> instant \<Rightarrow> ('r, 'p) arrival_run" where
  "arrival_begin recorder now = \<lparr>ar_f = newArrivalFeedback recorder now, ar_peers = 0, ar_tickers = 0, ar_sent = []\<rparr>"

definition arrival_inv :: "('r, 'p) arrival_run \<Rightarrow> bool" where
  "arrival_inv s \<longleftrightarrow> af_done (ar_f s) = af_closed (ar_f s) \<and> (af_closed (ar_f s) \<longrightarrow> af_streams (ar_f s) = (\<lambda>_. None)) \<and>
     ar_peers s = (if af_claimed (ar_f s) then 1 else 0) \<and> ar_tickers s = (if af_started (ar_f s) then 1 else 0)"

lemma record_fields [simp]:
  "af_closed (arrival_record tw f p t) = af_closed f" "af_claimed (arrival_record tw f p t) = af_claimed f"
  "af_started (arrival_record tw f p t) = af_started f" "af_done (arrival_record tw f p t) = af_done f"
  "af_streams (arrival_record tw f p t) = af_streams f" "af_start (arrival_record tw f p t) = af_start f"
  by (auto simp: arrival_record_def Let_def split: option.split)

lemma arrival_inv_step: "arrival_inv s \<Longrightarrow> \<exists>s'. arrival_step tw s e = Some s' \<and> arrival_inv s'"
  by (cases e) (auto simp: arrival_inv_def arrival_NewInterceptor_def arrival_BindRemoteStream_def arrival_UnbindRemoteStream_def
      arrival_BindRTCPWriter_def arrival_tick_def arrival_feedback_def arrival_Close_def Let_def split: option.split prod.split)

lemma arrival_inv_steps: "arrival_inv s \<Longrightarrow> \<exists>s'. arrival_steps tw s es = Some s' \<and> arrival_inv s'"
proof (induction es arbitrary: s)
  case (Cons e es)
  obtain s1 where "arrival_step tw s e = Some s1" "arrival_inv s1" using arrival_inv_step [OF Cons.prems] by blast
  then show ?case using Cons.IH [of s1] by simp
qed simp

text \<open>A collector that is closed stays closed and does nothing more.\<close>

lemma closed_step:
  assumes "arrival_step tw s e = Some s'" "af_closed (ar_f s)" "arrival_inv s"
  shows "af_closed (ar_f s') \<and> af_recorder (ar_f s') = af_recorder (ar_f s) \<and> ar_sent s' = ar_sent s \<and> ar_peers s' = ar_peers s \<and> ar_tickers s' = ar_tickers s"
  using assms by (cases e) (auto simp: arrival_inv_def arrival_NewInterceptor_def arrival_BindRemoteStream_def arrival_UnbindRemoteStream_def
      arrival_record_def arrival_BindRTCPWriter_def arrival_tick_def arrival_feedback_def arrival_Close_def)

lemma closed_steps:
  assumes "arrival_steps tw s es = Some s'" "af_closed (ar_f s)" "arrival_inv s"
  shows "af_recorder (ar_f s') = af_recorder (ar_f s) \<and> ar_sent s' = ar_sent s \<and> ar_peers s' = ar_peers s \<and> ar_tickers s' = ar_tickers s"
  using assms
proof (induction es arbitrary: s)
  case (Cons e es)
  then obtain s1 where s1: "arrival_step tw s e = Some s1" "arrival_steps tw s1 es = Some s'" by (auto split: option.splits)
  have "arrival_inv s1" using arrival_inv_step [OF Cons.prems(3), of tw e] s1(1) by auto
  then show ?case using Cons.IH [OF s1(2)] closed_step [OF s1(1) Cons.prems(2,3)] by simp
qed simp

text \<open>
  C19: A collector serves one peer, whatever the order of the calls made to it from the connection's goroutines: it never
  panics, it is claimed at most once and starts at most one ticker, and after it is closed it records nothing and sends nothing.
\<close>

theorem collector_serves_one_peer:
  fixes tw :: "('r, 'h, 'p) twcc"
  shows "\<exists>s. arrival_steps tw (arrival_begin recorder now) es = Some s \<and> ar_peers s \<le> 1 \<and> ar_tickers s \<le> 1 \<and>
     (\<exists>s' s''. arrival_step tw s AClose = Some s' \<and> arrival_steps tw s' later = Some s'' \<and>
        ar_sent s'' = ar_sent s' \<and> af_recorder (ar_f s'') = af_recorder (ar_f s') \<and> ar_peers s'' = ar_peers s' \<and> ar_tickers s'' = ar_tickers s')"
proof -
  have "arrival_inv (arrival_begin recorder now :: ('r, 'p) arrival_run)" by (simp add: arrival_inv_def arrival_begin_def newArrivalFeedback_def)
  then obtain s where s: "arrival_steps tw (arrival_begin recorder now) es = Some s" "arrival_inv s" using arrival_inv_steps by blast
  obtain s' where s': "arrival_step tw s AClose = Some s'" "arrival_inv s'" using arrival_inv_step [OF s(2)] by blast
  obtain s'' where s'': "arrival_steps tw s' later = Some s''" using arrival_inv_steps [OF s'(2)] by blast
  have "af_closed (ar_f s')" using s'(1) by (auto simp: arrival_Close_def Let_def split: if_splits)
  from closed_steps [OF s'' this s'(2)] s s' s'' show ?thesis by (auto simp: arrival_inv_def)
qed

section \<open>What is recorded\<close>

text \<open>
  Arrival is recorded for every packet the network delivered, also when the queue is full and drops it: writing a packet that passed
  authentication to a receive buffer records its arrival exactly when the collector is open and the packet's stream negotiated the extension.
\<close>

theorem arrivals_are_recorded:
  assumes "packetBuffer_Write b packet now = (b', n, err, called)" "p_onPacket b" "\<not> p_closed b" "0 < length packet" "length packet \<le> 65535"
    and "\<not> af_closed f" "tw_Header tw packet = Some header" "af_streams f (tw_SSRC tw header) = Some ident" "ident \<noteq> 0"
    and "tw_Sequence tw (tw_Extension tw header ident) = Some seqno"
  shows "called = Some (packet, now) \<and>
    arrival_record tw f packet now = f\<lparr>af_recorder := tw_Record tw (af_recorder f) (tw_SSRC tw header) seqno (time_Sub now (af_start f) sdiv Microsecond)\<rparr>"
  using assms by (auto simp: packetBuffer_Write_def arrival_record_def Let_def split: if_splits)

lemma arrival_ignored:
  assumes "af_closed f \<or> tw_Header tw packet = None \<or>
    (\<exists>header. tw_Header tw packet = Some header \<and> af_streams f (tw_SSRC tw header) \<in> {None, Some 0})"
  shows "arrival_record tw f packet now = f"
  using assms by (auto simp: arrival_record_def)

text \<open>The identifiers in the table are never zero, so every bound stream is recorded.\<close>

lemma bound_identifier: "transport_extension exts = Some ident \<Longrightarrow> ident \<noteq> 0"
proof (induction exts rule: transport_extension.induct)
  case (2 uri ident' rest)
  show ?case
  proof (cases "uri = TransportCCURI \<and> ident' > 0 \<and> ident' \<le> 255")
    case True
    then have "uint (of_int ident' :: u8) = ident'" by (simp add: take_bit_int_eq_self unsigned_of_int)
    then show ?thesis using 2 True by auto
  next
    case False
    then have "transport_extension rest = Some ident" using 2(2) by (simp split: if_splits)
    then show ?thesis using 2(1) False by blast
  qed
qed simp

end
