(* ===== verification/Supervisor.thy ===== *)
theory Supervisor
  imports Http
begin

text \<open>
  Starting and stopping the daemon: \<^verbatim>\<open>listen.Serve\<close> (\<^verbatim>\<open>internal/listen/listen.go\<close>), and \<^verbatim>\<open>run\<close> and \<^verbatim>\<open>waitListeners\<close> of
  \<^verbatim>\<open>cmd/wagastrim/main.go\<close>.  The listeners run in goroutines of their own and report their end on a channel; \<open>supervisor\<close> is
  the state they share with \<^verbatim>\<open>waitListeners\<close>, and \<open>sup_step\<close> what each of them, the collector and a signal can do next.
\<close>

section \<open>One listener\<close>

datatype listen_error = ErrServe | ErrShutdown

datatype server_error = ErrServerClosed | OtherServerError

text \<open>How serving ends: \<^verbatim>\<open>http.Server\<close> returned, or the context ended and the shutdown succeeded or not.\<close>

datatype serve_end = Returned server_error | ContextEnded bool

definition listen_Serve :: "bool \<Rightarrow> serve_end \<Rightarrow> listen_error option" where
  "listen_Serve bound outcome =
     (if \<not> bound then Some ErrServe
      else case outcome of
             Returned ErrServerClosed \<Rightarrow> None
           | Returned OtherServerError \<Rightarrow> Some ErrServe
           | ContextEnded ok \<Rightarrow> if ok then None else Some ErrShutdown)"

text \<open>TLS is on when a certificate and a key were passed and one of them is set.\<close>

definition serves_tls :: "string list \<Rightarrow> bool" where
  "serves_tls certificate \<longleftrightarrow> length certificate = 2 \<and> (certificate ! 0 \<noteq> [] \<or> certificate ! 1 \<noteq> [])"

section \<open>All listeners\<close>

record supervisor =
  su_cancelled :: bool
  su_running :: "nat list"
  su_errs :: "listen_error option list"
  su_left :: nat
  su_first :: "listen_error option"

text \<open>One round of \<^verbatim>\<open>waitListeners\<close>, on the result it received.\<close>

definition wait_round :: "supervisor \<Rightarrow> listen_error option \<Rightarrow> supervisor" where
  "wait_round s r =
     (let s1 = s\<lparr>su_left := su_left s - 1\<rparr>
      in case r of
           None \<Rightarrow> s1
         | Some err \<Rightarrow> s1\<lparr>su_first := (if su_first s1 = None then Some err else su_first s1), su_cancelled := True\<rparr>)"

definition waitListeners :: "listen_error option list \<Rightarrow> listen_error option" where
  "waitListeners results =
     su_first (foldl wait_round \<lparr>su_cancelled = False, su_running = [], su_errs = [], su_left = length results, su_first = None\<rparr> results)"

inductive sup_step :: "supervisor \<Rightarrow> supervisor \<Rightarrow> bool" where
  ends: "i \<in> set (su_running s) \<Longrightarrow> (\<And>ok. outcome = ContextEnded ok \<Longrightarrow> su_cancelled s) \<Longrightarrow>
    sup_step s (s\<lparr>su_running := removeAll i (su_running s), su_errs := su_errs s @ [listen_Serve bound outcome]\<rparr>)"
| signal: "\<not> su_cancelled s \<Longrightarrow> sup_step s (s\<lparr>su_cancelled := True\<rparr>)"
| collect: "su_errs s = r # rest \<Longrightarrow> 0 < su_left s \<Longrightarrow> sup_step s (wait_round (s\<lparr>su_errs := rest\<rparr>) r)"

inductive_cases sup_stepE: "sup_step s s'"

text \<open>The listeners a configuration starts, and the capacity of their channel.\<close>

definition listener_count :: "string \<Rightarrow> nat" where
  "listener_count token = (if token \<noteq> [] then 3 else 2)"

definition errs_capacity :: nat where "errs_capacity = 3"

definition supervisor_start :: "string \<Rightarrow> supervisor" where
  "supervisor_start token =
     \<lparr>su_cancelled = False, su_running = [0 ..< listener_count token], su_errs = [], su_left = listener_count token, su_first = None\<rparr>"

section \<open>Start-up\<close>

datatype resource = MediaMux | IngestServer | EgressServer

datatype start_event = Acquire resource | Release resource | Listen nat

record start_env =
  se_load :: bool
  se_transport :: bool
  se_ui :: bool
  se_engine :: bool
  se_whip :: bool
  se_token :: string
  se_finished :: "listen_error option"

text \<open>What \<^verbatim>\<open>run\<close> acquires and releases, and whether it returns an error; deferred calls run in reverse order.\<close>

definition main_run :: "start_env \<Rightarrow> start_event list \<times> bool" where
  "main_run env =
     (if \<not> se_load env then ([], True)
      else if \<not> se_transport env then ([], True)
      else if \<not> se_ui env then ([], True)
      else if \<not> se_engine env then ([], True)
      else let mux = [Acquire MediaMux]; close_mux = [Release MediaMux]
           in if \<not> se_whip env then (mux @ close_mux, True)
              else let whip = [Acquire IngestServer]; whep = [Acquire EgressServer];
                       closers = [Release EgressServer, Release IngestServer] @ close_mux
                   in (mux @ whip @ whep @ [Listen (listener_count (se_token env))] @ closers, se_finished env \<noteq> None))"

section \<open>Shutdown\<close>

definition sup_inv :: "supervisor \<Rightarrow> bool" where
  "sup_inv s \<longleftrightarrow> distinct (su_running s) \<and> su_left s = length (su_running s) + length (su_errs s) \<and> su_left s \<le> errs_capacity \<and>
     (su_first s \<noteq> None \<longrightarrow> su_cancelled s)"

lemma wait_round_fields [simp]:
  "su_running (wait_round s r) = su_running s" "su_errs (wait_round s r) = su_errs s" "su_left (wait_round s r) = su_left s - 1"
  by (simp_all add: wait_round_def Let_def split: option.split)

lemma removeAll_length: "distinct xs \<Longrightarrow> i \<in> set xs \<Longrightarrow> Suc (length (removeAll i xs)) = length xs"
  by (induction xs) auto

lemma sup_inv_step: "sup_step s s' \<Longrightarrow> sup_inv s \<Longrightarrow> sup_inv s'"
  by (erule sup_stepE) (auto simp: sup_inv_def distinct_removeAll wait_round_def Let_def dest: removeAll_length split: option.split)

text \<open>What is left to happen: a listener ends and its result is collected; a signal comes at most once.\<close>

definition sup_work :: "supervisor \<Rightarrow> nat" where
  "sup_work s = 2 * length (su_running s) + length (su_errs s) + (if su_cancelled s then 0 else 1)"

lemma sup_work_step:
  assumes "sup_step s s'" "sup_inv s"
  shows "sup_work s' < sup_work s"
  using assms(1)
proof cases
  case (ends i outcome bound)
  then show ?thesis using removeAll_length [of "su_running s" i] assms(2) by (simp add: sup_work_def sup_inv_def)
next
  case (collect r rest)
  then show ?thesis by (auto simp: sup_work_def wait_round_def Let_def split: option.split)
qed (simp add: sup_work_def)

inductive sup_steps :: "nat \<Rightarrow> supervisor \<Rightarrow> supervisor \<Rightarrow> bool" where
  none: "sup_steps 0 s s"
| more: "sup_steps n s s1 \<Longrightarrow> sup_step s1 s2 \<Longrightarrow> sup_steps (Suc n) s s2"

lemma sup_steps_inv: "sup_steps n s s' \<Longrightarrow> sup_inv s \<Longrightarrow> sup_inv s' \<and> n + sup_work s' \<le> sup_work s"
proof (induction rule: sup_steps.induct)
  case (more n s s1 s2)
  then show ?case using sup_inv_step [OF more.hyps(2)] sup_work_step [OF more.hyps(2)] by fastforce
qed simp

lemma sup_start_inv: "sup_inv (supervisor_start token)" "sup_work (supervisor_start token) \<le> 7"
  by (simp_all add: sup_inv_def supervisor_start_def listener_count_def errs_capacity_def sup_work_def)

text \<open>
  What the daemon does of itself, with no further signal and no listener failing on its own: a listener whose context has ended
  shuts its server down, and a result that waits is collected.
\<close>

inductive own_step :: "supervisor \<Rightarrow> supervisor \<Rightarrow> bool" where
  stops: "i \<in> set (su_running s) \<Longrightarrow> su_cancelled s \<Longrightarrow>
    own_step s (s\<lparr>su_running := removeAll i (su_running s), su_errs := su_errs s @ [listen_Serve True (ContextEnded ok)]\<rparr>)"
| collects: "su_errs s = r # rest \<Longrightarrow> 0 < su_left s \<Longrightarrow> own_step s (wait_round (s\<lparr>su_errs := rest\<rparr>) r)"

lemma own_step_is_step: "own_step s s' \<Longrightarrow> sup_step s s'"
  by (induction rule: own_step.induct) (auto intro: sup_step.intros)

text \<open>The reasons to stop: a signal ended the context, or a listener failed, whether or not its error has been collected.\<close>

definition told_to_stop :: "supervisor \<Rightarrow> bool" where
  "told_to_stop s \<longleftrightarrow> su_cancelled s \<or> su_first s \<noteq> None \<or> list_ex (\<lambda>r. r \<noteq> None) (su_errs s)"

lemma stuck_collected:
  assumes "sup_inv s" "\<And>s'. \<not> own_step s s'"
  shows "su_errs s = []"
proof (cases "su_errs s")
  case (Cons r rest)
  then have "0 < su_left s" using assms(1) by (simp add: sup_inv_def)
  from own_step.collects [OF Cons this] assms(2) show ?thesis by blast
qed simp

lemma stuck_stopped:
  assumes "sup_inv s" "told_to_stop s" "\<And>s'. \<not> own_step s s'"
  shows "su_running s = []"
proof (rule ccontr)
  assume "su_running s \<noteq> []"
  then have "hd (su_running s) \<in> set (su_running s)" by simp
  moreover have "su_cancelled s"
    using assms(1,2) stuck_collected [OF assms(1,3)] by (auto simp: told_to_stop_def sup_inv_def)
  ultimately show False using own_step.stops [of "hd (su_running s)" s True] assms(3) by blast
qed

text \<open>
  C18: Shutdown terminates: whatever the listeners do and in whatever order, the daemon makes at most seven steps in all and
  no result ever waits for room in the channel.  Once a signal came or a listener failed, the daemon needs nothing
  more from outside: it only comes to rest when every listener has ended and every result was collected, also the
  listeners that would have gone on serving.
\<close>

theorem shutdown_terminates:
  assumes "sup_steps n (supervisor_start token) s"
  shows "n \<le> 7 \<and> length (su_errs s) \<le> errs_capacity \<and>
    (told_to_stop s \<and> (\<forall>s'. \<not> own_step s s') \<longrightarrow> su_running s = [] \<and> su_errs s = [] \<and> su_left s = 0)"
proof -
  have inv: "sup_inv s" "n + sup_work s \<le> 7" using sup_steps_inv [OF assms sup_start_inv(1)] sup_start_inv(2) [of token] by auto
  have rest: "su_running s = []" "su_errs s = []" if "told_to_stop s" "\<forall>s'. \<not> own_step s s'"
    using stuck_stopped [OF inv(1) that(1)] stuck_collected [OF inv(1)] that(2) by simp_all
  have "su_left s = length (su_running s) + length (su_errs s)" "su_left s \<le> errs_capacity" using inv(1) by (simp_all add: sup_inv_def)
  with rest inv(2) show ?thesis by auto
qed

text \<open>Three listeners, the first of which fails; the others shut down and their results are collected.\<close>

lemma sup_steps_Suc: "sup_steps n s1 s' \<Longrightarrow> sup_step s s1 \<Longrightarrow> sup_steps (Suc n) s s'"
  by (induction rule: sup_steps.induct) (blast intro: sup_steps.intros)+

definition example_end :: supervisor where
  "example_end = \<lparr>su_cancelled = True, su_running = [], su_errs = [], su_left = 0, su_first = Some ErrServe\<rparr>"

theorem shutdown_terminates_witness:
  "sup_steps 6 (supervisor_start ''t'') example_end \<and> told_to_stop example_end \<and> (\<forall>s'. \<not> own_step example_end s') \<and>
   length (su_errs example_end) \<le> errs_capacity \<and> su_running example_end = [] \<and> su_left example_end = 0"
proof -
  let ?s = "\<lambda>c r e l f. \<lparr>su_cancelled = c, su_running = r, su_errs = e, su_left = l, su_first = f\<rparr>"
  let ?e = "Some ErrServe"
  have steps: "sup_step (?s False [0, 1, 2] [] 3 None) (?s False [1, 2] [?e] 3 None)"
    "sup_step (?s False [1, 2] [?e] 3 None) (?s True [1, 2] [] 2 ?e)"
    "sup_step (?s True [1, 2] [] 2 ?e) (?s True [2] [None] 2 ?e)"
    "sup_step (?s True [2] [None] 2 ?e) (?s True [] [None, None] 2 ?e)"
    "sup_step (?s True [] [None, None] 2 ?e) (?s True [] [None] 1 ?e)"
    "sup_step (?s True [] [None] 1 ?e) (?s True [] [] 0 ?e)"
    using sup_step.ends [of 0 "?s False [0, 1, 2] [] 3 None" "Returned OtherServerError" True]
      sup_step.ends [of 1 "?s True [1, 2] [] 2 ?e" "ContextEnded True" True]
      sup_step.ends [of 2 "?s True [2] [None] 2 ?e" "ContextEnded True" True]
      sup_step.collect [of "?s False [1, 2] [?e] 3 None" "?e" "[]"] sup_step.collect [of "?s True [] [None, None] 2 ?e" None "[None]"]
      sup_step.collect [of "?s True [] [None] 1 ?e" None "[]"]
    by (simp_all add: listen_Serve_def wait_round_def)
  have start: "supervisor_start ''t'' = ?s False [0, 1, 2] [] 3 None"
    by (simp add: supervisor_start_def listener_count_def upt_rec)
  have "sup_steps (Suc (Suc (Suc (Suc (Suc (Suc 0)))))) (supervisor_start ''t'') example_end"
    unfolding start example_end_def by (intro sup_steps_Suc [OF _ steps(1)] sup_steps_Suc [OF _ steps(2)] sup_steps_Suc [OF _ steps(3)]
        sup_steps_Suc [OF _ steps(4)] sup_steps_Suc [OF _ steps(5)] sup_steps_Suc [OF _ steps(6)] sup_steps.none)
  then have run: "sup_steps 6 (supervisor_start ''t'') example_end" by (simp add: eval_nat_numeral)
  moreover have "told_to_stop example_end" "\<forall>s'. \<not> own_step example_end s'"
    by (auto simp: told_to_stop_def example_end_def elim: own_step.cases)
  ultimately show ?thesis using shutdown_terminates [OF run] by blast
qed

text \<open>The error that is returned is the first one received.\<close>

lemma first_error: "su_first (foldl wait_round s rs) = (if su_first s = None then (case filter (\<lambda>r. r \<noteq> None) rs of [] \<Rightarrow> None | r # _ \<Rightarrow> r) else su_first s)"
proof (induction rs arbitrary: s)
  case (Cons r rs)
  then show ?case by (cases r) (auto simp: wait_round_def Let_def)
qed simp

lemma waitListeners_first: "waitListeners rs = (case filter (\<lambda>r. r \<noteq> None) rs of [] \<Rightarrow> None | r # _ \<Rightarrow> r)"
  by (simp add: waitListeners_def first_error)

text \<open>
  Whatever fails at start-up or later, what was acquired is released, each thing once and in the reverse order.
\<close>

fun releases :: "resource list \<Rightarrow> start_event list \<Rightarrow> resource list option" where
  "releases held [] = Some held"
| "releases held (Acquire r # es) = releases (r # held) es"
| "releases held (Release r # es) = (case held of h # hs \<Rightarrow> if h = r then releases hs es else None | [] \<Rightarrow> None)"
| "releases held (Listen _ # es) = releases held es"

theorem run_releases_everything: "releases [] (fst (main_run env)) = Some []"
  by (simp add: main_run_def Let_def)

end
