(* ===== verification/Routes.thy ===== *)
theory Routes
  imports Http "HOL-Library.Char_ord" "HOL-Library.List_Lexorder"
begin

text \<open>
  What the program uses of \<^verbatim>\<open>http.ServeMux\<close>: a table of patterns, each a method and a path with wildcards, and the choice of the most specific
  one.  Registering a pattern that conflicts with an earlier one panics.  A path is the list of its unescaped
  segments, where a trailing slash is the segment \<open>''/''\<close>, so that the root is \<open>[''/'']\<close>; paths that are not clean are redirected before and are
  not modelled.
\<close>

section \<open>Patterns\<close>

text \<open>\<open>Multi\<close> is a trailing slash, which matches everything below; \<^verbatim>\<open>{$}\<close> is the literal \<open>''/''\<close>.\<close>

datatype segment = Lit string | Wild string | Multi

record 'h route =
  rt_method :: string
  rt_segments :: "segment list"
  rt_handler :: 'h

abbreviation route :: "string \<Rightarrow> segment list \<Rightarrow> 'h \<Rightarrow> 'h route" where
  "route m segs h \<equiv> \<lparr>rt_method = m, rt_segments = segs, rt_handler = h\<rparr>"

type_synonym bindings = "(string \<times> string) list"

fun match_path :: "segment list \<Rightarrow> string list \<Rightarrow> bindings option" where
  "match_path [] [] = Some []"
| "match_path (Lit l # segs) (x # path) = (if x = l then match_path segs path else None)"
| "match_path (Wild v # segs) (x # path) = (if x = ''/'' then None else map_option (Cons (v, x)) (match_path segs path))"
| "match_path (Multi # segs) (x # path) = Some []"
| "match_path _ _ = None"

definition method_matches :: "string \<Rightarrow> string \<Rightarrow> bool" where
  "method_matches pattern verb \<longleftrightarrow> verb = pattern \<or> (pattern = ''GET'' \<and> verb = ''HEAD'')"

definition ends_multi :: "segment list \<Rightarrow> bool" where
  "ends_multi segs \<longleftrightarrow> segs \<noteq> [] \<and> last segs = Multi"

section \<open>Which pattern is more specific\<close>

datatype relationship = Equivalent | MoreGeneral | MoreSpecific | Disjoint | Overlaps

fun combineRelationships :: "relationship \<Rightarrow> relationship \<Rightarrow> relationship" where
  "combineRelationships Equivalent r = r"
| "combineRelationships Disjoint r = Disjoint"
| "combineRelationships Overlaps r = (if r = Disjoint then Disjoint else Overlaps)"
| "combineRelationships MoreGeneral r = (if r = Equivalent then MoreGeneral else if r = MoreSpecific then Overlaps else r)"
| "combineRelationships MoreSpecific r = (if r = Equivalent then MoreSpecific else if r = MoreGeneral then Overlaps else r)"

fun compareSegments :: "segment \<Rightarrow> segment \<Rightarrow> relationship" where
  "compareSegments Multi Multi = Equivalent"
| "compareSegments Multi _ = MoreGeneral"
| "compareSegments _ Multi = MoreSpecific"
| "compareSegments (Wild _) (Wild _) = Equivalent"
| "compareSegments (Wild _) (Lit l) = (if l = ''/'' then Disjoint else MoreGeneral)"
| "compareSegments (Lit l) (Wild _) = (if l = ''/'' then Disjoint else MoreSpecific)"
| "compareSegments (Lit l) (Lit k) = (if l = k then Equivalent else Disjoint)"

fun compare_common :: "relationship \<Rightarrow> segment list \<Rightarrow> segment list \<Rightarrow> relationship \<times> segment list \<times> segment list" where
  "compare_common rel (s # segs1) (t # segs2) = compare_common (combineRelationships rel (compareSegments s t)) segs1 segs2"
| "compare_common rel segs1 segs2 = (rel, segs1, segs2)"

definition comparePaths :: "segment list \<Rightarrow> segment list \<Rightarrow> relationship" where
  "comparePaths p1 p2 =
     (if length p1 \<noteq> length p2 \<and> \<not> ends_multi p1 \<and> \<not> ends_multi p2 then Disjoint
      else let (rel, segs1, segs2) = compare_common Equivalent p1 p2
           in if segs1 = [] \<and> segs2 = [] then rel
              else if rel = Disjoint then Disjoint
              else if length segs1 < length segs2 \<and> ends_multi p1 then combineRelationships rel MoreGeneral
              else if length segs2 < length segs1 \<and> ends_multi p2 then combineRelationships rel MoreSpecific
              else Disjoint)"

text \<open>Patterns of different methods conflict only if one is \<^verbatim>\<open>GET\<close> and the other \<^verbatim>\<open>HEAD\<close>, and no pattern of the program is for \<^verbatim>\<open>HEAD\<close>.\<close>

definition conflicts :: "'h route \<Rightarrow> 'h route \<Rightarrow> bool" where
  "conflicts r1 r2 \<longleftrightarrow> rt_method r1 = rt_method r2 \<and> comparePaths (rt_segments r1) (rt_segments r2) \<in> {Equivalent, Overlaps}"

fun registers :: "'h route list \<Rightarrow> bool" where
  "registers [] = True"
| "registers (r # rs) \<longleftrightarrow> (\<forall>q \<in> set rs. \<not> conflicts r q) \<and> registers rs"

section \<open>Serving\<close>

definition best_route :: "'h route list \<Rightarrow> string \<Rightarrow> string list \<Rightarrow> ('h route \<times> bindings) option" where
  "best_route routes verb path =
     (let candidates = filter (\<lambda>r. method_matches (rt_method r) verb \<and> match_path (rt_segments r) path \<noteq> None) routes
      in case find (\<lambda>r. \<forall>q \<in> set candidates. comparePaths (rt_segments q) (rt_segments r) \<noteq> MoreSpecific) candidates of
           None \<Rightarrow> None
         | Some r \<Rightarrow> map_option (Pair r) (match_path (rt_segments r) path))"

datatype 'h served = Handled 'h bindings | Redirect | MethodNotAllowed "string list" | NoRoute

definition exact_match :: "('h route \<times> bindings) option \<Rightarrow> string list \<Rightarrow> bool" where
  "exact_match n path =
     (case n of None \<Rightarrow> False
      | Some (r, _) \<Rightarrow> \<not> ends_multi (rt_segments r) \<or> path \<noteq> [] \<and> last path = ''/'' \<and> length (rt_segments r) = length path)"

definition allowed_methods :: "'h route list \<Rightarrow> string list \<Rightarrow> string list" where
  "allowed_methods routes path =
     sort (remdups (concat (map (\<lambda>r. if match_path (rt_segments r) path \<noteq> None
                               then (if rt_method r = ''GET'' then [''GET'', ''HEAD''] else [rt_method r]) else []) routes)))"

definition ServeMux :: "'h route list \<Rightarrow> string \<Rightarrow> string list \<Rightarrow> 'h served" where
  "ServeMux routes verb path =
     (let n = best_route routes verb path; below = path @ [''/'']
      in if \<not> exact_match n path \<and> path \<noteq> [] \<and> last path \<noteq> ''/'' \<and> exact_match (best_route routes verb below) below then Redirect
         else case n of
                Some (r, vars) \<Rightarrow> Handled (rt_handler r) vars
              | None \<Rightarrow> if allowed_methods routes path \<noteq> [] then MethodNotAllowed (allowed_methods routes path) else NoRoute)"

text \<open>The answers of the mux itself; the redirect is to the path with a trailing slash.\<close>

definition mux_answer :: "nat \<Rightarrow> 'h served \<Rightarrow> 'v http_response" where
  "mux_answer redirect s =
     (case s of
        MethodNotAllowed methods \<Rightarrow>
          http_Error [(''Allow'', concat (map (\<lambda>(i, m). if i = 0 then m else '', '' @ m) (enumerate 0 methods)))] ''Method Not Allowed'' 405
      | Redirect \<Rightarrow> \<lparr>hr_status = redirect, hr_headers = [], hr_body = NoBody\<rparr>
      | _ \<Rightarrow> http_Error [] ''404 page not found'' StatusNotFound)"

definition path_value :: "bindings \<Rightarrow> string \<Rightarrow> string" where
  "path_value vars v = (case map_of vars v of None \<Rightarrow> [] | Some x \<Rightarrow> x)"

section \<open>Laws\<close>

lemma best_route_in:
  assumes "best_route routes verb path = Some (r, vars)"
  shows "r \<in> set routes" "method_matches (rt_method r) verb" "match_path (rt_segments r) path = Some vars"
  using assms by (auto simp: best_route_def Let_def find_Some_iff split: option.splits dest!: nth_mem)

text \<open>A handler that runs is one of the table's, for the request's method.\<close>

lemma handled_route:
  assumes "ServeMux routes verb path = Handled h vars"
  obtains r where "r \<in> set routes" "rt_handler r = h" "method_matches (rt_method r) verb" "match_path (rt_segments r) path = Some vars"
  using assms best_route_in [of routes verb path] by (auto simp: ServeMux_def Let_def split: if_splits option.splits)

text \<open>A table without patterns that end in a slash never redirects.\<close>

definition plain :: "segment list \<Rightarrow> bool" where
  "plain segs \<longleftrightarrow> list_all (\<lambda>s. s \<noteq> Multi \<and> s \<noteq> Lit ''/'') segs"

lemma plain_match: "plain segs \<Longrightarrow> match_path segs path \<noteq> None \<Longrightarrow> ''/'' \<notin> set path"
  by (induction segs path rule: match_path.induct) (auto simp: plain_def split: if_splits)

lemma plain_no_redirect:
  assumes "list_all (\<lambda>r. plain (rt_segments r)) routes"
  shows "ServeMux routes verb path \<noteq> Redirect"
proof -
  have "best_route routes verb (path @ [''/'']) = None"
  proof (rule ccontr)
    assume "best_route routes verb (path @ [''/'']) \<noteq> None"
    then obtain r vars where r: "best_route routes verb (path @ [''/'']) = Some (r, vars)" by auto
    from best_route_in [OF r] assms have "''/'' \<notin> set (path @ [''/''])" by (intro plain_match) (auto simp: list_all_iff)
    then show False by simp
  qed
  then show ?thesis by (simp add: ServeMux_def exact_match_def Let_def split: option.split)
qed

end
