(* ===== verification/Listen_Guard.thy ===== *)
theory Listen_Guard
  imports Prelude "HOL-Library.AList"
begin

text \<open>
  \<^verbatim>\<open>internal/listen/guard.go\<close>: the limits in front of every public HTTP handler.  A client has a rate limiter
  of its own until it has been silent for a minute, at most 1024 clients are remembered, and at most
  32 requests are served at a time.

  The rate limiter is the package \<^verbatim>\<open>golang.org/x/time/rate\<close> and a parameter: \<open>fresh\<close> is
  \<^verbatim>\<open>rate.NewLimiter(10, 20)\<close>, \<open>allow l t\<close> what \<^verbatim>\<open>l.Allow()\<close> answers at time \<open>t\<close>, with the limiter
  afterwards.  A call reads the clock twice, once itself (\<open>rq_now\<close>) and once in the limiters (\<open>rq_at\<close>).
\<close>

section \<open>Definitions\<close>

abbreviation Minute :: duration where "Minute \<equiv> 60 * Second"

type_synonym 'l limiter = "'l \<Rightarrow> instant \<Rightarrow> 'l \<times> bool"

record 'l clientLimit =
  cl_limiter :: 'l
  cl_seen :: instant

record 'l requestLimits =
  rl_clients :: "(string \<times> 'l clientLimit) list"
  rl_global :: 'l
  rl_lastSweep :: instant

record request =
  rq_host :: string
  rq_now :: instant
  rq_at :: instant

definition requestLimits_new :: "'l \<Rightarrow> instant \<Rightarrow> 'l requestLimits" where
  "requestLimits_new global now = \<lparr>rl_clients = [], rl_global = global, rl_lastSweep = now\<rparr>"

definition limits_sweep :: "'l requestLimits \<Rightarrow> instant \<Rightarrow> 'l requestLimits" where
  "limits_sweep l now =
     (if time_Sub now (rl_lastSweep l) \<ge> Minute
      then l\<lparr>rl_clients := filter (\<lambda>(_, c). \<not> time_Sub now (cl_seen c) \<ge> Minute) (rl_clients l), rl_lastSweep := now\<rparr>
      else l)"

definition limits_allow :: "'l limiter \<Rightarrow> 'l \<Rightarrow> 'l requestLimits \<Rightarrow> request \<Rightarrow> 'l requestLimits \<times> bool" where
  "limits_allow allow fresh l0 rq =
     (let l = limits_sweep l0 (rq_now rq);
          entry = (case map_of (rl_clients l) (rq_host rq) of
                     Some c \<Rightarrow> Some c
                   | None \<Rightarrow> if length (rl_clients l) < 1024 then Some \<lparr>cl_limiter = fresh, cl_seen = 0\<rparr> else None)
      in case entry of
           None \<Rightarrow> (l, False)
         | Some c \<Rightarrow>
             let (limiter, ok) = allow (cl_limiter c) (rq_at rq);
                 l1 = l\<lparr>rl_clients := AList.update (rq_host rq) \<lparr>cl_limiter = limiter, cl_seen = rq_now rq\<rparr> (rl_clients l)\<rparr>
             in if ok then (let (global, ok) = allow (rl_global l1) (rq_at rq) in (l1\<lparr>rl_global := global\<rparr>, ok))
                else (l1, False))"

text \<open>The handler: \<open>gd_active\<close> is the length of the channel \<^verbatim>\<open>active\<close>.  A request is answered at once or admitted
  to the next handler; an admitted request leaves when that handler returns.\<close>

record 'l guard =
  gd_limits :: "'l requestLimits"
  gd_active :: nat

datatype verdict = BadAddress | TooMany | Admitted

definition Guard_new :: "'l \<Rightarrow> instant \<Rightarrow> 'l guard" where
  "Guard_new global now = \<lparr>gd_limits = requestLimits_new global now, gd_active = 0\<rparr>"

definition Guard_request :: "'l limiter \<Rightarrow> 'l \<Rightarrow> 'l guard \<Rightarrow> bool \<Rightarrow> request \<Rightarrow> 'l guard \<times> verdict" where
  "Guard_request allow fresh g addressOk rq =
     (if \<not> addressOk then (g, BadAddress)
      else let (l, ok) = limits_allow allow fresh (gd_limits g) rq; g1 = g\<lparr>gd_limits := l\<rparr>
           in if ok \<and> gd_active g1 < 32 then (g1\<lparr>gd_active := gd_active g1 + 1\<rparr>, Admitted) else (g1, TooMany))"

definition Guard_done :: "'l guard \<Rightarrow> 'l guard" where
  "Guard_done g = g\<lparr>gd_active := gd_active g - 1\<rparr>"

definition verdict_status :: "verdict \<Rightarrow> nat option" where
  "verdict_status v = (case v of BadAddress \<Rightarrow> Some 400 | TooMany \<Rightarrow> Some 429 | Admitted \<Rightarrow> None)"

datatype guard_event = Arrive bool request | Leave

fun guard_step :: "'l limiter \<Rightarrow> 'l \<Rightarrow> 'l guard \<Rightarrow> guard_event \<Rightarrow> 'l guard" where
  "guard_step allow fresh g (Arrive ok rq) = fst (Guard_request allow fresh g ok rq)"
| "guard_step allow fresh g Leave = (if gd_active g > 0 then Guard_done g else g)"

section \<open>Bounds\<close>

definition clients_ok :: "'l requestLimits \<Rightarrow> bool" where
  "clients_ok l \<longleftrightarrow> length (rl_clients l) \<le> 1024 \<and> distinct (map fst (rl_clients l))"

definition guard_inv :: "'l guard \<Rightarrow> bool" where
  "guard_inv g \<longleftrightarrow> gd_active g \<le> 32 \<and> clients_ok (gd_limits g)"

lemma sweep_ok: "clients_ok l \<Longrightarrow> clients_ok (limits_sweep l now)"
  by (auto simp: clients_ok_def limits_sweep_def distinct_map intro: le_trans [OF length_filter_le] inj_on_subset)

lemma length_update_alist: "length (AList.update k v al) = (if k \<in> fst ` set al then length al else Suc (length al))"
  by (induction al) auto

lemma update_clients_ok:
  assumes "clients_ok l" "map_of (rl_clients l) h \<noteq> None \<or> length (rl_clients l) < 1024"
  shows "clients_ok (l\<lparr>rl_clients := AList.update h c (rl_clients l)\<rparr>)"
  using assms by (auto simp: clients_ok_def length_update_alist distinct_update map_of_eq_None_iff)

lemma limits_allow_ok:
  assumes "clients_ok l" "limits_allow allow fresh l rq = (l', ok)"
  shows "clients_ok l'"
proof -
  let ?l = "limits_sweep l (rq_now rq)"
  have ok: "clients_ok ?l" using assms(1) by (rule sweep_ok)
  have "clients_ok (x\<lparr>rl_global := g\<rparr>)" if "clients_ok x" for x :: "'a requestLimits" and g using that by (simp add: clients_ok_def)
  then show ?thesis
    using assms(2) ok update_clients_ok [OF ok, of "rq_host rq"]
    by (auto simp: limits_allow_def Let_def split: option.splits prod.splits if_splits)
qed

lemma guard_step_inv: "guard_inv g \<Longrightarrow> guard_inv (guard_step allow fresh g e)"
  by (cases e) (auto simp: guard_inv_def Guard_request_def Guard_done_def Let_def split: prod.split dest: limits_allow_ok)

interpretation guard: kept_invariant "guard_step allow fresh" guard_inv for allow fresh
  by unfold_locales (rule guard_step_inv)

text \<open>
  Whatever requests arrive, in whatever order they finish, at most 32 are served at a time and
  at most 1024 clients are remembered, each once.
\<close>

theorem guard_is_bounded:
  "let g = foldl (guard_step allow fresh) (Guard_new global start) es
   in gd_active g \<le> 32 \<and> length (rl_clients (gd_limits g)) \<le> 1024 \<and> distinct (map fst (rl_clients (gd_limits g)))"
  using guard.run_keeps [of "Guard_new global start" allow fresh es]
  by (simp add: guard_inv_def clients_ok_def Guard_new_def requestLimits_new_def Let_def)


section \<open>Forgetting silent clients changes no decision\<close>

text \<open>The reference: every client keeps its limiter for ever.\<close>

record 'l open_limits =
  ol_clients :: "string \<Rightarrow> 'l option"
  ol_global :: 'l

definition open_allow :: "'l limiter \<Rightarrow> 'l \<Rightarrow> 'l open_limits \<Rightarrow> request \<Rightarrow> 'l open_limits \<times> bool" where
  "open_allow allow fresh r rq =
     (let (limiter, ok) = allow (case ol_clients r (rq_host rq) of None \<Rightarrow> fresh | Some l \<Rightarrow> l) (rq_at rq);
          r1 = r\<lparr>ol_clients := (ol_clients r)(rq_host rq \<mapsto> limiter)\<rparr>
      in if ok then (let (global, ok) = allow (ol_global r1) (rq_at rq) in (r1\<lparr>ol_global := global\<rparr>, ok)) else (r1, False))"

fun decisions :: "('s \<Rightarrow> request \<Rightarrow> 's \<times> bool) \<Rightarrow> 's \<Rightarrow> request list \<Rightarrow> bool list" where
  "decisions step s [] = []"
| "decisions step s (rq # rqs) = snd (step s rq) # decisions step (fst (step s rq)) rqs"

text \<open>
  What the sweep relies on: a limiter of 20 permits and 10 per second, whatever it was asked so far, is full again
  two seconds after it was last asked, and then answers and goes on like a new one.  The questions are in the order of
  time: \<^verbatim>\<open>Allow\<close> reads the monotonic clock and is called under the lock.
\<close>

definition asked :: "'l limiter \<Rightarrow> 'l \<Rightarrow> instant list \<Rightarrow> 'l" where
  "asked allow l ts = foldl (\<lambda>l t. fst (allow l t)) l ts"

definition refills :: "'l limiter \<Rightarrow> 'l \<Rightarrow> bool" where
  "refills allow fresh \<longleftrightarrow> (\<forall>ts at t. sorted (ts @ [at]) \<and> at + 2 * Second \<le> t \<longrightarrow> allow (asked allow fresh (ts @ [at])) t = allow fresh t)"

text \<open>Requests run one after the other under the lock, and none holds it for a minute.\<close>

fun in_turn :: "instant \<Rightarrow> request list \<Rightarrow> bool" where
  "in_turn t [] \<longleftrightarrow> True"
| "in_turn t (rq # rqs) \<longleftrightarrow> t \<le> rq_now rq \<and> rq_now rq \<le> rq_at rq \<and> rq_at rq \<le> rq_now rq + 58 * Second \<and> in_turn (rq_at rq) rqs"

text \<open>The limiter of a remembered client was last asked at most 58 seconds after the client was seen, and not later than \<open>now\<close>.\<close>

definition entry_ok :: "'l limiter \<Rightarrow> 'l \<Rightarrow> instant \<Rightarrow> 'l clientLimit \<Rightarrow> bool" where
  "entry_ok allow fresh now c \<longleftrightarrow>
     (\<exists>ts at. cl_limiter c = asked allow fresh (ts @ [at]) \<and> sorted (ts @ [at]) \<and> at \<le> now \<and> at \<le> cl_seen c + 58 * Second)"

lemma entry_ok_later: "entry_ok allow fresh now c \<Longrightarrow> now \<le> now' \<Longrightarrow> entry_ok allow fresh now' c"
  unfolding entry_ok_def by (blast intro: order_trans)

text \<open>At time \<open>now\<close> the two agree on every client that is remembered; a forgotten one has a limiter that is full again.\<close>

definition same_limits :: "'l limiter \<Rightarrow> 'l \<Rightarrow> string set \<Rightarrow> instant \<Rightarrow> 'l requestLimits \<Rightarrow> 'l open_limits \<Rightarrow> bool" where
  "same_limits allow fresh hosts now l r \<longleftrightarrow>
     rl_global l = ol_global r \<and> distinct (map fst (rl_clients l)) \<and> fst ` set (rl_clients l) \<subseteq> hosts \<and>
     (\<forall>h c. map_of (rl_clients l) h = Some c \<longrightarrow> ol_clients r h = Some (cl_limiter c) \<and> entry_ok allow fresh now c) \<and>
     (\<forall>h limiter t. map_of (rl_clients l) h = None \<and> ol_clients r h = Some limiter \<and> now \<le> t \<longrightarrow> allow limiter t = allow fresh t)"

lemma entry_refilled:
  assumes "refills allow fresh" "entry_ok allow fresh now c" "cl_seen c + Minute \<le> t"
  shows "allow (cl_limiter c) t = allow fresh t"
proof -
  obtain ts at where "cl_limiter c = asked allow fresh (ts @ [at])" "sorted (ts @ [at])" "at \<le> cl_seen c + 58 * Second"
    using assms(2) unfolding entry_ok_def by blast
  moreover from this(3) assms(3) have "at + 2 * Second \<le> t" by simp
  ultimately show ?thesis using assms(1) unfolding refills_def by metis
qed

lemma map_of_filter_distinct:
  "distinct (map fst al) \<Longrightarrow> map_of (filter (\<lambda>(_, v). P v) al) k = (case map_of al k of Some v \<Rightarrow> if P v then Some v else None | None \<Rightarrow> None)"
proof (induction al)
  case (Cons x al)
  then show ?case
    by (cases x) (auto simp: map_of_eq_None_iff split: option.split)
qed simp

lemma same_limitsI:
  assumes "rl_global l = ol_global r" "distinct (map fst (rl_clients l))" "fst ` set (rl_clients l) \<subseteq> hosts"
    "\<And>h c. map_of (rl_clients l) h = Some c \<Longrightarrow> ol_clients r h = Some (cl_limiter c) \<and> entry_ok allow fresh now c"
    "\<And>h limiter t. map_of (rl_clients l) h = None \<Longrightarrow> ol_clients r h = Some limiter \<Longrightarrow> now \<le> t \<Longrightarrow> allow limiter t = allow fresh t"
  shows "same_limits allow fresh hosts now l r"
  using assms unfolding same_limits_def by blast

lemma same_limitsD:
  assumes "same_limits allow fresh hosts now l r"
  shows "rl_global l = ol_global r" "distinct (map fst (rl_clients l))" "fst ` set (rl_clients l) \<subseteq> hosts"
    "map_of (rl_clients l) h = Some c \<Longrightarrow> ol_clients r h = Some (cl_limiter c) \<and> entry_ok allow fresh now c"
    "map_of (rl_clients l) h = None \<Longrightarrow> ol_clients r h = Some limiter \<Longrightarrow> now \<le> t \<Longrightarrow> allow limiter t = allow fresh t"
  using assms unfolding same_limits_def by blast+

lemma same_limits_later:
  assumes "same_limits allow fresh hosts now l r" "now \<le> now'"
  shows "same_limits allow fresh hosts now' l r"
proof (rule same_limitsI)
  show "ol_clients r h = Some (cl_limiter c) \<and> entry_ok allow fresh now' c" if "map_of (rl_clients l) h = Some c" for h c
    using same_limitsD(4) [OF assms(1) that] entry_ok_later [of allow fresh now c now'] assms(2) by blast
  show "allow limiter t = allow fresh t" if "map_of (rl_clients l) h = None" "ol_clients r h = Some limiter" "now' \<le> t" for h limiter t
    using same_limitsD(5) [OF assms(1) that(1,2)] that(3) assms(2) by simp
qed (rule same_limitsD [OF assms(1)])+

lemma sweep_same:
  assumes "refills allow fresh" "same_limits allow fresh hosts now0 l r" "now0 \<le> now"
  shows "same_limits allow fresh hosts now (limits_sweep l now) r"
proof (cases "time_Sub now (rl_lastSweep l) \<ge> Minute")
  case False
  then have "limits_sweep l now = l" by (simp add: limits_sweep_def)
  then show ?thesis
    using same_limits_later [OF assms(2,3)] by simp
next
  case True
  let ?P = "\<lambda>c :: 'a clientLimit. \<not> time_Sub now (cl_seen c) \<ge> Minute"
  have d: "distinct (map fst (rl_clients l))" using assms(2) by (simp add: same_limits_def)
  note find = map_of_filter_distinct [OF d, of ?P]
  have idle: "allow limiter t = allow fresh t"
    if "map_of (filter (\<lambda>(_, c). ?P c) (rl_clients l)) h = None" "ol_clients r h = Some limiter" "now \<le> t" for h limiter t
  proof (cases "map_of (rl_clients l) h")
    case None
    then show ?thesis using assms(2,3) that unfolding same_limits_def by (meson order_trans)
  next
    case (Some c)
    then have "time_Sub now (cl_seen c) \<ge> Minute" using that(1) find by (simp split: if_splits)
    then have "cl_seen c + Minute \<le> t" using that(3) by (simp add: time_Sub_def)
    moreover have "limiter = cl_limiter c" "entry_ok allow fresh now0 c" using Some assms(2) that(2) by (auto simp: same_limits_def)
    ultimately show ?thesis using entry_refilled [OF assms(1)] by simp
  qed
  have "distinct (map fst (filter (\<lambda>(_, c). ?P c) (rl_clients l)))" using d by (auto simp: distinct_map intro: inj_on_subset)
  moreover have "fst ` set (filter (\<lambda>(_, c). ?P c) (rl_clients l)) \<subseteq> hosts" using assms(2) by (auto simp: same_limits_def)
  moreover have "limits_sweep l now = l\<lparr>rl_clients := filter (\<lambda>(_, c). ?P c) (rl_clients l), rl_lastSweep := now\<rparr>"
    using True by (simp add: limits_sweep_def)
  ultimately show ?thesis
    using same_limitsD(1) [OF assms(2)] same_limitsD(4) [OF same_limits_later [OF assms(2,3)]] idle find
    by (intro same_limitsI) (simp_all split: option.splits if_splits)
qed

lemma update_keys_in: "fst ` set (AList.update k v al) = insert k (fst ` set al)"
  by (induction al) auto

lemma same_limits_global:
  "same_limits allow fresh hosts t l r \<Longrightarrow> same_limits allow fresh hosts t (l\<lparr>rl_global := g\<rparr>) (r\<lparr>ol_global := g\<rparr>)"
proof -
  assume same: "same_limits allow fresh hosts t l r"
  note D = same_limitsD [OF same]
  show ?thesis
  proof (rule same_limitsI)
    show "allow limiter u = allow fresh u"
      if "map_of (rl_clients (l\<lparr>rl_global := g\<rparr>)) h = None" "ol_clients (r\<lparr>ol_global := g\<rparr>) h = Some limiter" "t \<le> u" for h limiter u
      by (rule D(5) [of h]) (use that in simp_all)
  qed (use D(2-4) in simp_all)
qed

lemma asked_snoc: "asked allow l (ts @ [t]) = fst (allow (asked allow l ts) t)"
  by (simp add: asked_def)

text \<open>One request, the sweep done: the same decision, and the same clients afterwards.\<close>

lemma allow_same:
  assumes "refills allow fresh" "same_limits allow fresh hosts (rq_now rq) l r" "rq_host rq \<in> hosts" "finite hosts" "card hosts \<le> 1024"
    and "rq_now rq \<le> rq_at rq" "rq_at rq \<le> rq_now rq + 58 * Second" "limits_sweep l (rq_now rq) = l"
  shows "snd (limits_allow allow fresh l rq) = snd (open_allow allow fresh r rq)"
    and "same_limits allow fresh hosts (rq_at rq) (fst (limits_allow allow fresh l rq)) (fst (open_allow allow fresh r rq))"
proof -
  note same = same_limitsD [OF assms(2)]
  let ?h = "rq_host rq"
  define c where "c = (case map_of (rl_clients l) ?h of Some c \<Rightarrow> c | None \<Rightarrow> \<lparr>cl_limiter = fresh, cl_seen = 0\<rparr>)"
  define limiter where "limiter = (case ol_clients r ?h of None \<Rightarrow> fresh | Some x \<Rightarrow> x)"
  have space: "length (rl_clients l) < 1024" if "map_of (rl_clients l) ?h = None"
  proof -
    have "length (rl_clients l) = card (fst ` set (rl_clients l))" using distinct_card [OF same(2)] by simp
    moreover have "fst ` set (rl_clients l) \<subset> hosts" using same(3) assms(3) that by (auto simp: map_of_eq_None_iff)
    then have "card (fst ` set (rl_clients l)) < card hosts" using assms(4) by (rule psubset_card_mono [rotated])
    ultimately show ?thesis using assms(5) by simp
  qed
  have agree: "allow (cl_limiter c) (rq_at rq) = allow limiter (rq_at rq)"
    using same(4) [of ?h] same(5) [of ?h _ "rq_at rq"] assms(6) by (auto simp: c_def limiter_def split: option.split)
  obtain new ok where new: "allow (cl_limiter c) (rq_at rq) = (new, ok)" by fastforce
  let ?l = "l\<lparr>rl_clients := AList.update ?h \<lparr>cl_limiter = new, cl_seen = rq_now rq\<rparr> (rl_clients l)\<rparr>"
  let ?r = "r\<lparr>ol_clients := (ol_clients r)(?h \<mapsto> new)\<rparr>"
  have left: "limits_allow allow fresh l rq =
      (if ok then (let (global, ok) = allow (rl_global l) (rq_at rq) in (?l\<lparr>rl_global := global\<rparr>, ok)) else (?l, False))"
    using space new unfolding limits_allow_def assms(8) c_def by (auto simp: Let_def split: option.split)
  have right: "open_allow allow fresh r rq =
      (if ok then (let (global, ok) = allow (rl_global l) (rq_at rq) in (?r\<lparr>ol_global := global\<rparr>, ok)) else (?r, False))"
  proof -
    have "allow limiter (rq_at rq) = (new, ok)" using agree new by simp
    then show ?thesis unfolding open_allow_def limiter_def [symmetric] same(1) by (simp add: Let_def)
  qed
  show "snd (limits_allow allow fresh l rq) = snd (open_allow allow fresh r rq)"
    by (simp add: left right split: prod.split)
  have "\<exists>ts. cl_limiter c = asked allow fresh ts \<and> sorted (ts @ [rq_at rq])"
  proof (cases "map_of (rl_clients l) ?h")
    case None
    then show ?thesis by (simp add: c_def asked_def exI [of _ "[]"])
  next
    case (Some x)
    then obtain ts at where "cl_limiter x = asked allow fresh (ts @ [at])" "sorted (ts @ [at])" "at \<le> rq_now rq"
      using same(4) [OF Some] unfolding entry_ok_def by blast
    with Some assms(6) show ?thesis by (intro exI [of _ "ts @ [at]"]) (auto simp: c_def sorted_append)
  qed
  then obtain ts where "new = asked allow fresh (ts @ [rq_at rq])" "sorted (ts @ [rq_at rq])" using new by (metis asked_snoc fst_conv)
  then have entry: "entry_ok allow fresh (rq_at rq) \<lparr>cl_limiter = new, cl_seen = rq_now rq\<rparr>"
    using assms(7) unfolding entry_ok_def by (intro exI [of _ ts] exI [of _ "rq_at rq"]) simp
  have after: "same_limits allow fresh hosts (rq_at rq) ?l ?r"
  proof (rule same_limitsI)
    show "fst ` set (rl_clients ?l) \<subseteq> hosts" using same(3) assms(3) by (auto simp: update_keys_in)
  next
    show "ol_clients ?r h = Some (cl_limiter x) \<and> entry_ok allow fresh (rq_at rq) x" if "map_of (rl_clients ?l) h = Some x" for h x
      using that entry same(4) [of h x] entry_ok_later [of allow fresh "rq_now rq" x "rq_at rq"] assms(6) by (auto simp: update_conv' split: if_splits)
  next
    show "allow x t = allow fresh t" if "map_of (rl_clients ?l) h = None" "ol_clients ?r h = Some x" "rq_at rq \<le> t" for h x t
      using that same(5) [of h x t] assms(6) by (auto simp: update_conv' split: if_splits)
  qed (use same(1,2) in \<open>simp_all add: distinct_update\<close>)
  then have global: "same_limits allow fresh hosts (rq_at rq) (?l\<lparr>rl_global := g\<rparr>) (?r\<lparr>ol_global := g\<rparr>)" for g
    by (rule same_limits_global)
  obtain g ok2 where "allow (rl_global l) (rq_at rq) = (g, ok2)" by fastforce
  then have "fst (limits_allow allow fresh l rq) = (if ok then ?l\<lparr>rl_global := g\<rparr> else ?l)"
    "fst (open_allow allow fresh r rq) = (if ok then ?r\<lparr>ol_global := g\<rparr> else ?r)"
    unfolding left right by simp_all
  then show "same_limits allow fresh hosts (rq_at rq) (fst (limits_allow allow fresh l rq)) (fst (open_allow allow fresh r rq))"
    using after global [of g] by (cases ok) (simp_all only: if_True if_False)
qed

lemma sweep_idem: "limits_sweep (limits_sweep l now) now = limits_sweep l now"
proof (cases "time_Sub now (rl_lastSweep l) \<ge> Minute")
  case True
  then have "rl_lastSweep (limits_sweep l now) = now" by (simp add: limits_sweep_def)
  then show ?thesis unfolding limits_sweep_def [of "limits_sweep l now"] by (simp add: time_Sub_def)
qed (simp add: limits_sweep_def)

lemma allow_sweep: "limits_allow allow fresh (limits_sweep l (rq_now rq)) rq = limits_allow allow fresh l rq"
  unfolding limits_allow_def by (simp only: sweep_idem)

lemma decisions_same:
  assumes "refills allow fresh" "finite hosts" "card hosts \<le> 1024"
  shows "same_limits allow fresh hosts now l r \<Longrightarrow> in_turn now rqs \<Longrightarrow> rq_host ` set rqs \<subseteq> hosts \<Longrightarrow>
    decisions (limits_allow allow fresh) l rqs = decisions (open_allow allow fresh) r rqs"
proof (induction rqs arbitrary: now l r)
  case (Cons rq rqs)
  then have t: "now \<le> rq_now rq" "rq_now rq \<le> rq_at rq" "rq_at rq \<le> rq_now rq + 58 * Second" "in_turn (rq_at rq) rqs" "rq_host rq \<in> hosts"
    by auto
  have "same_limits allow fresh hosts (rq_now rq) (limits_sweep l (rq_now rq)) r" by (rule sweep_same [OF assms(1) Cons.prems(1) t(1)])
  from allow_same [OF assms(1) this t(5) assms(2,3) t(2,3) sweep_idem] show ?case
    using Cons.IH [OF _ t(4)] Cons.prems(3) by (simp add: allow_sweep)
qed simp

text \<open>
  C40: Forgetting clients that were silent for a minute is invisible: while no more than 1024 different
  hosts send requests over the whole run, and the limiter refills as documented, every request gets the decision it would get if each host kept one
  limiter for ever.  A client gains nothing by waiting to be forgotten.
\<close>

theorem sweeping_is_invisible:
  assumes "refills allow fresh" "in_turn start rqs" "card (rq_host ` set rqs) \<le> 1024"
  shows "decisions (limits_allow allow fresh) (requestLimits_new global start) rqs =
    decisions (open_allow allow fresh) \<lparr>ol_clients = (\<lambda>_. None), ol_global = global\<rparr> rqs"
  by (rule decisions_same [OF assms(1) _ assms(3), of start])
    (use assms(2) in \<open>simp_all add: same_limits_def requestLimits_new_def\<close>)


text \<open>
  A token bucket in nanoseconds: one permit is a tenth of a second, the bucket holds 20.  Like \<^verbatim>\<open>rate.Limiter\<close> it
  records the time and takes the permit only when it allows the event, and a clock that went back adds nothing.
\<close>

definition bucket_full :: "int \<times> instant option" where
  "bucket_full = (2 * Second, None)"

definition bucket_allow :: "(int \<times> instant option) limiter" where
  "bucket_allow b t =
     (let level = (case snd b of None \<Rightarrow> 2 * Second | Some u \<Rightarrow> min (2 * Second) (fst b + max 0 (t - u)))
      in if level \<ge> 100 * Millisecond then ((level - 100 * Millisecond, Some t), True) else (b, False))"

definition bucket_ok :: "instant \<Rightarrow> int \<times> instant option \<Rightarrow> bool" where
  "bucket_ok now b \<longleftrightarrow> 0 \<le> fst b \<and> (case snd b of None \<Rightarrow> True | Some u \<Rightarrow> u \<le> now)"

lemma bucket_ok_allow: "bucket_ok now b \<Longrightarrow> now \<le> t \<Longrightarrow> bucket_ok t (fst (bucket_allow b t))"
  by (auto simp: bucket_ok_def bucket_allow_def Let_def split: option.splits)

lemma bucket_asked: "sorted (ts @ [at]) \<Longrightarrow> bucket_ok at (asked bucket_allow bucket_full (ts @ [at]))"
proof (induction ts arbitrary: at rule: rev_induct)
  case Nil
  have "bucket_ok at bucket_full" by (simp add: bucket_ok_def bucket_full_def)
  from bucket_ok_allow [OF this] show ?case by (simp add: asked_def)
next
  case (snoc u ts)
  then have "sorted (ts @ [u])" "u \<le> at" by (auto simp: sorted_append)
  from bucket_ok_allow [OF snoc.IH [OF this(1)] this(2)] show ?case by (metis asked_snoc)
qed

lemma bucket_refills: "refills bucket_allow bucket_full"
  unfolding refills_def
proof (intro allI impI)
  fix ts and at t :: int
  assume a: "sorted (ts @ [at]) \<and> at + 2 * Second \<le> t"
  obtain level last where b: "asked bucket_allow bucket_full (ts @ [at]) = (level, last)" by fastforce
  with bucket_asked [of ts at] a have "0 \<le> level" "case last of None \<Rightarrow> True | Some u \<Rightarrow> u \<le> at" by (simp_all add: bucket_ok_def)
  with a b show "bucket_allow (asked bucket_allow bucket_full (ts @ [at])) t = bucket_allow bucket_full t"
    by (cases last) (simp_all add: bucket_allow_def bucket_full_def)
qed

definition example_requests :: "request list" where
  "example_requests = [\<lparr>rq_host = ''h'', rq_now = 0, rq_at = 1\<rparr>, \<lparr>rq_host = ''g'', rq_now = 61 * Second, rq_at = 61 * Second\<rparr>,
     \<lparr>rq_host = ''h'', rq_now = 62 * Second, rq_at = 62 * Second\<rparr>]"

theorem sweeping_is_invisible_witness:
  "decisions (limits_allow bucket_allow bucket_full) (requestLimits_new bucket_full 0) example_requests =
    decisions (open_allow bucket_allow bucket_full) \<lparr>ol_clients = (\<lambda>_. None), ol_global = bucket_full\<rparr> example_requests \<and>
   decisions (limits_allow bucket_allow bucket_full) (requestLimits_new bucket_full 0) example_requests = [True, True, True]"
proof
  show "decisions (limits_allow bucket_allow bucket_full) (requestLimits_new bucket_full 0) example_requests =
    decisions (open_allow bucket_allow bucket_full) \<lparr>ol_clients = (\<lambda>_. None), ol_global = bucket_full\<rparr> example_requests"
  proof (rule sweeping_is_invisible [OF bucket_refills])
    show "in_turn 0 example_requests" "card (rq_host ` set example_requests) \<le> 1024" by (simp_all add: example_requests_def insert_commute)
  qed
  show "decisions (limits_allow bucket_allow bucket_full) (requestLimits_new bucket_full 0) example_requests = [True, True, True]"
    by (simp add: example_requests_def limits_allow_def limits_sweep_def requestLimits_new_def bucket_allow_def bucket_full_def time_Sub_def)
qed

end
