(* ===== verification/Listeners.thy ===== *)
theory Listeners
  imports Routes Settings_Page Listen_Guard
begin

text \<open>
  The three HTTP listeners as they are put together: the route tables that \<^verbatim>\<open>New\<close> of \<^verbatim>\<open>internal/control\<close>, \<^verbatim>\<open>internal/signal\<close> and \<^verbatim>\<open>internal/ui\<close> register,
  the handlers behind them, and what stands in front: the request limits before the two public ones, the check of host and origin
  before the settings page.  A call carries everything its handler may read: path, headers, decoded bodies, and what
  the system answers while the handler runs.
\<close>

section \<open>The control listener\<close>

datatype control_handler = HIngests | HCreate | HList | HResetKey | HStats

definition control_routes :: "control_handler route list" where
  "control_routes =
     [route ''PUT'' [Lit ''control'', Lit ''ingests''] HIngests,
      route ''POST'' [Lit ''control'', Lit ''ingests''] HCreate,
      route ''GET'' [Lit ''control'', Lit ''ingests''] HList,
      route ''POST'' [Lit ''control'', Lit ''ingests'', Wild ''id'', Lit ''reset-key''] HResetKey,
      route ''GET'' [Lit ''control'', Lit ''stats''] HStats]"

record call =
  ca_method :: string
  ca_path :: "string list"
  ca_authorization :: string
  ca_close :: close_env
  ca_io :: save_io
  ca_random :: "nat \<Rightarrow> bytes option"
  ca_clks :: "nat \<Rightarrow> nat \<Rightarrow> instant"
  ca_redirect :: nat

record control_call = call +
  ca_peer :: "Addr option"
  ca_ingests :: "Ingest list option"
  ca_label :: "string option"

definition control_handle :: "control_call \<Rightarrow> control_handler \<Rightarrow> bindings \<Rightarrow> 't daemon \<Rightarrow> 't daemon \<times> control_response" where
  "control_handle q h vars d =
     (case h of
        HIngests \<Rightarrow> handleIngests (ca_close q) (ca_io q) (ca_ingests q) d
      | HCreate \<Rightarrow> handleCreate (ca_io q) (ca_random q 0) (ca_random q 1) (ca_random q 2) (ca_label q) d
      | HList \<Rightarrow> handleList d
      | HResetKey \<Rightarrow> handleResetKey (ca_close q) (ca_io q) (ca_random q 0) (path_value vars ''id'') d
      | HStats \<Rightarrow> handleStats (ca_clks q) d)"

definition control_serve :: "control_call \<Rightarrow> 't daemon \<Rightarrow> 't daemon \<times> control_response" where
  "control_serve q d =
     (case ServeMux control_routes (ca_method q) (ca_path q) of
        Handled h vars \<Rightarrow> control_authed d (ca_peer q) (ca_authorization q) (control_handle q h vars)
      | other \<Rightarrow> (d, mux_answer (ca_redirect q) other))"

text \<open>\<^verbatim>\<open>listen.Guard\<close> around a handler; a header that a handler sets replaces the guard's.\<close>

definition guard_headers :: "(string \<times> string) list" where
  "guard_headers = [(''Cache-Control'', ''no-store''), (''Referrer-Policy'', ''no-referrer'')]"

definition guarded ::
  "'l limiter \<Rightarrow> 'l \<Rightarrow> bool \<Rightarrow> request \<Rightarrow> ('s \<Rightarrow> 's \<times> 'v http_response) \<Rightarrow> 'l guard \<times> 's \<Rightarrow> ('l guard \<times> 's) \<times> 'v http_response" where
  "guarded allow fresh addressOk rq next gs =
     (case gs of (g, s) \<Rightarrow>
        case Guard_request allow fresh g addressOk rq of
          (g1, BadAddress) \<Rightarrow> ((g1, s), http_Error guard_headers ''bad address'' StatusBadRequest)
        | (g1, TooMany) \<Rightarrow> ((g1, s), http_Error (guard_headers @ [(''Retry-After'', ''2'')]) ''too many requests'' StatusTooManyRequests)
        | (g1, Admitted) \<Rightarrow>
            (case next s of (s1, r) \<Rightarrow> ((Guard_done g1, s1), r\<lparr>hr_headers := AList.merge guard_headers (hr_headers r)\<rparr>)))"

section \<open>The signaling listener\<close>

datatype signal_handler = HPublish | HTeardown | HSubscribe | HUnsubscribe | HPlayer | HPlayback | HPlaybackAsset

definition signal_routes :: "signal_handler route list" where
  "signal_routes =
     [route ''POST'' [Lit ''whip'', Wild ''key''] HPublish,
      route ''POST'' [Lit ''whip''] HPublish,
      route ''DELETE'' [Lit ''whip'', Lit ''resource'', Wild ''resource''] HTeardown,
      route ''POST'' [Lit ''whep'', Wild ''key''] HSubscribe,
      route ''POST'' [Lit ''whep''] HSubscribe,
      route ''DELETE'' [Lit ''whep'', Lit ''resource'', Wild ''resource''] HUnsubscribe,
      route ''GET'' [Lit ''player'', Wild ''key''] HPlayer,
      route ''GET'' [Lit ''player'', Wild ''key'', Lit ''playback''] HPlayback,
      route ''GET'' [Lit ''player'', Wild ''key'', Lit ''dynamic'', Lit ''player.js''] HPlaybackAsset]"

record 't signal_call = call +
  ca_parse :: sdp_parser
  ca_body :: "string option"
  ca_publish :: publish_env
  ca_subscribe :: "'t subscribe_env"
  ca_closeOk :: bool
  ca_page :: "string option"

definition signal_request :: "'t signal_call \<Rightarrow> bindings \<Rightarrow> http_request" where
  "signal_request q vars =
     \<lparr>hq_key = path_value vars ''key'', hq_resource = path_value vars ''resource'', hq_authorization = ca_authorization q, hq_body = ca_body q\<rparr>"

text \<open>The state is the number of negotiations under way, and the daemon.\<close>

definition signal_handle ::
  "'t signal_call \<Rightarrow> signal_handler \<Rightarrow> bindings \<Rightarrow> nat \<times> 't daemon \<Rightarrow> (nat \<times> 't daemon) \<times> Playback http_response" where
  "signal_handle q h vars s =
     (case s of (n, d) \<Rightarrow>
        let req = signal_request q vars; cfg = dm_cfg d; w = dm_world d
        in case h of
             HPublish \<Rightarrow> (case handlePublish (ca_parse q) cfg n w req (ca_publish q) of (n1, w1, r) \<Rightarrow> ((n1, d\<lparr>dm_world := w1\<rparr>), r))
           | HTeardown \<Rightarrow> (case handleTeardown w req (ca_closeOk q) (ca_clks q 0) of (w1, r) \<Rightarrow> ((n, d\<lparr>dm_world := w1\<rparr>), r))
           | HSubscribe \<Rightarrow>
               (case handleSubscribe (ca_parse q) cfg n (w_relay w) (dm_subs d) req (ca_subscribe q) of
                  (n1, (relay, subs), r) \<Rightarrow> ((n1, d\<lparr>dm_world := w\<lparr>w_relay := relay\<rparr>, dm_subs := subs\<rparr>), r))
           | HUnsubscribe \<Rightarrow> (case handleUnsubscribe (dm_subs d) req (ca_closeOk q) of (subs, r) \<Rightarrow> ((n, d\<lparr>dm_subs := subs\<rparr>), r))
           | HPlayer \<Rightarrow> (s, handlePlayer (ca_page q) cfg req)
           | HPlayback \<Rightarrow> (s, handlePlayback cfg (w_relay w) req (ca_clks q 0 0))
           | HPlaybackAsset \<Rightarrow> (s, handlePlaybackAsset (ca_page q) cfg req))"

definition signal_serve :: "'t signal_call \<Rightarrow> nat \<times> 't daemon \<Rightarrow> (nat \<times> 't daemon) \<times> Playback http_response" where
  "signal_serve q s =
     (case ServeMux signal_routes (ca_method q) (ca_path q) of
        Handled h vars \<Rightarrow> signal_handle q h vars s
      | other \<Rightarrow> (s, mux_answer (ca_redirect q) other))"

section \<open>The settings page\<close>

text \<open>\<open>UFile\<close> stands for the handlers that only read what is compiled in, and for the profiler.\<close>

datatype ui_handler =
    UHealth | UPage | UAdd | URemove | UResetKey | UDelay | UDynamicDelay | UStats | UGroup | ULabel | UCodecs | UReachability | UAutostart
  | USetAutostart | UControlAccess | UCreateToken | UFile string

definition ui_routes :: "ui_handler route list" where
  "ui_routes =
     [route ''GET'' [Lit ''healthz''] UHealth,
      route ''GET'' [Lit ''/''] UPage,
      route ''POST'' [Lit ''api'', Lit ''ingests''] UAdd,
      route ''POST'' [Lit ''api'', Lit ''ingests'', Lit ''remove''] URemove,
      route ''POST'' [Lit ''api'', Lit ''ingests'', Lit ''reset-key''] UResetKey,
      route ''POST'' [Lit ''api'', Lit ''ingests'', Lit ''delay''] UDelay,
      route ''POST'' [Lit ''api'', Lit ''ingests'', Lit ''dynamic-delay''] UDynamicDelay,
      route ''GET'' [Lit ''dynamic-delay'', Multi] (UFile ''dynamic-delay''),
      route ''GET'' [Lit ''api'', Lit ''stats''] UStats,
      route ''POST'' [Lit ''api'', Lit ''ingests'', Lit ''group''] UGroup,
      route ''POST'' [Lit ''api'', Lit ''ingests'', Lit ''label''] ULabel,
      route ''POST'' [Lit ''api'', Lit ''ingests'', Lit ''codecs''] UCodecs,
      route ''GET'' [Lit ''api'', Lit ''reachability''] UReachability,
      route ''GET'' [Lit ''api'', Lit ''autostart''] UAutostart,
      route ''POST'' [Lit ''api'', Lit ''autostart''] USetAutostart,
      route ''POST'' [Lit ''api'', Lit ''control'', Wild ''scope''] UControlAccess,
      route ''POST'' [Lit ''api'', Lit ''control'', Lit ''token''] UCreateToken,
      route ''GET'' [Lit ''api-guide''] (UFile ''api-guide''),
      route ''GET'' [Lit ''debug'', Lit ''pprof'', Multi] (UFile ''index''),
      route ''GET'' [Lit ''debug'', Lit ''pprof'', Lit ''cmdline''] (UFile ''cmdline''),
      route ''GET'' [Lit ''debug'', Lit ''pprof'', Lit ''profile''] (UFile ''profile''),
      route ''GET'' [Lit ''debug'', Lit ''pprof'', Lit ''symbol''] (UFile ''symbol''),
      route ''GET'' [Lit ''debug'', Lit ''pprof'', Lit ''trace''] (UFile ''trace''),
      route ''GET'' [Lit ''static'', Multi] (UFile ''static'')]"

record 'p ui_call = call +
  ca_host :: string
  ca_site :: string
  ca_text :: "string option"
  ca_pair :: "(string \<times> string) option"
  ca_delay :: "(string \<times> int) option"
  ca_options :: "(string \<times> Options) option"
  ca_codecs :: "(string \<times> string list) option"
  ca_switch :: "bool option"
  ca_pointer :: "bool option option"
  ca_granted :: "int option"
  ca_found :: reach_Report
  ca_enable :: "'p \<Rightarrow> 'p \<times> autostart_error option"
  ca_disable :: "'p \<Rightarrow> 'p \<times> autostart_error option"
  ca_status :: "'p \<Rightarrow> autostart_State"
  ca_file :: "string \<Rightarrow> string list \<Rightarrow> ui_response"
  ca_atStart :: bool

definition ui_handle :: "'p ui_call \<Rightarrow> ui_handler \<Rightarrow> bindings \<Rightarrow> 'p \<times> 't daemon \<Rightarrow> ('p \<times> 't daemon) \<times> ui_response" where
  "ui_handle q h vars s =
     (case s of (p, d) \<Rightarrow>
        let on = (\<lambda>(d1, r). ((p, d1), r)); io = ca_io q; env = ca_close q; rnd = ca_random q
        in case h of
             UHealth \<Rightarrow> (s, ui_handleHealth)
           | UPage \<Rightarrow> (s, ui_handlePage (ca_atStart q) (dm_cfg d))
           | UAdd \<Rightarrow> on (ui_handleAdd io (rnd 0) (rnd 1) (rnd 2) (ca_text q) d)
           | URemove \<Rightarrow> on (ui_handleRemove env io (ca_text q) d)
           | UResetKey \<Rightarrow> on (ui_handleResetKey env io (rnd 0) (ca_text q) d)
           | UDelay \<Rightarrow> on (ui_handleDelay env io (ca_delay q) d)
           | UDynamicDelay \<Rightarrow> on (ui_handleDynamicDelay env io (ca_options q) d)
           | UStats \<Rightarrow> on (ui_handleStats (ca_clks q) d)
           | UGroup \<Rightarrow> on (ui_handleGroup env io (ca_pair q) d)
           | ULabel \<Rightarrow> on (ui_handleLabel io (ca_pair q) d)
           | UCodecs \<Rightarrow> on (ui_handleCodecs env io (ca_codecs q) d)
           | UReachability \<Rightarrow> on (ui_handleReachability io (ca_granted q) (ca_found q) d)
           | UAutostart \<Rightarrow> (s, ui_handleAutostart (ca_status q) p)
           | USetAutostart \<Rightarrow> ui_handleSetAutostart (ca_enable q) (ca_disable q) (ca_status q) io (ca_switch q) s
           | UControlAccess \<Rightarrow> on (ui_handleControlAccess io (path_value vars ''scope'') (ca_pointer q) d)
           | UCreateToken \<Rightarrow> on (ui_handleCreateToken io (rnd 0) d)
           | UFile name \<Rightarrow> (s, ca_file q name (ca_path q)))"

definition ui_serve :: "'p ui_call \<Rightarrow> 'p \<times> 't daemon \<Rightarrow> ('p \<times> 't daemon) \<times> ui_response" where
  "ui_serve q s =
     loopbackOnly
       (\<lambda>s. case ServeMux ui_routes (ca_method q) (ca_path q) of
              Handled h vars \<Rightarrow> ui_handle q h vars s
            | other \<Rightarrow> (s, mux_answer (ca_redirect q) other))
       (cfg_UIPort (dm_cfg (snd s))) (ca_host q) (ca_site q) s"

section \<open>The tables\<close>

text \<open>No table has two patterns that conflict, so that building the listeners does not panic.\<close>

lemma tables_register: "registers control_routes" "registers signal_routes" "registers ui_routes"
  by code_simp+

text \<open>The route for a new token wins over the route for the scopes of control access.\<close>

lemma token_route: "ServeMux ui_routes ''POST'' [''api'', ''control'', ''token''] = Handled UCreateToken []"
  by code_simp

lemma control_never_redirects: "ServeMux control_routes verb path \<noteq> Redirect"
  by (rule plain_no_redirect) code_simp

section \<open>Properties\<close>

definition credentialed :: "Config \<Rightarrow> control_call \<Rightarrow> bool" where
  "credentialed cfg q \<longleftrightarrow> (\<exists>address. ca_peer q = Some address \<and> allowedAddress cfg address) \<and>
     cfg_ControlToken cfg \<noteq> [] \<and> ca_authorization q = ''Bearer '' @ cfg_ControlToken cfg"

lemma not_credentialed: "\<not> credentialed (dm_cfg d) q \<Longrightarrow> control_authed d (ca_peer q) (ca_authorization q) next = (d, not_found)"
  using CutPrefix_iff [of "ca_authorization q" "''Bearer ''" "cfg_ControlToken (dm_cfg d)"]
  by (auto simp: credentialed_def control_authed_def Let_def case_prod_beta split: option.split)

lemma uncredentialed_serve:
  assumes "\<not> credentialed (dm_cfg d) q"
  shows "fst (control_serve q d) = d" "hr_status (snd (control_serve q d)) \<in> {404, 405}" "\<nexists>v. hr_body (snd (control_serve q d)) = JSON v"
  using not_credentialed [OF assms] control_never_redirects [of "ca_method q" "ca_path q"]
  by (auto simp: control_serve_def mux_answer_def not_found_def http_Error_def split: served.split)

text \<open>
  C34: The whole control listener is closed to a caller without credentials.  Whatever method, path and body a request has, unless it comes from an
  allowed address with exactly the configured token it changes nothing of the daemon, and its
  answer carries no data: it is refused for its address or its rate, or gets 404 or 405.
\<close>

theorem control_listener_needs_token:
  assumes "\<not> credentialed (dm_cfg d) q" "guarded allow fresh addressOk rq (control_serve q) (g, d) = ((g', d'), r)"
  shows "d' = d \<and> hr_status r \<in> {400, 404, 405, 429} \<and> (\<nexists>v. hr_body r = JSON v)"
proof -
  obtain d1 r1 where serve: "control_serve q d = (d1, r1)" by fastforce
  show ?thesis
    using assms(2) uncredentialed_serve [OF assms(1)]
    by (auto simp: guarded_def serve http_Error_def split: prod.splits verdict.splits)
qed

definition bare_call :: control_call where
  "bare_call =
     \<lparr>ca_method = ''PUT'', ca_path = [''control'', ''ingests''], ca_authorization = ''Bearer guess'', ca_close = quiet_env, ca_io = all_ok,
      ca_random = (\<lambda>_. None), ca_clks = (\<lambda>_ _. 0), ca_redirect = 307, ca_peer = Some (V4 0x7f000001), ca_ingests = Some [], ca_label = None\<rparr>"

lemma bare_call_denied: "\<not> credentialed (dm_cfg idle_daemon) bare_call"
  by (simp add: credentialed_def bare_call_def idle_daemon_def example_group_def Config_default_def)

theorem control_listener_needs_token_witness:
  "\<exists>g r. guarded (\<lambda>l t. (l, True)) () True \<lparr>rq_host = ''h'', rq_now = 5, rq_at = 5\<rparr> (control_serve bare_call) (Guard_new () 0, idle_daemon) =
     ((g, idle_daemon), r) \<and> hr_status r \<in> {400, 404, 405, 429}"
proof -
  obtain g d r where run: "guarded (\<lambda>l t. (l, True)) () True \<lparr>rq_host = ''h'', rq_now = 5, rq_at = 5\<rparr> (control_serve bare_call)
      (Guard_new () 0, idle_daemon) = ((g, d), r)" by (metis prod.collapse)
  from control_listener_needs_token [OF bare_call_denied run] run show ?thesis by auto
qed

text \<open>
  C35: The control port can be told from a port that serves nothing.  Without any credentials, the answer of an existing route differs from the
  answer of an unknown one, because the two 404 have different bodies, and a method that an existing path does not
  have is answered with 405 and the list of those it has.
\<close>

theorem control_port_can_be_told:
  assumes "\<not> credentialed (dm_cfg d) q"
  shows "snd (control_serve (q\<lparr>ca_method := ''GET'', ca_path := [''control'', ''stats'']\<rparr>) d) \<noteq>
      snd (control_serve (q\<lparr>ca_method := ''GET'', ca_path := [''anything'']\<rparr>) d) \<and>
    hr_status (snd (control_serve (q\<lparr>ca_method := ''PATCH'', ca_path := [''control'', ''ingests'']\<rparr>) d)) = 405 \<and>
    (''Allow'', ''GET, HEAD, POST, PUT'') \<in> set (hr_headers (snd (control_serve (q\<lparr>ca_method := ''PATCH'', ca_path := [''control'', ''ingests'']\<rparr>) d)))"
proof -
  have mux: "ServeMux control_routes ''GET'' [''control'', ''stats''] = Handled HStats []" "ServeMux control_routes ''GET'' [''anything''] = NoRoute"
    "ServeMux control_routes ''PATCH'' [''control'', ''ingests''] = MethodNotAllowed [''GET'', ''HEAD'', ''POST'', ''PUT'']"
    by code_simp+
  have "\<not> credentialed (dm_cfg d) (q\<lparr>ca_method := m, ca_path := p\<rparr>)" for m p using assms by (simp add: credentialed_def)
  note this [THEN not_credentialed]
  then show ?thesis by (simp add: control_serve_def mux mux_answer_def not_found_def http_Error_def enumerate_eq_zip)
qed

theorem control_port_can_be_told_witness:
  "hr_status (snd (control_serve (bare_call\<lparr>ca_method := ''PATCH'', ca_path := [''control'', ''ingests'']\<rparr>) idle_daemon)) = 405"
  using control_port_can_be_told [OF bare_call_denied] by simp

text \<open>A page of another site, or a name that someone pointed at this machine, changes nothing and reads nothing.\<close>

theorem settings_listener_refuses_other_pages:
  assumes "ca_host q \<notin> set (loopback_hosts (cfg_UIPort (dm_cfg (snd s)))) \<or> ca_site q \<notin> {[], ''same-origin'', ''none''}"
  shows "ui_serve q s = (s, http_Error [] ''not found'' 404)"
  using assms by (auto simp: ui_serve_def loopbackOnly_def)

text \<open>A request with a key that names no camera changes nothing behind the signaling listener.\<close>

theorem strangers_change_nothing:
  assumes "ServeMux signal_routes (ca_method q) (ca_path q) = Handled h vars" "h \<notin> {HTeardown, HUnsubscribe}"
    "snd (Config_Resolve (dm_cfg d) (keyFrom (signal_request q vars))) = RoleNone"
  shows "fst (signal_serve q (n, d)) = (n, d)"
  using assms by (cases h) (auto simp: signal_serve_def signal_handle_def Let_def handlePublish_def handleSubscribe_def signal_negotiate_def)

end
